(* ===== verification/Base64.thy ===== *)
theory Base64
  imports Prelude
begin

section \<open>Base64 in both alphabets\<close>

text \<open>
  Models \<open>rustlavel-core/src/base64.rs\<close>: the two encoders, which share
  \<open>encode_with\<close>, and the one permissive decoder.  The main results are that the decoder
  inverts both encoders on every byte string, and that it rejects every character outside
  the two alphabets.
\<close>

unbundle bit_operations_syntax

definition STANDARD :: string where
  "STANDARD = ''ABCDEFGHIJKLMNOPQRSTUVWXYZabcdefghijklmnopqrstuvwxyz0123456789+/''"

definition URL_SAFE :: string where
  "URL_SAFE = ''ABCDEFGHIJKLMNOPQRSTUVWXYZabcdefghijklmnopqrstuvwxyz0123456789-_''"

text \<open>The 24 bits of a chunk, and one iteration of the loop over \<open>input.chunks(3)\<close>.\<close>

definition chunk_bits :: "byte \<Rightarrow> byte \<Rightarrow> byte \<Rightarrow> u32" where
  "chunk_bits b0 b1 b2 = push_bit 16 (ucast b0) OR push_bit 8 (ucast b1) OR ucast b2"

definition encode_chunk :: "string \<Rightarrow> bool \<Rightarrow> byte list \<Rightarrow> string" where
  "encode_chunk alphabet pad chunk =
     (let b0 = chunk ! 0;
          b1 = (if 1 < length chunk then chunk ! 1 else 0);
          b2 = (if 2 < length chunk then chunk ! 2 else 0);
          bits = chunk_bits b0 b1 b2
      in [alphabet ! unat (drop_bit 18 bits AND 0x3f)] @
         [alphabet ! unat (drop_bit 12 bits AND 0x3f)] @
         (if 1 < length chunk then [alphabet ! unat (drop_bit 6 bits AND 0x3f)]
          else if pad then ''='' else []) @
         (if 2 < length chunk then [alphabet ! unat (bits AND 0x3f)]
          else if pad then ''='' else []))"

definition encode_with :: "byte list \<Rightarrow> string \<Rightarrow> bool \<Rightarrow> string" where
  "encode_with input alphabet pad = concat (map (encode_chunk alphabet pad) (chunks 3 input))"

definition base64_encode :: "byte list \<Rightarrow> string" where
  "base64_encode input = encode_with input STANDARD True"

definition encode_url :: "byte list \<Rightarrow> string" where
  "encode_url input = encode_with input URL_SAFE False"

text \<open>The \<open>match byte\<close> of \<open>decode\<close>: a six-bit value, a byte to skip, or a rejection.\<close>

datatype sextet = Sextet byte | Skip | Reject

definition sextet_of :: "char \<Rightarrow> sextet" where
  "sextet_of c =
     (let b = (of_char c :: nat) in
      if 65 \<le> b \<and> b \<le> 90 then Sextet (of_nat (b - 65))
      else if 97 \<le> b \<and> b \<le> 122 then Sextet (of_nat (b - 97 + 26))
      else if 48 \<le> b \<and> b \<le> 57 then Sextet (of_nat (b - 48 + 52))
      else if b = 43 \<or> b = 45 then Sextet 62
      else if b = 47 \<or> b = 95 then Sextet 63
      else if b = 61 \<or> b = 10 \<or> b = 13 then Skip
      else Reject)"

definition absorb :: "u32 \<Rightarrow> byte \<Rightarrow> u32" where
  "absorb buffer v = push_bit 6 buffer OR ucast v"

fun decode_loop :: "string \<Rightarrow> u32 \<Rightarrow> nat \<Rightarrow> byte list \<Rightarrow> byte list option" where
  "decode_loop [] buffer bits out = Some out"
| "decode_loop (c # cs) buffer bits out =
     (case sextet_of c of
        Skip \<Rightarrow> decode_loop cs buffer bits out
      | Reject \<Rightarrow> None
      | Sextet v \<Rightarrow>
          (let buffer' = absorb buffer v; bits' = bits + 6
           in if 8 \<le> bits'
              then decode_loop cs buffer' (bits' - 8) (out @ [ucast (drop_bit (bits' - 8) buffer')])
              else decode_loop cs buffer' bits' out))"

definition base64_decode :: "string \<Rightarrow> byte list option" where
  "base64_decode input = decode_loop input 0 0 []"

subsection \<open>Six-bit groups\<close>

lemma and_63: "x AND 0x3f = take_bit 6 (x :: u32)"
  by (simp add: take_bit_eq_mask mask_eq_exp_minus_1)

definition sext :: "u32 \<Rightarrow> byte" where
  "sext x = ucast (take_bit 6 x)"

lemma chunk_bits_bytes:
  "ucast (drop_bit 16 (chunk_bits a b c)) = a"
  "ucast (drop_bit 8 (chunk_bits a b c)) = b"
  "ucast (chunk_bits a b c) = c"
  by (rule byte_eqI; elim insertE; simp add: bit_simps chunk_bits_def)+

lemma rejoin:
  "ucast (drop_bit 4 (absorb (absorb buf (sext (drop_bit 18 w))) (sext (drop_bit 12 w)))) =
     (ucast (drop_bit 16 w) :: byte)"
  "ucast (drop_bit 2 (absorb (absorb buf (sext (drop_bit 12 w))) (sext (drop_bit 6 w)))) =
     (ucast (drop_bit 8 w) :: byte)"
  "ucast (absorb (absorb buf (sext (drop_bit 6 w))) (sext w)) = (ucast w :: byte)"
  by (rule byte_eqI; auto simp: bit_simps sext_def absorb_def)+

lemma sextet_pad: "sextet_of CHR ''='' = Skip"
  by code_simp

locale base64_alphabet =
  fixes alphabet :: string
  assumes sextet: "i < 64 \<Longrightarrow> sextet_of (alphabet ! i) = Sextet (of_nat i)"
begin

lemma sextet_masked: "sextet_of (alphabet ! unat (x AND 0x3f :: u32)) = Sextet (sext x)"
proof -
  have "unat (x AND 0x3f) < 64"
    using word_and_le1 [of x "0x3f"] by (simp add: word_le_nat_alt)
  then show ?thesis
    by (simp add: sextet of_nat_unat_ucast and_63 sext_def)
qed

lemma decode_full_chunk:
  "\<exists>buf'. decode_loop (encode_chunk alphabet pad [a, b, c] @ rest) buf 0 out =
     decode_loop rest buf' 0 (out @ [a, b, c])"
  by (simp add: encode_chunk_def Let_def sextet_masked rejoin chunk_bits_bytes) blast

lemma decode_two_chunk:
  "decode_loop (encode_chunk alphabet pad [a, b]) buf 0 out = Some (out @ [a, b])"
  by (simp add: encode_chunk_def Let_def sextet_masked rejoin chunk_bits_bytes sextet_pad)

lemma decode_one_chunk:
  "decode_loop (encode_chunk alphabet pad [a]) buf 0 out = Some (out @ [a])"
  by (simp add: encode_chunk_def Let_def sextet_masked rejoin chunk_bits_bytes sextet_pad)

lemma decode_chunks:
  "decode_loop (encode_with input alphabet pad) buf 0 out = Some (out @ input)"
proof (induction input arbitrary: buf out rule: length_induct)
  case (1 input)
  consider "input = []" | a where "input = [a]" | a b where "input = [a, b]"
    | a b c tail where "input = a # b # c # tail"
    by (metis list.exhaust)
  then show ?case
  proof cases
    case 4
    obtain buf' where "decode_loop (encode_chunk alphabet pad [a, b, c] @ encode_with tail alphabet pad) buf 0 out =
      decode_loop (encode_with tail alphabet pad) buf' 0 (out @ [a, b, c])"
      using decode_full_chunk by blast
    moreover have "decode_loop (encode_with tail alphabet pad) buf' 0 (out @ [a, b, c]) = Some (out @ [a, b, c] @ tail)"
      using 1 4 by simp
    ultimately show ?thesis
      using 4 by (simp add: encode_with_def chunks_Cons)
  qed (simp_all add: encode_with_def chunks_Cons decode_one_chunk decode_two_chunk)
qed
end
lemma lengths: "length STANDARD = 64" "length URL_SAFE = 64"
  by (simp_all add: STANDARD_def URL_SAFE_def)

interpretation standard: base64_alphabet STANDARD
proof
  have *: "map sextet_of STANDARD = map (\<lambda>i. Sextet (of_nat i)) [0..<64]"
    by (simp add: STANDARD_def sextet_of_def Let_def upt_rec_numeral upt_rec)
  show "sextet_of (STANDARD ! i) = Sextet (of_nat i)" if "i < 64" for i
    using arg_cong [OF *, of "\<lambda>xs. xs ! i"] that by (simp add: lengths)
qed

interpretation url_safe: base64_alphabet URL_SAFE
proof
  have *: "map sextet_of URL_SAFE = map (\<lambda>i. Sextet (of_nat i)) [0..<64]"
    by (simp add: URL_SAFE_def sextet_of_def Let_def upt_rec_numeral upt_rec)
  show "sextet_of (URL_SAFE ! i) = Sextet (of_nat i)" if "i < 64" for i
    using arg_cong [OF *, of "\<lambda>xs. xs ! i"] that by (simp add: lengths)
qed

text \<open>
  both encoders are inverted by the one decoder, which reads either alphabet, with or without
  padding: every byte string comes back unchanged.
\<close>

theorem base64_roundtrip:
  "base64_decode (base64_encode input) = Some input \<and> base64_decode (encode_url input) = Some input"
  by (simp add: base64_decode_def base64_encode_def encode_url_def standard.decode_chunks url_safe.decode_chunks)

lemma decode_loop_None:
  "decode_loop cs buf bits out = None \<longleftrightarrow> (\<exists>c \<in> set cs. sextet_of c = Reject)"
  by (induction cs buf bits out rule: decode_loop.induct)
    (auto simp: Let_def split: sextet.splits)

text \<open>The characters \<open>decode\<close> accepts, written out.\<close>

definition accepted :: "char \<Rightarrow> bool" where
  "accepted c \<longleftrightarrow> c \<in> set STANDARD \<or> c \<in> set URL_SAFE \<or> c = CHR ''='' \<or> c = CHR 0x0A \<or> c = CHR 0x0D"

lemma STANDARD_ranges:
  "\<forall>n \<in> {65..<91}. STANDARD ! (n - 65) = char_of (n :: nat)"
  "\<forall>n \<in> {97..<123}. STANDARD ! (n - 71) = char_of (n :: nat)"
  "\<forall>n \<in> {48..<58}. STANDARD ! (n + 4) = char_of (n :: nat)"
  by code_simp+

lemma nth_STANDARD: "STANDARD ! i = c \<Longrightarrow> i < 64 \<Longrightarrow> c \<in> set STANDARD"
  using lengths nth_mem by metis

lemma not_rejected_accepted:
  assumes "sextet_of c \<noteq> Reject"
  shows "accepted c"
proof -
  define n where "n = (of_char c :: nat)"
  have c: "c = char_of n" by (simp add: n_def)
  from assms consider "65 \<le> n \<and> n < 91" | "97 \<le> n \<and> n < 123" | "48 \<le> n \<and> n < 58"
    | "n \<in> {43, 45, 47, 95, 61, 10, 13}"
    by (auto simp: sextet_of_def Let_def n_def split: if_splits)
  then show ?thesis
  proof cases
    case 1
    then have "STANDARD ! (n - 65) = c" using STANDARD_ranges(1) c by simp
    with 1 show ?thesis unfolding accepted_def by (auto intro!: nth_STANDARD)
  next
    case 2
    then have "STANDARD ! (n - 71) = c" using STANDARD_ranges(2) c by simp
    with 2 show ?thesis unfolding accepted_def by (auto intro!: nth_STANDARD)
  next
    case 3
    then have "STANDARD ! (n + 4) = c" using STANDARD_ranges(3) c by simp
    with 3 show ?thesis unfolding accepted_def by (auto intro!: nth_STANDARD)
  next
    case 4
    moreover have "accepted (char_of (43 :: nat))" "accepted (char_of (45 :: nat))"
      "accepted (char_of (47 :: nat))" "accepted (char_of (95 :: nat))"
      "accepted (char_of (61 :: nat))" "accepted (char_of (10 :: nat))"
      "accepted (char_of (13 :: nat))"
      by code_simp+
    ultimately show ?thesis unfolding c by blast
  qed
qed

lemma sextet_of_Reject: "sextet_of c = Reject \<longleftrightarrow> \<not> accepted c"
proof -
  have "sextet_of CHR 0x0A = Skip" "sextet_of CHR 0x0D = Skip"
    by (simp_all add: sextet_of_def)
  then have "sextet_of c \<noteq> Reject" if "accepted c"
    using that lengths sextet_pad unfolding accepted_def
    by (auto simp: in_set_conv_nth standard.sextet url_safe.sextet)
  then show ?thesis using not_rejected_accepted by blast
qed

text \<open>
  decoding fails exactly when some character is outside both alphabets, the padding character
  and the two line ends.
\<close>

theorem base64_rejects:
  "base64_decode input = None \<longleftrightarrow> (\<exists>c \<in> set input. \<not> accepted c)"
  by (simp add: base64_decode_def decode_loop_None sextet_of_Reject)

lemma decode_take: "base64_decode s \<noteq> None \<Longrightarrow> base64_decode (take n s) \<noteq> None"
  by (auto simp: base64_decode_def decode_loop_None dest: in_set_takeD)

lemma decode_encode: "base64_decode (base64_encode input) = Some input"
  by (simp add: base64_decode_def base64_encode_def standard.decode_chunks)

text \<open>
  a truncated payload does not fail: cut anywhere, an encoded text still decodes, and to
  different bytes, because the left-over bits of the last group are dropped without a check.
\<close>

theorem base64_truncated:
  "base64_decode (take n (base64_encode input)) \<noteq> None \<and>
   base64_decode (take 3 (base64_encode [102, 111, 111])) = Some [102, 111]"
proof
  show "base64_decode (take n (base64_encode input)) \<noteq> None"
    by (rule decode_take) (simp add: decode_encode)
qed code_simp

end
