(* ===== verification/Wire.thy ===== *)
theory Wire
  imports Prelude
begin

section \<open>Byte-level formats: integers, UTF-8 and prefix codecs\<close>

text \<open>
  What the wire protocols of the framework share.  Big-endian integers stand for
  \<open>uN::to_be_bytes\<close> and \<open>uN::from_be_bytes\<close>; \<open>utf8_valid\<close> is the test made by
  \<open>std::str::from_utf8\<close> and \<open>is_char_boundary\<close> the method of \<open>str\<close>.  The locale
  \<open>prefix_codec\<close> states what an incremental decoder promises to the loop that feeds it
  from a socket, and proves once what such a loop gets out of that promise.
\<close>

unbundle bit_operations_syntax

subsection \<open>Big-endian integers\<close>

primrec be_bytes :: "nat \<Rightarrow> nat \<Rightarrow> byte list" where
  "be_bytes 0 x = []"
| "be_bytes (Suc n) x = be_bytes n (x div 256) @ [of_nat x]"

definition be_val :: "byte list \<Rightarrow> nat" where
  "be_val bs = foldl (\<lambda>a b. a * 256 + unat b) 0 bs"

lemma length_be_bytes [simp]: "length (be_bytes n x) = n"
  by (induction n arbitrary: x) auto

lemma be_val_Nil [simp]: "be_val [] = 0"
  by (simp add: be_val_def)

lemma be_val_snoc [simp]: "be_val (bs @ [b]) = be_val bs * 256 + unat b"
  by (simp add: be_val_def)

lemma unat_byte_less: "unat (b :: byte) < 256"
  using unsigned_less [of b] by simp

lemma be_val_be_bytes: "be_val (be_bytes n x) = x mod 256 ^ n"
proof (induction n arbitrary: x)
  case (Suc n)
  have "x mod 256 ^ Suc n = 256 * (x div 256 mod 256 ^ n) + x mod 256"
    by (simp add: mod_mult2_eq)
  then show ?case using Suc by (simp add: unat_of_nat)
qed simp

lemma be_bytes_be_val: "length bs = n \<Longrightarrow> be_bytes n (be_val bs) = bs"
proof (induction bs arbitrary: n rule: rev_induct)
  case (snoc b bs)
  then obtain m where n: "n = Suc m" "length bs = m" by (cases n) auto
  have "(be_val bs * 256 + unat b) div 256 = be_val bs"
    using unat_byte_less [of b] by simp
  moreover have "(of_nat (be_val bs * 256 + unat b) :: byte) = b"
  proof -
    have "(of_nat (be_val bs * 256 + unat b) :: byte) = of_nat (unat b)"
      by (simp only: word_of_nat_eq_iff) (simp add: take_bit_eq_mod)
    then show ?thesis by simp
  qed
  ultimately show ?case using snoc n by simp
qed simp

lemma be_val_less: "be_val bs < 256 ^ length bs"
proof (induction bs rule: rev_induct)
  case (snoc b bs)
  then have "be_val bs + 1 \<le> 256 ^ length bs" by simp
  then have "(be_val bs + 1) * 256 \<le> 256 ^ length bs * 256" by (rule mult_le_mono1)
  with unat_byte_less [of b] show ?case by simp
qed simp

subsection \<open>UTF-8\<close>

definition is_cont :: "byte \<Rightarrow> bool" where
  "is_cont b \<longleftrightarrow> 0x80 \<le> b \<and> b \<le> 0xBF"

text \<open>
  The length of the well-formed sequence a byte string starts with, following the table of
  well-formed UTF-8 byte sequences of the Unicode standard; \<open>None\<close> when it starts with none.
\<close>

fun utf8_head :: "byte list \<Rightarrow> nat option" where
  "utf8_head [] = None"
| "utf8_head (a # bs) =
     (if a < 0x80 then Some 1
      else case bs of
        [] \<Rightarrow> None
      | b # cs \<Rightarrow>
          (if 0xC2 \<le> a \<and> a \<le> 0xDF then (if is_cont b then Some 2 else None)
           else case cs of
             [] \<Rightarrow> None
           | c # ds \<Rightarrow>
               (if 0xE0 \<le> a \<and> a \<le> 0xEF then
                  (if is_cont b \<and> is_cont c \<and> (a = 0xE0 \<longrightarrow> 0xA0 \<le> b) \<and> (a = 0xED \<longrightarrow> b \<le> 0x9F)
                   then Some 3 else None)
                else case ds of
                  [] \<Rightarrow> None
                | d # _ \<Rightarrow>
                    (if 0xF0 \<le> a \<and> a \<le> 0xF4 \<and> is_cont b \<and> is_cont c \<and> is_cont d \<and>
                        (a = 0xF0 \<longrightarrow> 0x90 \<le> b) \<and> (a = 0xF4 \<longrightarrow> b \<le> 0x8F)
                     then Some 4 else None))))"

lemma utf8_head_pos: "utf8_head bs = Some n \<Longrightarrow> 0 < n \<and> n \<le> length bs \<and> n \<le> 4"
  by (cases bs) (auto split: if_splits list.splits)

function utf8_valid :: "byte list \<Rightarrow> bool" where
  "utf8_valid bs =
     (if bs = [] then True
      else case utf8_head bs of None \<Rightarrow> False | Some n \<Rightarrow> utf8_valid (drop n bs))"
  by pat_completeness auto
termination
  by (relation "measure length") (auto dest: utf8_head_pos)

declare utf8_valid.simps [simp del]

text \<open>\<open>str::is_char_boundary\<close>: the ends of the string, and any byte that starts a character.\<close>

definition is_char_boundary :: "byte list \<Rightarrow> nat \<Rightarrow> bool" where
  "is_char_boundary s i \<longleftrightarrow>
     i = 0 \<or> i = length s \<or> (i < length s \<and> \<not> is_cont (s ! i))"

lemma utf8_valid_Nil [simp]: "utf8_valid []"
  by (simp add: utf8_valid.simps)

lemma utf8_valid_step:
  "bs \<noteq> [] \<Longrightarrow> utf8_valid bs \<longleftrightarrow> (\<exists>n. utf8_head bs = Some n \<and> utf8_valid (drop n bs))"
  by (subst utf8_valid.simps) (auto split: option.splits)

lemma utf8_head_cont:
  "utf8_head bs = Some n \<Longrightarrow> 0 < i \<Longrightarrow> i < n \<Longrightarrow> is_cont (bs ! i)"
  by (cases bs) (auto simp: less_Suc_eq numeral_eq_Suc split: if_splits list.splits)

lemma utf8_head_take:
  "utf8_head bs = Some n \<Longrightarrow> n \<le> k \<Longrightarrow> utf8_head (take k bs) = Some n"
  by (cases bs; cases k) (auto simp: take_Cons' numeral_eq_Suc split: if_splits list.splits)

lemma utf8_valid_take:
  "utf8_valid s \<Longrightarrow> is_char_boundary s i \<Longrightarrow> utf8_valid (take i s)"
proof (induction s arbitrary: i rule: utf8_valid.induct)
  case (1 s)
  show ?case
  proof (cases "s = [] \<or> i = 0")
    case False
    then obtain n where n: "utf8_head s = Some n" "utf8_valid (drop n s)"
      using "1.prems" by (auto simp: utf8_valid_step)
    have len: "0 < n" "n \<le> length s" using utf8_head_pos [OF n(1)] by auto
    have "n \<le> i"
    proof (rule ccontr)
      assume "\<not> n \<le> i"
      then have "is_cont (s ! i)" "i < length s"
        using utf8_head_cont [OF n(1), of i] False len by auto
      with "1.prems"(2) False show False by (auto simp: is_char_boundary_def)
    qed
    moreover have "is_char_boundary (drop n s) (i - n)"
      using "1.prems"(2) \<open>n \<le> i\<close> len by (auto simp: is_char_boundary_def)
    ultimately have "utf8_valid (take (i - n) (drop n s))"
      using "1.IH" [OF _ n(1) n(2)] False by blast
    moreover have "take i s \<noteq> []" using False by simp
    ultimately show ?thesis
      using utf8_head_take [OF n(1) \<open>n \<le> i\<close>] by (auto simp: utf8_valid_step drop_take)
  qed auto
qed

subsection \<open>Incremental decoders\<close>

text \<open>
  A decoder reads one value off the front of the bytes received so far: an error, \<open>None\<close>
  for "not all here yet", or a value with the number of bytes it took.
\<close>

type_synonym ('e, 'a) decoder = "byte list \<Rightarrow> 'e + ('a \<times> nat) option"

text \<open>
  The loop around it: take every whole value off the buffer and keep the rest.  A decoder that
  claims a value of no bytes, or of more bytes than there are, stops the loop.
\<close>

function drain :: "('e, 'a) decoder \<Rightarrow> byte list \<Rightarrow> 'e + ('a list \<times> byte list)" where
  "drain dec buffer =
     (case dec buffer of
        Inl e \<Rightarrow> Inl e
      | Inr None \<Rightarrow> Inr ([], buffer)
      | Inr (Some (x, used)) \<Rightarrow>
          (if used = 0 \<or> length buffer < used then Inr ([], buffer)
           else map_sum id (apfst ((#) x)) (drain dec (drop used buffer))))"
  by pat_completeness auto
termination
  by (relation "measure (\<lambda>(dec, buffer). length buffer)") auto

declare drain.simps [simp del]

text \<open>The same loop over a connection: each read appends a chunk to what is left over.\<close>

fun feed :: "('e, 'a) decoder \<Rightarrow> byte list \<Rightarrow> byte list list \<Rightarrow> 'e + ('a list \<times> byte list)" where
  "feed dec buffer [] = drain dec buffer"
| "feed dec buffer (c # cs) =
     (case drain dec buffer of
        Inl e \<Rightarrow> Inl e
      | Inr (xs, rest) \<Rightarrow> map_sum id (apfst ((@) xs)) (feed dec (rest @ c) cs))"

locale stream_decoder =
  fixes dec :: "('e, 'a) decoder"
  assumes dec_more: "dec bs = Inr (Some r) \<Longrightarrow> dec (bs @ more) = Inr (Some r)"
    and dec_error_more: "dec bs = Inl e \<Longrightarrow> dec (bs @ more) = Inl e"
    and dec_bounds: "dec bs = Inr (Some (x, used)) \<Longrightarrow> 0 < used \<and> used \<le> length bs"
begin

lemma drain_value:
  "dec bs = Inr (Some (x, used)) \<Longrightarrow> drain dec bs = map_sum id (apfst ((#) x)) (drain dec (drop used bs))"
  by (subst drain.simps) (auto dest: dec_bounds)

lemma drain_stuck: "dec bs = Inr None \<Longrightarrow> drain dec bs = Inr ([], bs)"
  by (subst drain.simps) simp

lemma drain_error: "dec bs = Inl e \<Longrightarrow> drain dec bs = Inl e"
  by (subst drain.simps) simp

lemma drain_append:
  "drain dec (as @ bs) =
     (case drain dec as of
        Inl e \<Rightarrow> Inl e
      | Inr (xs, rest) \<Rightarrow> map_sum id (apfst ((@) xs)) (drain dec (rest @ bs)))"
proof (induction "length as" arbitrary: as rule: less_induct)
  case less
  show ?case
  proof (cases "dec as")
    case (Inl e)
    then show ?thesis by (simp add: drain_error dec_error_more)
  next
    case (Inr r)
    show ?thesis
    proof (cases r)
      case None
      have "drain dec (as @ bs) = map_sum id (apfst ((@) [])) (drain dec (as @ bs))"
        by (cases "drain dec (as @ bs)") auto
      with Inr None show ?thesis by (simp add: drain_stuck)
    next
      case (Some p)
      obtain x used where p: "p = (x, used)" by (cases p)
      with Inr Some have d: "dec as = Inr (Some (x, used))" by simp
      note b = dec_bounds [OF d]
      have "length (drop used as) < length as" using b by auto
      note IH = less [OF this]
      have "drain dec (as @ bs) = map_sum id (apfst ((#) x)) (drain dec (drop used as @ bs))"
        using drain_value [OF dec_more [OF d]] b by simp
      then show ?thesis
        unfolding IH drain_value [OF d]
        by (auto split: sum.splits simp: map_sum.compositionality apfst_compose comp_def)
          (auto simp: sum.map_comp fun_eq_iff comp_def apfst_def intro!: sum.map_cong0)
    qed
  qed
qed

text \<open>
  How the network cuts the stream is of no consequence: the values delivered, the error
  raised and the bytes left over depend on the concatenation only.
\<close>

lemma feed_concat: "feed dec buffer cs = drain dec (buffer @ concat cs)"
proof (induction cs arbitrary: buffer)
  case (Cons c cs)
  then show ?case by (simp add: drain_append [of buffer] split: sum.splits prod.splits)
qed simp

end

locale prefix_codec = stream_decoder dec for dec :: "('e, 'a) decoder" +
  fixes enc :: "'a \<Rightarrow> byte list"
    and wf :: "'a \<Rightarrow> bool"
  assumes dec_enc: "wf x \<Longrightarrow> dec (enc x) = Inr (Some (x, length (enc x)))"
begin

lemma dec_enc_more: "wf x \<Longrightarrow> dec (enc x @ rest) = Inr (Some (x, length (enc x)))"
  using dec_more [OF dec_enc] .

text \<open>No encoding is a proper prefix of another: two streams that agree start alike.\<close>

lemma enc_inject: "wf x \<Longrightarrow> wf y \<Longrightarrow> enc x @ r = enc y @ s \<Longrightarrow> x = y \<and> r = s"
  using dec_enc_more [of x r] dec_enc_more [of y s] by auto

text \<open>A value cut short is never an error and never another value: it asks for more.\<close>

lemma dec_cut:
  assumes "wf x" and "k < length (enc x)"
  shows "dec (take k (enc x)) = Inr None"
proof (cases "dec (take k (enc x))")
  case (Inl e)
  then have "dec (take k (enc x) @ drop k (enc x)) = Inl e" by (rule dec_error_more)
  with dec_enc [OF assms(1)] show ?thesis by simp
next
  case (Inr r)
  show ?thesis
  proof (cases r)
    case (Some p)
    have "dec (take k (enc x) @ drop k (enc x)) = Inr (Some p)"
      by (rule dec_more) (simp add: Inr Some)
    with dec_enc [OF assms(1)] have "p = (x, length (enc x))" by simp
    with dec_bounds [of "take k (enc x)" x "length (enc x)"] Inr Some assms(2)
    show ?thesis by simp
  qed (simp add: Inr)
qed

lemma drain_concat:
  "\<forall>x\<in>set xs. wf x \<Longrightarrow> dec rest = Inr None \<Longrightarrow> drain dec (concat (map enc xs) @ rest) = Inr (xs, rest)"
  by (induction xs) (simp_all add: drain_stuck drain_value dec_enc_more)

text \<open>
  A stream of encoded values, cut anywhere by the transport and possibly ending in the
  middle of one, is delivered value by value and in order.
\<close>

lemma feed_encoded:
  assumes "\<forall>x\<in>set xs. wf x" and "dec rest = Inr None"
    and "concat cs = concat (map enc xs) @ rest"
  shows "feed dec [] cs = Inr (xs, rest)"
  by (simp add: feed_concat assms(3) drain_concat [OF assms(1,2)])

end

end
