(* ===== verification/WsFrame.thy ===== *)
theory WsFrame
  imports Wire
begin

section \<open>WebSocket framing\<close>

text \<open>
  \<open>rustlavel-ws/src/frame.rs\<close>: opcodes, close codes, close payloads and the frame codec of
  RFC 6455.  A payload is a byte list; \<open>usize\<close> is a natural number bounded by
  \<open>USIZE_MAX\<close> (a 64-bit target).  The decoder is an instance of the locale
  \<open>prefix_codec\<close>, once for each reading role.
\<close>

unbundle bit_operations_syntax

subsection \<open>Data\<close>

datatype Role = Server | Client

datatype OpCode = Continuation | Text | Binary | Close | Ping | Pong

datatype WsError =
    Protocol string
  | TooLarge nat nat
  | InvalidUtf8
  | Idle
  | Full
  | Closed
  | Io

type_synonym CloseCode = u16

record CloseFrame =
  code :: CloseCode
  reason :: "byte list"

type_synonym mask = "byte \<times> byte \<times> byte \<times> byte"

record Frame =
  fin :: bool
  opcode :: OpCode
  mask :: "mask option"
  payload :: "byte list"

definition NORMAL :: CloseCode where "NORMAL = 1000"
definition GOING_AWAY :: CloseCode where "GOING_AWAY = 1001"
definition PROTOCOL_ERROR :: CloseCode where "PROTOCOL_ERROR = 1002"
definition NO_STATUS :: CloseCode where "NO_STATUS = 1005"
definition ABNORMAL :: CloseCode where "ABNORMAL = 1006"
definition INVALID_PAYLOAD :: CloseCode where "INVALID_PAYLOAD = 1007"
definition POLICY :: CloseCode where "POLICY = 1008"
definition TOO_LARGE :: CloseCode where "TOO_LARGE = 1009"

lemmas close_code_defs = NORMAL_def GOING_AWAY_def PROTOCOL_ERROR_def NO_STATUS_def
  ABNORMAL_def INVALID_PAYLOAD_def POLICY_def TOO_LARGE_def

definition USIZE_MAX :: nat where "USIZE_MAX = 2 ^ 64 - 1"

subsection \<open>Opcodes\<close>

fun bits :: "OpCode \<Rightarrow> byte" where
  "bits Continuation = 0x0"
| "bits Text = 0x1"
| "bits Binary = 0x2"
| "bits Close = 0x8"
| "bits Ping = 0x9"
| "bits Pong = 0xa"

text \<open>\<open>format!("{other:#x}")\<close> for a value below sixteen.\<close>

definition hex_nibble :: "byte \<Rightarrow> string" where
  "hex_nibble b = ''0x'' @ [char_of (if b < 10 then 48 + unat b else 87 + unat b)]"

definition from_bits :: "byte \<Rightarrow> WsError + OpCode" where
  "from_bits b =
     (if b = 0x0 then Inr Continuation
      else if b = 0x1 then Inr Text
      else if b = 0x2 then Inr Binary
      else if b = 0x8 then Inr Close
      else if b = 0x9 then Inr Ping
      else if b = 0xa then Inr Pong
      else Inl (Protocol (''opcode '' @ hex_nibble b @ '' is reserved'')))"

definition is_control :: "OpCode \<Rightarrow> bool" where
  "is_control op \<longleftrightarrow> op = Close \<or> op = Ping \<or> op = Pong"

lemma from_bits_bits [simp]: "from_bits (bits op) = Inr op"
  by (cases op) (simp_all add: from_bits_def)

lemma from_bits_Inr: "from_bits b = Inr op \<Longrightarrow> bits op = b"
  by (auto simp: from_bits_def split: if_splits)

subsection \<open>Close codes and close payloads\<close>

definition is_sendable :: "CloseCode \<Rightarrow> bool" where
  "is_sendable c =
     (if c = 1004 \<or> c = 1005 \<or> c = 1006 \<or> c = 1015 then False
      else if 1000 \<le> c \<and> c \<le> 1014 then True
      else if 3000 \<le> c \<and> c \<le> 4999 then True
      else False)"

definition close_parse :: "byte list \<Rightarrow> WsError + CloseFrame option" where
  "close_parse bs =
     (if length bs = 0 then Inr None
      else if length bs = 1 then
        Inl (Protocol ''close payload must be empty or at least two bytes'')
      else
        let c = of_nat (be_val [bs ! 0, bs ! 1]) in
        if \<not> is_sendable c then
          Inl (Protocol (''close code '' @ show_nat (unat c) @ '' must not be sent on the wire''))
        else if utf8_valid (drop 2 bs) then Inr (Some \<lparr>code = c, reason = drop 2 bs\<rparr>)
        else Inl InvalidUtf8)"

text \<open>\<open>while end > 0 && !reason.is_char_boundary(end) { end -= 1 }\<close>\<close>

fun boundary_below :: "byte list \<Rightarrow> nat \<Rightarrow> nat" where
  "boundary_below s e = (if 0 < e \<and> \<not> is_char_boundary s e then boundary_below s (e - 1) else e)"

declare boundary_below.simps [simp del]

definition to_payload :: "CloseFrame \<Rightarrow> byte list" where
  "to_payload c =
     (let e = boundary_below (reason c) (min (length (reason c)) 123)
      in be_bytes 2 (unat (code c)) @ take e (reason c))"

lemma boundary_below_le: "boundary_below s e \<le> e"
  by (induction s e rule: boundary_below.induct) (subst boundary_below.simps, auto)

lemma boundary_below_boundary: "is_char_boundary s (boundary_below s e)"
proof (induction s e rule: boundary_below.induct)
  case (1 s e)
  then show ?case
    by (subst boundary_below.simps) (auto simp: is_char_boundary_def)
qed

lemma boundary_below_greatest:
  "is_char_boundary s i \<Longrightarrow> i \<le> e \<Longrightarrow> i \<le> boundary_below s e"
proof (induction s e rule: boundary_below.induct)
  case (1 s e)
  show ?case
  proof (cases "0 < e \<and> \<not> is_char_boundary s e")
    case True
    moreover from this have "i \<noteq> e" using "1.prems" by auto
    ultimately show ?thesis using 1 by (simp add: boundary_below.simps [of s e])
  next
    case False
    with 1 show ?thesis by (subst boundary_below.simps) auto
  qed
qed

lemma boundary_below_self: "is_char_boundary s e \<Longrightarrow> boundary_below s e = e"
  by (subst boundary_below.simps) simp

lemma length_to_payload: "length (to_payload c) \<le> 125"
  using boundary_below_le [of "reason c" "min (length (reason c)) 123"]
  by (simp add: to_payload_def Let_def)

lemma be_val_u16: "(of_nat (be_val (be_bytes 2 (unat (c :: u16)))) :: u16) = c"
proof -
  have "unat c < 256 ^ 2" using unsigned_less [of c] by simp
  then show ?thesis by (simp add: be_val_be_bytes del: power2_eq_square)
qed

lemma be_bytes_2: "be_bytes 2 x = [of_nat (x div 256), of_nat x]"
  by (simp add: numeral_2_eq_2)

lemma close_parse_to_payload:
  assumes "is_sendable (code c)" and "utf8_valid (reason c)"
  shows "close_parse (to_payload c) =
    Inr (Some (c\<lparr>reason := take (boundary_below (reason c) (min (length (reason c)) 123)) (reason c)\<rparr>))"
proof -
  let ?e = "boundary_below (reason c) (min (length (reason c)) 123)"
  have "utf8_valid (take ?e (reason c))"
    using assms(2) boundary_below_boundary by (rule utf8_valid_take)
  then show ?thesis
    using assms(1) be_val_u16 [of "code c"]
    by (simp add: close_parse_def to_payload_def be_bytes_2 Let_def)
qed

subsection \<open>Masking\<close>

fun mask_at :: "mask \<Rightarrow> nat \<Rightarrow> byte" where
  "mask_at (a, b, c, d) i = [a, b, c, d] ! i"

definition apply_mask :: "byte list \<Rightarrow> mask \<Rightarrow> byte list" where
  "apply_mask p m = map (\<lambda>(index, b). b XOR mask_at m (index mod 4)) (enumerate 0 p)"

lemma length_apply_mask [simp]: "length (apply_mask p m) = length p"
  by (simp add: apply_mask_def)

lemma apply_mask_nth: "i < length p \<Longrightarrow> apply_mask p m ! i = p ! i XOR mask_at m (i mod 4)"
  by (simp add: apply_mask_def nth_enumerate_eq)

lemma apply_mask_involution [simp]: "apply_mask (apply_mask p m) m = p"
  by (rule nth_equalityI) (simp_all add: apply_mask_nth xor.assoc)

subsection \<open>The frame codec\<close>

definition mask_bytes :: "mask \<Rightarrow> byte list" where
  "mask_bytes m = [mask_at m 0, mask_at m 1, mask_at m 2, mask_at m 3]"

definition server_frame :: "OpCode \<Rightarrow> byte list \<Rightarrow> Frame" where
  "server_frame op p = \<lparr>fin = True, opcode = op, mask = None, payload = p\<rparr>"

definition client_frame :: "OpCode \<Rightarrow> byte list \<Rightarrow> mask \<Rightarrow> Frame" where
  "client_frame op p m = \<lparr>fin = True, opcode = op, mask = Some m, payload = p\<rparr>"

definition frame_encode :: "Frame \<Rightarrow> byte list" where
  "frame_encode f =
     (let first = (if fin f then 0x80 else 0) OR bits (opcode f);
          masked = (if mask f \<noteq> None then 0x80 else 0);
          len = length (payload f);
          lens = (if len < 126 then [masked OR of_nat len]
                  else if len \<le> 0xFFFF then (masked OR 126) # be_bytes 2 len
                  else (masked OR 127) # be_bytes 8 len)
      in first # lens @
         (case mask f of
            Some m \<Rightarrow> mask_bytes m @ apply_mask (payload f) m
          | None \<Rightarrow> payload f))"

text \<open>The \<open>match second & 0x7f\<close> of \<open>Frame::decode\<close>: the length and the cursor after it.\<close>

definition frame_length :: "byte list \<Rightarrow> byte \<Rightarrow> nat \<Rightarrow> WsError + (nat \<times> nat) option" where
  "frame_length bytes second max_payload =
     (let cursor = 2 in
      if second AND 0x7f = 126 then
        (if length bytes < cursor + 2 then Inr None
         else let value = be_val [bytes ! cursor, bytes ! (cursor + 1)] in
           if value < 126 then
             Inl (Protocol ''16-bit length used for a payload that fits in 7 bits'')
           else Inr (Some (value, cursor + 2)))
      else if second AND 0x7f = 127 then
        (if length bytes < cursor + 8 then Inr None
         else let value = be_val (take 8 (drop cursor bytes)) in
           if 2 ^ 63 \<le> value then Inl (Protocol ''64-bit length has its high bit set'')
           else if value \<le> 0xFFFF then
             Inl (Protocol ''64-bit length used for a payload that fits in 16 bits'')
           else if USIZE_MAX < value then Inl (TooLarge USIZE_MAX max_payload)
           else Inr (Some (value, cursor + 8)))
      else Inr (Some (unat (second AND 0x7f), cursor)))"

text \<open>The checks between the header and the payload, in the order the code makes them.\<close>

definition frame_checks :: "bool \<Rightarrow> OpCode \<Rightarrow> bool \<Rightarrow> nat \<Rightarrow> Role \<Rightarrow> nat \<Rightarrow> WsError option" where
  "frame_checks f op masked len role max_payload =
     (if max_payload < len then Some (TooLarge len max_payload)
      else if is_control op \<and> 125 < len then
        Some (Protocol ''a control frame payload must be 125 bytes or fewer'')
      else if is_control op \<and> \<not> f then
        Some (Protocol ''a control frame must not be fragmented'')
      else if role = Server \<and> \<not> masked then
        Some (Protocol ''a frame from a client must be masked'')
      else if role = Client \<and> masked then
        Some (Protocol ''a frame from a server must not be masked'')
      else None)"

text \<open>The tail of \<open>Frame::decode\<close>: the mask and the payload.\<close>

definition frame_body ::
  "byte list \<Rightarrow> bool \<Rightarrow> OpCode \<Rightarrow> bool \<Rightarrow> nat \<Rightarrow> nat \<Rightarrow> (Frame \<times> nat) option" where
  "frame_body bytes f op masked len cursor =
     (if masked \<and> length bytes < cursor + 4 then None
      else
        let m = (if masked
                 then Some (bytes ! cursor, bytes ! (cursor + 1),
                            bytes ! (cursor + 2), bytes ! (cursor + 3))
                 else None);
            at = (if masked then cursor + 4 else cursor)
        in if length bytes < at + len then None
           else
             let p = take len (drop at bytes) in
             Some (\<lparr>fin = f, opcode = op, mask = m,
                    payload = (case m of Some k \<Rightarrow> apply_mask p k | None \<Rightarrow> p)\<rparr>, at + len))"

definition frame_decode :: "Role \<Rightarrow> nat \<Rightarrow> (WsError, Frame) decoder" where
  "frame_decode role max_payload bytes =
     (if length bytes < 2 then Inr None
      else
        let first = bytes ! 0; second = bytes ! 1 in
        if first AND 0x70 \<noteq> 0 then
          Inl (Protocol ''a reserved bit is set but no extension was negotiated'')
        else
          and_then (from_bits (first AND 0x0f)) (\<lambda>op.
          and_then (frame_length bytes second max_payload) (\<lambda>r.
            case r of
              None \<Rightarrow> Inr None
            | Some (len, cursor) \<Rightarrow>
                (let f = (first AND 0x80 \<noteq> 0); masked = (second AND 0x80 \<noteq> 0) in
                 case frame_checks f op masked len role max_payload of
                   Some e \<Rightarrow> Inl e
                 | None \<Rightarrow> Inr (frame_body bytes f op masked len cursor)))))"

subsection \<open>Header bytes\<close>

lemma low_bit7: "n < 128 \<Longrightarrow> \<not> bit n (7 :: nat)" for n :: nat
  by (simp add: bit_iff_odd)

lemma byte_high_bit: "a AND 0x80 \<noteq> 0 \<longleftrightarrow> bit a 7" for a :: byte
proof
  assume "bit a 7"
  then have "bit (a AND 0x80) 7" by (simp add: bit_simps)
  then show "a AND 0x80 \<noteq> 0" by auto
next
  assume h: "a AND 0x80 \<noteq> 0"
  show "bit a 7"
  proof (rule ccontr)
    assume "\<not> bit a 7"
    then have "a AND 0x80 = 0" by (intro byte_eqI, elim insertE) (simp_all add: bit_simps)
    with h show False ..
  qed
qed

lemma header_length_byte:
  assumes "n < 128"
  shows "((if b then 0x80 else 0) OR (of_nat n :: byte)) AND 0x7f = of_nat n"
    and "((if b then 0x80 else 0) OR (of_nat n :: byte)) AND 0x80 \<noteq> 0 \<longleftrightarrow> b"
proof -
  show "((if b then 0x80 else 0) OR (of_nat n :: byte)) AND 0x7f = of_nat n"
    by (rule byte_eqI, elim insertE) (auto simp: bit_simps low_bit7 [OF assms])
  show "((if b then 0x80 else 0) OR (of_nat n :: byte)) AND 0x80 \<noteq> 0 \<longleftrightarrow> b"
    unfolding byte_high_bit by (auto simp: bit_simps low_bit7 [OF assms])
qed

lemma header_first_byte:
  "((if b then 0x80 else 0) OR bits op) AND 0x70 = 0"
  "((if b then 0x80 else 0) OR bits op) AND 0x0f = bits op"
  "((if b then 0x80 else 0) OR bits op) AND 0x80 \<noteq> 0 \<longleftrightarrow> b"
  by (cases op; cases b; simp)+

lemma first_byte_split:
  fixes a :: byte
  assumes "a AND 0x70 = 0"
  shows "(if a AND 0x80 \<noteq> 0 then 0x80 else 0) OR (a AND 0x0f) = a"
proof -
  have "bit (a AND 0x70) n = False" for n using assms by simp
  from this [of 4] this [of 5] this [of 6]
  have b: "\<not> bit a 4" "\<not> bit a 5" "\<not> bit a 6" by (simp_all add: bit_simps)
  show ?thesis
    unfolding byte_high_bit by (rule byte_eqI, elim insertE) (auto simp: bit_simps b)
qed

lemma length_byte_split:
  fixes a :: byte
  shows "(if a AND 0x80 \<noteq> 0 then 0x80 else 0) OR (a AND 0x7f) = a"
  unfolding byte_high_bit by (rule byte_eqI, elim insertE) (auto simp: bit_simps)

subsection \<open>The decoder is incremental\<close>

lemma frame_length_more:
  assumes "2 \<le> length bs"
  shows "frame_length bs b n = Inl e \<Longrightarrow> frame_length (bs @ zs) b n = Inl e"
    and "frame_length bs b n = Inr (Some r) \<Longrightarrow> frame_length (bs @ zs) b n = Inr (Some r)"
  using assms by (auto simp: frame_length_def Let_def nth_append split: if_splits)

lemma frame_length_cursor:
  "frame_length bs b n = Inr (Some (len, cursor)) \<Longrightarrow> 2 \<le> cursor"
  by (auto simp: frame_length_def Let_def split: if_splits)

lemma frame_body_more:
  "frame_body bs f op m len cursor = Some r \<Longrightarrow> frame_body (bs @ zs) f op m len cursor = Some r"
  by (auto simp: frame_body_def Let_def nth_append split: if_splits)

lemma frame_body_bounds:
  "frame_body bs f op m len cursor = Some (fr, used) \<Longrightarrow> cursor \<le> used \<and> used \<le> length bs"
  by (auto simp: frame_body_def Let_def split: if_splits)

lemma frame_decode_final:
  assumes "frame_decode role n bs \<noteq> Inr None"
  shows "frame_decode role n (bs @ zs) = frame_decode role n bs"
proof -
  have len: "2 \<le> length bs" using assms by (auto simp: frame_decode_def split: if_splits)
  then have hd: "(bs @ zs) ! 0 = bs ! 0" "(bs @ zs) ! Suc 0 = bs ! Suc 0"
    by (auto simp: nth_append)
  note [simp] = frame_decode_def Let_def
  show ?thesis
  proof (cases "from_bits (bs ! 0 AND 0x0f)")
    case (Inr op)
    note op = this
    show ?thesis
    proof (cases "frame_length bs (bs ! Suc 0) n")
      case (Inl e)
      with len hd op show ?thesis by (simp add: frame_length_more(1) [OF len Inl])
    next
      case (Inr r)
      show ?thesis
      proof (cases r)
        case (Some p)
        obtain l c where p: "p = (l, c)" by (cases p)
        with Inr Some have l: "frame_length bs (bs ! Suc 0) n = Inr (Some (l, c))" by simp
        show ?thesis
          using assms len hd op l frame_length_more(2) [OF len l]
          by (auto split: option.splits if_splits simp: frame_body_more)
      qed (use assms len hd op Inr in \<open>auto split: if_splits\<close>)
    qed
  qed (use len hd in simp)
qed

lemma frame_decode_more:
  "frame_decode role n bs = Inr (Some r) \<Longrightarrow> frame_decode role n (bs @ zs) = Inr (Some r)"
  by (simp add: frame_decode_final)

lemma frame_decode_error_more:
  "frame_decode role n bs = Inl e \<Longrightarrow> frame_decode role n (bs @ zs) = Inl e"
  by (simp add: frame_decode_final)

lemma frame_decode_SomeE:
  assumes "frame_decode role n bs = Inr (Some (f, used))"
  obtains op len cursor
  where "2 \<le> length bs" "bs ! 0 AND 0x70 = 0" "from_bits (bs ! 0 AND 0x0f) = Inr op"
    "frame_length bs (bs ! 1) n = Inr (Some (len, cursor))"
    "frame_checks (bs ! 0 AND 0x80 \<noteq> 0) op (bs ! 1 AND 0x80 \<noteq> 0) len role n = None"
    "frame_body bs (bs ! 0 AND 0x80 \<noteq> 0) op (bs ! 1 AND 0x80 \<noteq> 0) len cursor = Some (f, used)"
proof -
  note d = assms [unfolded frame_decode_def Let_def]
  have a: "2 \<le> length bs" "bs ! 0 AND 0x70 = 0" using d by (auto split: if_splits)
  obtain op where op: "from_bits (bs ! 0 AND 0x0f) = Inr op"
    using d a by (cases "from_bits (bs ! 0 AND 0x0f)") auto
  obtain r where r: "frame_length bs (bs ! 1) n = Inr r"
    using d a op by (cases "frame_length bs (bs ! 1) n") auto
  obtain len cursor where l: "frame_length bs (bs ! 1) n = Inr (Some (len, cursor))"
    using d a op r by (cases r) auto
  have "frame_checks (bs ! 0 AND 0x80 \<noteq> 0) op (bs ! 1 AND 0x80 \<noteq> 0) len role n = None"
    using d a op l by (auto split: option.splits)
  with d a op l that show thesis by auto
qed

lemma frame_decode_bounds:
  "frame_decode role n bs = Inr (Some (f, used)) \<Longrightarrow> 0 < used \<and> used \<le> length bs"
  by (elim frame_decode_SomeE) (auto dest!: frame_length_cursor frame_body_bounds)

subsection \<open>Round trip and canonicity\<close>

text \<open>
  The frames a peer may send to a reader: masked exactly when the reader is the server, within
  the limit, and, for a control frame, short and whole.  A Rust allocation never exceeds
  \<open>isize::MAX\<close> bytes, which bounds every payload.
\<close>

definition frame_ok :: "Role \<Rightarrow> nat \<Rightarrow> Frame \<Rightarrow> bool" where
  "frame_ok role n f \<longleftrightarrow>
     (mask f \<noteq> None \<longleftrightarrow> role = Server) \<and>
     length (payload f) \<le> n \<and> length (payload f) < 2 ^ 63 \<and>
     (is_control (opcode f) \<longrightarrow> length (payload f) \<le> 125 \<and> fin f)"

lemma frame_ok_checks:
  "frame_ok role n f \<Longrightarrow>
   frame_checks (fin f) (opcode f) (mask f \<noteq> None) (length (payload f)) role n = None"
  by (cases role) (auto simp: frame_ok_def frame_checks_def)

definition length_bytes :: "bool \<Rightarrow> nat \<Rightarrow> byte list" where
  "length_bytes masked len =
     (let m = (if masked then 0x80 else 0) in
      if len < 126 then [m OR of_nat len]
      else if len \<le> 0xFFFF then (m OR 126) # be_bytes 2 len
      else (m OR 127) # be_bytes 8 len)"

lemma frame_encode_alt:
  "frame_encode f =
     ((if fin f then 0x80 else 0) OR bits (opcode f)) # length_bytes (mask f \<noteq> None) (length (payload f)) @
     (case mask f of Some m \<Rightarrow> mask_bytes m @ apply_mask (payload f) m | None \<Rightarrow> payload f)"
  by (simp add: frame_encode_def length_bytes_def Let_def)

lemma length_bytes_nonempty: "length_bytes m len \<noteq> []"
  by (simp add: length_bytes_def Let_def)

lemma length_bytes_hd: "hd (length_bytes m len) AND 0x80 \<noteq> 0 \<longleftrightarrow> m"
  using header_length_byte(2) [of len m] header_length_byte(2) [of 126 m] header_length_byte(2) [of 127 m]
  by (simp add: length_bytes_def Let_def)

lemma frame_length_bytes:
  assumes "len < 2 ^ 63"
  shows "frame_length (a # length_bytes m len @ zs) (hd (length_bytes m len)) n =
    Inr (Some (len, 1 + length (length_bytes m len)))"
proof -
  consider "len < 126" | "126 \<le> len" "len \<le> 0xFFFF" | "0xFFFF < len" by linarith
  then show ?thesis
  proof cases
    case 1
    have "(of_nat len :: byte) \<noteq> 126" "(of_nat len :: byte) \<noteq> 127"
      using 1 by (auto simp: word_of_nat_eq_iff word_unat_eq_iff unat_of_nat)
    moreover have "unat (of_nat len :: byte) = len" using 1 by (simp add: unat_of_nat)
    ultimately show ?thesis
      using 1 header_length_byte(1) [of len m]
      by (simp add: length_bytes_def frame_length_def Let_def)
  next
    case 2
    have "be_val (be_bytes 2 len) = len" using 2 by (simp add: be_val_be_bytes)
    then show ?thesis
      using 2 header_length_byte(1) [of 126 m]
      by (simp add: length_bytes_def frame_length_def Let_def be_bytes_2)
  next
    case 3
    have "be_val (be_bytes 8 len) = len" using assms by (simp add: be_val_be_bytes)
    then show ?thesis
      using 3 assms header_length_byte(1) [of 127 m]
      by (simp add: length_bytes_def frame_length_def Let_def USIZE_MAX_def)
  qed
qed

lemma apply_mask_bytes:
  "(mask_bytes m @ p) ! 0 = mask_at m 0" "(mask_bytes m @ p) ! Suc 0 = mask_at m (Suc 0)"
  "(mask_bytes m @ p) ! 2 = mask_at m 2" "(mask_bytes m @ p) ! 3 = mask_at m 3"
  "length (mask_bytes m) = 4"
  by (simp_all add: mask_bytes_def)

lemma mask_at_collapse: "(mask_at m 0, mask_at m (Suc 0), mask_at m 2, mask_at m 3) = m"
  by (cases m) simp

lemma frame_body_encode:
  assumes "length h = cursor"
  shows "frame_body (h @ (case mask f of Some m \<Rightarrow> mask_bytes m @ apply_mask (payload f) m | None \<Rightarrow> payload f))
      (fin f) (opcode f) (mask f \<noteq> None) (length (payload f)) cursor =
    Some (f, cursor + (if mask f \<noteq> None then 4 else 0) + length (payload f))"
proof (cases "mask f")
  case None
  then show ?thesis using assms by (cases f) (simp add: frame_body_def)
next
  case (Some m)
  have "(h @ mask_bytes m @ p) ! (cursor + i) = (mask_bytes m @ p) ! i" for i p
    using assms by (simp add: nth_append)
  from this [of _ 0] this [of _ 1] this [of _ 2] this [of _ 3]
  show ?thesis using Some assms
    by (cases f) (simp add: frame_body_def Let_def apply_mask_bytes mask_at_collapse)
qed

lemma frame_decode_encode:
  assumes "frame_ok role n f"
  shows "frame_decode role n (frame_encode f) = Inr (Some (f, length (frame_encode f)))"
proof -
  let ?b = "case mask f of Some m \<Rightarrow> mask_bytes m @ apply_mask (payload f) m | None \<Rightarrow> payload f"
  let ?l = "length_bytes (mask f \<noteq> None) (length (payload f))"
  let ?a = "(if fin f then 0x80 else 0) OR bits (opcode f)"
  note l = length_bytes_nonempty [of "mask f \<noteq> None" "length (payload f)"]
    length_bytes_hd [of "mask f \<noteq> None" "length (payload f)"]
  have e: "frame_encode f = ?a # ?l @ ?b" by (simp add: frame_encode_alt)
  have nth: "(?a # ?l @ ?b) ! 0 = ?a" "(?a # ?l @ ?b) ! 1 = hd ?l" "2 \<le> length (?a # ?l @ ?b)"
    using l(1) by (cases ?l; simp)+
  have fl: "frame_length (?a # ?l @ ?b) (hd ?l) n = Inr (Some (length (payload f), 1 + length ?l))"
    using assms by (intro frame_length_bytes) (simp add: frame_ok_def)
  have bl: "frame_body (?a # ?l @ ?b) (fin f) (opcode f) (mask f \<noteq> None) (length (payload f)) (1 + length ?l)
    = Some (f, length (frame_encode f))"
    using frame_body_encode [of "?a # ?l" "1 + length ?l" f]
    by (simp add: e apply_mask_bytes split: option.splits)
  note hd = header_first_byte [of "fin f" "opcode f"]
  show ?thesis
    unfolding frame_decode_def e Let_def nth hd l(2) from_bits_bits and_then_simps fl
    using nth(3) l(1) frame_ok_checks [OF assms] bl [unfolded e] by simp
qed

lemma frame_length_canonical:
  assumes "frame_length bs (bs ! 1) n = Inr (Some (len, cursor))" and "2 \<le> length bs"
  shows "take (cursor - 1) (drop 1 bs) = length_bytes (bs ! 1 AND 0x80 \<noteq> 0) len"
    and "2 \<le> cursor" and "cursor \<le> length bs" and "len < 2 ^ 63"
proof -
  obtain a b cs where bs: "bs = a # b # cs" using assms(2) by (cases bs; cases "tl bs") auto
  note d = assms(1) [unfolded bs frame_length_def Let_def]
  note sp = length_byte_split [of b]
  consider "b AND 0x7f = 126" | "b AND 0x7f = 127" | "b AND 0x7f \<noteq> 126" "b AND 0x7f \<noteq> 127" by blast
  then have "take (cursor - 1) (drop 1 bs) = length_bytes (bs ! 1 AND 0x80 \<noteq> 0) len \<and>
    2 \<le> cursor \<and> cursor \<le> length bs \<and> len < 2 ^ 63"
  proof cases
    case 1
    then obtain x y zs where cs: "cs = x # y # zs" using d
      by (cases cs; cases "tl cs") (auto split: if_splits)
    have "len = be_val [x, y]" "126 \<le> len" "cursor = 4"
      using d 1 cs by (auto split: if_splits)
    moreover have "be_val [x, y] \<le> 0xFFFF" using be_val_less [of "[x, y]"] by simp
    moreover have "be_bytes 2 (be_val [x, y]) = [x, y]" by (simp add: be_bytes_be_val)
    ultimately show ?thesis
      using sp [unfolded 1] by (simp add: length_bytes_def Let_def bs cs)
  next
    case 2
    then have v: "8 \<le> length cs" "len = be_val (take 8 cs)" "0xFFFF < len" "cursor = 10" "len < 2 ^ 63"
      using d by (auto split: if_splits)
    then have "be_bytes 8 len = take 8 cs" by (simp add: be_bytes_be_val)
    with v show ?thesis
      using sp [unfolded 2] by (simp add: length_bytes_def Let_def bs)
  next
    case 3
    then have v: "len = unat (b AND 0x7f)" "cursor = 2" using d by (auto split: if_splits)
    have "b AND 0x7f \<le> 0x7f" by (rule word_and_le1)
    then have "len \<le> 127" unfolding v by (simp add: word_le_nat_alt)
    moreover have "len \<noteq> 126" "len \<noteq> 127"
      using 3 unfolding v by (auto simp: word_unat_eq_iff)
    ultimately show ?thesis
      using sp by (simp add: length_bytes_def Let_def bs v)
  qed
  then show "take (cursor - 1) (drop 1 bs) = length_bytes (bs ! 1 AND 0x80 \<noteq> 0) len"
    and "2 \<le> cursor" and "cursor \<le> length bs" and "len < 2 ^ 63" by blast+
qed

lemma take_4: "length xs \<ge> c + 4 \<Longrightarrow> take (4 + l) (drop c xs) = xs ! c # xs ! (c + 1) # xs ! (c + 2) # xs ! (c + 3) # take l (drop (c + 4) xs)"
  by (simp add: Cons_nth_drop_Suc [symmetric] numeral_eq_Suc)

lemma frame_body_canonical:
  assumes "frame_body bs b op m len cursor = Some (f, used)" and "cursor \<le> length bs"
  shows "take (used - cursor) (drop cursor bs) =
      (case mask f of Some k \<Rightarrow> mask_bytes k @ apply_mask (payload f) k | None \<Rightarrow> payload f)"
    and "fin f = b" and "opcode f = op" and "mask f \<noteq> None \<longleftrightarrow> m" and "length (payload f) = len"
    and "cursor \<le> used"
  using assms take_4 [of cursor bs len]
  by (auto simp: frame_body_def Let_def mask_bytes_def split: if_splits)

lemma frame_decode_canonical:
  assumes "frame_decode role n bs = Inr (Some (f, used))"
  shows "frame_encode f = take used bs" and "frame_ok role n f"
proof -
  obtain op len cursor where d: "2 \<le> length bs" "bs ! 0 AND 0x70 = 0"
    "from_bits (bs ! 0 AND 0x0f) = Inr op"
    "frame_length bs (bs ! 1) n = Inr (Some (len, cursor))"
    "frame_checks (bs ! 0 AND 0x80 \<noteq> 0) op (bs ! 1 AND 0x80 \<noteq> 0) len role n = None"
    "frame_body bs (bs ! 0 AND 0x80 \<noteq> 0) op (bs ! 1 AND 0x80 \<noteq> 0) len cursor = Some (f, used)"
    using assms by (rule frame_decode_SomeE)
  note fl = frame_length_canonical [OF d(4,1)]
  note fb = frame_body_canonical [OF d(6) fl(3)]
  have first: "(if fin f then 0x80 else 0) OR bits (opcode f) = bs ! 0"
    using first_byte_split [OF d(2)] from_bits_Inr [OF d(3)] fb(2,3) by simp
  have "frame_encode f = bs ! 0 # take (cursor - 1) (drop 1 bs) @ take (used - cursor) (drop cursor bs)"
    unfolding frame_encode_alt first fb(1) fb(4) fb(5) fl(1) by simp
  also have "\<dots> = take cursor bs @ take (used - cursor) (drop cursor bs)"
    using fl(2) d(1) by (cases bs; cases cursor) auto
  also have "\<dots> = take used bs"
    using fb(6) by (simp flip: take_add)
  finally show "frame_encode f = take used bs" .
  show "frame_ok role n f"
    using d(5) fb fl(4) by (cases role) (auto simp: frame_ok_def frame_checks_def split: if_splits)
qed

subsection \<open>The codec as an interface\<close>

interpretation ws_codec: prefix_codec "frame_decode role n" frame_encode "frame_ok role n"
  for role n
  by unfold_locales
    (auto intro: frame_decode_more frame_decode_error_more frame_decode_encode dest: frame_decode_bounds)

subsection \<open>Properties\<close>

text \<open>
  C11: a frame that a peer may send is decoded back exactly, with exactly its own bytes taken off
  the front of the buffer, whatever follows it: the three length forms, the mask and the
  payload all survive.
\<close>

theorem ws_frame_roundtrip:
  "frame_ok role n f \<Longrightarrow>
   frame_decode role n (frame_encode f @ rest) = Inr (Some (f, length (frame_encode f)))"
  by (rule ws_codec.dec_enc_more)

theorem ws_frame_roundtrip_witness:
  "frame_decode Server 300 (frame_encode (client_frame Binary (replicate 200 7) (1, 2, 3, 4)) @ [9]) =
     Inr (Some (client_frame Binary (replicate 200 7) (1, 2, 3, 4),
       length (frame_encode (client_frame Binary (replicate 200 7) (1, 2, 3, 4)))))"
  by (rule ws_frame_roundtrip) (simp add: frame_ok_def client_frame_def is_control_def)

text \<open>
  C12: the decoder accepts nothing but encodings.  When it returns a frame, the bytes it consumed
  are the encoding of that frame, so the length was in its shortest form and no bit of the header
  was dropped, and the frame obeys the rules for its direction, its size and control frames.
\<close>

theorem ws_frame_canonical:
  "frame_decode role n bs = Inr (Some (f, used)) \<Longrightarrow>
   frame_encode f = take used bs \<and> frame_ok role n f"
  using frame_decode_canonical by blast

theorem ws_frame_canonical_witness:
  "frame_encode (server_frame Text [0x48]) = take 3 [0x81, 0x01, 0x48, 0x99] \<and>
   frame_ok Client 10 (server_frame Text [0x48])"
  by (rule ws_frame_canonical)
    (simp add: frame_decode_def frame_length_def frame_checks_def frame_body_def from_bits_def
      is_control_def server_frame_def Let_def)

text \<open>
  how the network cuts the stream does not matter: for any bytes at all, reading them in any
  chunks gives the frames, the protocol error and the unread rest that reading them at once gives.
\<close>

theorem ws_chunking_irrelevant:
  "feed (frame_decode role n) [] cs = drain (frame_decode role n) (concat cs)"
  by (simp add: ws_codec.feed_concat)

text \<open>
  a close frame always fits in a control frame, and a sendable one is parsed back with its code
  and with the longest part of its reason, up to 123 bytes, that ends on a character boundary
  (the whole reason, when it has at most 123 bytes).
\<close>

theorem ws_close_payload:
  assumes "is_sendable (code c)" and "utf8_valid (reason c)"
  shows "\<exists>e. close_parse (to_payload c) = Inr (Some (c\<lparr>reason := take e (reason c)\<rparr>)) \<and>
    is_char_boundary (reason c) e \<and> e \<le> 123 \<and> length (to_payload c) \<le> 125 \<and>
    (\<forall>i. is_char_boundary (reason c) i \<and> i \<le> 123 \<longrightarrow> i \<le> e)"
proof (intro exI conjI allI impI)
  let ?e = "boundary_below (reason c) (min (length (reason c)) 123)"
  show "close_parse (to_payload c) = Inr (Some (c\<lparr>reason := take ?e (reason c)\<rparr>))"
    by (rule close_parse_to_payload [OF assms])
  show "is_char_boundary (reason c) ?e" by (rule boundary_below_boundary)
  show "?e \<le> 123" using boundary_below_le [of "reason c" "min (length (reason c)) 123"] by simp
  show "length (to_payload c) \<le> 125" by (rule length_to_payload)
  show "i \<le> ?e" if "is_char_boundary (reason c) i \<and> i \<le> 123" for i
    using that by (intro boundary_below_greatest) (auto simp: is_char_boundary_def)
qed

theorem ws_close_payload_witness:
  "\<exists>e. close_parse (to_payload \<lparr>code = 1000, reason = [0x62]\<rparr>) =
       Inr (Some (\<lparr>code = 1000, reason = [0x62]\<rparr>\<lparr>reason := take e [0x62]\<rparr>)) \<and>
    is_char_boundary [0x62] e \<and> e \<le> 123 \<and>
    length (to_payload \<lparr>code = 1000, reason = [0x62]\<rparr>) \<le> 125 \<and>
    (\<forall>i. is_char_boundary [0x62] i \<and> i \<le> 123 \<longrightarrow> i \<le> e)"
  using ws_close_payload [of "\<lparr>code = 1000, reason = [0x62]\<rparr>"]
  by (simp add: is_sendable_def utf8_valid.simps)

end
