(* ===== verification/WsConnection.thy ===== *)
theory WsConnection
  imports WsFrame
begin

section \<open>A WebSocket connection\<close>

text \<open>
  \<open>rustlavel-ws/src/message.rs\<close>, \<open>error.rs\<close> and \<open>connection.rs\<close>: the receive loop, its
  answers to control frames, reassembly of fragmented messages, and the close handshake.

  What the operating system and the runtime do is an argument, a list of \<open>read_event\<close>s: a
  read that returns bytes (none of them at the end of the stream), a read that fails, the idle
  timer, and the writer task going away (after which the outgoing queue refuses messages).  A
  call that runs out of events is still waiting.  The outgoing queue is the list of messages
  handed to the writer task so far; waiting for room in it is not modelled.
\<close>

unbundle bit_operations_syntax

subsection \<open>Messages\<close>

datatype Message =
    Text "byte list"
  | Binary "byte list"
  | Ping "byte list"
  | Pong "byte list"
  | Close "CloseFrame option"

fun into_frame :: "Message \<Rightarrow> Frame" where
  "into_frame (Message.Text body) = server_frame OpCode.Text body"
| "into_frame (Message.Binary bytes) = server_frame OpCode.Binary bytes"
| "into_frame (Message.Ping bytes) = server_frame OpCode.Ping bytes"
| "into_frame (Message.Pong bytes) = server_frame OpCode.Pong bytes"
| "into_frame (Message.Close c) =
     server_frame OpCode.Close (case c of Some close \<Rightarrow> to_payload close | None \<Rightarrow> [])"

text \<open>The \<open>{other:?}\<close> of an opcode.\<close>

fun opcode_debug :: "OpCode \<Rightarrow> string" where
  "opcode_debug Continuation = ''Continuation''"
| "opcode_debug OpCode.Text = ''Text''"
| "opcode_debug OpCode.Binary = ''Binary''"
| "opcode_debug OpCode.Close = ''Close''"
| "opcode_debug OpCode.Ping = ''Ping''"
| "opcode_debug OpCode.Pong = ''Pong''"

definition from_data :: "OpCode \<Rightarrow> byte list \<Rightarrow> WsError + Message" where
  "from_data op p =
     (case op of
        OpCode.Text \<Rightarrow> if utf8_valid p then Inr (Message.Text p) else Inl InvalidUtf8
      | OpCode.Binary \<Rightarrow> Inr (Message.Binary p)
      | other \<Rightarrow> Inl (Protocol (opcode_debug other @ '' is not a data frame'')))"

fun as_bytes :: "Message \<Rightarrow> byte list" where
  "as_bytes (Message.Text body) = body"
| "as_bytes (Message.Binary bytes) = bytes"
| "as_bytes (Message.Ping bytes) = bytes"
| "as_bytes (Message.Pong bytes) = bytes"
| "as_bytes (Message.Close _) = []"

fun is_data :: "Message \<Rightarrow> bool" where
  "is_data (Message.Text _) = True"
| "is_data (Message.Binary _) = True"
| "is_data _ = False"

subsection \<open>Errors\<close>

fun close_code :: "WsError \<Rightarrow> CloseCode" where
  "close_code (Protocol _) = PROTOCOL_ERROR"
| "close_code (TooLarge _ _) = TOO_LARGE"
| "close_code InvalidUtf8 = INVALID_PAYLOAD"
| "close_code Idle = GOING_AWAY"
| "close_code Full = POLICY"
| "close_code Closed = ABNORMAL"
| "close_code Io = ABNORMAL"

text \<open>\<open>Display for WsError\<close>; the text of an I/O error is the operating system's, \<open>os\<close>.\<close>

fun ws_display :: "byte list \<Rightarrow> WsError \<Rightarrow> byte list" where
  "ws_display os (Protocol m) = utf8 (''websocket protocol error: '' @ m)"
| "ws_display os (TooLarge sz limit) =
     utf8 (''message of '' @ show_nat sz @ '' bytes exceeds the '' @ show_nat limit @ '' byte limit'')"
| "ws_display os InvalidUtf8 = utf8 ''text frame payload was not valid UTF-8''"
| "ws_display os Idle = utf8 ''peer stopped answering pings''"
| "ws_display os Full = utf8 ''peer is not reading fast enough''"
| "ws_display os Closed = utf8 ''the connection is closed''"
| "ws_display os Io = utf8 ''websocket i/o failed: '' @ os"

subsection \<open>Text that is still arriving\<close>

text \<open>
  What \<open>std::str::from_utf8\<close> reports of a byte string: \<open>valid_up_to\<close>, the length of the
  longest prefix made of whole characters, and whether the rest is only an unfinished
  character (\<open>error_len()\<close> is \<open>None\<close>).
\<close>

function valid_up_to :: "byte list \<Rightarrow> nat" where
  "valid_up_to bs =
     (case utf8_head bs of None \<Rightarrow> 0 | Some n \<Rightarrow> n + valid_up_to (drop n bs))"
  by pat_completeness auto
termination
proof (relation "measure length")
  fix bs n assume "utf8_head bs = Some n"
  then show "(drop n bs, bs) \<in> measure length" using utf8_head_pos [of bs n] by auto
qed simp

declare valid_up_to.simps [simp del]

definition second_ok :: "byte \<Rightarrow> byte \<Rightarrow> bool" where
  "second_ok a b \<longleftrightarrow> is_cont b \<and>
     (a = 0xE0 \<longrightarrow> 0xA0 \<le> b) \<and> (a = 0xED \<longrightarrow> b \<le> 0x9F) \<and>
     (a = 0xF0 \<longrightarrow> 0x90 \<le> b) \<and> (a = 0xF4 \<longrightarrow> b \<le> 0x8F)"

fun utf8_unfinished :: "byte list \<Rightarrow> bool" where
  "utf8_unfinished [a] \<longleftrightarrow> 0xC2 \<le> a \<and> a \<le> 0xF4"
| "utf8_unfinished [a, b] \<longleftrightarrow> 0xE0 \<le> a \<and> a \<le> 0xF4 \<and> second_ok a b"
| "utf8_unfinished [a, b, c] \<longleftrightarrow> 0xF0 \<le> a \<and> a \<le> 0xF4 \<and> second_ok a b \<and> is_cont c"
| "utf8_unfinished _ \<longleftrightarrow> False"

text \<open>The answer, and the new value of \<open>*checked\<close>.\<close>

definition text_so_far_is_valid :: "byte list \<Rightarrow> nat \<Rightarrow> bool \<times> nat" where
  "text_so_far_is_valid bytes checked =
     (let tail = drop checked bytes; n = valid_up_to tail in
      if utf8_valid tail then (True, length bytes)
      else if utf8_unfinished (drop n tail) then (True, checked + n)
      else (False, checked))"

subsection \<open>State\<close>

record WebSocketConfig =
  max_message_size :: nat
  max_frame_size :: nat
  idle_timeout :: "nat option"

record WebSocket =
  buffer :: "byte list"
  outgoing :: "Message list"
  writer_gone :: bool
  config :: WebSocketConfig
  partial :: "(OpCode \<times> byte list \<times> nat) option"
  awaiting_pong :: bool
  closed :: bool
  close_frame :: "CloseFrame option"
  received :: u64

definition default_config :: WebSocketConfig where
  "default_config = \<lparr>max_message_size = 2 ^ 20, max_frame_size = 2 ^ 20, idle_timeout = Some 60\<rparr>"

definition new_socket :: "byte list \<Rightarrow> WebSocketConfig \<Rightarrow> WebSocket" where
  "new_socket buffered cfg =
     \<lparr>buffer = buffered, outgoing = [], writer_gone = False, config = cfg, partial = None,
      awaiting_pong = False, closed = False, close_frame = None, received = 0\<rparr>"

datatype read_event = Data "byte list" | Failed | Elapsed | WriterGone

subsection \<open>Operations\<close>

text \<open>\<open>Sender::send\<close> on the connection's queue.\<close>

definition queue_send :: "Message \<Rightarrow> WebSocket \<Rightarrow> WsError option \<times> WebSocket" where
  "queue_send m ws =
     (if writer_gone ws then (Some Closed, ws) else (None, ws\<lparr>outgoing := outgoing ws @ [m]\<rparr>))"

definition ws_send :: "Message \<Rightarrow> WebSocket \<Rightarrow> WsError option \<times> WebSocket" where
  "ws_send m ws = (if closed ws then (Some Closed, ws) else queue_send m ws)"

definition mark_closed :: "CloseFrame option \<Rightarrow> WebSocket \<Rightarrow> WebSocket" where
  "mark_closed c ws =
     (let ws1 = ws\<lparr>closed := True\<rparr> in
      if close_frame ws1 = None then ws1\<lparr>close_frame := c\<rparr> else ws1)"

definition ws_fail :: "byte list \<Rightarrow> WsError \<Rightarrow> WebSocket \<Rightarrow> WebSocket" where
  "ws_fail os e ws =
     (let c = \<lparr>code = close_code e, reason = ws_display os e\<rparr>;
          ws1 = snd (queue_send (Message.Close (Some c)) ws)
      in mark_closed (Some c) ws1)"

definition deliver ::
  "byte list \<Rightarrow> OpCode \<Rightarrow> byte list \<Rightarrow> WebSocket \<Rightarrow> Message option \<times> WebSocket" where
  "deliver os op p ws =
     (case from_data op p of
        Inr m \<Rightarrow> (Some m, ws\<lparr>received := received ws + 1\<rparr>)
      | Inl e \<Rightarrow> (None, ws_fail os e ws))"

datatype read_result = Ready "WsError + Frame option" | TimedOut | Pending

fun read_frame :: "WebSocket \<Rightarrow> read_event list \<Rightarrow> read_result \<times> WebSocket \<times> read_event list" where
  "read_frame ws evs =
     (case frame_decode Server (max_frame_size (config ws)) (buffer ws) of
        Inl e \<Rightarrow> (Ready (Inl e), ws, evs)
      | Inr (Some (f, used)) \<Rightarrow>
          (Ready (Inr (Some f)), ws\<lparr>buffer := drop used (buffer ws)\<rparr>, evs)
      | Inr None \<Rightarrow>
          (case evs of
             [] \<Rightarrow> (Pending, ws, [])
           | Data chunk # rest \<Rightarrow>
               (if chunk = [] then (Ready (Inr None), ws, rest)
                else read_frame (ws\<lparr>buffer := buffer ws @ chunk\<rparr>) rest)
           | Failed # rest \<Rightarrow> (Ready (Inl Io), ws, rest)
           | Elapsed # rest \<Rightarrow> (TimedOut, ws, rest)
           | WriterGone # rest \<Rightarrow> read_frame (ws\<lparr>writer_gone := True\<rparr>) rest))"

declare read_frame.simps [simp del]

lemma read_frame_step:
  "read_frame ws [] =
     (case frame_decode Server (max_frame_size (config ws)) (buffer ws) of
        Inl e \<Rightarrow> (Ready (Inl e), ws, [])
      | Inr (Some (f, used)) \<Rightarrow> (Ready (Inr (Some f)), ws\<lparr>buffer := drop used (buffer ws)\<rparr>, [])
      | Inr None \<Rightarrow> (Pending, ws, []))"
  "frame_decode Server (max_frame_size (config ws)) (buffer ws) = Inr None \<Longrightarrow>
   read_frame ws (e # rest) =
     (case e of
        Data chunk \<Rightarrow>
          if chunk = [] then (Ready (Inr None), ws, rest)
          else read_frame (ws\<lparr>buffer := buffer ws @ chunk\<rparr>) rest
      | Failed \<Rightarrow> (Ready (Inl Io), ws, rest)
      | Elapsed \<Rightarrow> (TimedOut, ws, rest)
      | WriterGone \<Rightarrow> read_frame (ws\<lparr>writer_gone := True\<rparr>) rest)"
  "frame_decode Server (max_frame_size (config ws)) (buffer ws) = Inr (Some (f, used)) \<Longrightarrow>
   read_frame ws evs = (Ready (Inr (Some f)), ws\<lparr>buffer := drop used (buffer ws)\<rparr>, evs)"
  "frame_decode Server (max_frame_size (config ws)) (buffer ws) = Inl err \<Longrightarrow>
   read_frame ws evs = (Ready (Inl err), ws, evs)"
  by (simp_all add: read_frame.simps [of ws] split: read_event.split option.split sum.split)

text \<open>What a read leaves alone, and the progress it makes through events and bytes.\<close>

definition event_size :: "read_event \<Rightarrow> nat" where
  "event_size e = (case e of Data chunk \<Rightarrow> Suc (length chunk) | _ \<Rightarrow> 1)"

definition todo :: "WebSocket \<Rightarrow> read_event list \<Rightarrow> nat" where
  "todo ws evs = length (buffer ws) + sum_list (map event_size evs)"

lemma read_frame_todo:
  assumes "read_frame ws evs = (r, ws', evs')"
  shows "todo ws' evs' + (if r = TimedOut \<or> (\<exists>f. r = Ready (Inr (Some f))) then 1 else 0) \<le> todo ws evs"
  using assms
proof (induction evs arbitrary: ws)
  case Nil
  then show ?case
    by (auto simp: read_frame_step todo_def dest: frame_decode_bounds
        split: sum.splits option.splits)
next
  case (Cons e evs)
  consider err where "frame_decode Server (max_frame_size (config ws)) (buffer ws) = Inl err"
    | f used where "frame_decode Server (max_frame_size (config ws)) (buffer ws) = Inr (Some (f, used))"
    | "frame_decode Server (max_frame_size (config ws)) (buffer ws) = Inr None"
    by (metis old.prod.exhaust option.exhaust sumE)
  then show ?case
  proof cases
    case 1
    with Cons.prems show ?thesis by (auto simp: read_frame_step)
  next
    case 2
    with Cons.prems frame_decode_bounds [OF 2] show ?thesis
      by (auto simp: read_frame_step todo_def)
  next
    case 3
    show ?thesis
      using Cons.prems Cons.IH
      by (cases e) (fastforce simp: read_frame_step(2) [OF 3] todo_def event_size_def split: if_splits)+
  qed
qed

lemma read_frame_timeout: "(TimedOut, ws', rest) = read_frame ws evs \<Longrightarrow> todo ws' rest < todo ws evs"
  using read_frame_todo [of ws evs TimedOut ws' rest] by simp

lemma queue_send_todo: "(r, ws') = queue_send m ws \<Longrightarrow> todo ws' = todo ws"
  by (auto simp: queue_send_def todo_def fun_eq_iff split: if_splits)

lemma todo_pong: "todo (ws\<lparr>awaiting_pong := b\<rparr>) evs = todo ws evs"
  by (simp add: todo_def)

text \<open>
  With no idle timeout there is no timer, so an \<open>Elapsed\<close> is skipped.  A cancelled read keeps
  the bytes it has in the buffer.
\<close>

function next_frame :: "WebSocket \<Rightarrow> read_event list \<Rightarrow> read_result \<times> WebSocket \<times> read_event list" where
  "next_frame ws evs =
     (case read_frame ws evs of
        (TimedOut, ws1, rest) \<Rightarrow>
          (if idle_timeout (config ws) = None then next_frame ws1 rest
           else if awaiting_pong ws1 then (Ready (Inl Idle), ws1, rest)
           else
             (case queue_send (Message.Ping []) (ws1\<lparr>awaiting_pong := True\<rparr>) of
                (Some _, ws2) \<Rightarrow> (Ready (Inr None), ws2, rest)
              | (None, ws2) \<Rightarrow> next_frame ws2 rest))
      | r \<Rightarrow> r)"
  by pat_completeness auto
termination
  by (relation "measure (\<lambda>(ws, evs). todo ws evs)")
    (auto dest!: read_frame_timeout queue_send_todo simp: todo_pong)

declare next_frame.simps [simp del]

text \<open>What the body of the loop in \<open>recv\<close> does with one frame: go round again, or return.\<close>

datatype step = Again | Return "Message option"

definition on_frame :: "byte list \<Rightarrow> Frame \<Rightarrow> WebSocket \<Rightarrow> step \<times> WebSocket" where
  "on_frame os f ws0 =
     (let ws = ws0\<lparr>awaiting_pong := False\<rparr> in
      case opcode f of
        OpCode.Ping \<Rightarrow>
          (case queue_send (Message.Pong (payload f)) ws of
             (Some _, ws1) \<Rightarrow>
               (Return None, mark_closed (Some \<lparr>code = ABNORMAL, reason = []\<rparr>) ws1)
           | (None, ws1) \<Rightarrow> (Again, ws1))
      | OpCode.Pong \<Rightarrow> (Again, ws)
      | OpCode.Close \<Rightarrow>
          (case close_parse (payload f) of
             Inl e \<Rightarrow> (Return None, ws_fail os e ws)
           | Inr peer \<Rightarrow>
               (let echo = (case peer of Some c \<Rightarrow> c | None \<Rightarrow> \<lparr>code = NORMAL, reason = []\<rparr>);
                    ws1 = snd (queue_send (Message.Close (Some echo)) ws)
                in (Return None,
                    mark_closed (case peer of Some c \<Rightarrow> Some c
                                 | None \<Rightarrow> Some \<lparr>code = NO_STATUS, reason = []\<rparr>) ws1)))
      | Continuation \<Rightarrow>
          (case partial ws of
             None \<Rightarrow>
               (Return None, ws_fail os
                 (Protocol ''a continuation frame arrived with no message to continue'') ws)
           | Some (op, assembled, checked) \<Rightarrow>
               (let ws1 = ws\<lparr>partial := None\<rparr>; total = length assembled + length (payload f) in
                if max_message_size (config ws1) < total then
                  (Return None, ws_fail os (TooLarge total (max_message_size (config ws1))) ws1)
                else
                  let all = assembled @ payload f in
                  if fin f then apfst Return (deliver os op all ws1)
                  else
                    let (ok, checked') =
                          (if op = OpCode.Text then text_so_far_is_valid all checked
                           else (True, checked))
                    in if \<not> ok then (Return None, ws_fail os InvalidUtf8 ws1)
                       else (Again, ws1\<lparr>partial := Some (op, all, checked')\<rparr>)))
      | op \<Rightarrow>
          (if partial ws \<noteq> None then
             (Return None, ws_fail os (Protocol
               ''a new data frame arrived while a fragmented message was still open'') ws)
           else if fin f then apfst Return (deliver os op (payload f) ws)
           else
             let (ok, checked) =
                   (if op = OpCode.Text then text_so_far_is_valid (payload f) 0 else (True, 0))
             in if \<not> ok then (Return None, ws_fail os InvalidUtf8 ws)
                else (Again, ws\<lparr>partial := Some (op, payload f, checked)\<rparr>)))"

lemma next_frame_todo:
  "next_frame ws evs = (Ready (Inr (Some f)), ws', evs') \<Longrightarrow> todo ws' evs' < todo ws evs"
proof (induction ws evs rule: next_frame.induct)
  case (1 ws evs)
  obtain r ws1 rest where r: "read_frame ws evs = (r, ws1, rest)" by (cases "read_frame ws evs")
  show ?case
  proof (cases r)
    case TimedOut
    note t = read_frame_timeout [OF r [symmetric, unfolded TimedOut]]
    show ?thesis
    proof (cases "idle_timeout (config ws)")
      case None
      with 1 r TimedOut t show ?thesis by (fastforce simp: next_frame.simps [of ws evs])
    next
      case (Some n)
      note n = "1.prems" [unfolded next_frame.simps [of ws evs]]
      obtain q ws2 where q: "queue_send (Message.Ping []) (ws1\<lparr>awaiting_pong := True\<rparr>) = (q, ws2)"
        by fastforce
      have "todo ws2 rest = todo ws1 rest"
        using queue_send_todo [OF q [symmetric]] by (simp add: todo_pong)
      moreover have "next_frame ws2 rest = (Ready (Inr (Some f)), ws', evs')" "q = None"
        "\<not> awaiting_pong ws1"
        using n r TimedOut Some q by (auto split: if_splits option.splits)
      ultimately show ?thesis
        using "1.IH"(2) [OF r [symmetric]] r TimedOut Some q t by fastforce
    qed
  qed (use 1 r read_frame_todo [OF r] in \<open>auto simp: next_frame.simps [of ws evs]\<close>)
qed

lemma on_frame_buffer:
  "on_frame os f ws = (r, ws') \<Longrightarrow> buffer ws' = buffer ws"
  by (auto simp: on_frame_def deliver_def ws_fail_def mark_closed_def queue_send_def Let_def
      split: OpCode.splits option.splits sum.splits if_splits prod.splits)

lemma recv_step_todo:
  "(Ready (Inr (Some f)), ws1, rest) = next_frame ws evs \<Longrightarrow> (r, ws2) = on_frame os f ws1 \<Longrightarrow>
   todo ws2 rest < todo ws evs"
  using next_frame_todo [of ws evs f ws1 rest] on_frame_buffer [of os f ws1 r ws2]
  by (simp add: todo_def)

datatype recv_result = Returned "Message option" | Waiting

function recv :: "byte list \<Rightarrow> WebSocket \<Rightarrow> read_event list \<Rightarrow> recv_result \<times> WebSocket \<times> read_event list" where
  "recv os ws evs =
     (if closed ws then (Returned None, ws, evs)
      else
        case next_frame ws evs of
          (Ready (Inr (Some f)), ws1, rest) \<Rightarrow>
            (case on_frame os f ws1 of
               (Again, ws2) \<Rightarrow> recv os ws2 rest
             | (Return m, ws2) \<Rightarrow> (Returned m, ws2, rest))
        | (Ready (Inr None), ws1, rest) \<Rightarrow>
            (Returned None, mark_closed (Some \<lparr>code = ABNORMAL, reason = []\<rparr>) ws1, rest)
        | (Ready (Inl e), ws1, rest) \<Rightarrow> (Returned None, ws_fail os e ws1, rest)
        | (_, ws1, rest) \<Rightarrow> (Waiting, ws1, rest))"
  by pat_completeness auto
termination
  by (relation "measure (\<lambda>(os, ws, evs). todo ws evs)") (auto dest: recv_step_todo)

declare recv.simps [simp del]

text \<open>
  The close handshake.  The timer of \<open>close_timeout\<close> is the \<open>Elapsed\<close> event here: the drain is
  abandoned and has found nothing.
\<close>

function drain_until_close :: "WebSocket \<Rightarrow> read_event list \<Rightarrow> CloseFrame option \<times> WebSocket \<times> read_event list" where
  "drain_until_close ws evs =
     (case read_frame ws evs of
        (Ready (Inr (Some f)), ws1, rest) \<Rightarrow>
          (if opcode f = OpCode.Close then
             ((case close_parse (payload f) of Inr c \<Rightarrow> c | Inl _ \<Rightarrow> None), ws1, rest)
           else drain_until_close ws1 rest)
      | (_, ws1, rest) \<Rightarrow> (None, ws1, rest))"
  by pat_completeness auto
termination
  by (relation "measure (\<lambda>(ws, evs). todo ws evs)")
    (auto dest!: read_frame_todo [OF sym])

declare drain_until_close.simps [simp del]

definition ws_close :: "CloseCode \<Rightarrow> byte list \<Rightarrow> WebSocket \<Rightarrow> read_event list \<Rightarrow> WebSocket \<times> read_event list" where
  "ws_close c why ws evs =
     (if closed ws then (ws, evs)
      else
        let close = \<lparr>code = c, reason = why\<rparr> in
        case queue_send (Message.Close (Some close)) ws of
          (Some _, ws1) \<Rightarrow> (mark_closed (Some close) ws1, evs)
        | (None, ws1) \<Rightarrow>
            (case drain_until_close ws1 evs of
               (peer, ws2, rest) \<Rightarrow>
                 (mark_closed (case peer of Some p \<Rightarrow> Some p | None \<Rightarrow> Some close) ws2, rest)))"

subsection \<open>Unfinished text\<close>

lemma utf8_head_append: "utf8_head bs = Some n \<Longrightarrow> utf8_head (bs @ ys) = Some n"
  by (cases bs) (auto split: if_splits list.splits)

lemma utf8_head_lead:
  "utf8_head (a # bs) = Some m \<Longrightarrow> \<not> a < 0x80 \<Longrightarrow> 0xC2 \<le> a \<and> a \<le> 0xF4"
  by (simp add: word_le_nat_alt split: if_splits list.splits)

lemma utf8_head_lead2:
  "utf8_head (a # b # cs) = Some m \<Longrightarrow> utf8_head [a, b] = None \<Longrightarrow>
   0xE0 \<le> a \<and> a \<le> 0xF4 \<and> second_ok a b"
  by (simp add: second_ok_def split: if_splits list.splits) (auto simp: word_le_nat_alt)

lemma utf8_head_lead3:
  "utf8_head (a # b # c # ds) = Some m \<Longrightarrow> utf8_head [a, b, c] = None \<Longrightarrow>
   0xF0 \<le> a \<and> a \<le> 0xF4 \<and> second_ok a b \<and> is_cont c"
  by (simp add: second_ok_def split: if_splits list.splits) (auto simp: word_le_nat_alt)

lemma utf8_head_four: "utf8_head (a # b # c # d # es) = utf8_head [a, b, c, d]"
  by simp

lemma utf8_head_unfinished:
  assumes "utf8_head bs = None" and "bs \<noteq> []" and "utf8_head (bs @ ys) = Some m"
  shows "utf8_unfinished bs"
proof -
  consider a where "bs = [a]" | a b where "bs = [a, b]" | a b c where "bs = [a, b, c]"
    | a b c d es where "bs = a # b # c # d # es"
    using assms(2) by (cases bs rule: utf8_unfinished.cases) auto
  then show ?thesis
  proof cases
    case (1 a)
    have "\<not> a < 0x80" using assms(1) 1 by auto
    with utf8_head_lead [of a ys m] assms(3) 1 show ?thesis by (simp del: utf8_head.simps)
  next
    case (2 a b)
    with utf8_head_lead2 [of a b ys m] assms show ?thesis by (simp del: utf8_head.simps)
  next
    case (3 a b c)
    with utf8_head_lead3 [of a b c ys m] assms show ?thesis by (simp del: utf8_head.simps)
  next
    case (4 a b c d es)
    with assms utf8_head_four [of a b c d es] utf8_head_four [of a b c d "es @ ys"]
    show ?thesis by (simp del: utf8_head.simps)
  qed
qed

lemma utf8_valid_append:
  "utf8_valid as \<Longrightarrow> utf8_valid (as @ bs) \<longleftrightarrow> utf8_valid bs"
proof (induction as rule: utf8_valid.induct)
  case (1 as)
  show ?case
  proof (cases "as = []")
    case False
    then obtain n where n: "utf8_head as = Some n" "utf8_valid (drop n as)"
      using "1.prems" by (auto simp: utf8_valid_step)
    have "utf8_head (as @ bs) = Some n" using utf8_head_append [OF n(1)] .
    with n False "1.IH" utf8_head_pos [OF n(1)] show ?thesis
      by (simp add: utf8_valid_step [of "as @ bs"])
  qed simp
qed

lemma utf8_valid_prefix:
  "utf8_valid (t @ ys) \<Longrightarrow>
   utf8_valid (take (valid_up_to t) t) \<and> valid_up_to t \<le> length t \<and>
   (utf8_valid t \<or> utf8_unfinished (drop (valid_up_to t) t))"
proof (induction t rule: valid_up_to.induct)
  case (1 t)
  show ?case
  proof (cases "utf8_head t")
    case None
    then show ?thesis
      using "1.prems" utf8_head_unfinished [OF None, of ys]
      by (cases "t = []") (auto simp: valid_up_to.simps [of t] valid_up_to.simps [of "[]"] utf8_valid_step)
  next
    case (Some n)
    note len = utf8_head_pos [OF Some]
    have ne: "t \<noteq> []" using Some by auto
    have "utf8_valid (drop n t @ ys)"
      using "1.prems" ne utf8_head_append [OF Some, of ys] len
      by (auto simp: utf8_valid_step [of "t @ ys"])
    note IH = "1.IH" [OF Some this]
    have v: "valid_up_to t = n + valid_up_to (drop n t)"
      using Some by (simp add: valid_up_to.simps [of t])
    have "utf8_valid (take (n + valid_up_to (drop n t)) t)"
      using IH ne len utf8_head_take [OF Some, of "n + valid_up_to (drop n t)"]
      by (subst utf8_valid_step) (auto simp: drop_take)
    with IH ne Some len show ?thesis
      unfolding v by (auto simp: utf8_valid_step [of t] add.commute)
  qed
qed

text \<open>Text that can still become valid is never refused, and what was checked is whole text.\<close>

lemma text_so_far_completable:
  assumes "utf8_valid (bs @ ys)" and "utf8_valid (take c bs)" and "c \<le> length bs"
  shows "\<exists>c'. text_so_far_is_valid bs c = (True, c') \<and> c \<le> c' \<and> c' \<le> length bs \<and> utf8_valid (take c' bs)"
proof -
  let ?t = "drop c bs"
  have "utf8_valid (take c bs @ ?t @ ys)" using assms(1) by (simp flip: append_assoc)
  then have "utf8_valid (?t @ ys)" using utf8_valid_append [OF assms(2)] by blast
  note p = utf8_valid_prefix [OF this]
  have "utf8_valid (take (c + n) bs) \<longleftrightarrow> utf8_valid (take n ?t)" for n
    using utf8_valid_append [OF assms(2), of "take n ?t"] by (simp add: take_add)
  moreover have "utf8_valid ?t \<Longrightarrow> utf8_valid bs"
    using utf8_valid_append [OF assms(2), of ?t] by simp
  ultimately show ?thesis
    using p assms(3) by (auto simp: text_so_far_is_valid_def Let_def)
qed

text \<open>Conversely a refusal is final: no continuation makes the text valid.\<close>

lemma text_so_far_refused:
  assumes "text_so_far_is_valid bs c = (False, c')" and "utf8_valid (take c bs)" and "c \<le> length bs"
  shows "\<not> utf8_valid (bs @ ys)"
  using text_so_far_completable [of bs ys c] assms by auto

subsection \<open>From bytes to frames\<close>

text \<open>
  Bytes arriving in any cut are read as the frames they encode: \<open>next_frame\<close> delivers the
  first one and leaves exactly the bytes after it, in the buffer and in the reads to come.
\<close>

lemma next_frame_data:
  assumes "frame_ok Server (max_frame_size (config ws)) f" and "[] \<notin> set cs"
    and "buffer ws @ concat cs = frame_encode f @ rest"
  shows "\<exists>k buf. next_frame ws (map Data cs) = (Ready (Inr (Some f)), ws\<lparr>buffer := buf\<rparr>, map Data (drop k cs))
    \<and> buf @ concat (drop k cs) = rest"
proof -
  have "\<exists>k buf. read_frame ws (map Data cs) = (Ready (Inr (Some f)), ws\<lparr>buffer := buf\<rparr>, map Data (drop k cs))
    \<and> buf @ concat (drop k cs) = rest"
    using assms
  proof (induction cs arbitrary: ws)
    case Nil
    then have "frame_decode Server (max_frame_size (config ws)) (buffer ws) = Inr (Some (f, length (frame_encode f)))"
      using ws_codec.dec_enc_more by simp
    from read_frame_step(3) [OF this] Nil show ?case by simp
  next
    case (Cons c cs)
    show ?case
    proof (cases "length (frame_encode f) \<le> length (buffer ws)")
      case True
      then obtain b where b: "buffer ws = frame_encode f @ b" "b @ concat (c # cs) = rest"
        using append_split_le [OF Cons.prems(3)] by auto
      then have "frame_decode Server (max_frame_size (config ws)) (buffer ws) = Inr (Some (f, length (frame_encode f)))"
        using ws_codec.dec_enc_more [OF Cons.prems(1)] by simp
      from read_frame_step(3) [OF this] b show ?thesis
        by (intro exI [of _ 0] exI [of _ b]) simp
    next
      case False
      then have "buffer ws = take (length (buffer ws)) (frame_encode f)"
        using append_split_gt [OF Cons.prems(3)] by simp
      with False ws_codec.dec_cut [OF Cons.prems(1)]
      have "frame_decode Server (max_frame_size (config ws)) (buffer ws) = Inr None" by (metis not_le)
      note r = read_frame_step(2) [OF this]
      obtain k buf where "read_frame (ws\<lparr>buffer := buffer ws @ c\<rparr>) (map Data cs) =
          (Ready (Inr (Some f)), ws\<lparr>buffer := buf\<rparr>, map Data (drop k cs))" "buf @ concat (drop k cs) = rest"
        using Cons.IH [of "ws\<lparr>buffer := buffer ws @ c\<rparr>"] Cons.prems by auto
      moreover have "c \<noteq> []" using Cons.prems(2) by auto
      ultimately show ?thesis using r by (intro exI [of _ "Suc k"] exI [of _ buf]) simp
    qed
  qed
  then obtain k buf where "read_frame ws (map Data cs) = (Ready (Inr (Some f)), ws\<lparr>buffer := buf\<rparr>, map Data (drop k cs))"
    "buf @ concat (drop k cs) = rest" by blast
  then show ?thesis
    by (intro exI [of _ k] exI [of _ buf]) (simp add: next_frame.simps [of ws])
qed

fun run_frames :: "byte list \<Rightarrow> Frame list \<Rightarrow> WebSocket \<Rightarrow> step \<times> WebSocket \<times> Frame list" where
  "run_frames os [] ws = (Again, ws, [])"
| "run_frames os (f # fs) ws =
     (case on_frame os f ws of
        (Again, ws') \<Rightarrow> run_frames os fs ws'
      | (Return m, ws') \<Rightarrow> (Return m, ws', fs))"

lemma on_frame_Again:
  "on_frame os f ws = (Again, ws') \<Longrightarrow> closed ws' = closed ws \<and> config ws' = config ws \<and> writer_gone ws' = writer_gone ws"
  by (auto simp: on_frame_def deliver_def ws_fail_def mark_closed_def queue_send_def Let_def
      split: OpCode.splits option.splits sum.splits if_splits prod.splits)

lemma set_buffer_simps:
  "queue_send m (ws\<lparr>buffer := b\<rparr>) = apsnd (\<lambda>w. w\<lparr>buffer := b\<rparr>) (queue_send m ws)"
  "mark_closed c (ws\<lparr>buffer := b\<rparr>) = (mark_closed c ws)\<lparr>buffer := b\<rparr>"
  "ws_fail os e (ws\<lparr>buffer := b\<rparr>) = (ws_fail os e ws)\<lparr>buffer := b\<rparr>"
  "deliver os op p (ws\<lparr>buffer := b\<rparr>) = apsnd (\<lambda>w. w\<lparr>buffer := b\<rparr>) (deliver os op p ws)"
  by (simp_all add: queue_send_def mark_closed_def ws_fail_def deliver_def Let_def split: sum.splits)

lemma set_buffer_commute:
  "ws\<lparr>buffer := b, awaiting_pong := x\<rparr> = ws\<lparr>awaiting_pong := x, buffer := b\<rparr>"
  "ws\<lparr>buffer := b, partial := y\<rparr> = ws\<lparr>partial := y, buffer := b\<rparr>"
  by simp_all

lemma on_frame_any_buffer:
  "on_frame os f (ws\<lparr>buffer := b\<rparr>) = apsnd (\<lambda>w. w\<lparr>buffer := b\<rparr>) (on_frame os f ws)"
  unfolding on_frame_def set_buffer_commute Let_def
  by (cases "opcode f"; simp add: set_buffer_simps split: option.split sum.split prod.split)

lemma run_frames_any_buffer:
  "run_frames os fs (ws\<lparr>buffer := b\<rparr>) = apsnd (apfst (\<lambda>w. w\<lparr>buffer := b\<rparr>)) (run_frames os fs ws)"
proof (induction fs arbitrary: ws)
  case (Cons f fs)
  then show ?case
    by (auto simp: on_frame_any_buffer split: step.splits prod.splits)
qed simp

lemma recv_frames:
  assumes "run_frames os fs ws = (Return m, ws', [])"
    and "\<forall>f\<in>set fs. frame_ok Server (max_frame_size (config ws)) f"
    and "\<not> closed ws" and "[] \<notin> set cs"
    and "buffer ws @ concat cs = concat (map frame_encode fs) @ rest"
  shows "\<exists>k buf. recv os ws (map Data cs) = (Returned m, ws'\<lparr>buffer := buf\<rparr>, map Data (drop k cs))
    \<and> buf @ concat (drop k cs) = rest"
  using assms
proof (induction fs arbitrary: ws ws' cs)
  case (Cons f fs)
  obtain k buf where n: "next_frame ws (map Data cs) = (Ready (Inr (Some f)), ws\<lparr>buffer := buf\<rparr>, map Data (drop k cs))"
    "buf @ concat (drop k cs) = concat (map frame_encode fs) @ rest"
    using next_frame_data [of ws f cs "concat (map frame_encode fs) @ rest"] Cons.prems by auto
  obtain s ws1 where o: "on_frame os f ws = (s, ws1)" by fastforce
  then have o': "on_frame os f (ws\<lparr>buffer := buf\<rparr>) = (s, ws1\<lparr>buffer := buf\<rparr>)"
    by (simp add: on_frame_any_buffer)
  show ?case
  proof (cases s)
    case Again
    note a = on_frame_Again [OF o [unfolded Again]]
    have "run_frames os fs (ws1\<lparr>buffer := buf\<rparr>) = (Return m, ws'\<lparr>buffer := buf\<rparr>, [])"
      using Cons.prems(1) o Again by (simp add: run_frames_any_buffer)
    moreover have "[] \<notin> set (drop k cs)" using Cons.prems(4) by (meson in_set_dropD)
    ultimately obtain k2 buf2 where
      "recv os (ws1\<lparr>buffer := buf\<rparr>) (map Data (drop k cs)) =
        (Returned m, ws'\<lparr>buffer := buf2\<rparr>, map Data (drop k2 (drop k cs)))"
      "buf2 @ concat (drop k2 (drop k cs)) = rest"
      using Cons.IH [of "ws1\<lparr>buffer := buf\<rparr>" "ws'\<lparr>buffer := buf\<rparr>" "drop k cs"] Cons.prems a n(2) by auto
    then show ?thesis
      using n o' Again Cons.prems(3)
      by (intro exI [of _ "k2 + k"] exI [of _ buf2]) (simp add: recv.simps [of os ws])
  next
    case (Return r)
    then show ?thesis
      using Cons.prems(1,3) n o o'
      by (intro exI [of _ k] exI [of _ buf]) (auto simp: recv.simps [of os ws])
  qed
qed simp

subsection \<open>Reassembly\<close>

text \<open>
  A legal sequence of frames for one data message, as RFC 6455 describes it: one data frame
  and then continuations, the last of them final, with pings and pongs anywhere between.  Its
  payload is the concatenation of the data payloads.
\<close>

fun assemble :: "OpCode \<Rightarrow> Frame list \<Rightarrow> byte list option" where
  "assemble op [] = None"
| "assemble op (f # fs) =
     (if opcode f = OpCode.Ping \<or> opcode f = OpCode.Pong then assemble op fs
      else if opcode f \<noteq> op then None
      else if fin f then (if fs = [] then Some (payload f) else None)
      else map_option ((@) (payload f)) (assemble Continuation fs))"

definition pongs :: "Frame list \<Rightarrow> Message list" where
  "pongs fs = map (Message.Pong \<circ> payload) (filter (\<lambda>f. opcode f = OpCode.Ping) fs)"

definition data_message :: "OpCode \<Rightarrow> byte list \<Rightarrow> Message" where
  "data_message op p = (if op = OpCode.Text then Message.Text p else Message.Binary p)"

definition delivered :: "OpCode \<Rightarrow> byte list \<Rightarrow> Frame list \<Rightarrow> WebSocket \<Rightarrow> WebSocket" where
  "delivered op p fs ws = ws\<lparr>outgoing := outgoing ws @ pongs fs, partial := None,
     awaiting_pong := False, received := received ws + 1\<rparr>"

lemma from_data_message:
  "op = OpCode.Text \<or> op = OpCode.Binary \<Longrightarrow> (op = OpCode.Text \<Longrightarrow> utf8_valid p) \<Longrightarrow>
   from_data op p = Inr (data_message op p)"
  by (auto simp: from_data_def data_message_def)

lemma on_frame_control:
  assumes "\<not> writer_gone ws"
  shows "opcode f = OpCode.Ping \<Longrightarrow> on_frame os f ws =
      (Again, ws\<lparr>awaiting_pong := False, outgoing := outgoing ws @ [Message.Pong (payload f)]\<rparr>)"
    and "opcode f = OpCode.Pong \<Longrightarrow> on_frame os f ws = (Again, ws\<lparr>awaiting_pong := False\<rparr>)"
  using assms by (simp_all add: on_frame_def queue_send_def)

lemma run_frames_continue:
  assumes "op = OpCode.Text \<or> op = OpCode.Binary"
    and "assemble Continuation fs = Some p"
    and "partial ws = Some (op, acc, c)" and "\<not> writer_gone ws"
    and "length acc + length p \<le> max_message_size (config ws)"
    and "op = OpCode.Text \<longrightarrow> utf8_valid (acc @ p) \<and> utf8_valid (take c acc) \<and> c \<le> length acc"
  shows "run_frames os fs ws = (Return (Some (data_message op (acc @ p))), delivered op (acc @ p) fs ws, [])"
  using assms(2-)
proof (induction fs arbitrary: ws acc c p)
  case (Cons f fs)
  consider (ping) "opcode f = OpCode.Ping" | (pong) "opcode f = OpCode.Pong"
    | (last) "opcode f = Continuation" "fin f" "fs = []" "p = payload f"
    | (more) q where "opcode f = Continuation" "\<not> fin f" "p = payload f @ q"
        "assemble Continuation fs = Some q"
    using Cons.prems(1) by (auto split: if_splits)
  then show ?case
  proof cases
    case ping
    let ?ws = "ws\<lparr>awaiting_pong := False, outgoing := outgoing ws @ [Message.Pong (payload f)]\<rparr>"
    have "run_frames os fs ?ws = (Return (Some (data_message op (acc @ p))), delivered op (acc @ p) fs ?ws, [])"
      using Cons.prems ping by (intro Cons.IH) auto
    with ping Cons.prems(3) show ?thesis
      by (simp add: on_frame_control delivered_def pongs_def)
  next
    case pong
    let ?ws = "ws\<lparr>awaiting_pong := False\<rparr>"
    have "run_frames os fs ?ws = (Return (Some (data_message op (acc @ p))), delivered op (acc @ p) fs ?ws, [])"
      using Cons.prems pong by (intro Cons.IH) auto
    with pong Cons.prems(3) show ?thesis
      by (simp add: on_frame_control delivered_def pongs_def)
  next
    case last
    with Cons.prems assms(1) show ?thesis
      by (simp add: on_frame_def deliver_def from_data_message delivered_def pongs_def)
  next
    case more
    obtain c' where c': "(if op = OpCode.Text then text_so_far_is_valid (acc @ payload f) c else (True, c)) = (True, c')"
      "op = OpCode.Text \<longrightarrow> utf8_valid (take c' (acc @ payload f)) \<and> c' \<le> length (acc @ payload f)"
    proof (cases "op = OpCode.Text")
      case True
      with Cons.prems(5) more(3) text_so_far_completable [of "acc @ payload f" q c] that
      show ?thesis by auto
    qed (use that in auto)
    let ?ws = "ws\<lparr>awaiting_pong := False, partial := Some (op, acc @ payload f, c')\<rparr>"
    have "run_frames os fs ?ws = (Return (Some (data_message op ((acc @ payload f) @ q))), delivered op ((acc @ payload f) @ q) fs ?ws, [])"
      using Cons.prems more c' by (intro Cons.IH) auto
    moreover have "on_frame os f ws = (Again, ?ws)"
      using Cons.prems more c' by (simp add: on_frame_def)
    ultimately show ?thesis using more by (simp add: delivered_def pongs_def)
  qed
qed simp

lemma run_frames_assemble:
  assumes "op = OpCode.Text \<or> op = OpCode.Binary"
    and "assemble op fs = Some p"
    and "partial ws = None" and "\<not> writer_gone ws"
    and "length p \<le> max_message_size (config ws)"
    and "op = OpCode.Text \<longrightarrow> utf8_valid p"
  shows "run_frames os fs ws = (Return (Some (data_message op p)), delivered op p fs ws, [])"
  using assms(2-)
proof (induction fs arbitrary: ws)
  case (Cons f fs)
  consider (ping) "opcode f = OpCode.Ping" | (pong) "opcode f = OpCode.Pong"
    | (last) "opcode f = op" "fin f" "fs = []" "p = payload f"
    | (more) q where "opcode f = op" "\<not> fin f" "p = payload f @ q"
        "assemble Continuation fs = Some q"
    using Cons.prems(1) by (auto split: if_splits)
  then show ?case
  proof cases
    case ping
    let ?ws = "ws\<lparr>awaiting_pong := False, outgoing := outgoing ws @ [Message.Pong (payload f)]\<rparr>"
    have "run_frames os fs ?ws = (Return (Some (data_message op p)), delivered op p fs ?ws, [])"
      using Cons.prems ping by (intro Cons.IH) auto
    with ping Cons.prems(3) show ?thesis
      by (simp add: on_frame_control delivered_def pongs_def)
  next
    case pong
    let ?ws = "ws\<lparr>awaiting_pong := False\<rparr>"
    have "run_frames os fs ?ws = (Return (Some (data_message op p)), delivered op p fs ?ws, [])"
      using Cons.prems pong by (intro Cons.IH) auto
    with pong Cons.prems(3) show ?thesis
      by (simp add: on_frame_control delivered_def pongs_def)
  next
    case last
    with Cons.prems assms(1) show ?thesis
      by (cases ws) (auto simp: on_frame_def Let_def deliver_def from_data_def data_message_def delivered_def pongs_def)
  next
    case more
    obtain c where c: "(if op = OpCode.Text then text_so_far_is_valid (payload f) 0 else (True, 0)) = (True, c)"
      "op = OpCode.Text \<longrightarrow> utf8_valid (take c (payload f)) \<and> c \<le> length (payload f)"
    proof (cases "op = OpCode.Text")
      case True
      with Cons.prems(5) more(3) text_so_far_completable [of "payload f" q 0] that
      show ?thesis by auto
    qed (use that in auto)
    let ?ws = "ws\<lparr>awaiting_pong := False, partial := Some (op, payload f, c)\<rparr>"
    have "run_frames os fs ?ws = (Return (Some (data_message op (payload f @ q))), delivered op (payload f @ q) fs ?ws, [])"
      using Cons.prems more c assms(1) by (intro run_frames_continue) auto
    moreover have "on_frame os f ws = (Again, ?ws)"
      using Cons.prems more c assms(1) by (auto simp: on_frame_def)
    moreover have "opcode f \<noteq> OpCode.Ping" using more(1) assms(1) by auto
    ultimately show ?thesis using more by (simp add: delivered_def pongs_def)
  qed
qed simp

subsection \<open>What the loop maintains\<close>

text \<open>
  A message still arriving is text or binary, within the larger of the two limits, and the
  part of a text that is marked as checked consists of whole characters.
\<close>

definition size_limit :: "WebSocket \<Rightarrow> nat" where
  "size_limit ws = max (max_message_size (config ws)) (max_frame_size (config ws))"

definition partial_ok :: "WebSocket \<Rightarrow> bool" where
  "partial_ok ws \<longleftrightarrow>
     (case partial ws of
        None \<Rightarrow> True
      | Some (op, acc, c) \<Rightarrow>
          (op = OpCode.Text \<or> op = OpCode.Binary) \<and> length acc \<le> size_limit ws \<and>
          (op = OpCode.Text \<longrightarrow> c \<le> length acc \<and> utf8_valid (take c acc)))"

definition message_ok :: "WebSocket \<Rightarrow> Message \<Rightarrow> bool" where
  "message_ok ws m \<longleftrightarrow>
     is_data m \<and> length (as_bytes m) \<le> size_limit ws \<and>
     (case m of Message.Text t \<Rightarrow> utf8_valid t | _ \<Rightarrow> True)"

lemma utf8_valid_up_to: "utf8_valid (take (valid_up_to t) t) \<and> valid_up_to t \<le> length t"
proof (induction t rule: valid_up_to.induct)
  case (1 t)
  show ?case
  proof (cases "utf8_head t")
    case (Some n)
    note len = utf8_head_pos [OF Some] and IH = "1.IH" [OF Some]
    have v: "valid_up_to t = n + valid_up_to (drop n t)"
      using Some by (simp add: valid_up_to.simps [of t])
    have "utf8_valid (take (n + valid_up_to (drop n t)) t)"
      using IH len Some utf8_head_take [OF Some, of "n + valid_up_to (drop n t)"]
      by (subst utf8_valid_step) (auto simp: drop_take)
    with IH len show ?thesis unfolding v by auto
  qed (simp add: valid_up_to.simps [of t])
qed

lemma text_so_far_checked:
  assumes "text_so_far_is_valid bs c = (True, c')" and "utf8_valid (take c bs)" and "c \<le> length bs"
  shows "c' \<le> length bs \<and> utf8_valid (take c' bs)"
proof -
  have "utf8_valid (take (c + n) bs) \<longleftrightarrow> utf8_valid (take n (drop c bs))" for n
    using utf8_valid_append [OF assms(2), of "take n (drop c bs)"] by (simp add: take_add)
  moreover have "utf8_valid (drop c bs) \<Longrightarrow> utf8_valid bs"
    using utf8_valid_append [OF assms(2), of "drop c bs"] by simp
  ultimately show ?thesis
    using assms utf8_valid_up_to [of "drop c bs"]
    by (auto simp: text_so_far_is_valid_def Let_def split: if_splits)
qed

lemma read_frame_keeps:
  assumes "read_frame ws evs = (r, ws', evs')"
  shows "partial ws' = partial ws \<and> config ws' = config ws \<and> closed ws' = closed ws \<and>
    (\<forall>f. r = Ready (Inr (Some f)) \<longrightarrow> frame_ok Server (max_frame_size (config ws)) f)"
  using assms
proof (induction evs arbitrary: ws)
  case Nil
  then show ?case
    by (auto simp: read_frame_step dest: frame_decode_canonical(2) split: sum.splits option.splits)
next
  case (Cons e evs)
  consider err where "frame_decode Server (max_frame_size (config ws)) (buffer ws) = Inl err"
    | f used where "frame_decode Server (max_frame_size (config ws)) (buffer ws) = Inr (Some (f, used))"
    | "frame_decode Server (max_frame_size (config ws)) (buffer ws) = Inr None"
    by (metis old.prod.exhaust option.exhaust sumE)
  then show ?case
  proof cases
    case 1
    with Cons.prems show ?thesis by (auto simp: read_frame_step)
  next
    case 2
    with Cons.prems frame_decode_canonical(2) [OF 2] show ?thesis
      by (auto simp: read_frame_step)
  next
    case 3
    show ?thesis
      using Cons.prems Cons.IH
      by (cases e) (fastforce simp: read_frame_step(2) [OF 3] split: if_splits)+
  qed
qed

lemma next_frame_keeps:
  "next_frame ws evs = (r, ws', evs') \<Longrightarrow>
   partial ws' = partial ws \<and> config ws' = config ws \<and> closed ws' = closed ws \<and>
   (\<forall>f. r = Ready (Inr (Some f)) \<longrightarrow> frame_ok Server (max_frame_size (config ws)) f)"
proof (induction ws evs rule: next_frame.induct)
  case (1 ws evs)
  obtain r1 ws1 rest where r: "read_frame ws evs = (r1, ws1, rest)" by (cases "read_frame ws evs")
  note k = read_frame_keeps [OF r]
  show ?case
  proof (cases "r1 = TimedOut")
    case True
    note n = "1.prems" [unfolded next_frame.simps [of ws evs] r True, simplified]
    show ?thesis
      using n k "1.IH"(1) [OF r [symmetric]] "1.IH"(2) [OF r [symmetric]] True
      by (auto simp: queue_send_def split: if_splits)
  next
    case False
    with "1.prems" r k show ?thesis
      by (cases r1) (auto simp: next_frame.simps [of ws evs])
  qed
qed

lemma closing_simps:
  "partial (mark_closed c ws) = partial ws" "config (mark_closed c ws) = config ws"
  "closed (mark_closed c ws)"
  "partial (ws_fail os e ws) = partial ws" "config (ws_fail os e ws) = config ws"
  "closed (ws_fail os e ws)"
  by (simp_all add: mark_closed_def ws_fail_def queue_send_def Let_def)

lemma deliver_sound:
  assumes "deliver os op p ws = (r, ws')" and "op = OpCode.Text \<or> op = OpCode.Binary"
    and "length p \<le> size_limit ws"
  shows "partial ws' = partial ws \<and> config ws' = config ws \<and>
    (case r of None \<Rightarrow> closed ws' | Some m \<Rightarrow> message_ok ws m)"
  using assms
  by (auto simp: deliver_def from_data_def message_ok_def closing_simps split: if_splits)

lemma partial_ok_cong:
  "partial ws' = partial ws \<Longrightarrow> config ws' = config ws \<Longrightarrow> partial_ok ws' = partial_ok ws"
  by (simp add: partial_ok_def size_limit_def split: option.split)

lemma partial_ok_simps:
  "partial_ok (ws\<lparr>partial := None\<rparr>)"
  "partial_ok (ws\<lparr>awaiting_pong := b\<rparr>) = partial_ok ws"
  "partial_ok (mark_closed c ws) = partial_ok ws"
  "partial_ok (ws_fail os e ws) = partial_ok ws"
  "partial_ok (ws\<lparr>outgoing := q\<rparr>) = partial_ok ws"
  "partial_ok (snd (queue_send m ws)) = partial_ok ws"
  "config (snd (queue_send m ws)) = config ws"
  by (auto simp: partial_ok_def [of "ws\<lparr>partial := None\<rparr>"] closing_simps queue_send_def
      intro!: partial_ok_cong)

definition sound_step :: "WebSocket \<Rightarrow> step \<times> WebSocket \<Rightarrow> bool" where
  "sound_step ws r \<longleftrightarrow>
     partial_ok (snd r) \<and> config (snd r) = config ws \<and>
     (case fst r of
        Return None \<Rightarrow> closed (snd r)
      | Return (Some m) \<Rightarrow> message_ok ws m
      | Again \<Rightarrow> True)"

lemma sound_step_fail:
  "partial_ok ws1 \<Longrightarrow> config ws1 = config ws \<Longrightarrow> sound_step ws (Return None, ws_fail os e ws1)"
  by (simp add: sound_step_def partial_ok_simps closing_simps)

lemma sound_step_deliver:
  assumes "op = OpCode.Text \<or> op = OpCode.Binary" and "length p \<le> size_limit ws"
    and "partial_ok ws1" and "config ws1 = config ws"
  shows "sound_step ws (apfst Return (deliver os op p ws1))"
proof -
  obtain r ws2 where d: "deliver os op p ws1 = (r, ws2)" by fastforce
  have "size_limit ws1 = size_limit ws" by (simp add: size_limit_def assms(4))
  with deliver_sound [OF d assms(1)] assms d show ?thesis
    by (auto simp: sound_step_def partial_ok_def message_ok_def size_limit_def split: option.splits)
qed

lemma sound_step_partial:
  assumes "op = OpCode.Text \<or> op = OpCode.Binary" and "length all \<le> size_limit ws"
    and "op = OpCode.Text \<longrightarrow> c \<le> length all \<and> utf8_valid (take c all)"
    and "config ws1 = config ws" and "partial_ok ws2" and "config ws2 = config ws"
  shows "sound_step ws
    (let (ok, c') = (if op = OpCode.Text then text_so_far_is_valid all c else (True, c))
     in if \<not> ok then (Return None, ws_fail os InvalidUtf8 ws2)
        else (Again, ws1\<lparr>partial := Some (op, all, c')\<rparr>))"
proof (cases "op = OpCode.Text")
  case True
  obtain ok c' where t: "text_so_far_is_valid all c = (ok, c')" by fastforce
  show ?thesis
  proof (cases ok)
    case yes: True
    with True t assms text_so_far_checked [of all c c'] show ?thesis
      by (auto simp: sound_step_def partial_ok_def size_limit_def)
  qed (use True t sound_step_fail [OF assms(5,6)] in simp)
next
  case False
  with assms show ?thesis by (simp add: sound_step_def partial_ok_def size_limit_def)
qed

lemma on_frame_sound:
  assumes "partial_ok ws" and "frame_ok Server (max_frame_size (config ws)) f"
  shows "sound_step ws (on_frame os f ws)"
proof -
  let ?ws = "ws\<lparr>awaiting_pong := False\<rparr>"
  have p: "partial_ok ?ws" using assms(1) by (simp add: partial_ok_simps)
  have len: "length (payload f) \<le> size_limit ws"
    using assms(2) unfolding frame_ok_def size_limit_def by linarith
  note def = on_frame_def [of os f ws, unfolded Let_def [of ?ws]]
  show ?thesis
  proof (cases "opcode f")
    case Continuation
    show ?thesis
    proof (cases "partial ws")
      case None
      with Continuation p show ?thesis by (simp add: def sound_step_fail)
    next
      case (Some q)
      obtain op acc c where q: "q = (op, acc, c)" by (cases q)
      let ?ws1 = "?ws\<lparr>partial := None\<rparr>"
      have w: "op = OpCode.Text \<or> op = OpCode.Binary"
        "op = OpCode.Text \<longrightarrow> c \<le> length (acc @ payload f) \<and> utf8_valid (take c (acc @ payload f))"
        using assms(1) Some q by (auto simp: partial_ok_def)
      have w1: "partial_ok ?ws1" "config ?ws1 = config ws" by (simp_all add: partial_ok_simps)
      show ?thesis
      proof (cases "max_message_size (config ws) < length acc + length (payload f)")
        case True
        with Continuation Some q w1 sound_step_fail [OF w1] show ?thesis by (simp add: def Let_def)
      next
        case False
        then have l: "length (acc @ payload f) \<le> size_limit ws" by (simp add: size_limit_def)
        show ?thesis
          using Continuation Some q False sound_step_deliver [OF w(1) l w1]
            sound_step_partial [OF w(1) l w(2) w1(2) w1]
          by (simp add: def Let_def)
      qed
    qed
  next
    case Text
    then show ?thesis
      using p len sound_step_deliver [of OpCode.Text "payload f" ws ?ws os]
        sound_step_partial [of OpCode.Text "payload f" ws 0 ?ws ?ws os]
        sound_step_fail [of ?ws ws os]
      by (simp add: def)
  next
    case Binary
    then show ?thesis
      using p len sound_step_deliver [of OpCode.Binary "payload f" ws ?ws os]
        sound_step_partial [of OpCode.Binary "payload f" ws 0 ?ws ?ws os]
        sound_step_fail [of ?ws ws os]
      by (simp add: def)
  next
    case Close
    with p show ?thesis
      by (auto simp: def Let_def sound_step_def partial_ok_simps closing_simps split: sum.splits)
  next
    case Ping
    with p show ?thesis
      by (auto simp: def sound_step_def partial_ok_simps closing_simps queue_send_def)
  next
    case Pong
    with p show ?thesis by (simp add: def sound_step_def)
  qed
qed

lemma recv_sound:
  "recv os ws evs = (Returned r, ws', evs') \<Longrightarrow> partial_ok ws \<Longrightarrow>
   partial_ok ws' \<and> config ws' = config ws \<and>
   (case r of None \<Rightarrow> closed ws' | Some m \<Rightarrow> message_ok ws m)"
proof (induction os ws evs rule: recv.induct)
  case (1 os ws evs)
  obtain n ws1 rest where n: "next_frame ws evs = (n, ws1, rest)" by (cases "next_frame ws evs")
  note k = next_frame_keeps [OF n]
  have p1: "partial_ok ws1" using k "1.prems"(2) partial_ok_cong by blast
  have lim: "size_limit ws1 = size_limit ws" using k by (simp add: size_limit_def)
  note rv = "1.prems"(1) [unfolded recv.simps [of os ws evs] n]
  show ?case
  proof (cases "closed ws")
    case True
    with rv "1.prems"(2) show ?thesis by auto
  next
    case False
    show ?thesis
    proof (cases "\<exists>f. n = Ready (Inr (Some f))")
      case True
      then obtain f where f: "n = Ready (Inr (Some f))" by blast
      obtain s ws2 where o: "on_frame os f ws1 = (s, ws2)" by fastforce
      have snd: "sound_step ws1 (s, ws2)" using on_frame_sound [OF p1] k f o by metis
      show ?thesis
      proof (cases s)
        case Again
        with rv False f o snd k lim "1.IH" [OF False n [symmetric]]
        have "partial_ok ws' \<and> config ws' = config ws2 \<and>
          (case r of None \<Rightarrow> closed ws' | Some m \<Rightarrow> message_ok ws2 m)"
          by (auto simp: sound_step_def)
        moreover have "config ws2 = config ws" using snd k by (simp add: sound_step_def)
        ultimately show ?thesis
          by (auto simp: message_ok_def size_limit_def split: option.splits)
      next
        case (Return m)
        with rv False f o snd k lim show ?thesis
          by (auto simp: sound_step_def message_ok_def split: option.splits)
      qed
    next
      case no: False
      with rv False p1 k show ?thesis
        by (cases n) (auto simp: partial_ok_simps closing_simps split: sum.splits option.splits)
    qed
  qed
qed

subsection \<open>Properties\<close>

text \<open>
  C9: a data message sent as any legal sequence of frames, with pings and pongs in between and
  the bytes cut anywhere by the network, is returned whole by one call of \<open>recv\<close>: the payload
  is the concatenation of the fragments, every ping has been answered in order with its own
  data, and the bytes after the last frame are kept for the next call.
\<close>

theorem ws_recv_reassembles:
  assumes "op = OpCode.Text \<or> op = OpCode.Binary"
    and "assemble op fs = Some p"
    and "\<forall>f\<in>set fs. frame_ok Server (max_frame_size (config ws)) f"
    and "length p \<le> max_message_size (config ws)"
    and "op = OpCode.Text \<longrightarrow> utf8_valid p"
    and "\<not> closed ws" and "\<not> writer_gone ws" and "partial ws = None"
    and "[] \<notin> set cs" and "buffer ws @ concat cs = concat (map frame_encode fs) @ rest"
  shows "\<exists>k buf. recv os ws (map Data cs) =
      (Returned (Some (data_message op p)), (delivered op p fs ws)\<lparr>buffer := buf\<rparr>, map Data (drop k cs))
    \<and> buf @ concat (drop k cs) = rest"
  using recv_frames [OF run_frames_assemble [OF assms(1,2,8,7,4,5)] assms(3,6,9,10)] .

theorem ws_recv_reassembles_witness:
  "let fs = [\<lparr>fin = False, opcode = OpCode.Text, mask = Some (1, 2, 3, 4), payload = [0xE2, 0x82]\<rparr>,
             client_frame OpCode.Ping [7] (5, 6, 7, 8),
             client_frame Continuation [0xAC] (9, 9, 9, 9)];
       bytes = concat (map frame_encode fs);
       ws = new_socket (take 3 bytes) default_config
   in \<exists>k buf. recv [] ws (map Data [drop 3 bytes @ [42]]) =
      (Returned (Some (Message.Text [0xE2, 0x82, 0xAC])),
       (delivered OpCode.Text [0xE2, 0x82, 0xAC] fs ws)\<lparr>buffer := buf\<rparr>, map Data (drop k [drop 3 bytes @ [42]]))
    \<and> buf @ concat (drop k [drop 3 bytes @ [42]]) = [42]"
proof -
  define fs where "fs = [\<lparr>fin = False, opcode = OpCode.Text, mask = Some (1, 2, 3, 4), payload = [0xE2, 0x82]\<rparr>,
             client_frame OpCode.Ping [7] (5, 6, 7, 8),
             client_frame Continuation [0xAC] (9, 9, 9, 9)]"
  define ws where "ws = new_socket (take 3 (concat (map frame_encode fs))) default_config"
  have "assemble OpCode.Text fs = Some [0xE2, 0x82, 0xAC]" by (simp add: fs_def client_frame_def)
  moreover have "utf8_valid [0xE2, 0x82, 0xAC]"
    by (simp add: utf8_valid.simps is_cont_def)
  moreover have "\<forall>f\<in>set fs. frame_ok Server (max_frame_size (config ws)) f"
    by (simp add: fs_def ws_def client_frame_def frame_ok_def new_socket_def default_config_def is_control_def)
  ultimately show ?thesis
    using ws_recv_reassembles [of OpCode.Text fs "[0xE2, 0x82, 0xAC]" ws "[drop 3 (concat (map frame_encode fs)) @ [42]]" "[42]" "[]"]
    by (simp add: Let_def ws_def new_socket_def default_config_def data_message_def flip: fs_def)
qed



text \<open>
  a read that fails makes the connection queue a close frame with status 1006, the code
  which the protocol, and \<open>is_sendable\<close>, reserve for local use and which a peer running this
  very code refuses.
\<close>

theorem ws_io_error_sends_abnormal:
  assumes "\<not> closed ws" and "\<not> writer_gone ws" and "buffer ws = []"
  shows "(\<exists>ws'. recv os ws (Failed # evs) = (Returned None, ws', evs) \<and>
      outgoing ws' = outgoing ws @ [Message.Close (Some \<lparr>code = ABNORMAL, reason = ws_display os Io\<rparr>)]) \<and>
    (\<exists>e. close_parse (to_payload \<lparr>code = ABNORMAL, reason = why\<rparr>) = Inl e)"
proof -
  have "frame_decode Server (max_frame_size (config ws)) (buffer ws) = Inr None"
    by (simp add: assms(3) frame_decode_def)
  note r = read_frame_step(2) [OF this]
  have "next_frame ws (Failed # evs) = (Ready (Inl Io), ws, evs)"
    by (simp add: next_frame.simps [of ws] r)
  with assms have "\<exists>ws'. recv os ws (Failed # evs) = (Returned None, ws', evs) \<and>
      outgoing ws' = outgoing ws @ [Message.Close (Some \<lparr>code = ABNORMAL, reason = ws_display os Io\<rparr>)]"
    by (simp add: recv.simps [of os ws] ws_fail_def mark_closed_def queue_send_def Let_def)
  moreover have "\<exists>e. close_parse (to_payload \<lparr>code = ABNORMAL, reason = why\<rparr>) = Inl e"
    by (simp add: close_parse_def to_payload_def be_bytes_2 be_val_def ABNORMAL_def is_sendable_def Let_def)
  ultimately show ?thesis ..
qed

theorem ws_io_error_sends_abnormal_witness:
  "\<exists>ws'. recv (utf8 ''reset'') (new_socket [] default_config) [Failed] = (Returned None, ws', []) \<and>
    outgoing ws' = [Message.Close (Some \<lparr>code = 1006, reason = ws_display (utf8 ''reset'') Io\<rparr>)]"
  using ws_io_error_sends_abnormal [of "new_socket [] default_config" "utf8 ''reset''" "[]"]
  by (simp add: new_socket_def ABNORMAL_def)

end
