(* ===== verification/Ledger.thy ===== *)
theory Ledger
  imports Prelude "HOL-Library.Product_Lexorder"
begin

section \<open>The double-entry ledger\<close>

text \<open>
  \<open>rustlavel-ledger\<close>: accounts, transfers and their entries, holds and lots.  The database is
  a record of five tables, each a list of rows in insertion order; an SQL statement is a function
  on it that checks the unique indexes of \<open>schema.rs\<close> and the range of a \<open>BIGINT\<close> column, and
  fails without effect when one is violated.  A transaction that ends in an error, or that the
  code rolls back, leaves the tables as they were.

  What the code draws from outside is an argument: the clock (\<open>now\<close>, in seconds) and the ids
  that \<open>id(prefix)\<close> makes.  Nothing is assumed of the ids: one that is already taken makes the
  insert fail, as the unique index does.

  Each public operation has two parts, as in the code: reads and \<open>ensure_account\<close> calls, each a
  statement of its own, and then one transaction, here the function whose name ends in \<open>_tx\<close>.
  Other clients run between the two; the step relation below interleaves them freely.
\<close>

subsection \<open>Rows\<close>

record Account =
  account_id :: string
  owner :: string
  unit :: string
  balance :: int
  held :: int
  created_at :: int

datatype TransferKind = TopUp | Consume | Capture | Expire | Adjust | Refund

record Transfer =
  transfer_id :: string
  reference :: string
  kind :: TransferKind
  from_account :: string
  to_account :: string
  amount :: int
  tr_created_at :: int
  metadata :: "(string \<times> string) option"

record Entry =
  en_transfer_id :: string
  en_account_id :: string
  en_amount :: int
  balance_after :: int
  en_kind :: TransferKind
  en_reference :: string
  en_created_at :: int

datatype HoldStatus = Held | Captured | Released

record Hold =
  hold_id :: string
  ho_account_id :: string
  ho_amount :: int
  status :: HoldStatus
  ho_reference :: string
  ho_created_at :: int
  ho_expires_at :: int

record Lot =
  lot_id :: string
  lo_account_id :: string
  lo_transfer_id :: string
  initial :: int
  remaining :: int
  lo_expires_at :: "int option"
  lo_created_at :: int

record Tables =
  accounts :: "Account list"
  transfers :: "Transfer list"
  entries :: "Entry list"
  holds :: "Hold list"
  lots :: "Lot list"

definition empty_tables :: Tables where
  "empty_tables = \<lparr>accounts = [], transfers = [], entries = [], holds = [], lots = []\<rparr>"

datatype LedgerError =
    NotPositive int
  | Insufficient string int int
  | NotHeld string HoldStatus
  | NoHold string
  | NoAccount string
  | NotInTransaction string
  | Vanished string
  | AlreadyCaptured string
  | LostRace
  | DuplicateKey
  | OutOfRange

definition SYSTEM_TOPUP :: string where "SYSTEM_TOPUP = ''system:topup''"
definition SYSTEM_CONSUMPTION :: string where "SYSTEM_CONSUMPTION = ''system:consumption''"
definition SYSTEM_EXPIRY :: string where "SYSTEM_EXPIRY = ''system:expiry''"

definition available :: "Account \<Rightarrow> int" where
  "available a = balance a - held a"

definition is_system :: "Account \<Rightarrow> bool" where
  "is_system a \<longleftrightarrow> take 7 (owner a) = ''system:''"

record Balance =
  total :: int
  b_held :: int
  b_available :: int

definition balance_view :: "Account \<Rightarrow> Balance" where
  "balance_view a = \<lparr>total = balance a, b_held = held a, b_available = available a\<rparr>"

subsection \<open>Statements\<close>

definition in_i64 :: "int \<Rightarrow> bool" where
  "in_i64 n \<longleftrightarrow> - (2 ^ 63) \<le> n \<and> n < 2 ^ 63"

text \<open>\<open>x as i64\<close> for a \<open>u64\<close>, whose addition wraps.\<close>

definition as_i64 :: "nat \<Rightarrow> int" where
  "as_i64 n = (let m = int (n mod 2 ^ 64) in if m < 2 ^ 63 then m else m - 2 ^ 64)"

definition upd :: "('a \<Rightarrow> bool) \<Rightarrow> ('a \<Rightarrow> 'a) \<Rightarrow> 'a list \<Rightarrow> 'a list" where
  "upd p f xs = map (\<lambda>x. if p x then f x else x) xs"

text \<open>\<open>UPDATE ledger_accounts SET \<dots> WHERE p\<close>: the number of rows, or an error.\<close>

definition update_accounts ::
  "(Account \<Rightarrow> bool) \<Rightarrow> (Account \<Rightarrow> Account) \<Rightarrow> Tables \<Rightarrow> LedgerError + (nat \<times> Tables)" where
  "update_accounts p f db =
     (if \<exists>a\<in>set (accounts db). p a \<and> \<not> (in_i64 (balance (f a)) \<and> in_i64 (held (f a)))
      then Inl OutOfRange
      else Inr (length (filter p (accounts db)), db\<lparr>accounts := upd p f (accounts db)\<rparr>))"

definition insert_account :: "Account \<Rightarrow> Tables \<Rightarrow> LedgerError + Tables" where
  "insert_account a db =
     (if \<exists>b\<in>set (accounts db). account_id b = account_id a \<or> (owner b = owner a \<and> unit b = unit a)
      then Inl DuplicateKey
      else Inr (db\<lparr>accounts := accounts db @ [a]\<rparr>))"

definition insert_transfer :: "Transfer \<Rightarrow> Tables \<Rightarrow> LedgerError + Tables" where
  "insert_transfer t db =
     (if \<exists>s\<in>set (transfers db). transfer_id s = transfer_id t \<or> reference s = reference t
      then Inl DuplicateKey
      else Inr (db\<lparr>transfers := transfers db @ [t]\<rparr>))"

definition insert_hold :: "Hold \<Rightarrow> Tables \<Rightarrow> LedgerError + Tables" where
  "insert_hold h db =
     (if \<exists>g\<in>set (holds db). hold_id g = hold_id h \<or> ho_reference g = ho_reference h
      then Inl DuplicateKey
      else Inr (db\<lparr>holds := holds db @ [h]\<rparr>))"

definition insert_lot :: "Lot \<Rightarrow> Tables \<Rightarrow> LedgerError + Tables" where
  "insert_lot l db =
     (if \<exists>m\<in>set (lots db). lot_id m = lot_id l then Inl DuplicateKey
      else Inr (db\<lparr>lots := lots db @ [l]\<rparr>))"

definition debit_available :: "string \<Rightarrow> int \<Rightarrow> Tables \<Rightarrow> LedgerError + (bool \<times> Tables)" where
  "debit_available aid n db =
     and_then (update_accounts (\<lambda>a. account_id a = aid \<and> balance a - held a \<ge> n)
                 (\<lambda>a. a\<lparr>balance := balance a - n\<rparr>) db)
       (\<lambda>(rows, db1). Inr (rows = 1, db1))"

definition debit_unchecked :: "string \<Rightarrow> int \<Rightarrow> Tables \<Rightarrow> LedgerError + Tables" where
  "debit_unchecked aid n db =
     and_then (update_accounts (\<lambda>a. account_id a = aid) (\<lambda>a. a\<lparr>balance := balance a - n\<rparr>) db)
       (\<lambda>(rows, db1). Inr db1)"

definition credit :: "string \<Rightarrow> int \<Rightarrow> Tables \<Rightarrow> LedgerError + Tables" where
  "credit aid n db =
     and_then (update_accounts (\<lambda>a. account_id a = aid) (\<lambda>a. a\<lparr>balance := balance a + n\<rparr>) db)
       (\<lambda>(rows, db1). Inr db1)"

definition balance_of :: "string \<Rightarrow> Tables \<Rightarrow> LedgerError + int" where
  "balance_of aid db =
     (case find (\<lambda>a. account_id a = aid) (accounts db) of
        Some a \<Rightarrow> Inr (balance a)
      | None \<Rightarrow> Inl (NoAccount aid))"

subsection \<open>Reading\<close>

definition find_account :: "string \<Rightarrow> string \<Rightarrow> Tables \<Rightarrow> Account option" where
  "find_account u who db = find (\<lambda>a. owner a = who \<and> unit a = u) (accounts db)"

text \<open>\<open>transfer\<close> and \<open>hold_by_reference\<close>.\<close>

definition find_transfer :: "string \<Rightarrow> Tables \<Rightarrow> Transfer option" where
  "find_transfer ref db = find (\<lambda>t. reference t = ref) (transfers db)"

definition hold_by_reference :: "string \<Rightarrow> Tables \<Rightarrow> Hold option" where
  "hold_by_reference ref db = find (\<lambda>h. ho_reference h = ref) (holds db)"

definition account_in :: "string \<Rightarrow> string \<Rightarrow> Tables \<Rightarrow> LedgerError + Account" where
  "account_in u who db =
     (case find_account u who db of Some a \<Rightarrow> Inr a | None \<Rightarrow> Inl (NotInTransaction who))"

text \<open>
  The loop of \<open>ensure_account\<close>: at most five attempts, each with an id of its own from the list.
\<close>

fun ensure_loop ::
  "string \<Rightarrow> string \<Rightarrow> nat \<Rightarrow> string list \<Rightarrow> LedgerError option \<Rightarrow> Tables \<Rightarrow> (LedgerError + nat) \<times> Tables" where
  "ensure_loop u who now [] last_error db =
     (Inl (case last_error of Some e \<Rightarrow> e | None \<Rightarrow> NoAccount who), db)"
| "ensure_loop u who now (i # ids) last_error db =
     (case find_account u who db of
        Some _ \<Rightarrow> (Inr 0, db)
      | None \<Rightarrow>
          (case insert_account \<lparr>account_id = i, owner = who, unit = u, balance = 0, held = 0,
                                created_at = as_i64 now\<rparr> db of
             Inr db1 \<Rightarrow> (Inr 0, db1)
           | Inl e \<Rightarrow> ensure_loop u who now ids (Some e) db))"

definition ensure_account ::
  "string \<Rightarrow> string \<Rightarrow> nat \<Rightarrow> string list \<Rightarrow> Tables \<Rightarrow> (LedgerError + nat) \<times> Tables" where
  "ensure_account u who now ids db = ensure_loop u who now (take 5 ids) None db"

definition ledger_account ::
  "string \<Rightarrow> string \<Rightarrow> nat \<Rightarrow> string list \<Rightarrow> Tables \<Rightarrow> (LedgerError + Account) \<times> Tables" where
  "ledger_account u who now ids db =
     (case ensure_account u who now ids db of
        (Inl e, db1) \<Rightarrow> (Inl e, db1)
      | (Inr _, db1) \<Rightarrow>
          (case find_account u who db1 of Some a \<Rightarrow> (Inr a, db1) | None \<Rightarrow> (Inl (NoAccount who), db1)))"

definition ledger_balance ::
  "string \<Rightarrow> string \<Rightarrow> nat \<Rightarrow> string list \<Rightarrow> Tables \<Rightarrow> (LedgerError + Balance) \<times> Tables" where
  "ledger_balance u who now ids db = apfst (map_sum id balance_view) (ledger_account u who now ids db)"

definition history ::
  "string \<Rightarrow> string \<Rightarrow> nat \<Rightarrow> nat \<Rightarrow> string list \<Rightarrow> Tables \<Rightarrow> (LedgerError + Entry list) \<times> Tables" where
  "history u who limit now ids db =
     (case ledger_account u who now ids db of
        (Inl e, db1) \<Rightarrow> (Inl e, db1)
      | (Inr a, db1) \<Rightarrow>
          (Inr (take (max 1 (min limit 1000))
             (rev (filter (\<lambda>e. en_account_id e = account_id a) (entries db1)))), db1))"

subsection \<open>Transfers, lots and holds inside a transaction\<close>

definition entry_for :: "Transfer \<Rightarrow> string \<Rightarrow> int \<Rightarrow> int \<Rightarrow> Entry" where
  "entry_for t aid delta after =
     \<lparr>en_transfer_id = transfer_id t, en_account_id = aid, en_amount = delta, balance_after = after,
      en_kind = kind t, en_reference = reference t, en_created_at = tr_created_at t\<rparr>"

definition insert_entry :: "Transfer \<Rightarrow> string \<Rightarrow> int \<Rightarrow> Tables \<Rightarrow> LedgerError + Tables" where
  "insert_entry t aid delta db =
     and_then (balance_of aid db)
       (\<lambda>after. Inr (db\<lparr>entries := entries db @ [entry_for t aid delta after]\<rparr>))"

definition record_transfer :: "Transfer \<Rightarrow> Tables \<Rightarrow> LedgerError + (Transfer option \<times> Tables)" where
  "record_transfer t db =
     (case insert_transfer t db of
        Inl _ \<Rightarrow> Inr (None, db)
      | Inr db1 \<Rightarrow>
          and_then (insert_entry t (from_account t) (- amount t) db1) (\<lambda>db2.
          and_then (insert_entry t (to_account t) (amount t) db2) (\<lambda>db3.
            Inr (Some t, db3))))"

text \<open>Nulls, the lots that never expire, come last.\<close>

definition lot_key :: "Lot \<Rightarrow> bool \<times> int" where
  "lot_key l = (case lo_expires_at l of None \<Rightarrow> (True, 2 ^ 63 - 1) | Some e \<Rightarrow> (False, e))"

definition take_lot :: "string \<Rightarrow> int \<Rightarrow> Lot list \<Rightarrow> nat \<times> Lot list" where
  "take_lot lid n ls =
     (let p = (\<lambda>l. lot_id l = lid \<and> remaining l \<ge> n)
      in (length (filter p ls), upd p (\<lambda>l. l\<lparr>remaining := remaining l - n\<rparr>) ls))"

fun draw_loop :: "Lot list \<Rightarrow> int \<Rightarrow> Lot list \<Rightarrow> Lot list" where
  "draw_loop [] n ls = ls"
| "draw_loop (l # rest) n ls =
     (if n \<le> 0 then ls
      else
        let t = min (remaining l) n;
            (rows, ls1) = take_lot (lot_id l) t ls
        in draw_loop rest (if rows = 1 then n - t else n) ls1)"

definition draw_lots :: "string \<Rightarrow> int \<Rightarrow> Tables \<Rightarrow> Tables" where
  "draw_lots aid n db =
     (let sel = filter (\<lambda>l. lo_account_id l = aid \<and> remaining l > 0) (lots db)
      in db\<lparr>lots := draw_loop (sort_key lot_key sel) n (lots db)\<rparr>)"

text \<open>\<open>UPDATE ledger_holds SET status = s WHERE hold_id = hid AND status = 'held'\<close>\<close>

definition set_status :: "string \<Rightarrow> HoldStatus \<Rightarrow> Tables \<Rightarrow> nat \<times> Tables" where
  "set_status hid s db =
     (let p = (\<lambda>h. hold_id h = hid \<and> status h = Held)
      in (length (filter p (holds db)), db\<lparr>holds := upd p (\<lambda>h. h\<lparr>status := s\<rparr>) (holds db)\<rparr>))"

definition find_hold :: "string \<Rightarrow> Tables \<Rightarrow> Hold option" where
  "find_hold hid db = find (\<lambda>h. hold_id h = hid) (holds db)"

definition release_in :: "string \<Rightarrow> Tables \<Rightarrow> LedgerError + (bool \<times> Tables)" where
  "release_in hid db =
     (case set_status hid Released db of
        (won, db1) \<Rightarrow>
          if won = 0 then Inr (False, db1)
          else
            case find_hold hid db1 of
              None \<Rightarrow> Inl (Vanished hid)
            | Some h \<Rightarrow>
                and_then (update_accounts (\<lambda>a. account_id a = ho_account_id h)
                            (\<lambda>a. a\<lparr>held := held a - ho_amount h\<rparr>) db1)
                  (\<lambda>(rows, db2). Inr (True, db2)))"

definition hold_not_held :: "string \<Rightarrow> Tables \<Rightarrow> LedgerError" where
  "hold_not_held hid db =
     (case find_hold hid db of Some h \<Rightarrow> NotHeld hid (status h) | None \<Rightarrow> NoHold hid)"

text \<open>A transaction: on an error nothing has happened.\<close>

definition in_tx :: "Tables \<Rightarrow> LedgerError + ('a \<times> Tables) \<Rightarrow> (LedgerError + 'a) \<times> Tables" where
  "in_tx db r = (case r of Inl e \<Rightarrow> (Inl e, db) | Inr (x, db1) \<Rightarrow> (Inr x, db1))"

subsection \<open>Money in\<close>

definition positive :: "int \<Rightarrow> LedgerError option" where
  "positive n = (if n \<le> 0 then Some (NotPositive n) else None)"

text \<open>A transaction that lost the race for its reference answers with the winner's transfer.\<close>

definition winner :: "string \<Rightarrow> Tables \<Rightarrow> LedgerError + Transfer" where
  "winner ref db = (case find_transfer ref db of Some t \<Rightarrow> Inr t | None \<Rightarrow> Inl LostRace)"

definition top_up_body ::
  "string \<Rightarrow> string \<Rightarrow> int \<Rightarrow> string \<Rightarrow> nat option \<Rightarrow> nat \<Rightarrow> string \<Rightarrow> string \<Rightarrow> Tables
   \<Rightarrow> LedgerError + (Transfer option \<times> Tables)" where
  "top_up_body u who n ref expires_in now tr lot db =
     and_then (account_in u who db) (\<lambda>to.
     and_then (account_in u SYSTEM_TOPUP db) (\<lambda>from.
     and_then (debit_unchecked (account_id from) n db) (\<lambda>db1.
     and_then (credit (account_id to) n db1) (\<lambda>db2.
     and_then (record_transfer
         \<lparr>transfer_id = tr, reference = ref, kind = TopUp, from_account = account_id from,
          to_account = account_id to, amount = n, tr_created_at = as_i64 now, metadata = None\<rparr> db2)
       (\<lambda>(t, db3).
          case t of
            None \<Rightarrow> Inr (None, db)
          | Some t \<Rightarrow>
              and_then (insert_lot
                  \<lparr>lot_id = lot, lo_account_id = account_id to, lo_transfer_id = transfer_id t,
                   initial = n, remaining = n,
                   lo_expires_at = map_option (\<lambda>d. as_i64 (now + d)) expires_in,
                   lo_created_at = as_i64 now\<rparr> db3)
                (\<lambda>db4. Inr (Some t, db4)))))))"

definition finish_transfer ::
  "string \<Rightarrow> (LedgerError + Transfer option) \<times> Tables \<Rightarrow> (LedgerError + Transfer) \<times> Tables" where
  "finish_transfer ref r =
     (case r of
        (Inl e, db) \<Rightarrow> (Inl e, db)
      | (Inr (Some t), db) \<Rightarrow> (Inr t, db)
      | (Inr None, db) \<Rightarrow> (winner ref db, db))"

definition top_up_tx ::
  "string \<Rightarrow> string \<Rightarrow> int \<Rightarrow> string \<Rightarrow> nat option \<Rightarrow> nat \<Rightarrow> string \<Rightarrow> string \<Rightarrow> Tables
   \<Rightarrow> (LedgerError + Transfer) \<times> Tables" where
  "top_up_tx u who n ref expires_in now tr lot db =
     finish_transfer ref (in_tx db (top_up_body u who n ref expires_in now tr lot db))"

definition top_up ::
  "string \<Rightarrow> string \<Rightarrow> int \<Rightarrow> string \<Rightarrow> nat option \<Rightarrow> nat \<Rightarrow> string list \<Rightarrow> string list \<Rightarrow> string \<Rightarrow> string \<Rightarrow> Tables
   \<Rightarrow> (LedgerError + Transfer) \<times> Tables" where
  "top_up u who n ref expires_in now ids1 ids2 tr lot db =
     (case positive n of
        Some e \<Rightarrow> (Inl e, db)
      | None \<Rightarrow>
          (case find_transfer ref db of
             Some t \<Rightarrow> (Inr t, db)
           | None \<Rightarrow>
               (case ensure_account u who now ids1 db of
                  (Inl e, db1) \<Rightarrow> (Inl e, db1)
                | (Inr _, db1) \<Rightarrow>
                    (case ensure_account u SYSTEM_TOPUP now ids2 db1 of
                       (Inl e, db2) \<Rightarrow> (Inl e, db2)
                     | (Inr _, db2) \<Rightarrow> top_up_tx u who n ref expires_in now tr lot db2))))"

subsection \<open>Money out\<close>

definition consume_body ::
  "string \<Rightarrow> string \<Rightarrow> int \<Rightarrow> string \<Rightarrow> nat \<Rightarrow> string \<Rightarrow> Tables
   \<Rightarrow> LedgerError + (Transfer option \<times> Tables)" where
  "consume_body u who n ref now tr db =
     and_then (account_in u who db) (\<lambda>from.
     and_then (account_in u SYSTEM_CONSUMPTION db) (\<lambda>to.
     and_then (debit_available (account_id from) n db) (\<lambda>(ok, db1).
       if \<not> ok then Inl (Insufficient who n (available from))
       else
         and_then (credit (account_id to) n db1) (\<lambda>db2.
         and_then (record_transfer
             \<lparr>transfer_id = tr, reference = ref, kind = Consume, from_account = account_id from,
              to_account = account_id to, amount = n, tr_created_at = as_i64 now, metadata = None\<rparr>
             (draw_lots (account_id from) n db2))
           (\<lambda>(t, db3). case t of None \<Rightarrow> Inr (None, db) | Some t \<Rightarrow> Inr (Some t, db3))))))"

definition consume_tx ::
  "string \<Rightarrow> string \<Rightarrow> int \<Rightarrow> string \<Rightarrow> nat \<Rightarrow> string \<Rightarrow> Tables \<Rightarrow> (LedgerError + Transfer) \<times> Tables" where
  "consume_tx u who n ref now tr db =
     finish_transfer ref (in_tx db (consume_body u who n ref now tr db))"

definition consume ::
  "string \<Rightarrow> string \<Rightarrow> int \<Rightarrow> string \<Rightarrow> nat \<Rightarrow> string list \<Rightarrow> string list \<Rightarrow> string \<Rightarrow> Tables
   \<Rightarrow> (LedgerError + Transfer) \<times> Tables" where
  "consume u who n ref now ids1 ids2 tr db =
     (case positive n of
        Some e \<Rightarrow> (Inl e, db)
      | None \<Rightarrow>
          (case find_transfer ref db of
             Some t \<Rightarrow> (Inr t, db)
           | None \<Rightarrow>
               (case ensure_account u who now ids1 db of
                  (Inl e, db1) \<Rightarrow> (Inl e, db1)
                | (Inr _, db1) \<Rightarrow>
                    (case ensure_account u SYSTEM_CONSUMPTION now ids2 db1 of
                       (Inl e, db2) \<Rightarrow> (Inl e, db2)
                     | (Inr _, db2) \<Rightarrow> consume_tx u who n ref now tr db2))))"

subsection \<open>Holds\<close>

definition hold_body ::
  "string \<Rightarrow> string \<Rightarrow> int \<Rightarrow> string \<Rightarrow> nat \<Rightarrow> nat \<Rightarrow> string \<Rightarrow> Tables \<Rightarrow> LedgerError + (Hold option \<times> Tables)" where
  "hold_body u who n ref ttl now hid db =
     and_then (account_in u who db) (\<lambda>a.
     and_then (update_accounts (\<lambda>x. account_id x = account_id a \<and> balance x - held x \<ge> n)
                 (\<lambda>x. x\<lparr>held := held x + n\<rparr>) db)
       (\<lambda>(reserved, db1).
          if reserved = 0 then Inl (Insufficient who n (available a))
          else
            let h = \<lparr>hold_id = hid, ho_account_id = account_id a, ho_amount = n, status = Held,
                     ho_reference = ref, ho_created_at = as_i64 now, ho_expires_at = as_i64 (now + ttl)\<rparr>
            in case insert_hold h db1 of
                 Inl _ \<Rightarrow> Inr (None, db)
               | Inr db2 \<Rightarrow> Inr (Some h, db2)))"

definition hold_tx ::
  "string \<Rightarrow> string \<Rightarrow> int \<Rightarrow> string \<Rightarrow> nat \<Rightarrow> nat \<Rightarrow> string \<Rightarrow> Tables \<Rightarrow> (LedgerError + Hold) \<times> Tables" where
  "hold_tx u who n ref ttl now hid db =
     (case in_tx db (hold_body u who n ref ttl now hid db) of
        (Inl e, db1) \<Rightarrow> (Inl e, db1)
      | (Inr (Some h), db1) \<Rightarrow> (Inr h, db1)
      | (Inr None, db1) \<Rightarrow>
          (case hold_by_reference ref db1 of Some h \<Rightarrow> (Inr h, db1) | None \<Rightarrow> (Inl LostRace, db1)))"

definition ledger_hold ::
  "string \<Rightarrow> string \<Rightarrow> int \<Rightarrow> string \<Rightarrow> nat \<Rightarrow> nat \<Rightarrow> string list \<Rightarrow> string \<Rightarrow> Tables
   \<Rightarrow> (LedgerError + Hold) \<times> Tables" where
  "ledger_hold u who n ref ttl now ids hid db =
     (case positive n of
        Some e \<Rightarrow> (Inl e, db)
      | None \<Rightarrow>
          (case hold_by_reference ref db of
             Some h \<Rightarrow> (Inr h, db)
           | None \<Rightarrow>
               (case ensure_account u who now ids db of
                  (Inl e, db1) \<Rightarrow> (Inl e, db1)
                | (Inr _, db1) \<Rightarrow> hold_tx u who n ref ttl now hid db1)))"

definition capture_body :: "string \<Rightarrow> string \<Rightarrow> nat \<Rightarrow> string \<Rightarrow> Tables \<Rightarrow> LedgerError + (Transfer \<times> Tables)" where
  "capture_body u hid now tr db =
     (case set_status hid Captured db of
        (won, db1) \<Rightarrow>
          if won = 0 then Inl (hold_not_held hid db)
          else
            case find_hold hid db1 of
              None \<Rightarrow> Inl (Vanished hid)
            | Some h \<Rightarrow>
                and_then (account_in u SYSTEM_CONSUMPTION db1) (\<lambda>to.
                and_then (update_accounts (\<lambda>a. account_id a = ho_account_id h)
                    (\<lambda>a. a\<lparr>balance := balance a - ho_amount h, held := held a - ho_amount h\<rparr>) db1)
                  (\<lambda>(rows, db2).
                and_then (credit (account_id to) (ho_amount h) db2) (\<lambda>db3.
                and_then (record_transfer
                    \<lparr>transfer_id = tr, reference = ''capture:'' @ ho_reference h, kind = Capture,
                     from_account = ho_account_id h, to_account = account_id to,
                     amount = ho_amount h, tr_created_at = as_i64 now,
                     metadata = Some (''hold'', hold_id h)\<rparr>
                    (draw_lots (ho_account_id h) (ho_amount h) db3))
                  (\<lambda>(t, db4).
                     case t of None \<Rightarrow> Inl (AlreadyCaptured hid) | Some t \<Rightarrow> Inr (t, db4))))))"

definition capture_tx :: "string \<Rightarrow> string \<Rightarrow> nat \<Rightarrow> string \<Rightarrow> Tables \<Rightarrow> (LedgerError + Transfer) \<times> Tables" where
  "capture_tx u hid now tr db = in_tx db (capture_body u hid now tr db)"

definition ledger_capture ::
  "string \<Rightarrow> string \<Rightarrow> nat \<Rightarrow> string list \<Rightarrow> string \<Rightarrow> Tables \<Rightarrow> (LedgerError + Transfer) \<times> Tables" where
  "ledger_capture u hid now ids tr db =
     (case ensure_account u SYSTEM_CONSUMPTION now ids db of
        (Inl e, db1) \<Rightarrow> (Inl e, db1)
      | (Inr _, db1) \<Rightarrow> capture_tx u hid now tr db1)"

definition ledger_release :: "string \<Rightarrow> Tables \<Rightarrow> LedgerError option \<times> Tables" where
  "ledger_release hid db =
     (case in_tx db (release_in hid db) of
        (Inl e, db1) \<Rightarrow> (Some e, db1)
      | (Inr True, db1) \<Rightarrow> (None, db1)
      | (Inr False, _) \<Rightarrow> (Some (hold_not_held hid db), db))"

subsection \<open>Housekeeping\<close>

record Sweep =
  holds_released :: nat
  lots_expired :: nat
  amount_expired :: int

text \<open>
  One turn of each loop of \<open>sweep\<close>, a transaction of its own.  A lot that somebody emptied in the
  meantime is passed over; a transfer whose reference is taken is not recorded, and the code
  goes on regardless.
\<close>

definition sweep_hold :: "string \<Rightarrow> Sweep \<Rightarrow> Tables \<Rightarrow> (LedgerError + Sweep) \<times> Tables" where
  "sweep_hold hid s db =
     (case in_tx db (release_in hid db) of
        (Inl e, db1) \<Rightarrow> (Inl e, db1)
      | (Inr won, db1) \<Rightarrow>
          (Inr (if won then s\<lparr>holds_released := holds_released s + 1\<rparr> else s), db1))"

definition expire_body ::
  "string \<Rightarrow> string \<Rightarrow> string \<Rightarrow> nat \<Rightarrow> string \<Rightarrow> Tables \<Rightarrow> LedgerError + (int option \<times> Tables)" where
  "expire_body u lid aid now tr db =
     (case find (\<lambda>l. lot_id l = lid \<and> remaining l > 0) (lots db) of
        None \<Rightarrow> Inr (None, db)
      | Some l \<Rightarrow>
          (case find (\<lambda>a. account_id a = aid) (accounts db) of
             None \<Rightarrow> Inl (NoAccount aid)
           | Some a \<Rightarrow>
               (let n = max (min (remaining l) (available a)) 0;
                    db1 = db\<lparr>lots := upd (\<lambda>x. lot_id x = lid) (\<lambda>x. x\<lparr>remaining := 0\<rparr>) (lots db)\<rparr>
                in if n > 0 then
                     and_then (account_in u SYSTEM_EXPIRY db1) (\<lambda>to.
                     and_then (debit_available aid n db1) (\<lambda>(ok, db2).
                       if \<not> ok then Inr (Some 0, db2)
                       else
                         and_then (credit (account_id to) n db2) (\<lambda>db3.
                         and_then (record_transfer
                             \<lparr>transfer_id = tr, reference = ''expire:'' @ lid, kind = Expire,
                              from_account = aid, to_account = account_id to, amount = n,
                              tr_created_at = as_i64 now, metadata = Some (''lot'', lid)\<rparr> db3)
                           (\<lambda>(t, db4). Inr (Some n, db4)))))
                   else Inr (Some 0, db1))))"

definition sweep_lot ::
  "string \<Rightarrow> string \<Rightarrow> string \<Rightarrow> nat \<Rightarrow> string \<Rightarrow> Sweep \<Rightarrow> Tables \<Rightarrow> (LedgerError + Sweep) \<times> Tables" where
  "sweep_lot u lid aid now tr s db =
     (case in_tx db (expire_body u lid aid now tr db) of
        (Inl e, db1) \<Rightarrow> (Inl e, db1)
      | (Inr None, db1) \<Rightarrow> (Inr s, db1)
      | (Inr (Some n), db1) \<Rightarrow>
          (Inr (s\<lparr>amount_expired := amount_expired s + n, lots_expired := lots_expired s + 1\<rparr>), db1))"

fun sweep_holds :: "string list \<Rightarrow> Sweep \<Rightarrow> Tables \<Rightarrow> (LedgerError + Sweep) \<times> Tables" where
  "sweep_holds [] s db = (Inr s, db)"
| "sweep_holds (hid # hids) s db =
     (case sweep_hold hid s db of
        (Inl e, db1) \<Rightarrow> (Inl e, db1)
      | (Inr s1, db1) \<Rightarrow> sweep_holds hids s1 db1)"

fun sweep_lots ::
  "string \<Rightarrow> (string \<times> string) list \<Rightarrow> nat \<Rightarrow> (nat \<Rightarrow> string) \<Rightarrow> Sweep \<Rightarrow> Tables
   \<Rightarrow> (LedgerError + Sweep) \<times> Tables" where
  "sweep_lots u [] now trs s db = (Inr s, db)"
| "sweep_lots u ((lid, aid) # rest) now trs s db =
     (case sweep_lot u lid aid now (trs (length rest)) s db of
        (Inl e, db1) \<Rightarrow> (Inl e, db1)
      | (Inr s1, db1) \<Rightarrow> sweep_lots u rest now trs s1 db1)"

definition stale_holds :: "nat \<Rightarrow> Tables \<Rightarrow> string list" where
  "stale_holds now db =
     map hold_id (filter (\<lambda>h. status h = Held \<and> ho_expires_at h \<le> as_i64 now) (holds db))"

definition dead_lots :: "nat \<Rightarrow> Tables \<Rightarrow> (string \<times> string) list" where
  "dead_lots now db =
     map (\<lambda>l. (lot_id l, lo_account_id l))
       (filter (\<lambda>l. (case lo_expires_at l of None \<Rightarrow> False | Some e \<Rightarrow> e \<le> as_i64 now) \<and> remaining l > 0)
         (lots db))"

definition sweep ::
  "string \<Rightarrow> nat \<Rightarrow> string list \<Rightarrow> (nat \<Rightarrow> string) \<Rightarrow> Tables \<Rightarrow> (LedgerError + Sweep) \<times> Tables" where
  "sweep u now ids trs db =
     (case ensure_account u SYSTEM_EXPIRY now ids db of
        (Inl e, db1) \<Rightarrow> (Inl e, db1)
      | (Inr _, db1) \<Rightarrow>
          (case sweep_holds (stale_holds now db1) \<lparr>holds_released = 0, lots_expired = 0, amount_expired = 0\<rparr> db1 of
             (Inl e, db2) \<Rightarrow> (Inl e, db2)
           | (Inr s, db2) \<Rightarrow> sweep_lots u (dead_lots now db2) now trs s db2))"

datatype Problem =
    EntriesDiffer string int int
  | HeldAgainst string int int
  | DoesNotBalance int

definition entries_total :: "string \<Rightarrow> Tables \<Rightarrow> int" where
  "entries_total aid db = (\<Sum>e \<leftarrow> filter (\<lambda>e. en_account_id e = aid) (entries db). en_amount e)"

definition audit_account :: "Tables \<Rightarrow> Account \<Rightarrow> Problem list" where
  "audit_account db a =
     (let t = entries_total (account_id a) db
      in (if t \<noteq> balance a then [EntriesDiffer (owner a) (balance a) t] else []) @
         (if held a < 0 \<or> (held a > max (balance a) 0 \<and> \<not> is_system a)
          then [HeldAgainst (owner a) (held a) (balance a)] else []))"

definition audit :: "string \<Rightarrow> Tables \<Rightarrow> Problem list" where
  "audit u db =
     (let rows = filter (\<lambda>a. unit a = u) (accounts db); s = (\<Sum>a \<leftarrow> rows. balance a)
      in concat (map (audit_account db) rows) @ (if s \<noteq> 0 then [DoesNotBalance s] else []))"

end
