(* ===== verification/LedgerBook.thy ===== *)
theory LedgerBook
  imports Ledger
begin

section \<open>The book balances\<close>

text \<open>
  The invariant of the ledger, what each statement does to the sums it speaks of, and the proof
  that every transaction of every operation keeps it.
\<close>

subsection \<open>Sums over tables\<close>

definition held_total :: "string \<Rightarrow> Hold list \<Rightarrow> int" where
  "held_total aid hs = (\<Sum>h \<leftarrow> filter (\<lambda>h. ho_account_id h = aid \<and> status h = Held) hs. ho_amount h)"

definition lots_total :: "string \<Rightarrow> Lot list \<Rightarrow> int" where
  "lots_total aid ls = (\<Sum>l \<leftarrow> filter (\<lambda>l. lo_account_id l = aid) ls. remaining l)"

definition flow :: "string \<Rightarrow> string \<Rightarrow> int \<Rightarrow> string \<Rightarrow> int" where
  "flow f t n i = (if i = t then n else 0) - (if i = f then n else 0)"

definition move :: "string \<Rightarrow> string \<Rightarrow> int \<Rightarrow> Account \<Rightarrow> Account" where
  "move f t n a = a\<lparr>balance := balance a + flow f t n (account_id a)\<rparr>"

abbreviation account_ids :: "Tables \<Rightarrow> string list" where
  "account_ids db \<equiv> map account_id (accounts db)"

lemma sum_indicator:
  fixes n :: int
  assumes "distinct (map k xs)" and "i \<in> set (map k xs)"
  shows "(\<Sum>a \<leftarrow> xs. if k a = i then n else 0) = n"
  using assms
proof (induction xs)
  case (Cons x xs)
  have "(\<Sum>a \<leftarrow> xs. if k a = i then n else 0) = 0" if "i \<notin> set (map k xs)"
    using that by (induction xs) auto
  with Cons show ?case by auto
qed simp

lemma sum_flow:
  assumes "distinct (map account_id xs)" and "f \<in> set (map account_id xs)" and "t \<in> set (map account_id xs)"
  shows "(\<Sum>a \<leftarrow> xs. balance a + flow f t n (account_id a)) = (\<Sum>a \<leftarrow> xs. balance a)"
  using sum_indicator [OF assms(1,2), of n] sum_indicator [OF assms(1,3), of n]
  by (simp add: flow_def sum_list_addf sum_list_subtractf)

subsection \<open>The invariant\<close>

definition keys_ok :: "Tables \<Rightarrow> bool" where
  "keys_ok db \<longleftrightarrow>
     distinct (map account_id (accounts db)) \<and> distinct (map (\<lambda>a. (owner a, unit a)) (accounts db)) \<and>
     distinct (map transfer_id (transfers db)) \<and> distinct (map reference (transfers db)) \<and>
     distinct (map hold_id (holds db)) \<and> distinct (map ho_reference (holds db)) \<and>
     distinct (map lot_id (lots db))"

definition refs_ok :: "Tables \<Rightarrow> bool" where
  "refs_ok db \<longleftrightarrow>
     (\<forall>e\<in>set (entries db). en_account_id e \<in> set (account_ids db)) \<and>
     (\<forall>h\<in>set (holds db). ho_account_id h \<in> set (account_ids db) \<and> 0 < ho_amount h) \<and>
     (\<forall>l\<in>set (lots db). lo_account_id l \<in> set (account_ids db) \<and> 0 \<le> remaining l)"

text \<open>What each account owes: to its entries, to its holds and to its lots.\<close>

definition account_ok :: "Tables \<Rightarrow> Account \<Rightarrow> bool" where
  "account_ok db a \<longleftrightarrow>
     balance a = entries_total (account_id a) db \<and>
     held a = held_total (account_id a) (holds db) \<and>
     (if owner a = SYSTEM_TOPUP then balance a \<le> 0 \<and> held a = 0
      else held a \<le> balance a \<and> lots_total (account_id a) (lots db) \<le> balance a)"

definition book_ok :: "Tables \<Rightarrow> bool" where
  "book_ok db \<longleftrightarrow>
     keys_ok db \<and> refs_ok db \<and> (\<forall>a\<in>set (accounts db). account_ok db a) \<and>
     (\<Sum>a \<leftarrow> accounts db. balance a) = 0"

lemma held_total_nonneg: "(\<forall>h\<in>set hs. 0 < ho_amount h) \<Longrightarrow> 0 \<le> held_total aid hs"
  unfolding held_total_def by (rule sum_list_nonneg) auto

lemma lots_total_nonneg: "(\<forall>l\<in>set ls. 0 \<le> remaining l) \<Longrightarrow> 0 \<le> lots_total aid ls"
  unfolding lots_total_def by (rule sum_list_nonneg) auto

lemma book_held_nonneg: "book_ok db \<Longrightarrow> a \<in> set (accounts db) \<Longrightarrow> 0 \<le> held a"
  using held_total_nonneg [of "holds db" "account_id a"]
  by (auto simp: book_ok_def account_ok_def refs_ok_def)

subsection \<open>What the statements do\<close>

lemma upd_map: "upd p f xs = map (\<lambda>x. if p x then f x else x) xs"
  by (simp add: upd_def)

lemma update_accounts_Inr:
  "update_accounts p f db = Inr (rows, db') \<Longrightarrow>
   rows = length (filter p (accounts db)) \<and> db' = db\<lparr>accounts := upd p f (accounts db)\<rparr>"
  by (auto simp: update_accounts_def split: if_splits)

lemma debit_unchecked_Inr:
  "debit_unchecked aid n db = Inr db' \<Longrightarrow>
   db' = db\<lparr>accounts := map (\<lambda>a. a\<lparr>balance := balance a - (if account_id a = aid then n else 0)\<rparr>) (accounts db)\<rparr>"
  by (auto simp: debit_unchecked_def and_then_Inr_iff upd_map dest!: update_accounts_Inr
      intro!: arg_cong [of _ _ "\<lambda>x. db\<lparr>accounts := x\<rparr>"])

lemma credit_Inr:
  "credit aid n db = Inr db' \<Longrightarrow>
   db' = db\<lparr>accounts := map (\<lambda>a. a\<lparr>balance := balance a + (if account_id a = aid then n else 0)\<rparr>) (accounts db)\<rparr>"
  by (auto simp: credit_def and_then_Inr_iff upd_map dest!: update_accounts_Inr
      intro!: arg_cong [of _ _ "\<lambda>x. db\<lparr>accounts := x\<rparr>"])

lemma filter_one:
  assumes "distinct (map k xs)"
  shows "length (filter (\<lambda>x. k x = i \<and> p x) xs) \<le> 1"
  using assms
proof (induction xs)
  case (Cons x xs)
  have "filter (\<lambda>y. k y = i \<and> p y) xs = []" if "k x = i"
    unfolding filter_empty_conv
  proof
    fix y assume "y \<in> set xs"
    then have "k y \<in> set (map k xs)" by simp
    moreover have "k x \<notin> set (map k xs)" using Cons.prems by simp
    ultimately show "\<not> (k y = i \<and> p y)" using that by metis
  qed
  with Cons show ?case by auto
qed simp

text \<open>A guarded debit moves the amount exactly when the guard holds of the account.\<close>

lemma debit_available_Inr:
  assumes "debit_available aid n db = Inr (ok, db')" and "distinct (account_ids db)"
  shows "if ok then
      db' = db\<lparr>accounts := map (\<lambda>a. a\<lparr>balance := balance a - (if account_id a = aid then n else 0)\<rparr>) (accounts db)\<rparr> \<and>
      aid \<in> set (account_ids db) \<and> (\<forall>a\<in>set (accounts db). account_id a = aid \<longrightarrow> n \<le> balance a - held a)
    else db' = db"
proof -
  let ?p = "\<lambda>a. account_id a = aid \<and> balance a - held a \<ge> n"
  have r: "ok = (length (filter ?p (accounts db)) = 1)"
    "db' = db\<lparr>accounts := upd ?p (\<lambda>a. a\<lparr>balance := balance a - n\<rparr>) (accounts db)\<rparr>"
    using assms(1) by (auto simp: debit_available_def and_then_Inr_iff dest!: update_accounts_Inr)
  show ?thesis
  proof (cases ok)
    case True
    then obtain b where b: "b \<in> set (accounts db)" "?p b"
      using r(1) by (metis (mono_tags, lifting) filter_empty_conv length_0_conv zero_neq_one)
    have u: "a = b" if "a \<in> set (accounts db)" "account_id a = aid" for a
      using that b assms(2) by (metis distinct_map inj_onD)
    then have "?p a \<longleftrightarrow> account_id a = aid" if "a \<in> set (accounts db)" for a
      using that b by auto
    then have "accounts db' = map (\<lambda>a. a\<lparr>balance := balance a - (if account_id a = aid then n else 0)\<rparr>) (accounts db)"
      using r(2) by (simp add: upd_map)
    with True r b u show ?thesis by auto
  next
    case False
    then have "length (filter ?p (accounts db)) = 0"
      using r(1) filter_one [OF assms(2), of aid "\<lambda>a. balance a - held a \<ge> n"] by linarith
    then have "\<forall>a\<in>set (accounts db). \<not> ?p a" by (simp add: filter_empty_conv)
    then have "upd ?p (\<lambda>a. a\<lparr>balance := balance a - n\<rparr>) (accounts db) = accounts db"
      by (auto simp: upd_map intro!: map_idI)
    with r False show ?thesis by simp
  qed
qed

lemma balance_of_Inr:
  "balance_of aid db = Inr b \<Longrightarrow> distinct (account_ids db) \<Longrightarrow>
   \<exists>a\<in>set (accounts db). account_id a = aid \<and> balance a = b"
  by (auto simp: balance_of_def find_Some_iff split: option.splits)

lemma record_transfer_Some:
  assumes "record_transfer t db = Inr (Some t', db')"
  shows "t' = t \<and> (\<forall>s\<in>set (transfers db). transfer_id s \<noteq> transfer_id t \<and> reference s \<noteq> reference t) \<and>
    (\<exists>b1 b2. balance_of (from_account t) db = Inr b1 \<and> balance_of (to_account t) db = Inr b2 \<and>
      db' = db\<lparr>transfers := transfers db @ [t],
        entries := entries db @ [entry_for t (from_account t) (- amount t) b1, entry_for t (to_account t) (amount t) b2]\<rparr>)"
  using assms
  by (auto simp: record_transfer_def insert_transfer_def insert_entry_def and_then_Inr_iff balance_of_def
      split: if_splits option.splits)

lemma record_transfer_None: "record_transfer t db = Inr (None, db') \<Longrightarrow> db' = db"
  by (auto simp: record_transfer_def and_then_Inr_iff split: sum.splits)

lemma account_in_Inr:
  "account_in u who db = Inr a \<Longrightarrow> a \<in> set (accounts db) \<and> owner a = who \<and> unit a = u"
  by (auto simp: account_in_def find_account_def find_Some_iff split: option.splits)

subsection \<open>Lots\<close>

lemma lots_total_upd:
  assumes "distinct (map lot_id ls)" and "l \<in> set ls" and "\<And>x. lo_account_id (f x) = lo_account_id x"
  shows "lots_total aid (upd (\<lambda>x. lot_id x = lot_id l) f ls) =
    lots_total aid ls + (if lo_account_id l = aid then remaining (f l) - remaining l else 0)"
  using assms(1,2)
proof (induction ls)
  case (Cons x xs)
  show ?case
  proof (cases "x = l")
    case True
    then have "\<forall>y\<in>set xs. lot_id y \<noteq> lot_id l" using Cons.prems(1) by (auto simp: image_iff)
    then have "upd (\<lambda>x. lot_id x = lot_id l) f xs = xs" by (simp add: upd_map map_idI)
    with True show ?thesis by (simp add: upd_map lots_total_def assms(3))
  next
    case False
    then have "lot_id x \<noteq> lot_id l" using Cons.prems by (auto simp: image_iff)
    with Cons False show ?thesis by (simp add: upd_map lots_total_def)
  qed
qed simp

text \<open>
  The loop over the selected lots, which are rows of the table as it stands: every step finds its
  row, and takes from it what is there or what is still wanted.
\<close>

lemma take_lot_row:
  assumes "distinct (map lot_id ls)" and "l \<in> set ls" and "t \<le> remaining l"
  shows "take_lot (lot_id l) t ls =
    (1, upd (\<lambda>x. lot_id x = lot_id l) (\<lambda>x. x\<lparr>remaining := remaining x - t\<rparr>) ls)"
proof -
  let ?p = "\<lambda>x. lot_id x = lot_id l \<and> t \<le> remaining x"
  have u: "?p x \<longleftrightarrow> lot_id x = lot_id l" if "x \<in> set ls" for x
    using that assms by (metis distinct_map inj_onD)
  have "length (filter ?p ls) \<le> 1" using filter_one [OF assms(1)] .
  moreover have "filter ?p ls \<noteq> []" using assms(2,3) by (auto simp: filter_empty_conv)
  ultimately have "length (filter ?p ls) = 1" by (metis le_less_Suc_eq length_greater_0_conv less_one nat_less_le One_nat_def)
  with u show ?thesis by (simp add: take_lot_def Let_def upd_map)
qed

lemma draw_loop_total:
  assumes "distinct (map lot_id ls)" and "distinct (map lot_id sel)" and "set sel \<subseteq> set ls"
    and "\<forall>l\<in>set sel. lo_account_id l = aid \<and> 0 \<le> remaining l" and "\<forall>l\<in>set ls. 0 \<le> remaining l" and "0 \<le> n"
  shows "map lot_id (draw_loop sel n ls) = map lot_id ls \<and>
    map lo_account_id (draw_loop sel n ls) = map lo_account_id ls \<and>
    (\<forall>l\<in>set (draw_loop sel n ls). 0 \<le> remaining l) \<and>
    lots_total a (draw_loop sel n ls) =
      lots_total a ls - (if a = aid then min n (\<Sum>l \<leftarrow> sel. remaining l) else 0)"
  using assms
proof (induction sel n ls rule: draw_loop.induct)
  case (2 l rest n ls)
  show ?case
  proof (cases "n \<le> 0")
    case True
    then have "n = 0" using 2 by simp
    moreover have "0 \<le> (\<Sum>l \<leftarrow> l # rest. remaining l)"
      using "2.prems"(4) by (intro sum_list_nonneg) auto
    ultimately show ?thesis using 2 by simp
  next
    case False
    let ?t = "min (remaining l) n"
    let ?u = "upd (\<lambda>x. lot_id x = lot_id l) (\<lambda>x. x\<lparr>remaining := remaining x - ?t\<rparr>) ls"
    have row: "take_lot (lot_id l) ?t ls = (1, ?u)"
      using "2.prems" by (intro take_lot_row) auto
    have same: "x = l" if "x \<in> set ls" "lot_id x = lot_id l" for x
      using that "2.prems"(1,3) by (metis distinct_map inj_onD list.set_intros(1) subsetD)
    have ids: "map lot_id ?u = map lot_id ls" "map lo_account_id ?u = map lo_account_id ls"
      by (simp_all add: upd_map)
    have sub: "set rest \<subseteq> set ?u"
    proof
      fix x assume x: "x \<in> set rest"
      then have "x \<in> set ls" "lot_id x \<noteq> lot_id l" using "2.prems"(2,3) by (auto simp: image_iff)
      then show "x \<in> set ?u" by (force simp: upd_map)
    qed
    have nn: "\<forall>x\<in>set ?u. 0 \<le> remaining x"
      using "2.prems"(5) by (auto simp: upd_map dest: same)
    have tot: "lots_total a ?u = lots_total a ls - (if a = aid then ?t else 0)"
      using lots_total_upd [OF "2.prems"(1), of l "\<lambda>x. x\<lparr>remaining := remaining x - ?t\<rparr>" a] "2.prems"(3,4)
      by auto
    have IH: "map lot_id (draw_loop rest (n - ?t) ?u) = map lot_id ?u \<and>
      map lo_account_id (draw_loop rest (n - ?t) ?u) = map lo_account_id ?u \<and>
      (\<forall>l\<in>set (draw_loop rest (n - ?t) ?u). 0 \<le> remaining l) \<and>
      lots_total a (draw_loop rest (n - ?t) ?u) =
        lots_total a ?u - (if a = aid then min (n - ?t) (\<Sum>l \<leftarrow> rest. remaining l) else 0)"
      using "2.IH" [OF False refl row [symmetric] refl] "2.prems" ids sub nn by auto
    have "0 \<le> (\<Sum>l \<leftarrow> rest. remaining l)"
      using "2.prems"(4) by (intro sum_list_nonneg) auto
    then have "min n (remaining l + (\<Sum>l \<leftarrow> rest. remaining l)) = ?t + min (n - ?t) (\<Sum>l \<leftarrow> rest. remaining l)"
      by (simp add: min_def)
    with IH tot ids False row show ?thesis by (simp add: Let_def)
  qed
qed simp

lemma sum_positive_part:
  fixes r :: "'a \<Rightarrow> int"
  assumes "\<forall>l\<in>set ls. 0 \<le> r l"
  shows "(\<Sum>l \<leftarrow> filter (\<lambda>l. p l \<and> r l > 0) ls. r l) = (\<Sum>l \<leftarrow> filter p ls. r l)"
  using assms by (induction ls) auto

lemma sum_sort_key: "(\<Sum>l \<leftarrow> sort_key k ls. (r l :: int)) = (\<Sum>l \<leftarrow> ls. r l)"
  by (metis mset_map mset_sort sum_mset_sum_list)

lemma draw_lots_spec:
  assumes "distinct (map lot_id (lots db))" and "\<forall>l\<in>set (lots db). 0 \<le> remaining l" and "0 \<le> n"
  shows "map lot_id (lots (draw_lots aid n db)) = map lot_id (lots db)"
    and "map lo_account_id (lots (draw_lots aid n db)) = map lo_account_id (lots db)"
    and "\<forall>l\<in>set (lots (draw_lots aid n db)). 0 \<le> remaining l"
    and "lots_total a (lots (draw_lots aid n db)) =
      lots_total a (lots db) - (if a = aid then min n (lots_total aid (lots db)) else 0)"
proof -
  let ?sel = "sort_key lot_key (filter (\<lambda>l. lo_account_id l = aid \<and> remaining l > 0) (lots db))"
  have "distinct (map lot_id ?sel)"
  proof -
    have "distinct (map lot_id (filter (\<lambda>l. lo_account_id l = aid \<and> remaining l > 0) (lots db)))"
      by (rule distinct_map_filter [OF assms(1)])
    moreover have "mset (map lot_id ?sel) = mset (map lot_id (filter (\<lambda>l. lo_account_id l = aid \<and> remaining l > 0) (lots db)))"
      by simp
    ultimately show ?thesis using mset_eq_imp_distinct_iff by blast
  qed
  moreover have "set ?sel \<subseteq> set (lots db)" "\<forall>l\<in>set ?sel. lo_account_id l = aid \<and> 0 \<le> remaining l" by auto
  ultimately have "map lot_id (draw_loop ?sel n (lots db)) = map lot_id (lots db) \<and>
    map lo_account_id (draw_loop ?sel n (lots db)) = map lo_account_id (lots db) \<and>
    (\<forall>l\<in>set (draw_loop ?sel n (lots db)). 0 \<le> remaining l) \<and>
    lots_total a (draw_loop ?sel n (lots db)) =
      lots_total a (lots db) - (if a = aid then min n (\<Sum>l \<leftarrow> ?sel. remaining l) else 0)"
    using draw_loop_total [OF assms(1)] assms(2,3) by blast
  moreover have "(\<Sum>l \<leftarrow> ?sel. remaining l) = lots_total aid (lots db)"
    using sum_positive_part [OF assms(2), of "\<lambda>l. lo_account_id l = aid"]
    by (simp add: sum_sort_key lots_total_def)
  ultimately show "map lot_id (lots (draw_lots aid n db)) = map lot_id (lots db)"
    and "map lo_account_id (lots (draw_lots aid n db)) = map lo_account_id (lots db)"
    and "\<forall>l\<in>set (lots (draw_lots aid n db)). 0 \<le> remaining l"
    and "lots_total a (lots (draw_lots aid n db)) =
      lots_total a (lots db) - (if a = aid then min n (lots_total aid (lots db)) else 0)"
    by (simp_all add: draw_lots_def Let_def)
qed

lemma draw_lots_other [simp]:
  "accounts (draw_lots aid n db) = accounts db" "transfers (draw_lots aid n db) = transfers db"
  "entries (draw_lots aid n db) = entries db" "holds (draw_lots aid n db) = holds db"
  by (simp_all add: draw_lots_def Let_def)

lemma draw_lots_accounts: "draw_lots aid n (db\<lparr>accounts := x\<rparr>) = (draw_lots aid n db)\<lparr>accounts := x\<rparr>"
  by (simp add: draw_lots_def Let_def)

subsection \<open>A transfer keeps the book\<close>

text \<open>
  The shape of every transaction that moves value: the balances of two accounts change by the
  amount, reservations change by \<open>dh\<close>, the transfer and its two entries are written, and holds
  and lots are whatever the operation makes of them.
\<close>

definition moved ::
  "Transfer \<Rightarrow> (string \<Rightarrow> int) \<Rightarrow> Tables \<Rightarrow> Tables \<Rightarrow> bool" where
  "moved t dh db db' \<longleftrightarrow>
     from_account t \<in> set (account_ids db) \<and> to_account t \<in> set (account_ids db) \<and>
     (\<forall>s\<in>set (transfers db). transfer_id s \<noteq> transfer_id t \<and> reference s \<noteq> reference t) \<and>
     accounts db' = map (\<lambda>a. a\<lparr>balance := balance a + flow (from_account t) (to_account t) (amount t) (account_id a),
       held := held a + dh (account_id a)\<rparr>) (accounts db) \<and>
     transfers db' = transfers db @ [t] \<and>
     (\<exists>b1 b2. balance_of (from_account t) db' = Inr b1 \<and> balance_of (to_account t) db' = Inr b2 \<and>
        entries db' = entries db @ [entry_for t (from_account t) (- amount t) b1,
                                    entry_for t (to_account t) (amount t) b2])"

lemma moved_entries:
  "moved t dh db db' \<Longrightarrow>
   entries_total i db' = entries_total i db + flow (from_account t) (to_account t) (amount t) i"
  by (auto simp: moved_def entries_total_def entry_for_def flow_def)

lemma moved_book_ok:
  assumes "moved t dh db db'" and "book_ok db"
    and "map hold_id (holds db') = map hold_id (holds db)"
    and "map ho_reference (holds db') = map ho_reference (holds db)"
    and "\<forall>h\<in>set (holds db'). ho_account_id h \<in> set (account_ids db) \<and> 0 < ho_amount h"
    and "\<And>i. held_total i (holds db') = held_total i (holds db) + dh i"
    and "distinct (map lot_id (lots db'))"
    and "\<forall>l\<in>set (lots db'). lo_account_id l \<in> set (account_ids db) \<and> 0 \<le> remaining l"
    and "\<And>a. a \<in> set (accounts db) \<Longrightarrow>
      (let b = balance a + flow (from_account t) (to_account t) (amount t) (account_id a);
           h = held a + dh (account_id a)
       in if owner a = SYSTEM_TOPUP then b \<le> 0 \<and> h = 0
          else h \<le> b \<and> lots_total (account_id a) (lots db') \<le> b)"
  shows "book_ok db'"
proof -
  have acc: "accounts db' = map (\<lambda>a. a\<lparr>balance := balance a + flow (from_account t) (to_account t) (amount t) (account_id a),
       held := held a + dh (account_id a)\<rparr>) (accounts db)"
    and tr: "transfers db' = transfers db @ [t]"
    and fresh: "\<forall>s\<in>set (transfers db). transfer_id s \<noteq> transfer_id t \<and> reference s \<noteq> reference t"
    and ft: "from_account t \<in> set (account_ids db)" "to_account t \<in> set (account_ids db)"
    using assms(1) by (simp_all add: moved_def)
  have ids: "map account_id (accounts db') = map account_id (accounts db)"
    "map (\<lambda>a. (owner a, unit a)) (accounts db') = map (\<lambda>a. (owner a, unit a)) (accounts db)"
    by (simp_all add: acc)
  have keys: "keys_ok db'"
    using assms(2,3,4,7) fresh unfolding keys_ok_def ids tr book_ok_def by auto
  have refs: "refs_ok db'"
    using assms(1,2,5,8) ft unfolding refs_ok_def ids book_ok_def
    by (auto simp: moved_def entry_for_def)
  have "account_ok db' a'" if a': "a' \<in> set (accounts db')" for a'
  proof -
    obtain a where a: "a \<in> set (accounts db)"
      "a' = a\<lparr>balance := balance a + flow (from_account t) (to_account t) (amount t) (account_id a),
        held := held a + dh (account_id a)\<rparr>"
      using a' unfolding acc by auto
    have "account_ok db a" using assms(2) a(1) by (simp add: book_ok_def)
    with assms(9) [OF a(1)] assms(6) moved_entries [OF assms(1)] show ?thesis
      by (simp add: a(2) account_ok_def Let_def split: if_splits)
  qed
  moreover have "(\<Sum>a \<leftarrow> accounts db'. balance a) = 0"
    using sum_flow [OF _ ft, of "amount t"] assms(2)
    by (simp add: acc comp_def book_ok_def keys_ok_def)
  ultimately show ?thesis using keys refs by (simp add: book_ok_def)
qed

subsection \<open>The transactions\<close>

lemma account_balance_update [simp]:
  "a\<lparr>balance := x, held := held a\<rparr> = a\<lparr>balance := x\<rparr>"
  by (rule Account.equality) simp_all

lemma balance_of_cong: "accounts db' = accounts db \<Longrightarrow> balance_of i db' = balance_of i db"
  by (simp add: balance_of_def)

lemma record_transfer_moved:
  assumes "record_transfer t db1 = Inr (Some t', db')"
    and "accounts db1 = map (\<lambda>a. a\<lparr>balance := balance a + flow (from_account t) (to_account t) (amount t) (account_id a),
       held := held a + dh (account_id a)\<rparr>) (accounts db)"
    and "transfers db1 = transfers db" and "entries db1 = entries db"
    and "from_account t \<in> set (account_ids db)" and "to_account t \<in> set (account_ids db)"
  shows "t' = t \<and> moved t dh db db' \<and> holds db' = holds db1 \<and> lots db' = lots db1"
  using record_transfer_Some [OF assms(1)] assms(2-)
  by (auto simp: moved_def balance_of_def)

lemma moved_lots: "moved t dh db db' \<Longrightarrow> moved t dh db (db'\<lparr>lots := ls\<rparr>)"
  by (simp add: moved_def balance_of_cong [of "db'\<lparr>lots := ls\<rparr>" db'])

lemma insert_lot_Inr:
  "insert_lot l db = Inr db' \<Longrightarrow> db' = db\<lparr>lots := lots db @ [l]\<rparr> \<and> lot_id l \<notin> set (map lot_id (lots db))"
  by (auto simp: insert_lot_def split: if_splits)

lemma lots_total_snoc:
  "lots_total i (ls @ [l]) = lots_total i ls + (if lo_account_id l = i then remaining l else 0)"
  by (simp add: lots_total_def)

lemma top_up_body_Some:
  assumes "top_up_body u who n ref ex now tr lot db = Inr (Some t, db')"
  obtains src to l where
    "account_in u who db = Inr to" "account_in u SYSTEM_TOPUP db = Inr src"
    "t = \<lparr>transfer_id = tr, reference = ref, kind = TopUp, from_account = account_id src,
          to_account = account_id to, amount = n, tr_created_at = as_i64 now, metadata = None\<rparr>"
    "moved t (\<lambda>_. 0) db db'" "holds db' = holds db" "lots db' = lots db @ [l]"
    "lot_id l \<notin> set (map lot_id (lots db))" "lo_account_id l = account_id to" "remaining l = n"
proof -
  let ?t = "\<lambda>src to. \<lparr>transfer_id = tr, reference = ref, kind = TopUp, from_account = account_id src,
          to_account = account_id to, amount = n, tr_created_at = as_i64 now, metadata = None\<rparr>"
  obtain to src db1 db2 db3 t3 where a: "account_in u who db = Inr to" "account_in u SYSTEM_TOPUP db = Inr src"
    "debit_unchecked (account_id src) n db = Inr db1" "credit (account_id to) n db1 = Inr db2"
    "record_transfer (?t src to) db2 = Inr (t3, db3)"
    and r: "(case t3 of None \<Rightarrow> Inr (None, db)
          | Some t \<Rightarrow>
              and_then (insert_lot
                  \<lparr>lot_id = lot, lo_account_id = account_id to, lo_transfer_id = transfer_id t,
                   initial = n, remaining = n,
                   lo_expires_at = map_option (\<lambda>d. as_i64 (now + d)) ex,
                   lo_created_at = as_i64 now\<rparr> db3)
                (\<lambda>db4. Inr (Some t, db4))) = Inr (Some t, db')"
    using assms by (auto simp: top_up_body_def and_then_Inr_iff)
  obtain t4 where t4: "t3 = Some t4" using r by (cases t3) auto
  define l where "l = \<lparr>lot_id = lot, lo_account_id = account_id to, lo_transfer_id = transfer_id t4,
                   initial = n, remaining = n,
                   lo_expires_at = map_option (\<lambda>d. as_i64 (now + d)) ex,
                   lo_created_at = as_i64 now\<rparr>"
  have i: "insert_lot l db3 = Inr db'" "t4 = t" using r t4 by (auto simp: and_then_Inr_iff l_def)
  have acc: "accounts db2 = map (\<lambda>a. a\<lparr>balance := balance a + flow (account_id src) (account_id to) n (account_id a),
       held := held a + 0\<rparr>) (accounts db)"
    unfolding credit_Inr [OF a(4)] debit_unchecked_Inr [OF a(3)] by (simp add: flow_def)
  have rest: "transfers db2 = transfers db" "entries db2 = entries db" "holds db2 = holds db" "lots db2 = lots db"
    unfolding credit_Inr [OF a(4)] debit_unchecked_Inr [OF a(3)] by simp_all
  have m: "t4 = ?t src to \<and> moved (?t src to) (\<lambda>_. 0) db db3 \<and> holds db3 = holds db2 \<and> lots db3 = lots db2"
    by (rule record_transfer_moved) (use a t4 acc rest account_in_Inr in auto)
  note l = insert_lot_Inr [OF i(1)]
  show thesis
  proof (rule that [of to src l])
    show "moved t (\<lambda>_. 0) db db'" using m l i(2) moved_lots by metis
  qed (use m l i rest a in \<open>simp_all add: l_def\<close>)
qed

lemma moved_simple:
  assumes "moved t (\<lambda>_. 0) db db'" and "book_ok db" and "holds db' = holds db"
    and "distinct (map lot_id (lots db'))"
    and "\<forall>l\<in>set (lots db'). lo_account_id l \<in> set (account_ids db) \<and> 0 \<le> remaining l"
    and "\<And>a. a \<in> set (accounts db) \<Longrightarrow>
      (let b = balance a + flow (from_account t) (to_account t) (amount t) (account_id a)
       in if owner a = SYSTEM_TOPUP then b \<le> 0
          else held a \<le> b \<and> lots_total (account_id a) (lots db') \<le> b)"
  shows "book_ok db'"
proof (rule moved_book_ok [OF assms(1,2)])
  fix a assume a: "a \<in> set (accounts db)"
  then have "owner a = SYSTEM_TOPUP \<Longrightarrow> held a = 0"
    using assms(2) by (auto simp: book_ok_def account_ok_def)
  with assms(6) [OF a] show "let b = balance a + flow (from_account t) (to_account t) (amount t) (account_id a);
           h = held a + 0
       in if owner a = SYSTEM_TOPUP then b \<le> 0 \<and> h = 0
          else h \<le> b \<and> lots_total (account_id a) (lots db') \<le> b"
    by (simp add: Let_def)
qed (use assms in \<open>auto simp: book_ok_def refs_ok_def\<close>)

lemma same_account:
  "book_ok db \<Longrightarrow> a \<in> set (accounts db) \<Longrightarrow> b \<in> set (accounts db) \<Longrightarrow> account_id a = account_id b \<Longrightarrow> a = b"
  by (auto simp: book_ok_def keys_ok_def distinct_map dest: inj_onD)

lemma same_owner:
  "book_ok db \<Longrightarrow> a \<in> set (accounts db) \<Longrightarrow> b \<in> set (accounts db) \<Longrightarrow>
   owner a = owner b \<Longrightarrow> unit a = unit b \<Longrightarrow> a = b"
  by (auto simp: book_ok_def keys_ok_def distinct_map dest: inj_onD)

lemma top_up_body_ok:
  assumes "book_ok db" and "0 < n" and "top_up_body u who n ref ex now tr lot db = Inr (t, db')"
  shows "book_ok db'"
proof (cases t)
  case None
  then have "db' = db"
    using assms(3) by (auto simp: top_up_body_def and_then_Inr_iff split: option.splits)
  with assms show ?thesis by simp
next
  case (Some t1)
  obtain src to l where b: "account_in u who db = Inr to" "account_in u SYSTEM_TOPUP db = Inr src"
    "t1 = \<lparr>transfer_id = tr, reference = ref, kind = TopUp, from_account = account_id src,
          to_account = account_id to, amount = n, tr_created_at = as_i64 now, metadata = None\<rparr>"
    "moved t1 (\<lambda>_. 0) db db'" "holds db' = holds db" "lots db' = lots db @ [l]"
    "lot_id l \<notin> set (map lot_id (lots db))" "lo_account_id l = account_id to" "remaining l = n"
    by (rule top_up_body_Some [OF assms(3) [unfolded Some]])
  note to = account_in_Inr [OF b(1)] and fr = account_in_Inr [OF b(2)]
  show ?thesis
  proof (rule moved_simple [OF b(4) assms(1) b(5)])
    show "distinct (map lot_id (lots db'))"
      using assms(1) b by (auto simp: book_ok_def keys_ok_def)
    show "\<forall>l\<in>set (lots db'). lo_account_id l \<in> set (account_ids db) \<and> 0 \<le> remaining l"
      using assms(1,2) b to by (auto simp: book_ok_def refs_ok_def)
    fix a assume a: "a \<in> set (accounts db)"
    have ok: "account_ok db a" using assms(1) a by (simp add: book_ok_def)
    have to': "account_id a = account_id to \<Longrightarrow> a = to" using same_account [OF assms(1) a] to by simp
    have fr': "account_id a = account_id src \<Longrightarrow> a = src" using same_account [OF assms(1) a] fr by simp
    show "let b = balance a + flow (from_account t1) (to_account t1) (amount t1) (account_id a)
       in if owner a = SYSTEM_TOPUP then b \<le> 0
          else held a \<le> b \<and> lots_total (account_id a) (lots db') \<le> b"
    proof (cases "owner a = SYSTEM_TOPUP")
      case True
      then have "a = to \<Longrightarrow> a = src" using to fr same_owner [OF assms(1) a] by auto
      then have "account_id a = account_id to \<longrightarrow> account_id a = account_id src" using to' by auto
      moreover have "balance a \<le> 0" using ok True by (simp add: account_ok_def)
      ultimately show ?thesis using True assms(2) b(3) by (simp add: flow_def Let_def)
    next
      case False
      then have "account_id a \<noteq> account_id src" using fr fr' by auto
      moreover have "lots_total (account_id a) (lots db') =
          lots_total (account_id a) (lots db) + (if account_id a = account_id to then n else 0)"
        using b(6,8,9) by (simp add: lots_total_snoc)
      moreover have "held a \<le> balance a" "lots_total (account_id a) (lots db) \<le> balance a"
        using ok False by (simp_all add: account_ok_def)
      ultimately show ?thesis using False assms(2) b(3)
        by (simp add: flow_def Let_def)
    qed
  qed
qed

lemma consume_body_Some:
  assumes "consume_body u who n ref now tr db = Inr (Some t, db')" and "book_ok db"
  obtains src to where
    "account_in u who db = Inr src" "account_in u SYSTEM_CONSUMPTION db = Inr to"
    "n \<le> balance src - held src"
    "t = \<lparr>transfer_id = tr, reference = ref, kind = Consume, from_account = account_id src,
          to_account = account_id to, amount = n, tr_created_at = as_i64 now, metadata = None\<rparr>"
    "moved t (\<lambda>_. 0) db db'" "holds db' = holds db" "lots db' = lots (draw_lots (account_id src) n db)"
proof -
  let ?t = "\<lambda>src to. \<lparr>transfer_id = tr, reference = ref, kind = Consume, from_account = account_id src,
          to_account = account_id to, amount = n, tr_created_at = as_i64 now, metadata = None\<rparr>"
  obtain src to db1 db2 where a: "account_in u who db = Inr src" "account_in u SYSTEM_CONSUMPTION db = Inr to"
    "debit_available (account_id src) n db = Inr (True, db1)" "credit (account_id to) n db1 = Inr db2"
    "record_transfer (?t src to) (draw_lots (account_id src) n db2) = Inr (Some t, db')"
    using assms(1) by (auto simp: consume_body_def and_then_Inr_iff split: if_splits option.splits)
  have "distinct (account_ids db)" using assms(2) by (simp add: book_ok_def keys_ok_def)
  note d = debit_available_Inr [OF a(3) this, simplified]
  note src = account_in_Inr [OF a(1)] and to = account_in_Inr [OF a(2)]
  let ?db2 = "draw_lots (account_id src) n db2"
  have acc: "accounts ?db2 = map (\<lambda>a. a\<lparr>balance := balance a + flow (account_id src) (account_id to) n (account_id a),
       held := held a + 0\<rparr>) (accounts db)"
    using credit_Inr [OF a(4)] d by (simp add: flow_def)
  have rest: "transfers ?db2 = transfers db" "entries ?db2 = entries db" "holds ?db2 = holds db"
    "lots ?db2 = lots (draw_lots (account_id src) n db)"
    using credit_Inr [OF a(4)] d by (simp_all add: draw_lots_accounts)
  have m: "t = ?t src to \<and> moved (?t src to) (\<lambda>_. 0) db db' \<and> holds db' = holds ?db2 \<and> lots db' = lots ?db2"
    by (rule record_transfer_moved [OF a(5)]) (use acc rest src to in auto)
  show thesis
    by (rule that [of src to]) (use a m rest d src in auto)
qed

text \<open>
  A debit, with \<open>dh\<close> taken off the reservation at the same time, that leaves the reservations
  covered and is drawn from the lots keeps the book.
\<close>

lemma drawn_solvent:
  assumes "moved t dh db db'" and "book_ok db"
    and "map hold_id (holds db') = map hold_id (holds db)"
    and "map ho_reference (holds db') = map ho_reference (holds db)"
    and "\<forall>h\<in>set (holds db'). ho_account_id h \<in> set (account_ids db) \<and> 0 < ho_amount h"
    and "\<And>i. held_total i (holds db') = held_total i (holds db) + dh i"
    and "lots db' = lots (draw_lots (from_account t) (amount t) db)" and "0 < amount t"
    and "\<And>a. a \<in> set (accounts db) \<Longrightarrow> account_id a = from_account t \<Longrightarrow>
      owner a \<noteq> SYSTEM_TOPUP \<and> 0 \<le> held a + dh (account_id a) \<and>
      held a + dh (account_id a) \<le> balance a - amount t"
    and "\<And>a. a \<in> set (accounts db) \<Longrightarrow> account_id a = to_account t \<Longrightarrow> owner a \<noteq> SYSTEM_TOPUP"
    and "\<And>i. i \<noteq> from_account t \<Longrightarrow> dh i = 0"
  shows "book_ok db'"
proof (rule moved_book_ok [OF assms(1-6)])
  have k: "distinct (map lot_id (lots db))" "\<forall>l\<in>set (lots db). 0 \<le> remaining l" "0 \<le> amount t"
    using assms(2,8) by (auto simp: book_ok_def keys_ok_def refs_ok_def)
  note d = draw_lots_spec [OF k, where aid = "from_account t"]
  show "distinct (map lot_id (lots db'))" using d(1) k(1) assms(7) by simp
  have "set (map lo_account_id (lots db')) \<subseteq> set (account_ids db)"
    unfolding assms(7) d(2) using assms(2) by (auto simp: book_ok_def refs_ok_def)
  then show "\<forall>l\<in>set (lots db'). lo_account_id l \<in> set (account_ids db) \<and> 0 \<le> remaining l"
    using d(3) assms(7) by auto
  fix a assume a: "a \<in> set (accounts db)"
  have ok: "account_ok db a" using assms(2) a by (simp add: book_ok_def)
  show "let b = balance a + flow (from_account t) (to_account t) (amount t) (account_id a);
           h = held a + dh (account_id a)
       in if owner a = SYSTEM_TOPUP then b \<le> 0 \<and> h = 0
          else h \<le> b \<and> lots_total (account_id a) (lots db') \<le> b"
  proof (cases "owner a = SYSTEM_TOPUP")
    case True
    with assms(9,10) [OF a] have "account_id a \<noteq> to_account t" "account_id a \<noteq> from_account t" by auto
    moreover from this have "dh (account_id a) = 0" using assms(11) by blast
    moreover have "balance a \<le> 0" "held a = 0" using ok True by (simp_all add: account_ok_def)
    ultimately show ?thesis using True assms(8) by (simp add: flow_def Let_def)
  next
    case False
    have "held a \<le> balance a" "lots_total (account_id a) (lots db) \<le> balance a"
      using ok False by (simp_all add: account_ok_def)
    moreover have "0 \<le> lots_total (account_id a) (lots db)"
      using k(2) by (rule lots_total_nonneg)
    moreover have "account_id a = from_account t \<longrightarrow>
      0 \<le> held a + dh (account_id a) \<and> held a + dh (account_id a) \<le> balance a - amount t"
      using assms(9) [OF a] by blast
    moreover have "account_id a \<noteq> from_account t \<longrightarrow> dh (account_id a) = 0" using assms(11) by blast
    moreover note d(4) [where a = "account_id a"]
    ultimately show ?thesis using False assms(7,8)
      by (auto simp: flow_def Let_def)
  qed
qed

lemma SYSTEM_neq [simp]:
  "SYSTEM_CONSUMPTION \<noteq> SYSTEM_TOPUP" "SYSTEM_EXPIRY \<noteq> SYSTEM_TOPUP"
  by (simp_all add: SYSTEM_CONSUMPTION_def SYSTEM_TOPUP_def SYSTEM_EXPIRY_def)

lemma consume_body_ok:
  assumes "book_ok db" and "0 < n" and "consume_body u who n ref now tr db = Inr (t, db')"
  shows "book_ok db'"
proof (cases t)
  case None
  then have "db' = db"
    using assms(3) by (auto simp: consume_body_def and_then_Inr_iff split: option.splits if_splits)
  with assms show ?thesis by simp
next
  case (Some t1)
  obtain src to where b: "account_in u who db = Inr src" "account_in u SYSTEM_CONSUMPTION db = Inr to"
    "n \<le> balance src - held src"
    "t1 = \<lparr>transfer_id = tr, reference = ref, kind = Consume, from_account = account_id src,
          to_account = account_id to, amount = n, tr_created_at = as_i64 now, metadata = None\<rparr>"
    "moved t1 (\<lambda>_. 0) db db'" "holds db' = holds db" "lots db' = lots (draw_lots (account_id src) n db)"
    by (rule consume_body_Some [OF assms(3) [unfolded Some] assms(1)])
  note src = account_in_Inr [OF b(1)] and to = account_in_Inr [OF b(2)]
  show ?thesis
  proof (rule drawn_solvent [OF b(5) assms(1)])
    show "owner a \<noteq> SYSTEM_TOPUP \<and> 0 \<le> held a + 0 \<and> held a + 0 \<le> balance a - amount t1"
      if a: "a \<in> set (accounts db)" and i: "account_id a = from_account t1" for a
    proof -
      have "a = src" using same_account [OF assms(1) a, of src] i src b(4) by simp
      moreover have "account_ok db a" using assms(1) a by (simp add: book_ok_def)
      ultimately show ?thesis
        using b(3,4) assms(2) book_held_nonneg [OF assms(1) a] by (auto simp: account_ok_def)
    qed
    show "owner a \<noteq> SYSTEM_TOPUP"
      if "a \<in> set (accounts db)" "account_id a = to_account t1" for a
      using same_account [OF assms(1) that(1), of to] that(2) to b(4) by simp
  qed (use b(4,6,7) assms(1,2) in \<open>simp_all add: book_ok_def refs_ok_def\<close>)
qed

subsection \<open>Reservations\<close>

lemma reserved_book_ok:
  assumes "book_ok db"
    and "accounts db' = map (\<lambda>a. a\<lparr>held := held a + dh (account_id a)\<rparr>) (accounts db)"
    and "entries db' = entries db" "transfers db' = transfers db" "lots db' = lots db"
    and "distinct (map hold_id (holds db'))" "distinct (map ho_reference (holds db'))"
    and "\<forall>h\<in>set (holds db'). ho_account_id h \<in> set (account_ids db) \<and> 0 < ho_amount h"
    and "\<And>i. held_total i (holds db') = held_total i (holds db) + dh i"
    and "\<And>a. a \<in> set (accounts db) \<Longrightarrow>
      if owner a = SYSTEM_TOPUP then dh (account_id a) = 0 else held a + dh (account_id a) \<le> balance a"
  shows "book_ok db'"
proof -
  have ids: "map account_id (accounts db') = map account_id (accounts db)"
    "map (\<lambda>a. (owner a, unit a)) (accounts db') = map (\<lambda>a. (owner a, unit a)) (accounts db)"
    by (simp_all add: assms(2))
  have keys: "keys_ok db'" using assms(1,6,7) unfolding keys_ok_def ids assms(4,5) book_ok_def by simp
  have refs: "refs_ok db'" using assms(1,8) unfolding refs_ok_def ids assms(3,5) book_ok_def by simp
  have "account_ok db' a'" if a': "a' \<in> set (accounts db')" for a'
  proof -
    obtain a where a: "a \<in> set (accounts db)" "a' = a\<lparr>held := held a + dh (account_id a)\<rparr>"
      using a' unfolding assms(2) by auto
    have "account_ok db a" using assms(1) a(1) by (simp add: book_ok_def)
    with assms(10) [OF a(1)] assms(9) show ?thesis
      by (simp add: a(2) account_ok_def entries_total_def assms(3,5) split: if_splits)
  qed
  moreover have "(\<Sum>a \<leftarrow> accounts db'. balance a) = 0"
    using assms(1) by (simp add: assms(2) comp_def book_ok_def)
  ultimately show ?thesis using keys refs by (simp add: book_ok_def)
qed

lemma held_total_Cons:
  "held_total i (h # hs) = (if ho_account_id h = i \<and> status h = Held then ho_amount h else 0) + held_total i hs"
  by (simp add: held_total_def)

lemma upd_Cons: "upd p f (x # xs) = (if p x then f x else x) # upd p f xs"
  by (simp add: upd_map)

lemma held_total_snoc:
  "held_total i (hs @ [h]) = held_total i hs + (if ho_account_id h = i \<and> status h = Held then ho_amount h else 0)"
  by (simp add: held_total_def)

lemma held_total_status:
  assumes "distinct (map hold_id hs)" and "h \<in> set hs" and "status h = Held" and "s \<noteq> Held"
  shows "held_total i (upd (\<lambda>x. hold_id x = hold_id h \<and> status x = Held) (\<lambda>x. x\<lparr>status := s\<rparr>) hs) =
    held_total i hs - (if i = ho_account_id h then ho_amount h else 0)"
  using assms(1,2)
proof (induction hs)
  case (Cons x xs)
  show ?case
  proof (cases "x = h")
    case True
    then have "\<forall>y\<in>set xs. hold_id y \<noteq> hold_id h" using Cons.prems(1) by (auto simp: image_iff)
    then have "upd (\<lambda>x. hold_id x = hold_id h \<and> status x = Held) (\<lambda>x. x\<lparr>status := s\<rparr>) xs = xs"
      by (simp add: upd_map map_idI)
    with True assms(3,4) show ?thesis by (simp add: upd_Cons held_total_Cons)
  next
    case False
    then have "hold_id x \<noteq> hold_id h" using Cons.prems by (auto simp: image_iff)
    with Cons False show ?thesis by (simp add: upd_Cons held_total_Cons)
  qed
qed simp

lemma held_total_member:
  assumes "\<forall>h\<in>set hs. 0 < ho_amount h" and "h \<in> set hs" and "status h = Held"
  shows "ho_amount h \<le> held_total (ho_account_id h) hs"
  using assms
proof (induction hs)
  case (Cons x xs)
  have "0 \<le> held_total (ho_account_id h) xs" using Cons.prems(1) by (intro held_total_nonneg) simp
  with Cons show ?case by (auto simp: held_total_def)
qed simp

lemma set_status_won:
  assumes "set_status hid s db = (won, db1)" and "won \<noteq> 0" and "distinct (map hold_id (holds db))"
  obtains h where "h \<in> set (holds db)" "hold_id h = hid" "status h = Held"
    "find_hold hid db1 = Some (h\<lparr>status := s\<rparr>)"
    "db1 = db\<lparr>holds := upd (\<lambda>x. hold_id x = hid \<and> status x = Held) (\<lambda>x. x\<lparr>status := s\<rparr>) (holds db)\<rparr>"
proof -
  let ?p = "\<lambda>x. hold_id x = hid \<and> status x = Held"
  have r: "won = length (filter ?p (holds db))"
    "db1 = db\<lparr>holds := upd ?p (\<lambda>x. x\<lparr>status := s\<rparr>) (holds db)\<rparr>"
    using assms(1) by (auto simp: set_status_def Let_def)
  have "filter ?p (holds db) \<noteq> []" using r(1) assms(2) by auto
  then obtain h where h: "h \<in> set (holds db)" "?p h" by (auto simp: filter_empty_conv)
  have fm: "find (\<lambda>x. hold_id x = hid) (upd ?p (\<lambda>x. x\<lparr>status := s\<rparr>) hs) = Some (h\<lparr>status := s\<rparr>)"
    if "distinct (map hold_id hs)" "h \<in> set hs" for hs
    using that h(2)
  proof (induction hs)
    case (Cons x xs)
    show ?case
    proof (cases "x = h")
      case True
      then show ?thesis using h(2) by (simp add: upd_map)
    next
      case False
      then have "hold_id x \<noteq> hid" using Cons.prems h(2) by (auto simp: image_iff)
      with Cons False show ?thesis by (simp add: upd_map)
    qed
  qed simp
  show thesis
    by (rule that [of h]) (use h r fm [OF assms(3) h(1)] in \<open>simp_all add: find_hold_def\<close>)
qed

lemma set_status_lost:
  assumes "set_status hid s db = (0, db1)" shows "db1 = db"
proof -
  have "\<forall>x\<in>set (holds db). \<not> (hold_id x = hid \<and> status x = Held)"
    using assms by (auto simp: set_status_def Let_def filter_empty_conv)
  then have "upd (\<lambda>x. hold_id x = hid \<and> status x = Held) (\<lambda>x. x\<lparr>status := s\<rparr>) (holds db) = holds db"
    by (auto simp: upd_map intro!: map_idI)
  with assms show ?thesis by (auto simp: set_status_def Let_def)
qed

lemma upd_status_keys:
  "map hold_id (upd p (\<lambda>x. x\<lparr>status := s\<rparr>) hs) = map hold_id hs"
  "map ho_reference (upd p (\<lambda>x. x\<lparr>status := s\<rparr>) hs) = map ho_reference hs"
  "\<forall>h\<in>set hs. P (ho_account_id h) (ho_amount h) \<Longrightarrow>
   \<forall>h\<in>set (upd p (\<lambda>x. x\<lparr>status := s\<rparr>) hs). P (ho_account_id h) (ho_amount h)"
  by (auto simp: upd_map)

lemma update_held_Inr:
  assumes "update_accounts (\<lambda>a. account_id a = i) (\<lambda>a. a\<lparr>held := held a + n\<rparr>) db = Inr (rows, db')"
  shows "db' = db\<lparr>accounts := map (\<lambda>a. a\<lparr>held := held a + (if account_id a = i then n else 0)\<rparr>) (accounts db)\<rparr>"
  using update_accounts_Inr [OF assms]
  by (auto simp: upd_map intro!: arg_cong [of _ _ "\<lambda>x. db\<lparr>accounts := x\<rparr>"])

lemma hold_body_Some:
  assumes "hold_body u who n ref ttl now hid db = Inr (Some h, db')" and "book_ok db"
  obtains a where "account_in u who db = Inr a" "n \<le> balance a - held a"
    "h = \<lparr>hold_id = hid, ho_account_id = account_id a, ho_amount = n, status = Held,
          ho_reference = ref, ho_created_at = as_i64 now, ho_expires_at = as_i64 (now + ttl)\<rparr>"
    "hid \<notin> set (map hold_id (holds db))" "ref \<notin> set (map ho_reference (holds db))"
    "db' = db\<lparr>accounts := map (\<lambda>x. x\<lparr>held := held x + (if account_id x = account_id a then n else 0)\<rparr>) (accounts db),
              holds := holds db @ [h]\<rparr>"
proof -
  obtain a rows db1 where a: "account_in u who db = Inr a"
    and up: "update_accounts (\<lambda>x. account_id x = account_id a \<and> balance x - held x \<ge> n)
                 (\<lambda>x. x\<lparr>held := held x + n\<rparr>) db = Inr (rows, db1)" and rows: "rows \<noteq> 0"
    and h: "h = \<lparr>hold_id = hid, ho_account_id = account_id a, ho_amount = n, status = Held,
          ho_reference = ref, ho_created_at = as_i64 now, ho_expires_at = as_i64 (now + ttl)\<rparr>"
    and ins: "insert_hold h db1 = Inr db'"
    using assms(1) by (auto simp: hold_body_def and_then_Inr_iff Let_def split: if_splits sum.splits)
  note a' = account_in_Inr [OF a]
  let ?p = "\<lambda>x. account_id x = account_id a \<and> balance x - held x \<ge> n"
  have r: "rows = length (filter ?p (accounts db))"
    "db1 = db\<lparr>accounts := upd ?p (\<lambda>x. x\<lparr>held := held x + n\<rparr>) (accounts db)\<rparr>"
    using update_accounts_Inr [OF up] by auto
  have "filter ?p (accounts db) \<noteq> []" using r(1) rows by auto
  then obtain b where b: "b \<in> set (accounts db)" "?p b" by (auto simp: filter_empty_conv)
  have u: "x = a" if "x \<in> set (accounts db)" "account_id x = account_id a" for x
    using same_account [OF assms(2) that(1), of a] a' that(2) by simp
  have n: "n \<le> balance a - held a" using b u by auto
  then have "?p x \<longleftrightarrow> account_id x = account_id a" if "x \<in> set (accounts db)" for x
    using that u by auto
  then have "accounts db1 = map (\<lambda>x. x\<lparr>held := held x + (if account_id x = account_id a then n else 0)\<rparr>) (accounts db)"
    using r(2) by (simp add: upd_map)
  with r(2) have db1: "db1 = db\<lparr>accounts := map (\<lambda>x. x\<lparr>held := held x + (if account_id x = account_id a then n else 0)\<rparr>) (accounts db)\<rparr>"
    by simp
  show thesis
    by (rule that [OF a n h]) (use ins db1 h in \<open>auto simp: insert_hold_def split: if_splits\<close>)
qed

lemma hold_body_ok:
  assumes "book_ok db" and "0 < n" and "hold_body u who n ref ttl now hid db = Inr (h, db')"
  shows "book_ok db'"
proof (cases h)
  case None
  then have "db' = db"
    using assms(3) by (auto simp: hold_body_def and_then_Inr_iff Let_def split: sum.splits if_splits)
  with assms show ?thesis by simp
next
  case (Some h1)
  obtain a where b: "account_in u who db = Inr a" "n \<le> balance a - held a"
    "h1 = \<lparr>hold_id = hid, ho_account_id = account_id a, ho_amount = n, status = Held,
          ho_reference = ref, ho_created_at = as_i64 now, ho_expires_at = as_i64 (now + ttl)\<rparr>"
    "hid \<notin> set (map hold_id (holds db))" "ref \<notin> set (map ho_reference (holds db))"
    "db' = db\<lparr>accounts := map (\<lambda>x. x\<lparr>held := held x + (if account_id x = account_id a then n else 0)\<rparr>) (accounts db),
              holds := holds db @ [h1]\<rparr>"
    by (rule hold_body_Some [OF assms(3) [unfolded Some] assms(1)])
  note a = account_in_Inr [OF b(1)]
  show ?thesis
  proof (rule reserved_book_ok [where dh = "\<lambda>i. if i = account_id a then n else 0" and db = db])
    fix x assume x: "x \<in> set (accounts db)"
    have ok: "account_ok db x" using assms(1) x by (simp add: book_ok_def)
    have "account_id x = account_id a \<Longrightarrow> x = a" using same_account [OF assms(1) x, of a] a by simp
    with ok b(2) assms(2) show "if owner x = SYSTEM_TOPUP then (if account_id x = account_id a then n else 0) = 0
      else held x + (if account_id x = account_id a then n else 0) \<le> balance x"
      by (auto simp: account_ok_def split: if_splits)
  qed (use assms(1,2) b a in \<open>auto simp: book_ok_def keys_ok_def refs_ok_def held_total_snoc\<close>)
qed

text \<open>A hold that is still held is covered by the reservation of its account.\<close>

lemma held_hold_covered:
  assumes "book_ok db" and "h \<in> set (holds db)" and "status h = Held"
    and "a \<in> set (accounts db)" and "account_id a = ho_account_id h"
  shows "0 < ho_amount h \<and> ho_amount h \<le> held a \<and> held a \<le> balance a \<and> owner a \<noteq> SYSTEM_TOPUP"
proof -
  have pos: "\<forall>h\<in>set (holds db). 0 < ho_amount h" using assms(1) by (auto simp: book_ok_def refs_ok_def)
  have ok: "account_ok db a" using assms(1,4) by (simp add: book_ok_def)
  have "ho_amount h \<le> held a" using held_total_member [OF pos assms(2,3)] ok assms(5) by (simp add: account_ok_def)
  moreover have "0 < ho_amount h" using pos assms(2) by blast
  ultimately show ?thesis using ok by (auto simp: account_ok_def split: if_splits)
qed

lemma release_in_True:
  assumes "release_in hid db = Inr (True, db')" and "book_ok db"
  obtains h where "h \<in> set (holds db)" "hold_id h = hid" "status h = Held"
    "db' = db\<lparr>accounts := map (\<lambda>a. a\<lparr>held := held a + (if account_id a = ho_account_id h then - ho_amount h else 0)\<rparr>) (accounts db),
              holds := upd (\<lambda>x. hold_id x = hid \<and> status x = Held) (\<lambda>x. x\<lparr>status := Released\<rparr>) (holds db)\<rparr>"
proof -
  obtain won db1 where s: "set_status hid Released db = (won, db1)" by fastforce
  have w: "won \<noteq> 0" using assms(1) s by (auto simp: release_in_def split: if_splits)
  have "distinct (map hold_id (holds db))" using assms(2) by (simp add: book_ok_def keys_ok_def)
  then obtain h where h: "h \<in> set (holds db)" "hold_id h = hid" "status h = Held"
    "find_hold hid db1 = Some (h\<lparr>status := Released\<rparr>)"
    "db1 = db\<lparr>holds := upd (\<lambda>x. hold_id x = hid \<and> status x = Held) (\<lambda>x. x\<lparr>status := Released\<rparr>) (holds db)\<rparr>"
    using set_status_won [OF s w] by blast
  obtain rows where "update_accounts (\<lambda>a. account_id a = ho_account_id h) (\<lambda>a. a\<lparr>held := held a + - ho_amount h\<rparr>) db1 = Inr (rows, db')"
    using assms(1) s w h(4) by (auto simp: release_in_def and_then_Inr_iff)
  from update_held_Inr [OF this] h show thesis by (intro that [of h]) auto
qed

lemma release_in_False: "release_in hid db = Inr (False, db') \<Longrightarrow> db' = db"
  by (auto simp: release_in_def and_then_Inr_iff split: prod.splits if_splits option.splits
      dest: set_status_lost)

lemma release_in_ok:
  assumes "book_ok db" and "release_in hid db = Inr (won, db')"
  shows "book_ok db'"
proof (cases won)
  case True
  then have r: "release_in hid db = Inr (True, db')" using assms(2) by simp
  obtain h where h: "h \<in> set (holds db)" "hold_id h = hid" "status h = Held"
    "db' = db\<lparr>accounts := map (\<lambda>a. a\<lparr>held := held a + (if account_id a = ho_account_id h then - ho_amount h else 0)\<rparr>) (accounts db),
              holds := upd (\<lambda>x. hold_id x = hid \<and> status x = Held) (\<lambda>x. x\<lparr>status := Released\<rparr>) (holds db)\<rparr>"
    by (rule release_in_True [OF r assms(1)])
  have k: "distinct (map hold_id (holds db))" "distinct (map ho_reference (holds db))"
    "\<forall>h\<in>set (holds db). ho_account_id h \<in> set (account_ids db) \<and> 0 < ho_amount h"
    using assms(1) by (simp_all add: book_ok_def keys_ok_def refs_ok_def)
  show ?thesis
  proof (rule reserved_book_ok [where dh = "\<lambda>i. if i = ho_account_id h then - ho_amount h else 0" and db = db])
    show "held_total i (holds db') = held_total i (holds db) + (if i = ho_account_id h then - ho_amount h else 0)" for i
      using held_total_status [OF k(1) h(1,3), of Released i] h by simp
    show "\<forall>h\<in>set (holds db'). ho_account_id h \<in> set (account_ids db) \<and> 0 < ho_amount h"
      using upd_status_keys(3) [OF k(3)] h(4) by simp
    fix a assume a: "a \<in> set (accounts db)"
    have ok: "account_ok db a" using assms(1) a by (simp add: book_ok_def)
    show "if owner a = SYSTEM_TOPUP then (if account_id a = ho_account_id h then - ho_amount h else 0) = 0
      else held a + (if account_id a = ho_account_id h then - ho_amount h else 0) \<le> balance a"
      using held_hold_covered [OF assms(1) h(1,3) a] ok by (auto simp: account_ok_def)
  qed (use assms(1) h k in \<open>simp_all add: upd_status_keys\<close>)
next
  case False
  with release_in_False [of hid db db'] assms show ?thesis by simp
qed

lemma capture_body_Inr:
  assumes "capture_body u hid now tr db = Inr (t, db')" and "book_ok db"
  obtains h to where "h \<in> set (holds db)" "hold_id h = hid" "status h = Held"
    "account_in u SYSTEM_CONSUMPTION db = Inr to"
    "t = \<lparr>transfer_id = tr, reference = ''capture:'' @ ho_reference h, kind = Capture,
          from_account = ho_account_id h, to_account = account_id to,
          amount = ho_amount h, tr_created_at = as_i64 now, metadata = Some (''hold'', hid)\<rparr>"
    "moved t (\<lambda>i. if i = ho_account_id h then - ho_amount h else 0) db db'"
    "holds db' = upd (\<lambda>x. hold_id x = hid \<and> status x = Held) (\<lambda>x. x\<lparr>status := Captured\<rparr>) (holds db)"
    "lots db' = lots (draw_lots (ho_account_id h) (ho_amount h) db)"
proof -
  obtain won db1 where s: "set_status hid Captured db = (won, db1)" by fastforce
  have w: "won \<noteq> 0" using assms(1) s by (auto simp: capture_body_def split: if_splits)
  have "distinct (map hold_id (holds db))" using assms(2) by (simp add: book_ok_def keys_ok_def)
  then obtain h where h: "h \<in> set (holds db)" "hold_id h = hid" "status h = Held"
    "find_hold hid db1 = Some (h\<lparr>status := Captured\<rparr>)"
    "db1 = db\<lparr>holds := upd (\<lambda>x. hold_id x = hid \<and> status x = Held) (\<lambda>x. x\<lparr>status := Captured\<rparr>) (holds db)\<rparr>"
    using set_status_won [OF s w] by blast
  let ?t = "\<lambda>to. \<lparr>transfer_id = tr, reference = ''capture:'' @ ho_reference h, kind = Capture,
          from_account = ho_account_id h, to_account = account_id to,
          amount = ho_amount h, tr_created_at = as_i64 now, metadata = Some (''hold'', hid)\<rparr>"
  obtain to rows db2 db3 where c: "account_in u SYSTEM_CONSUMPTION db1 = Inr to"
    "update_accounts (\<lambda>a. account_id a = ho_account_id h)
       (\<lambda>a. a\<lparr>balance := balance a - ho_amount h, held := held a - ho_amount h\<rparr>) db1 = Inr (rows, db2)"
    "credit (account_id to) (ho_amount h) db2 = Inr db3"
    "record_transfer (?t to) (draw_lots (ho_account_id h) (ho_amount h) db3) = Inr (Some t, db')"
    using assms(1) s w h(2,4)
    by (auto simp: capture_body_def and_then_Inr_iff split: option.splits)
  have c1: "account_in u SYSTEM_CONSUMPTION db = Inr to"
    using c(1) h(5) by (simp add: account_in_def find_account_def)
  note to = account_in_Inr [OF c1]
  note db2 = update_accounts_Inr [OF c(2), THEN conjunct2] and db3 = credit_Inr [OF c(3)]
  let ?db3 = "draw_lots (ho_account_id h) (ho_amount h) db3"
  have acc: "accounts ?db3 = map (\<lambda>a. a\<lparr>balance := balance a + flow (ho_account_id h) (account_id to) (ho_amount h) (account_id a),
       held := held a + (if account_id a = ho_account_id h then - ho_amount h else 0)\<rparr>) (accounts db)"
    by (simp add: db3 db2 h(5) upd_map flow_def)
  have rest: "transfers ?db3 = transfers db" "entries ?db3 = entries db" "holds ?db3 = holds db1"
    "lots ?db3 = lots (draw_lots (ho_account_id h) (ho_amount h) db)"
    by (simp_all add: db3 db2 h(5) draw_lots_accounts draw_lots_def)
  have ac: "ho_account_id h \<in> set (account_ids db)" using h(1) assms(2) by (simp add: book_ok_def refs_ok_def)
  have m: "t = ?t to \<and> moved (?t to) (\<lambda>i. if i = ho_account_id h then - ho_amount h else 0) db db' \<and>
      holds db' = holds ?db3 \<and> lots db' = lots ?db3"
    by (rule record_transfer_moved [OF c(4)]) (use acc rest to ac in simp_all)
  show thesis
    by (rule that [of h to]) (use h(1-3,5) c1 m rest in simp_all)
qed

lemma capture_body_ok:
  assumes "book_ok db" and "capture_body u hid now tr db = Inr (t, db')"
  shows "book_ok db'"
proof -
  obtain h to where c: "h \<in> set (holds db)" "hold_id h = hid" "status h = Held"
    "account_in u SYSTEM_CONSUMPTION db = Inr to"
    "t = \<lparr>transfer_id = tr, reference = ''capture:'' @ ho_reference h, kind = Capture,
          from_account = ho_account_id h, to_account = account_id to,
          amount = ho_amount h, tr_created_at = as_i64 now, metadata = Some (''hold'', hid)\<rparr>"
    "moved t (\<lambda>i. if i = ho_account_id h then - ho_amount h else 0) db db'"
    "holds db' = upd (\<lambda>x. hold_id x = hid \<and> status x = Held) (\<lambda>x. x\<lparr>status := Captured\<rparr>) (holds db)"
    "lots db' = lots (draw_lots (ho_account_id h) (ho_amount h) db)"
    by (rule capture_body_Inr [OF assms(2,1)])
  note to = account_in_Inr [OF c(4)]
  have k: "distinct (map hold_id (holds db))"
    "\<forall>h\<in>set (holds db). ho_account_id h \<in> set (account_ids db) \<and> 0 < ho_amount h"
    using assms(1) by (simp_all add: book_ok_def keys_ok_def refs_ok_def)
  show ?thesis
  proof (rule drawn_solvent [OF c(6) assms(1)])
    show "\<forall>h\<in>set (holds db'). ho_account_id h \<in> set (account_ids db) \<and> 0 < ho_amount h"
      using upd_status_keys(3) [OF k(2)] c(7) by simp
    show "held_total i (holds db') = held_total i (holds db) + (if i = ho_account_id h then - ho_amount h else 0)" for i
      using held_total_status [OF k(1) c(1,3), of Captured i] c(2,7) by simp
    show "0 < amount t" using k(2) c(1,5) by simp
    show "owner a \<noteq> SYSTEM_TOPUP \<and> 0 \<le> held a + (if account_id a = ho_account_id h then - ho_amount h else 0) \<and>
      held a + (if account_id a = ho_account_id h then - ho_amount h else 0) \<le> balance a - amount t"
      if "a \<in> set (accounts db)" "account_id a = from_account t" for a
      using held_hold_covered [OF assms(1) c(1,3) that(1)] that(2) c(5) by simp
    show "owner a \<noteq> SYSTEM_TOPUP" if "a \<in> set (accounts db)" "account_id a = to_account t" for a
      using same_account [OF assms(1) that(1), of to] that(2) to c(5) by simp
  qed (use c in \<open>simp_all add: upd_status_keys\<close>)
qed

subsection \<open>Accounts and expiry\<close>

lemma insert_account_ok:
  assumes "book_ok db" and "insert_account a db = Inr db'" and "balance a = 0" and "held a = 0"
  shows "book_ok db'"
proof -
  have f: "account_id a \<notin> set (account_ids db)" "\<forall>b\<in>set (accounts db). (owner b, unit b) \<noteq> (owner a, unit a)"
    and db': "db' = db\<lparr>accounts := accounts db @ [a]\<rparr>"
    using assms(2) by (auto simp: insert_account_def split: if_splits)
  have "filter (\<lambda>e. en_account_id e = account_id a) (entries db) = []"
    "filter (\<lambda>h. ho_account_id h = account_id a \<and> status h = Held) (holds db) = []"
    "filter (\<lambda>l. lo_account_id l = account_id a) (lots db) = []"
    using assms(1) f(1) unfolding book_ok_def refs_ok_def filter_empty_conv by metis+
  then have "account_ok db' a"
    by (simp add: account_ok_def db' assms(3,4) entries_total_def held_total_def lots_total_def)
  moreover have "account_ok db' b" if "account_ok db b" for b
    using that by (simp add: account_ok_def db' entries_total_def split: if_splits)
  ultimately show ?thesis
    using assms(1,3) f by (auto simp: book_ok_def keys_ok_def refs_ok_def db')
qed

lemma ensure_loop_ok: "book_ok db \<Longrightarrow> book_ok (snd (ensure_loop u who now ids e db))"
  by (induction u who now ids e db rule: ensure_loop.induct)
    (auto split: option.splits sum.splits intro: insert_account_ok)

lemma ensure_account_ok: "book_ok db \<Longrightarrow> book_ok (snd (ensure_account u who now ids db))"
  by (simp add: ensure_account_def ensure_loop_ok)

lemma upd_remaining_keys:
  "map lot_id (upd p (\<lambda>x. x\<lparr>remaining := r\<rparr>) ls) = map lot_id ls"
  "map lo_account_id (upd p (\<lambda>x. x\<lparr>remaining := r\<rparr>) ls) = map lo_account_id ls"
  by (simp_all add: upd_map)

lemma lots_total_empty:
  assumes "distinct (map lot_id ls)" and "l \<in> set ls"
  shows "lots_total i (upd (\<lambda>x. lot_id x = lot_id l) (\<lambda>x. x\<lparr>remaining := 0\<rparr>) ls) =
    lots_total i ls - (if lo_account_id l = i then remaining l else 0)"
  using lots_total_upd [OF assms, of "\<lambda>x. x\<lparr>remaining := 0\<rparr>" i] by simp

lemma lots_emptied:
  assumes "book_ok db" and "l \<in> set (lots db)"
    and "db1 = db\<lparr>lots := upd (\<lambda>x. lot_id x = lot_id l) (\<lambda>x. x\<lparr>remaining := 0\<rparr>) (lots db)\<rparr>"
  shows "book_ok db1"
proof -
  have k: "distinct (map lot_id (lots db))" "0 \<le> remaining l"
    using assms(1,2) by (auto simp: book_ok_def keys_ok_def refs_ok_def)
  have "map lot_id (lots db1) = map lot_id (lots db)" by (simp add: assms(3) upd_map)
  then have "keys_ok db1" using assms(1) by (simp add: book_ok_def keys_ok_def assms(3))
  moreover have "refs_ok db1" using assms(1) by (auto simp: book_ok_def refs_ok_def assms(3) upd_map)
  moreover have "account_ok db1 a" if "account_ok db a" for a
    using that k(2) lots_total_empty [OF k(1) assms(2), of "account_id a"]
    by (auto simp: account_ok_def assms(3) entries_total_def split: if_splits)
  ultimately show ?thesis using assms(1) by (simp add: book_ok_def assms(3))
qed

text \<open>
  Expiry of one lot.  The transfer is recorded when its id and its reference are free; the
  transaction goes on either way, so this is where the invariant needs it.
\<close>

lemma expire_body_Inr:
  assumes "expire_body u lid aid now tr db = Inr (r, db')" and "book_ok db"
    and "tr \<notin> set (map transfer_id (transfers db))"
    and "''expire:'' @ lid \<notin> set (map reference (transfers db))"
  obtains (skip) "r = None" "db' = db"
  | (empty) l where "l \<in> set (lots db)" "lot_id l = lid" "r = Some 0"
      "db' = db\<lparr>lots := upd (\<lambda>x. lot_id x = lid) (\<lambda>x. x\<lparr>remaining := 0\<rparr>) (lots db)\<rparr>"
  | (expire) l a to t where "l \<in> set (lots db)" "lot_id l = lid" "0 < amount t"
      "amount t \<le> remaining l" "a \<in> set (accounts db)" "account_id a = aid"
      "amount t \<le> balance a - held a" "account_in u SYSTEM_EXPIRY db = Inr to"
      "t = \<lparr>transfer_id = tr, reference = ''expire:'' @ lid, kind = Expire,
            from_account = aid, to_account = account_id to, amount = amount t,
            tr_created_at = as_i64 now, metadata = Some (''lot'', lid)\<rparr>"
      "r = Some (amount t)" "moved t (\<lambda>_. 0) db db'" "holds db' = holds db"
      "lots db' = upd (\<lambda>x. lot_id x = lid) (\<lambda>x. x\<lparr>remaining := 0\<rparr>) (lots db)"
proof (cases "find (\<lambda>l. lot_id l = lid \<and> remaining l > 0) (lots db)")
  case None
  with assms(1) skip show thesis by (simp add: expire_body_def)
next
  case (Some l)
  then have l: "l \<in> set (lots db)" "lot_id l = lid" by (auto simp: find_Some_iff)
  let ?db1 = "db\<lparr>lots := upd (\<lambda>x. lot_id x = lid) (\<lambda>x. x\<lparr>remaining := 0\<rparr>) (lots db)\<rparr>"
  obtain a where f: "find (\<lambda>a. account_id a = aid) (accounts db) = Some a"
    using assms(1) Some by (cases "find (\<lambda>a. account_id a = aid) (accounts db)") (auto simp: expire_body_def)
  then have a: "a \<in> set (accounts db)" "account_id a = aid" by (auto simp: find_Some_iff)
  let ?n = "max (min (remaining l) (available a)) 0"
  note e = assms(1) [unfolded expire_body_def Let_def Some f option.case]
  show thesis
  proof (cases "?n > 0")
    case False
    with e l empty show thesis by auto
  next
    case True
    obtain to ok db2 where c: "account_in u SYSTEM_EXPIRY ?db1 = Inr to"
      "debit_available aid ?n ?db1 = Inr (ok, db2)"
      using e True by (auto simp: and_then_Inr_iff)
    have ids: "distinct (account_ids ?db1)" using assms(2) by (simp add: book_ok_def keys_ok_def)
    note d = debit_available_Inr [OF c(2) ids]
    show thesis
    proof (cases ok)
      case no: False
      then have "r = Some 0" "db' = ?db1" using e True c d by auto
      with l empty show thesis by blast
    next
      case yes: True
      let ?t = "\<lparr>transfer_id = tr, reference = ''expire:'' @ lid, kind = Expire,
            from_account = aid, to_account = account_id to, amount = ?n,
            tr_created_at = as_i64 now, metadata = Some (''lot'', lid)\<rparr>"
      obtain db3 tt where c2: "credit (account_id to) ?n db2 = Inr db3"
        "record_transfer ?t db3 = Inr (tt, db')" "r = Some ?n"
        using e True c yes by (auto simp: and_then_Inr_iff)
      have c1: "account_in u SYSTEM_EXPIRY db = Inr to"
        using c(1) by (simp add: account_in_def find_account_def)
      note db2 = d [unfolded if_P [OF yes], THEN conjunct1] and db3 = credit_Inr [OF c2(1)]
      have acc: "accounts db3 = map (\<lambda>x. x\<lparr>balance := balance x + flow aid (account_id to) ?n (account_id x),
          held := held x + 0\<rparr>) (accounts db)"
        by (simp add: db3 db2 flow_def)
      have rest: "transfers db3 = transfers db" "entries db3 = entries db" "holds db3 = holds db" "lots db3 = lots ?db1"
        by (simp_all add: db3 db2)
      have "\<not> (\<exists>s\<in>set (transfers db3). transfer_id s = transfer_id ?t \<or> reference s = reference ?t)"
        using assms(3,4) unfolding rest(1) set_map Transfer.simps by (metis image_eqI)
      then have "tt \<noteq> None"
        using c2(2) by (auto simp: record_transfer_def insert_transfer_def and_then_Inr_iff)
      then obtain t' where t': "record_transfer ?t db3 = Inr (Some t', db')" using c2(2) by auto
      have m: "t' = ?t \<and> moved ?t (\<lambda>_. 0) db db' \<and> holds db' = holds db3 \<and> lots db' = lots db3"
        by (rule record_transfer_moved [OF t'])
          (use acc rest account_in_Inr [OF c1] a in auto)
      have nb: "?n \<le> balance a - held a" using True by (simp add: available_def)
      show thesis
        by (rule expire [of l ?t a to]) (use m l a c1 rest True c2(3) nb in auto)
    qed
  qed
qed

lemma expire_body_ok:
  assumes "book_ok db" and "expire_body u lid aid now tr db = Inr (r, db')"
    and "tr \<notin> set (map transfer_id (transfers db))"
    and "''expire:'' @ lid \<notin> set (map reference (transfers db))"
    and "\<exists>l\<in>set (lots db). lot_id l = lid \<and> lo_account_id l = aid"
  shows "book_ok db'"
  using assms(2,1,3,4)
proof (cases rule: expire_body_Inr)
  case skip
  with assms(1) show ?thesis by simp
next
  case (empty l)
  with lots_emptied [OF assms(1), of l db'] show ?thesis by simp
next
  case (expire l a to t)
  note to = account_in_Inr [OF expire(8)]
  have k: "distinct (map lot_id (lots db))" using assms(1) by (simp add: book_ok_def keys_ok_def)
  have la: "lo_account_id l = aid"
    using assms(5) expire(1,2) k by (metis distinct_map inj_onD)
  have ft: "from_account t = aid" "to_account t = account_id to"
    using expire(9) by (metis Transfer.simps(4), metis Transfer.simps(5))
  show ?thesis
  proof (rule moved_simple [OF expire(11) assms(1) expire(12)])
    show "distinct (map lot_id (lots db'))" using k expire(13) by (simp add: upd_remaining_keys)
    show "\<forall>l\<in>set (lots db'). lo_account_id l \<in> set (account_ids db) \<and> 0 \<le> remaining l"
      using assms(1) expire(13) by (auto simp: book_ok_def refs_ok_def upd_map)
    fix x assume x: "x \<in> set (accounts db)"
    have ok: "account_ok db x" using assms(1) x by (simp add: book_ok_def)
    have xa: "account_id x = aid \<longrightarrow> x = a" using same_account [OF assms(1) x expire(5)] expire(6) by auto
    have xt: "account_id x = account_id to \<longrightarrow> x = to" using same_account [OF assms(1) x, of to] to by auto
    have lt: "lots_total (account_id x) (lots db') =
      lots_total (account_id x) (lots db) - (if aid = account_id x then remaining l else 0)"
      using lots_total_empty [OF k expire(1)] expire(2,13) la by simp
    show "let b = balance x + flow (from_account t) (to_account t) (amount t) (account_id x)
       in if owner x = SYSTEM_TOPUP then b \<le> 0
          else held x \<le> b \<and> lots_total (account_id x) (lots db') \<le> b"
    proof (cases "owner x = SYSTEM_TOPUP")
      case True
      then have "account_id x \<noteq> account_id to" using xt to by auto
      moreover have "balance x \<le> 0" using ok True by (simp add: account_ok_def)
      ultimately show ?thesis using True expire(3) ft by (simp add: flow_def Let_def)
    next
      case False
      have "held x \<le> balance x" "lots_total (account_id x) (lots db) \<le> balance x"
        using ok False by (simp_all add: account_ok_def)
      moreover have "account_id x = aid \<longrightarrow> amount t \<le> balance x - held x" using xa expire(7) by auto
      ultimately show ?thesis using False expire(3,4) ft lt
        by (auto simp: flow_def Let_def)
    qed
  qed
qed

end
