(* ===== verification/LedgerSteps.thy ===== *)
theory LedgerSteps
  imports LedgerBook
begin

section \<open>The ledger under concurrency\<close>

text \<open>
  The transactions of all clients, interleaved in any order, as a step relation; the invariant in
  every state they can reach; and what follows for the public operations: idempotence, holds
  that are captured or released once, and the audit.
\<close>

subsection \<open>Steps\<close>

text \<open>
  A step is one committed statement or transaction.  The application passes positive amounts (the
  operations check) and references that do not start with \<open>expire:\<close>, which is the space
  \<open>sweep\<close> writes in; \<open>sweep\<close> names a lot together with the account it read beside it, and draws
  a new transfer id.
\<close>

definition client_ref :: "string \<Rightarrow> bool" where
  "client_ref ref \<longleftrightarrow> take 7 ref \<noteq> ''expire:''"

inductive ledger_step :: "Tables \<Rightarrow> Tables \<Rightarrow> bool" where
  ensure: "ledger_step db (snd (ensure_account u who now ids db))"
| top_up: "0 < n \<Longrightarrow> client_ref ref \<Longrightarrow>
    ledger_step db (snd (top_up_tx u who n ref ex now tr lot db))"
| consume: "0 < n \<Longrightarrow> client_ref ref \<Longrightarrow>
    ledger_step db (snd (consume_tx u who n ref now tr db))"
| hold: "0 < n \<Longrightarrow> ledger_step db (snd (hold_tx u who n ref ttl now hid db))"
| capture: "ledger_step db (snd (capture_tx u hid now tr db))"
| release: "ledger_step db (snd (in_tx db (release_in hid db)))"
| expire: "\<exists>l\<in>set (lots db). lot_id l = lid \<and> lo_account_id l = aid \<Longrightarrow>
    tr \<notin> set (map transfer_id (transfers db)) \<Longrightarrow>
    ledger_step db (snd (in_tx db (expire_body u lid aid now tr db)))"

text \<open>A lot that has been expired has nothing left.\<close>

definition expire_refs :: "Tables \<Rightarrow> bool" where
  "expire_refs db \<longleftrightarrow>
     (\<forall>t\<in>set (transfers db). \<forall>lid. reference t = ''expire:'' @ lid \<longrightarrow>
        (\<exists>l\<in>set (lots db). lot_id l = lid \<and> remaining l = 0))"

definition ledger_inv :: "Tables \<Rightarrow> bool" where
  "ledger_inv db \<longleftrightarrow> book_ok db \<and> expire_refs db"

subsection \<open>Lots only shrink\<close>

definition lot_le :: "Lot \<Rightarrow> Lot \<Rightarrow> bool" where
  "lot_le l l' \<longleftrightarrow> lot_id l' = lot_id l \<and> lo_account_id l' = lo_account_id l \<and> remaining l' \<le> remaining l"

lemma lot_le_upd:
  "(\<And>x. x \<in> set ls \<Longrightarrow> p x \<Longrightarrow> lot_le x (f x)) \<Longrightarrow> list_all2 lot_le ls (upd p f ls)"
  by (induction ls) (auto simp: upd_map lot_le_def)

lemma lot_le_trans: "list_all2 lot_le a b \<Longrightarrow> list_all2 lot_le b c \<Longrightarrow> list_all2 lot_le a c"
  by (rule list_all2_trans [of lot_le lot_le lot_le]) (auto simp: lot_le_def)

lemma lot_le_refl: "list_all2 lot_le a a"
  by (rule list_all2_refl) (simp add: lot_le_def)

lemma draw_loop_le:
  "\<forall>l\<in>set sel. 0 \<le> remaining l \<Longrightarrow> list_all2 lot_le ls (draw_loop sel n ls)"
proof (induction sel n ls rule: draw_loop.induct)
  case (2 l rest n ls)
  obtain rows ls1 where t: "take_lot (lot_id l) (min (remaining l) n) ls = (rows, ls1)" by fastforce
  show ?case
  proof (cases "n \<le> 0")
    case False
    have "list_all2 lot_le ls ls1"
      using t False "2.prems" by (auto simp: take_lot_def Let_def lot_le_def intro!: lot_le_upd)
    moreover have "list_all2 lot_le ls1 (draw_loop rest (if rows = 1 then n - min (remaining l) n else n) ls1)"
      using "2.prems" by (intro "2.IH" [OF False refl t [symmetric] refl]) simp
    ultimately have "list_all2 lot_le ls (draw_loop rest (if rows = 1 then n - min (remaining l) n else n) ls1)"
      by (rule lot_le_trans)
    with t False show ?thesis by (simp add: Let_def)
  qed (simp add: lot_le_refl)
qed (simp add: lot_le_refl)

lemma draw_lots_le: "list_all2 lot_le (lots db) (lots (draw_lots aid n db))"
  by (simp add: draw_lots_def Let_def draw_loop_le)

subsection \<open>Rows are never lost\<close>

text \<open>
  What any step does to the tables: rows are only added, a row keeps its key, a lot only shrinks, a
  transfer never changes, and a hold changes only its status and only while it is held.
\<close>

definition extends :: "('a \<Rightarrow> 'a \<Rightarrow> bool) \<Rightarrow> 'a list \<Rightarrow> 'a list \<Rightarrow> bool" where
  "extends r xs ys \<longleftrightarrow> (\<exists>zs ws. ys = zs @ ws \<and> list_all2 r xs zs)"

lemma extendsI: "list_all2 r xs zs \<Longrightarrow> extends r xs (zs @ ws)"
  by (auto simp: extends_def)

lemma extendsI0: "list_all2 r xs zs \<Longrightarrow> extends r xs zs"
  using extendsI [of r xs zs "[]"] by simp

lemma extends_refl: "(\<And>x. r x x) \<Longrightarrow> extends r xs xs"
  by (rule extendsI0) (simp add: list_all2_refl)

lemma extends_append: "(\<And>x. r x x) \<Longrightarrow> extends r xs (xs @ ws)"
  by (rule extendsI) (simp add: list_all2_refl)

lemma extends_map: "(\<And>x. r x (f x)) \<Longrightarrow> extends r xs (map f xs)"
  by (rule extendsI0) (simp add: list_all2_conv_all_nth)

lemma extends_member: "extends r xs ys \<Longrightarrow> x \<in> set xs \<Longrightarrow> \<exists>y\<in>set ys. r x y"
  by (force simp: extends_def list_all2_iff in_set_zip in_set_conv_nth)

definition hold_le :: "Hold \<Rightarrow> Hold \<Rightarrow> bool" where
  "hold_le h h' \<longleftrightarrow> h' = h\<lparr>status := status h'\<rparr> \<and> (status h \<noteq> Held \<longrightarrow> status h' = status h)"

definition acc_le :: "Account \<Rightarrow> Account \<Rightarrow> bool" where
  "acc_le a a' \<longleftrightarrow> account_id a' = account_id a \<and> owner a' = owner a \<and> unit a' = unit a"

lemma le_refl [simp]: "hold_le h h" "acc_le a a" "lot_le l l"
  by (simp_all add: hold_le_def acc_le_def lot_le_def)

definition grows :: "Tables \<Rightarrow> Tables \<Rightarrow> bool" where
  "grows db db' \<longleftrightarrow>
     extends (=) (transfers db) (transfers db') \<and> extends hold_le (holds db) (holds db') \<and>
     extends lot_le (lots db) (lots db') \<and> extends acc_le (accounts db) (accounts db')"

lemma grows_refl [simp]: "grows db db"
  by (simp add: grows_def extends_refl)

lemma moved_grows:
  "moved t dh db db' \<Longrightarrow> extends hold_le (holds db) (holds db') \<Longrightarrow> extends lot_le (lots db) (lots db') \<Longrightarrow>
   grows db db'"
  by (auto simp: moved_def grows_def acc_le_def intro: extends_append extends_map)

lemma status_extends:
  "s \<noteq> Held \<Longrightarrow> extends hold_le hs (upd (\<lambda>x. hold_id x = hid \<and> status x = Held) (\<lambda>x. x\<lparr>status := s\<rparr>) hs)"
  unfolding upd_map by (rule extends_map) (simp add: hold_le_def)

lemma ensure_loop_grows: "grows db (snd (ensure_loop u who now ids e db))"
  by (induction u who now ids e db rule: ensure_loop.induct)
    (auto simp: insert_account_def grows_def extends_refl extends_append split: option.splits sum.splits if_splits)

lemma in_tx_snd: "P db \<Longrightarrow> (\<And>x db'. r = Inr (x, db') \<Longrightarrow> P db') \<Longrightarrow> P (snd (in_tx db r))"
  by (auto simp: in_tx_def split: sum.splits)

lemma finish_transfer_snd: "snd (finish_transfer ref r) = snd r"
  by (auto simp: finish_transfer_def split: prod.splits sum.splits option.splits)

lemma hold_tx_snd: "snd (hold_tx u who n ref ttl now hid db) = snd (in_tx db (hold_body u who n ref ttl now hid db))"
  by (auto simp: hold_tx_def split: prod.splits sum.splits option.splits)

lemmas tx_snd = top_up_tx_def consume_tx_def capture_tx_def finish_transfer_snd hold_tx_snd

lemma top_up_body_None: "top_up_body u who n ref ex now tr lot db = Inr (None, db') \<Longrightarrow> db' = db"
  by (auto simp: top_up_body_def and_then_Inr_iff split: option.splits)

lemma consume_body_None: "consume_body u who n ref now tr db = Inr (None, db') \<Longrightarrow> db' = db"
  by (auto simp: consume_body_def and_then_Inr_iff split: option.splits if_splits)

lemma hold_body_None: "hold_body u who n ref ttl now hid db = Inr (None, db') \<Longrightarrow> db' = db"
  by (auto simp: hold_body_def and_then_Inr_iff Let_def split: sum.splits if_splits)

lemma top_up_grows:
  assumes "top_up_body u who n ref ex now tr lot db = Inr (t, db')"
  shows "grows db db'"
proof (cases t)
  case (Some t1)
  show ?thesis
    by (rule top_up_body_Some [OF assms [unfolded Some]])
      (auto intro!: moved_grows simp: extends_refl extends_append)
qed (use assms in \<open>auto dest: top_up_body_None\<close>)

lemma consume_grows:
  assumes "consume_body u who n ref now tr db = Inr (t, db')" and "book_ok db"
  shows "grows db db'"
proof (cases t)
  case (Some t1)
  show ?thesis
    by (rule consume_body_Some [OF assms(1) [unfolded Some] assms(2)])
      (auto intro!: moved_grows extendsI0 draw_lots_le simp: list_all2_refl)
qed (use assms in \<open>auto dest: consume_body_None\<close>)

lemma hold_grows:
  assumes "hold_body u who n ref ttl now hid db = Inr (h, db')" and "book_ok db"
  shows "grows db db'"
proof (cases h)
  case (Some h1)
  show ?thesis
    by (rule hold_body_Some [OF assms(1) [unfolded Some] assms(2)])
      (simp add: grows_def extends_refl extends_append extends_map acc_le_def)
qed (use assms in \<open>auto dest: hold_body_None\<close>)

lemma capture_grows:
  assumes "capture_body u hid now tr db = Inr (t, db')" and "book_ok db"
  shows "grows db db'"
  by (rule capture_body_Inr [OF assms])
    (auto intro!: moved_grows extendsI0 [of lot_le] draw_lots_le status_extends)

lemma release_grows:
  assumes "release_in hid db = Inr (won, db')" and "book_ok db"
  shows "grows db db'"
proof (cases won)
  case True
  then have r: "release_in hid db = Inr (True, db')" using assms(1) by simp
  show ?thesis
    by (rule release_in_True [OF r assms(2)])
      (simp add: grows_def extends_refl extends_map acc_le_def status_extends)
qed (use assms in \<open>auto dest: release_in_False\<close>)

lemma empty_extends:
  "\<forall>l\<in>set ls. 0 \<le> remaining l \<Longrightarrow>
   extends lot_le ls (upd (\<lambda>x. lot_id x = lid) (\<lambda>x. x\<lparr>remaining := 0\<rparr>) ls)"
  by (rule extendsI0, rule lot_le_upd) (auto simp: lot_le_def)

lemma expire_grows:
  assumes "expire_body u lid aid now tr db = Inr (r, db')" and "book_ok db"
    and "tr \<notin> set (map transfer_id (transfers db))"
    and "''expire:'' @ lid \<notin> set (map reference (transfers db))"
  shows "grows db db'"
proof -
  have "\<forall>l\<in>set (lots db). 0 \<le> remaining l" using assms(2) by (simp add: book_ok_def refs_ok_def)
  note e = empty_extends [OF this, of lid]
  show ?thesis using assms
  proof (cases rule: expire_body_Inr)
    case skip
    then show ?thesis by simp
  next
    case (empty l)
    then show ?thesis using e by (simp add: grows_def extends_refl)
  next
    case (expire l a to t)
    then show ?thesis using e by (auto intro!: moved_grows simp: extends_refl)
  qed
qed

subsection \<open>Every step keeps the invariant\<close>

lemma expire_refs_grows:
  assumes "expire_refs db" and "grows db db'"
    and "\<And>t lid. t \<in> set (transfers db') \<Longrightarrow> t \<notin> set (transfers db) \<Longrightarrow> reference t = ''expire:'' @ lid \<Longrightarrow>
      \<exists>l\<in>set (lots db'). lot_id l = lid \<and> remaining l = 0"
    and "\<forall>l\<in>set (lots db'). 0 \<le> remaining l"
  shows "expire_refs db'"
  unfolding expire_refs_def
proof (intro ballI allI impI)
  fix t lid assume t: "t \<in> set (transfers db')" "reference t = ''expire:'' @ lid"
  show "\<exists>l\<in>set (lots db'). lot_id l = lid \<and> remaining l = 0"
  proof (cases "t \<in> set (transfers db)")
    case True
    then obtain l where l: "l \<in> set (lots db)" "lot_id l = lid" "remaining l = 0"
      using assms(1) t(2) unfolding expire_refs_def by blast
    obtain l' where l': "l' \<in> set (lots db')" "lot_le l l'"
      using assms(2) extends_member [of lot_le "lots db" "lots db'"] l(1) by (auto simp: grows_def)
    have "lot_id l' = lid" "remaining l' \<le> 0" using l' l by (simp_all add: lot_le_def)
    moreover have "0 \<le> remaining l'" using assms(4) l'(1) by blast
    ultimately show ?thesis using l'(1) by fastforce
  qed (use assms(3) t in blast)
qed

lemma client_ref_not_expire: "client_ref ref \<Longrightarrow> ref \<noteq> ''expire:'' @ lid"
  by (auto simp: client_ref_def)

lemma moved_new_transfer: "moved t dh db db' \<Longrightarrow> set (transfers db') = insert t (set (transfers db))"
  by (auto simp: moved_def)

lemma transfer_expire_refs:
  assumes "ledger_inv db" and "book_ok db'" and "grows db db'" and "moved t dh db db'"
    and "\<And>lid. reference t \<noteq> ''expire:'' @ lid"
  shows "ledger_inv db'"
proof -
  have "expire_refs db'"
  proof (rule expire_refs_grows)
    show "expire_refs db" using assms(1) by (simp add: ledger_inv_def)
    show "\<forall>l\<in>set (lots db'). 0 \<le> remaining l" using assms(2) by (simp add: book_ok_def refs_ok_def)
    show "\<exists>l\<in>set (lots db'). lot_id l = lid \<and> remaining l = 0"
      if "t' \<in> set (transfers db')" "t' \<notin> set (transfers db)" "reference t' = ''expire:'' @ lid" for t' lid
      using that moved_new_transfer [OF assms(4)] assms(5) by auto
  qed (rule assms(3))
  with assms(2) show ?thesis by (simp add: ledger_inv_def)
qed

lemma same_transfers_expire_refs:
  assumes "ledger_inv db" and "book_ok db'" and "grows db db'" and "transfers db' = transfers db"
  shows "ledger_inv db'"
proof -
  have "expire_refs db'"
    by (rule expire_refs_grows [of db]) (use assms in \<open>auto simp: ledger_inv_def book_ok_def refs_ok_def\<close>)
  with assms(2) show ?thesis by (simp add: ledger_inv_def)
qed

lemma top_up_inv:
  assumes "ledger_inv db" and "0 < n" and "client_ref ref"
    and "top_up_body u who n ref ex now tr lot db = Inr (t, db')"
  shows "ledger_inv db'"
proof (cases t)
  case None
  with assms(1,4) show ?thesis by (auto dest: top_up_body_None)
next
  case (Some t1)
  have b: "book_ok db" using assms(1) by (simp add: ledger_inv_def)
  show ?thesis
    by (rule top_up_body_Some [OF assms(4) [unfolded Some]])
      (auto intro!: transfer_expire_refs [OF assms(1) top_up_body_ok [OF b assms(2,4)] top_up_grows [OF assms(4)]]
        simp: client_ref_not_expire [OF assms(3), simplified])
qed

lemma consume_inv:
  assumes "ledger_inv db" and "0 < n" and "client_ref ref"
    and "consume_body u who n ref now tr db = Inr (t, db')"
  shows "ledger_inv db'"
proof (cases t)
  case None
  with assms(1,4) show ?thesis by (auto dest: consume_body_None)
next
  case (Some t1)
  have b: "book_ok db" using assms(1) by (simp add: ledger_inv_def)
  show ?thesis
    by (rule consume_body_Some [OF assms(4) [unfolded Some] b])
      (auto intro!: transfer_expire_refs [OF assms(1) consume_body_ok [OF b assms(2,4)] consume_grows [OF assms(4) b]]
        simp: client_ref_not_expire [OF assms(3), simplified])
qed

lemma hold_inv:
  assumes "ledger_inv db" and "0 < n" and "hold_body u who n ref ttl now hid db = Inr (h, db')"
  shows "ledger_inv db'"
proof (cases h)
  case None
  with assms(1,3) show ?thesis by (auto dest: hold_body_None)
next
  case (Some h1)
  have b: "book_ok db" using assms(1) by (simp add: ledger_inv_def)
  have "transfers db' = transfers db" by (rule hold_body_Some [OF assms(3) [unfolded Some] b]) simp
  then show ?thesis
    by (rule same_transfers_expire_refs [OF assms(1) hold_body_ok [OF b assms(2,3)] hold_grows [OF assms(3) b]])
qed

lemma capture_inv:
  assumes "ledger_inv db" and "capture_body u hid now tr db = Inr (t, db')"
  shows "ledger_inv db'"
proof -
  have b: "book_ok db" using assms(1) by (simp add: ledger_inv_def)
  show ?thesis
    by (rule capture_body_Inr [OF assms(2) b])
      (auto intro!: transfer_expire_refs [OF assms(1) capture_body_ok [OF b assms(2)] capture_grows [OF assms(2) b]])
qed

lemma release_inv:
  assumes "ledger_inv db" and "release_in hid db = Inr (won, db')"
  shows "ledger_inv db'"
proof (cases won)
  case True
  then have r: "release_in hid db = Inr (True, db')" using assms(2) by simp
  have b: "book_ok db" using assms(1) by (simp add: ledger_inv_def)
  have "transfers db' = transfers db" by (rule release_in_True [OF r b]) simp
  then show ?thesis
    by (rule same_transfers_expire_refs [OF assms(1) release_in_ok [OF b assms(2)] release_grows [OF assms(2) b]])
qed (use assms in \<open>auto dest: release_in_False\<close>)

lemma claimed_ref_free:
  assumes "ledger_inv db" and "l \<in> set (lots db)" and "0 < remaining l"
  shows "''expire:'' @ lot_id l \<notin> set (map reference (transfers db))"
proof
  assume "''expire:'' @ lot_id l \<in> set (map reference (transfers db))"
  then obtain t where "t \<in> set (transfers db)" "reference t = ''expire:'' @ lot_id l" unfolding set_map by auto
  then obtain m where "m \<in> set (lots db)" "lot_id m = lot_id l" "remaining m = 0"
    using assms(1) unfolding ledger_inv_def expire_refs_def by blast
  moreover have "distinct (map lot_id (lots db))"
    using assms(1) by (simp add: ledger_inv_def book_ok_def keys_ok_def)
  ultimately have "m = l" using assms(2) by (metis distinct_map inj_onD)
  with \<open>remaining m = 0\<close> assms(3) show False by simp
qed

lemma expire_inv:
  assumes "ledger_inv db" and "expire_body u lid aid now tr db = Inr (r, db')"
    and "\<exists>l\<in>set (lots db). lot_id l = lid \<and> lo_account_id l = aid"
    and "tr \<notin> set (map transfer_id (transfers db))"
  shows "ledger_inv db'"
proof (cases "find (\<lambda>l. lot_id l = lid \<and> remaining l > 0) (lots db)")
  case None
  then have "db' = db" using assms(2) by (simp add: expire_body_def)
  with assms(1) show ?thesis by simp
next
  case (Some l0)
  then have "l0 \<in> set (lots db)" "lot_id l0 = lid" "0 < remaining l0" by (auto simp: find_Some_iff)
  with claimed_ref_free [OF assms(1)] have free: "''expire:'' @ lid \<notin> set (map reference (transfers db))" by blast
  have b: "book_ok db" using assms(1) by (simp add: ledger_inv_def)
  note b' = expire_body_ok [OF b assms(2,4) free assms(3)]
  note g = expire_grows [OF assms(2) b assms(4) free]
  show ?thesis using assms(2) b assms(4) free
  proof (cases rule: expire_body_Inr)
    case skip
    with assms(1) show ?thesis by simp
  next
    case (empty l)
    then show ?thesis by (intro same_transfers_expire_refs [OF assms(1) b' g]) simp
  next
    case (expire l a to t)
    have "expire_refs db'"
    proof (rule expire_refs_grows [OF _ g])
      show "expire_refs db" using assms(1) by (simp add: ledger_inv_def)
      show "\<forall>l\<in>set (lots db'). 0 \<le> remaining l" using b' by (simp add: book_ok_def refs_ok_def)
      show "\<exists>l\<in>set (lots db'). lot_id l = lid' \<and> remaining l = 0"
        if "t' \<in> set (transfers db')" "t' \<notin> set (transfers db)" "reference t' = ''expire:'' @ lid'" for t' lid'
      proof -
        have "t' = t" using that(1,2) moved_new_transfer [OF expire(11)] by auto
        moreover have "reference t = ''expire:'' @ lid" using expire(9) by (metis Transfer.simps(2))
        ultimately have "lid' = lid" using that(3) by simp
        moreover have "l\<lparr>remaining := 0\<rparr> \<in> set (lots db')"
          using expire(1,2,13) by (force simp: upd_map)
        ultimately show ?thesis using expire(2) by (intro bexI [of _ "l\<lparr>remaining := 0\<rparr>"]) auto
      qed
    qed
    with b' show ?thesis by (simp add: ledger_inv_def)
  qed
qed

lemma ensure_loop_transfers: "transfers (snd (ensure_loop u who now ids e db)) = transfers db"
  by (induction u who now ids e db rule: ensure_loop.induct)
    (auto simp: insert_account_def split: option.splits sum.splits if_splits)

lemma ensure_inv: "ledger_inv db \<Longrightarrow> ledger_inv (snd (ensure_account u who now ids db))"
  unfolding ensure_account_def
  by (rule same_transfers_expire_refs [of db])
    (auto simp: ledger_inv_def ensure_loop_ok ensure_loop_grows ensure_loop_transfers)

lemma ledger_step_inv:
  assumes "ledger_inv db" and "ledger_step db db'"
  shows "ledger_inv db'"
  using assms(2)
proof cases
  case (ensure u who now ids)
  with assms(1) show ?thesis by (simp add: ensure_inv)
next
  case (top_up n ref u who ex now tr lot)
  then show ?thesis
    unfolding tx_snd by (auto intro: in_tx_snd [of ledger_inv] assms(1) top_up_inv)
next
  case (consume n ref u who now tr)
  then show ?thesis
    unfolding tx_snd by (auto intro: in_tx_snd [of ledger_inv] assms(1) consume_inv)
next
  case (hold n u who ref ttl now hid)
  then show ?thesis
    unfolding tx_snd by (auto intro: in_tx_snd [of ledger_inv] assms(1) hold_inv)
next
  case (capture u hid now tr)
  then show ?thesis
    unfolding tx_snd by (auto intro: in_tx_snd [of ledger_inv] assms(1) capture_inv)
next
  case (release hid)
  then show ?thesis by (auto intro: in_tx_snd [of ledger_inv] assms(1) release_inv)
next
  case (expire lid aid tr u now)
  show ?thesis unfolding expire(1)
    by (rule in_tx_snd [of ledger_inv, OF assms(1)]) (rule expire_inv [OF assms(1) _ expire(2,3)])
qed

lemma ledger_step_grows:
  assumes "ledger_inv db" and "ledger_step db db'"
  shows "grows db db'"
proof -
  have b: "book_ok db" using assms(1) by (simp add: ledger_inv_def)
  show ?thesis using assms(2)
  proof cases
    case (ensure u who now ids)
    then show ?thesis by (simp add: ensure_account_def ensure_loop_grows)
  next
    case (expire lid aid tr u now)
    show ?thesis unfolding expire(1)
    proof (rule in_tx_snd)
      fix r db1 assume e: "expire_body u lid aid now tr db = Inr (r, db1)"
      show "grows db db1"
      proof (cases "find (\<lambda>l. lot_id l = lid \<and> remaining l > 0) (lots db)")
        case None
        with e show ?thesis by (simp add: expire_body_def)
      next
        case (Some l)
        then have "l \<in> set (lots db)" "lot_id l = lid" "0 < remaining l" by (auto simp: find_Some_iff)
        with claimed_ref_free [OF assms(1)] expire_grows [OF e b expire(3)] show ?thesis by blast
      qed
    qed simp
  qed (unfold tx_snd, auto intro!: in_tx_snd [of "grows db"]
      intro: top_up_grows consume_grows [OF _ b] hold_grows [OF _ b] capture_grows [OF _ b] release_grows [OF _ b])
qed

interpretation ledger: invariant_system "\<lambda>db. db = empty_tables" ledger_step ledger_inv
proof
  show "ledger_inv db" if "db = empty_tables" for db
    using that by (simp add: ledger_inv_def expire_refs_def book_ok_def keys_ok_def refs_ok_def empty_tables_def)
qed (rule ledger_step_inv)

subsection \<open>The operations are steps\<close>

lemma steps_ensure: "ledger_step\<^sup>*\<^sup>* db (snd (ensure_account u who now ids db))"
  by (rule r_into_rtranclp) (rule ensure)

lemma top_up_steps:
  assumes "client_ref ref"
  shows "ledger_step\<^sup>*\<^sup>* db (snd (top_up u who n ref ex now ids1 ids2 tr lot db))"
proof (cases "0 < n \<and> find_transfer ref db = None")
  case True
  obtain r1 db1 where e1: "ensure_account u who now ids1 db = (r1, db1)" by fastforce
  obtain r2 db2 where e2: "ensure_account u SYSTEM_TOPUP now ids2 db1 = (r2, db2)" by fastforce
  have s1: "ledger_step\<^sup>*\<^sup>* db db1" using steps_ensure [of db u who now ids1] e1 by simp
  have s2: "ledger_step\<^sup>*\<^sup>* db1 db2" using steps_ensure [of db1 u SYSTEM_TOPUP now ids2] e2 by simp
  have s3: "ledger_step db2 (snd (top_up_tx u who n ref ex now tr lot db2))"
    using True assms by (intro ledger_step.top_up) auto
  note s12 = rtranclp_trans [OF s1 s2]
  from True e1 e2 s1 s12 rtranclp.rtrancl_into_rtrancl [OF s12 s3] show ?thesis
    by (auto simp: top_up_def positive_def split: sum.splits)
qed (auto simp: top_up_def positive_def split: option.splits)

lemma consume_steps:
  assumes "client_ref ref"
  shows "ledger_step\<^sup>*\<^sup>* db (snd (consume u who n ref now ids1 ids2 tr db))"
proof (cases "0 < n \<and> find_transfer ref db = None")
  case True
  obtain r1 db1 where e1: "ensure_account u who now ids1 db = (r1, db1)" by fastforce
  obtain r2 db2 where e2: "ensure_account u SYSTEM_CONSUMPTION now ids2 db1 = (r2, db2)" by fastforce
  have s1: "ledger_step\<^sup>*\<^sup>* db db1" using steps_ensure [of db u who now ids1] e1 by simp
  have s2: "ledger_step\<^sup>*\<^sup>* db1 db2" using steps_ensure [of db1 u SYSTEM_CONSUMPTION now ids2] e2 by simp
  have s3: "ledger_step db2 (snd (consume_tx u who n ref now tr db2))"
    using True assms by (intro ledger_step.consume) auto
  note s12 = rtranclp_trans [OF s1 s2]
  from True e1 e2 s1 s12 rtranclp.rtrancl_into_rtrancl [OF s12 s3] show ?thesis
    by (auto simp: consume_def positive_def split: sum.splits)
qed (auto simp: consume_def positive_def split: option.splits)

lemma hold_steps: "ledger_step\<^sup>*\<^sup>* db (snd (ledger_hold u who n ref ttl now ids hid db))"
proof (cases "0 < n \<and> hold_by_reference ref db = None")
  case True
  obtain r1 db1 where e1: "ensure_account u who now ids db = (r1, db1)" by fastforce
  have s1: "ledger_step\<^sup>*\<^sup>* db db1" using steps_ensure [of db u who now ids] e1 by simp
  have s3: "ledger_step db1 (snd (hold_tx u who n ref ttl now hid db1))"
    using True by (intro ledger_step.hold) auto
  from True e1 s1 rtranclp.rtrancl_into_rtrancl [OF s1 s3] show ?thesis
    by (auto simp: ledger_hold_def positive_def split: sum.splits)
qed (auto simp: ledger_hold_def positive_def split: option.splits)

lemma capture_steps: "ledger_step\<^sup>*\<^sup>* db (snd (ledger_capture u hid now ids tr db))"
proof -
  obtain r1 db1 where e1: "ensure_account u SYSTEM_CONSUMPTION now ids db = (r1, db1)" by fastforce
  have s1: "ledger_step\<^sup>*\<^sup>* db db1" using steps_ensure [of db u SYSTEM_CONSUMPTION now ids] e1 by simp
  have s3: "ledger_step db1 (snd (capture_tx u hid now tr db1))" by (rule ledger_step.capture)
  from e1 s1 rtranclp.rtrancl_into_rtrancl [OF s1 s3] show ?thesis
    by (auto simp: ledger_capture_def split: sum.splits)
qed

lemma release_steps: "ledger_step\<^sup>*\<^sup>* db (snd (ledger_release hid db))"
proof -
  have s: "ledger_step db (snd (in_tx db (release_in hid db)))" by (rule ledger_step.release)
  then show ?thesis
    by (auto simp: ledger_release_def split: prod.splits sum.splits bool.splits intro: r_into_rtranclp)
qed

lemma sweep_holds_steps: "ledger_step\<^sup>*\<^sup>* db (snd (sweep_holds hids s db))"
proof (induction hids s db rule: sweep_holds.induct)
  case (2 hid hids s db)
  obtain r db1 where t: "in_tx db (release_in hid db) = (r, db1)" by fastforce
  have st: "ledger_step db db1" using ledger_step.release [of db hid] t by simp
  show ?case
  proof (cases r)
    case (Inl e)
    with t st show ?thesis by (auto simp: sweep_hold_def)
  next
    case (Inr won)
    with 2 t st show ?thesis
      by (auto simp: sweep_hold_def intro: converse_rtranclp_into_rtranclp)
  qed
qed simp

lemma expire_new_ids:
  assumes "ledger_inv db" and "expire_body u lid aid now tr db = Inr (r, db')"
    and "tr \<notin> set (map transfer_id (transfers db))"
  shows "set (map transfer_id (transfers db')) \<subseteq> insert tr (set (map transfer_id (transfers db)))"
proof (cases "find (\<lambda>l. lot_id l = lid \<and> remaining l > 0) (lots db)")
  case None
  with assms(2) show ?thesis by (auto simp: expire_body_def)
next
  case (Some l0)
  then have "l0 \<in> set (lots db)" "lot_id l0 = lid" "0 < remaining l0" by (auto simp: find_Some_iff)
  with claimed_ref_free [OF assms(1)] have free: "''expire:'' @ lid \<notin> set (map reference (transfers db))" by blast
  have b: "book_ok db" using assms(1) by (simp add: ledger_inv_def)
  from assms(2) b assms(3) free show ?thesis
  proof (cases rule: expire_body_Inr)
    case (expire l a to t)
    have "transfer_id t = tr" using expire(9) by (metis Transfer.simps(1))
    with moved_new_transfer [OF expire(11)] show ?thesis by auto
  qed auto
qed

definition fresh_ids :: "(nat \<Rightarrow> string) \<Rightarrow> nat \<Rightarrow> Tables \<Rightarrow> bool" where
  "fresh_ids trs n db \<longleftrightarrow> (\<forall>k<n. trs k \<notin> set (map transfer_id (transfers db))) \<and> inj_on trs {..<n}"

definition lot_pairs :: "(string \<times> string) list \<Rightarrow> Tables \<Rightarrow> bool" where
  "lot_pairs ps db \<longleftrightarrow> (\<forall>(lid, aid)\<in>set ps. \<exists>l\<in>set (lots db). lot_id l = lid \<and> lo_account_id l = aid)"

lemma lot_pairs_grows: "lot_pairs ps db \<Longrightarrow> grows db db' \<Longrightarrow> lot_pairs ps db'"
proof -
  assume p: "lot_pairs ps db" and g: "grows db db'"
  have "\<exists>l'\<in>set (lots db'). lot_id l' = lot_id l \<and> lo_account_id l' = lo_account_id l"
    if "l \<in> set (lots db)" for l
    using extends_member [of lot_le "lots db" "lots db'" l] g that by (auto simp: grows_def lot_le_def)
  with p show ?thesis unfolding lot_pairs_def by fastforce
qed

lemma sweep_lots_steps:
  "ledger_inv db \<Longrightarrow> lot_pairs ps db \<Longrightarrow> fresh_ids trs (length ps) db \<Longrightarrow>
   ledger_step\<^sup>*\<^sup>* db (snd (sweep_lots u ps now trs s db))"
proof (induction u ps now trs s db rule: sweep_lots.induct)
  case (2 u lid aid rest now trs s db)
  let ?tr = "trs (length rest)"
  have fr: "?tr \<notin> set (map transfer_id (transfers db))" using "2.prems"(3) by (simp add: fresh_ids_def)
  have lp: "\<exists>l\<in>set (lots db). lot_id l = lid \<and> lo_account_id l = aid" using "2.prems"(2) by (simp add: lot_pairs_def)
  obtain r db1 where t: "in_tx db (expire_body u lid aid now ?tr db) = (r, db1)" by fastforce
  have st: "ledger_step db db1" using ledger_step.expire [OF lp fr, of u now] t by simp
  note inv = ledger_step_inv [OF "2.prems"(1) st] and g = ledger_step_grows [OF "2.prems"(1) st]
  have new: "set (map transfer_id (transfers db1)) \<subseteq> insert ?tr (set (map transfer_id (transfers db)))"
  proof (cases "expire_body u lid aid now ?tr db")
    case (Inl e)
    with t show ?thesis by (auto simp: in_tx_def)
  next
    case (Inr p)
    with t obtain x where "expire_body u lid aid now ?tr db = Inr (x, db1)"
      by (cases p) (auto simp: in_tx_def)
    from expire_new_ids [OF "2.prems"(1) this fr] show ?thesis .
  qed
  have "fresh_ids trs (length rest) db1"
    unfolding fresh_ids_def
  proof (intro conjI allI impI)
    have inj: "inj_on trs {..<Suc (length rest)}" using "2.prems"(3) by (simp add: fresh_ids_def)
    show "inj_on trs {..<length rest}" by (rule inj_on_subset [OF inj]) auto
    fix k assume k: "k < length rest"
    have "trs k \<noteq> ?tr" using inj k by (auto dest: inj_onD)
    moreover have "trs k \<notin> set (map transfer_id (transfers db))" using "2.prems"(3) k by (simp add: fresh_ids_def)
    ultimately show "trs k \<notin> set (map transfer_id (transfers db1))" using new by blast
  qed
  moreover have "lot_pairs rest db1"
    by (rule lot_pairs_grows [OF _ g]) (use "2.prems"(2) in \<open>simp add: lot_pairs_def\<close>)
  ultimately have IH: "sweep_lot u lid aid now ?tr s db = (Inr s1, db1) \<Longrightarrow>
      ledger_step\<^sup>*\<^sup>* db1 (snd (sweep_lots u rest now trs s1 db1))" for s1
    using "2.IH" inv by auto
  show ?case
  proof (cases r)
    case (Inl e)
    with t st show ?thesis by (auto simp: sweep_lot_def)
  next
    case (Inr x)
    obtain s1 where s1: "sweep_lot u lid aid now ?tr s db = (Inr s1, db1)"
      using t Inr by (cases x) (auto simp: sweep_lot_def)
    with IH [OF s1] st show ?thesis by (auto intro: converse_rtranclp_into_rtranclp)
  qed
qed simp

lemma sweep_holds_transfers: "transfers (snd (sweep_holds hids s db)) = transfers db"
proof (induction hids s db rule: sweep_holds.induct)
  case (2 hid hids s db)
  have "transfers (snd (in_tx db (release_in hid db))) = transfers db"
    by (auto simp: in_tx_def release_in_def set_status_def Let_def and_then_Inr_iff
        dest!: update_accounts_Inr split: sum.splits if_splits option.splits)
  with 2 show ?case by (auto simp: sweep_hold_def split: prod.splits sum.splits)
qed simp

lemma dead_lots_pairs: "lot_pairs (dead_lots now db) db"
  by (auto simp: lot_pairs_def dead_lots_def)

lemma sweep_steps:
  assumes "ledger_inv db" and "inj trs" and "\<forall>k. trs k \<notin> set (map transfer_id (transfers db))"
  shows "ledger_step\<^sup>*\<^sup>* db (snd (sweep u now ids trs db))"
proof -
  obtain r1 db1 where e1: "ensure_account u SYSTEM_EXPIRY now ids db = (r1, db1)" by fastforce
  have s1: "ledger_step\<^sup>*\<^sup>* db db1" using steps_ensure [of db u SYSTEM_EXPIRY now ids] e1 by simp
  have t1: "transfers db1 = transfers db"
    using ensure_loop_transfers [of u SYSTEM_EXPIRY now "take 5 ids" None db] e1 by (simp add: ensure_account_def)
  let ?s0 = "\<lparr>holds_released = 0, lots_expired = 0, amount_expired = 0\<rparr>"
  obtain r2 db2 where e2: "sweep_holds (stale_holds now db1) ?s0 db1 = (r2, db2)" by fastforce
  have s2: "ledger_step\<^sup>*\<^sup>* db1 db2" using sweep_holds_steps [of db1 "stale_holds now db1" ?s0] e2 by simp
  have t2: "transfers db2 = transfers db"
    using sweep_holds_transfers [of "stale_holds now db1" ?s0 db1] e2 t1 by simp
  note s12 = rtranclp_trans [OF s1 s2]
  have "fresh_ids trs (length (dead_lots now db2)) db2"
    using assms(2,3) t2 by (simp add: fresh_ids_def inj_on_def)
  then have s3: "ledger_step\<^sup>*\<^sup>* db2 (snd (sweep_lots u (dead_lots now db2) now trs s db2))" for s
    using sweep_lots_steps [OF ledger.inv_steps [OF s12 assms(1)] dead_lots_pairs] by blast
  show ?thesis
    using e1 e2 s1 s12 rtranclp_trans [OF s12 s3] by (auto simp: sweep_def split: sum.splits)
qed

subsection \<open>Lookups that last\<close>

lemma find_unique:
  "distinct (map k xs) \<Longrightarrow> x \<in> set xs \<Longrightarrow> k x = i \<Longrightarrow> find (\<lambda>x. k x = i) xs = Some x"
proof (induction xs)
  case (Cons y ys)
  then show ?case by (auto simp: image_iff)
qed simp

lemma find_transfer_in:
  "ledger_inv db \<Longrightarrow> find_transfer ref db = Some t \<longleftrightarrow> t \<in> set (transfers db) \<and> reference t = ref"
  using find_unique [of reference "transfers db" t ref]
  by (auto simp: find_transfer_def ledger_inv_def book_ok_def keys_ok_def find_Some_iff)

lemma find_hold_in:
  "ledger_inv db \<Longrightarrow> find_hold hid db = Some h \<longleftrightarrow> h \<in> set (holds db) \<and> hold_id h = hid"
  using find_unique [of hold_id "holds db" h hid]
  by (auto simp: find_hold_def ledger_inv_def book_ok_def keys_ok_def find_Some_iff)

lemma transfer_stays:
  assumes "ledger_inv db" and "ledger_step\<^sup>*\<^sup>* db db'" and "find_transfer ref db = Some t"
  shows "find_transfer ref db' = Some t"
proof -
  have "t \<in> set (transfers db')"
  proof (rule ledger.stable [OF assms(2,1), where p = "\<lambda>d. t \<in> set (transfers d)"])
    show "t \<in> set (transfers db)" using assms(1,3) find_transfer_in by blast
    show "t \<in> set (transfers y)" if "ledger_inv x" "t \<in> set (transfers x)" "ledger_step x y" for x y
      using extends_member [of "(=)" "transfers x" "transfers y" t] ledger_step_grows [OF that(1,3)] that(2)
      by (auto simp: grows_def)
  qed
  moreover have "reference t = ref" using assms(1,3) find_transfer_in by blast
  ultimately show ?thesis using find_transfer_in [OF ledger.inv_steps [OF assms(2,1)]] by blast
qed

lemma settled_stays:
  assumes "ledger_inv db" and "ledger_step\<^sup>*\<^sup>* db db'" and "find_hold hid db = Some h" and "status h \<noteq> Held"
  shows "find_hold hid db' = Some h"
proof -
  have "h \<in> set (holds db')"
  proof (rule ledger.stable [OF assms(2,1), where p = "\<lambda>d. h \<in> set (holds d)"])
    show "h \<in> set (holds db)" using assms(1,3) find_hold_in by blast
    show "h \<in> set (holds y)" if xy: "ledger_inv x" "h \<in> set (holds x)" "ledger_step x y" for x y
    proof -
      obtain h' where "h' \<in> set (holds y)" "hold_le h h'"
        using extends_member [of hold_le "holds x" "holds y" h] ledger_step_grows [OF xy(1,3)] xy(2)
        by (auto simp: grows_def)
      moreover from this assms(4) have "h' = h" by (auto simp: hold_le_def)
      ultimately show ?thesis by simp
    qed
  qed
  moreover have "hold_id h = hid" using assms(1,3) find_hold_in by blast
  ultimately show ?thesis using find_hold_in [OF ledger.inv_steps [OF assms(2,1)]] by blast
qed

lemma settled_refused:
  assumes "ledger_inv db" and "find_hold hid db = Some h" and "status h \<noteq> Held"
  shows "capture_tx u hid now tr db = (Inl (NotHeld hid (status h)), db)"
    and "ledger_release hid db = (Some (NotHeld hid (status h)), db)"
proof -
  have d: "distinct (map hold_id (holds db))" using assms(1) by (simp add: ledger_inv_def book_ok_def keys_ok_def)
  have h: "h \<in> set (holds db)" "hold_id h = hid" using find_hold_in [OF assms(1)] assms(2) by auto
  have "\<not> (hold_id x = hid \<and> status x = Held)" if "x \<in> set (holds db)" for x
    using that h d assms(3) by (metis distinct_map inj_onD)
  then have "filter (\<lambda>x. hold_id x = hid \<and> status x = Held) (holds db) = []"
    by (auto simp: filter_empty_conv)
  then have s: "fst (set_status hid v db) = 0" for v by (simp add: set_status_def Let_def)
  show "capture_tx u hid now tr db = (Inl (NotHeld hid (status h)), db)"
    using s [of Captured] assms(2)
    by (cases "set_status hid Captured db") (simp add: capture_tx_def capture_body_def in_tx_def hold_not_held_def)
  show "ledger_release hid db = (Some (NotHeld hid (status h)), db)"
    using s [of Released] assms(2)
    by (cases "set_status hid Released db")
      (simp add: ledger_release_def release_in_def in_tx_def hold_not_held_def)
qed

lemma find_hold_status:
  "find_hold hid (db\<lparr>holds := upd (\<lambda>x. hold_id x = hid \<and> status x = Held) (\<lambda>x. x\<lparr>status := s\<rparr>) (holds db)\<rparr>) =
   map_option (\<lambda>h. if status h = Held then h\<lparr>status := s\<rparr> else h) (find_hold hid db)"
proof -
  have "find (\<lambda>x. hold_id x = hid) (upd (\<lambda>x. hold_id x = hid \<and> status x = Held) (\<lambda>x. x\<lparr>status := s\<rparr>) hs) =
    map_option (\<lambda>h. if status h = Held then h\<lparr>status := s\<rparr> else h) (find (\<lambda>x. hold_id x = hid) hs)" for hs
    by (induction hs) (auto simp: upd_Cons upd_map)
  then show ?thesis by (simp add: find_hold_def)
qed

lemma transfer_result_found:
  assumes "ledger_inv db" and "finish_transfer ref (in_tx db r) = (Inr t, db')"
    and "\<And>t db1. r = Inr (Some t, db1) \<Longrightarrow> ledger_inv db1 \<and> t \<in> set (transfers db1) \<and> reference t = ref"
  shows "find_transfer ref db' = Some t"
proof (cases r)
  case (Inl e)
  with assms(2) show ?thesis by (simp add: in_tx_def finish_transfer_def)
next
  case (Inr p)
  then obtain x db1 where p: "r = Inr (x, db1)" by (cases p) auto
  show ?thesis
  proof (cases x)
    case None
    with p assms(2) show ?thesis
      by (auto simp: in_tx_def finish_transfer_def winner_def split: option.splits)
  next
    case (Some t1)
    with p assms(2) have "t1 = t" "db1 = db'" by (auto simp: in_tx_def finish_transfer_def)
    with assms(3) [of t db'] p Some show ?thesis using find_transfer_in by blast
  qed
qed

lemma top_up_tx_found:
  assumes "ledger_inv db" and "0 < n" and "client_ref ref"
    and "top_up_tx u who n ref ex now tr lot db = (Inr t, db')"
  shows "find_transfer ref db' = Some t"
  using assms(1) assms(4) [unfolded top_up_tx_def]
proof (rule transfer_result_found)
  fix t1 db1 assume b: "top_up_body u who n ref ex now tr lot db = Inr (Some t1, db1)"
  from top_up_inv [OF assms(1-3) b]
  show "ledger_inv db1 \<and> t1 \<in> set (transfers db1) \<and> reference t1 = ref"
    by (auto intro: top_up_body_Some [OF b] dest: moved_new_transfer)
qed

lemma consume_tx_found:
  assumes "ledger_inv db" and "0 < n" and "client_ref ref"
    and "consume_tx u who n ref now tr db = (Inr t, db')"
  shows "find_transfer ref db' = Some t"
  using assms(1) assms(4) [unfolded consume_tx_def]
proof (rule transfer_result_found)
  fix t1 db1 assume b: "consume_body u who n ref now tr db = Inr (Some t1, db1)"
  have k: "book_ok db" using assms(1) by (simp add: ledger_inv_def)
  from consume_inv [OF assms(1-3) b]
  show "ledger_inv db1 \<and> t1 \<in> set (transfers db1) \<and> reference t1 = ref"
    by (auto intro: consume_body_Some [OF b k] dest: moved_new_transfer)
qed

lemma top_up_found:
  assumes "ledger_inv db" and "client_ref ref"
    and "top_up u who n ref ex now ids1 ids2 tr lot db = (Inr t, db')"
  shows "find_transfer ref db' = Some t \<and> 0 < n"
proof -
  have n: "0 < n" using assms(3) by (auto simp: top_up_def positive_def split: if_splits)
  show ?thesis
  proof (cases "find_transfer ref db")
    case (Some t0)
    with assms(3) n show ?thesis by (auto simp: top_up_def positive_def)
  next
    case None
    obtain r1 db1 where e1: "ensure_account u who now ids1 db = (r1, db1)" by fastforce
    obtain r2 db2 where e2: "ensure_account u SYSTEM_TOPUP now ids2 db1 = (r2, db2)" by fastforce
    have i1: "ledger_inv db1" using ensure_inv [OF assms(1), of u who now ids1] e1 by simp
    have i2: "ledger_inv db2" using ensure_inv [OF i1, of u SYSTEM_TOPUP now ids2] e2 by simp
    have "top_up_tx u who n ref ex now tr lot db2 = (Inr t, db')"
      using assms(3) n None e1 e2 by (auto simp: top_up_def positive_def split: sum.splits)
    with top_up_tx_found [OF i2 n assms(2)] n show ?thesis by blast
  qed
qed

lemma consume_found:
  assumes "ledger_inv db" and "client_ref ref"
    and "consume u who n ref now ids1 ids2 tr db = (Inr t, db')"
  shows "find_transfer ref db' = Some t \<and> 0 < n"
proof -
  have n: "0 < n" using assms(3) by (auto simp: consume_def positive_def split: if_splits)
  show ?thesis
  proof (cases "find_transfer ref db")
    case (Some t0)
    with assms(3) n show ?thesis by (auto simp: consume_def positive_def)
  next
    case None
    obtain r1 db1 where e1: "ensure_account u who now ids1 db = (r1, db1)" by fastforce
    obtain r2 db2 where e2: "ensure_account u SYSTEM_CONSUMPTION now ids2 db1 = (r2, db2)" by fastforce
    have i1: "ledger_inv db1" using ensure_inv [OF assms(1), of u who now ids1] e1 by simp
    have i2: "ledger_inv db2" using ensure_inv [OF i1, of u SYSTEM_CONSUMPTION now ids2] e2 by simp
    have "consume_tx u who n ref now tr db2 = (Inr t, db')"
      using assms(3) n None e1 e2 by (auto simp: consume_def positive_def split: sum.splits)
    with consume_tx_found [OF i2 n assms(2)] n show ?thesis by blast
  qed
qed

subsection \<open>Properties\<close>

lemmas ledger_eval = top_up_def consume_def ledger_hold_def ledger_capture_def
  top_up_tx_def consume_tx_def capture_tx_def hold_tx_def finish_transfer_def in_tx_def winner_def
  top_up_body_def consume_body_def hold_body_def capture_body_def release_in_def
  ensure_account_def find_account_def find_transfer_def hold_by_reference_def account_in_def positive_def
  insert_account_def insert_transfer_def insert_hold_def insert_lot_def insert_entry_def record_transfer_def
  update_accounts_def debit_available_def debit_unchecked_def credit_def balance_of_def entry_for_def
  draw_lots_def take_lot_def lot_key_def set_status_def find_hold_def upd_def
  in_i64_def as_i64_def and_then_def Let_def empty_tables_def
  SYSTEM_TOPUP_def SYSTEM_CONSUMPTION_def SYSTEM_EXPIRY_def


definition sample :: Tables where
  "sample = snd (top_up ''u'' ''ann'' 100 ''r1'' None 5 [''a1''] [''a2''] ''tr1'' ''l1'' empty_tables)"

lemma sample_reachable: "ledger_step\<^sup>*\<^sup>* empty_tables sample"
  unfolding sample_def by (rule top_up_steps) (simp add: client_ref_def)

lemma sample_accounts:
  "accounts sample =
     [\<lparr>account_id = ''a1'', owner = ''ann'', unit = ''u'', balance = 100, held = 0, created_at = 5\<rparr>,
      \<lparr>account_id = ''a2'', owner = ''system:topup'', unit = ''u'', balance = -100, held = 0, created_at = 5\<rparr>]"
  by (simp add: sample_def ledger_eval)




text \<open>
  \<open>sweep\<close> too is a sequence of such transactions, when the transfer ids it draws are new.
\<close>

theorem ledger_sweep_is_steps:
  assumes "ledger_step\<^sup>*\<^sup>* empty_tables db" and "inj trs"
    and "\<forall>k. trs k \<notin> set (map transfer_id (transfers db))"
  shows "ledger_step\<^sup>*\<^sup>* db (snd (sweep u now ids trs db))"
  by (rule sweep_steps [OF ledger.reachable_inv [OF refl assms(1)] assms(2,3)])

theorem ledger_sweep_is_steps_witness:
  "ledger_step\<^sup>*\<^sup>* empty_tables (snd (sweep ''u'' 5 [''a1''] (\<lambda>k. replicate k CHR ''x'') empty_tables))"
proof (rule ledger_sweep_is_steps)
  show "inj (\<lambda>k. replicate k CHR ''x'')" by (rule injI) (metis length_replicate)
qed (simp_all add: empty_tables_def)



text \<open>
  C3: a top-up and a consume are idempotent on their reference, for ever and under concurrency: once
  a call has returned a transfer, any later call with that reference, in any state other clients
  may have brought about, returns the same transfer and changes nothing.
\<close>

theorem ledger_idempotent:
  assumes "ledger_step\<^sup>*\<^sup>* empty_tables db" and "client_ref ref" and "0 < m"
    and "top_up u who n ref ex now ids1 ids2 tr lot db = (Inr t, db') \<or>
         consume u who n ref now ids1 ids2 tr db = (Inr t, db')"
    and "ledger_step\<^sup>*\<^sup>* db' db''"
  shows "top_up u' who' m ref ex' now' ids1' ids2' tr' lot' db'' = (Inr t, db'') \<and>
    consume u' who' m ref now' ids1' ids2' tr' db'' = (Inr t, db'')"
proof -
  have inv: "ledger_inv db" by (rule ledger.reachable_inv [OF refl assms(1)])
  have f: "find_transfer ref db' = Some t"
    using assms(4) top_up_found [OF inv assms(2)] consume_found [OF inv assms(2)] by blast
  have "ledger_step\<^sup>*\<^sup>* db db'"
    using assms(4) top_up_steps [OF assms(2), of db u who n ex now ids1 ids2 tr lot]
      consume_steps [OF assms(2), of db u who n now ids1 ids2 tr] by auto
  from transfer_stays [OF ledger.inv_steps [OF this inv] assms(5) f] assms(3) show ?thesis
    by (simp add: top_up_def consume_def positive_def)
qed

theorem ledger_idempotent_witness:
  "let t = \<lparr>transfer_id = ''tr1'', reference = ''r1'', kind = TopUp, from_account = ''a2'',
            to_account = ''a1'', amount = 100, tr_created_at = 5, metadata = None\<rparr>
   in top_up ''u'' ''ann'' 100 ''r1'' None 9 [] [] ''tr9'' ''l9'' sample = (Inr t, sample) \<and>
      consume ''u'' ''bob'' 100 ''r1'' 9 [] [] ''tr9'' sample = (Inr t, sample)"
proof -
  let ?t = "\<lparr>transfer_id = ''tr1'', reference = ''r1'', kind = TopUp, from_account = ''a2'',
            to_account = ''a1'', amount = 100, tr_created_at = 5, metadata = None\<rparr>"
  have "fst (top_up ''u'' ''ann'' 100 ''r1'' None 5 [''a1''] [''a2''] ''tr1'' ''l1'' empty_tables) = Inr ?t"
    by (simp add: ledger_eval)
  then have "top_up ''u'' ''ann'' 100 ''r1'' None 5 [''a1''] [''a2''] ''tr1'' ''l1'' empty_tables = (Inr ?t, sample)"
    by (simp add: sample_def prod_eq_iff)
  then have d: "top_up ''u'' ''ann'' 100 ''r1'' None 5 [''a1''] [''a2''] ''tr1'' ''l1'' empty_tables = (Inr ?t, sample) \<or>
    consume ''u'' ''ann'' 100 ''r1'' 5 [''a1''] [''a2''] ''tr1'' empty_tables = (Inr ?t, sample)" ..
  have c: "client_ref ''r1''" by (simp add: client_ref_def)
  show ?thesis
    unfolding Let_def
    using ledger_idempotent [OF rtranclp.rtrancl_refl c _ d rtranclp.rtrancl_refl, of 100] by simp
qed

text \<open>
  C4: a hold is settled exactly once.  Once a capture has returned, every later capture or release
  of that hold, in any state reached since, is refused as already captured and moves nothing;
  and the same after a release.
\<close>

theorem ledger_hold_settled_once:
  assumes "ledger_step\<^sup>*\<^sup>* empty_tables db"
    and "(capture_tx u hid now tr db = (Inr t, db') \<and> s = Captured) \<or>
         (ledger_release hid db = (None, db') \<and> s = Released)"
    and "ledger_step\<^sup>*\<^sup>* db' db''"
  shows "capture_tx u' hid now' tr' db'' = (Inl (NotHeld hid s), db'') \<and>
    ledger_release hid db'' = (Some (NotHeld hid s), db'')"
proof -
  have inv: "ledger_inv db" by (rule ledger.reachable_inv [OF refl assms(1)])
  have b: "book_ok db" using inv by (simp add: ledger_inv_def)
  have "\<exists>h. find_hold hid db' = Some h \<and> status h = s"
    using assms(2)
  proof
    assume c: "capture_tx u hid now tr db = (Inr t, db') \<and> s = Captured"
    then have cb: "capture_body u hid now tr db = Inr (t, db')"
      by (auto simp: capture_tx_def in_tx_def split: sum.splits)
    show ?thesis
    proof (rule capture_body_Inr [OF cb b])
      fix h assume h: "h \<in> set (holds db)" "hold_id h = hid" "status h = Held"
        "holds db' = upd (\<lambda>x. hold_id x = hid \<and> status x = Held) (\<lambda>x. x\<lparr>status := Captured\<rparr>) (holds db)"
      have "find_hold hid db = Some h" using h find_hold_in [OF inv] by blast
      with find_hold_status [where hid = hid and db = db and s = Captured] h(3,4) c show ?thesis by (simp add: find_hold_def)
    qed
  next
    assume r: "ledger_release hid db = (None, db') \<and> s = Released"
    then have rb: "release_in hid db = Inr (True, db')"
      by (auto simp: ledger_release_def in_tx_def split: sum.splits prod.splits bool.splits)
    show ?thesis
    proof (rule release_in_True [OF rb b])
      fix h assume h: "h \<in> set (holds db)" "hold_id h = hid" "status h = Held"
        and d: "db' = db\<lparr>accounts := map (\<lambda>a. a\<lparr>held := held a + (if account_id a = ho_account_id h then - ho_amount h else 0)\<rparr>) (accounts db),
              holds := upd (\<lambda>x. hold_id x = hid \<and> status x = Held) (\<lambda>x. x\<lparr>status := Released\<rparr>) (holds db)\<rparr>"
      have "find_hold hid db = Some h" using h find_hold_in [OF inv] by blast
      with find_hold_status [where hid = hid and db = db and s = Released] h(3) d r show ?thesis by (simp add: find_hold_def)
    qed
  qed
  then obtain h where h: "find_hold hid db' = Some h" "status h = s" by blast
  have "ledger_step\<^sup>*\<^sup>* db db'"
    using assms(2) ledger_step.capture [of db u hid now tr] release_steps [of db hid] by auto
  then have inv': "ledger_inv db'" using inv ledger.inv_steps by blast
  have ns: "status h \<noteq> Held" using h(2) assms(2) by auto
  have f: "find_hold hid db'' = Some h" by (rule settled_stays [OF inv' assms(3) h(1) ns])
  from settled_refused [OF ledger.inv_steps [OF assms(3) inv'] f ns] h(2) show ?thesis by simp
qed

definition sample_held :: Tables where
  "sample_held = snd (ledger_hold ''u'' ''ann'' 30 ''job'' 60 5 [''a9''] ''h1'' sample)"

lemma sample_held_reachable: "ledger_step\<^sup>*\<^sup>* empty_tables sample_held"
  unfolding sample_held_def by (rule rtranclp_trans [OF sample_reachable hold_steps])

lemma sample_held_release: "fst (ledger_release ''h1'' sample_held) = None"
  by (simp add: sample_held_def sample_def ledger_release_def ledger_eval)

theorem ledger_hold_settled_once_witness:
  "ledger_release ''h1'' (snd (ledger_release ''h1'' sample_held)) =
     (Some (NotHeld ''h1'' Released), snd (ledger_release ''h1'' sample_held))"
proof -
  have "(capture_tx ''u'' ''h1'' 0 ''t'' sample_held = (Inr undefined, snd (ledger_release ''h1'' sample_held)) \<and> Released = Captured) \<or>
    (ledger_release ''h1'' sample_held = (None, snd (ledger_release ''h1'' sample_held)) \<and> Released = Released)"
    using sample_held_release by (simp add: prod_eq_iff)
  from ledger_hold_settled_once [OF sample_held_reachable this rtranclp.rtrancl_refl] show ?thesis by simp
qed

subsection \<open>A reservation is a promise\<close>

lemma update_accounts_ok:
  "\<forall>a\<in>set (accounts db). p a \<longrightarrow> in_i64 (balance (f a)) \<and> in_i64 (held (f a)) \<Longrightarrow>
   update_accounts p f db = Inr (length (filter p (accounts db)), db\<lparr>accounts := upd p f (accounts db)\<rparr>)"
  by (auto simp: update_accounts_def)

lemma balance_of_ok: "i \<in> set (account_ids db) \<Longrightarrow> \<exists>b. balance_of i db = Inr b"
  by (auto simp: balance_of_def find_None_iff split: option.split)

lemma record_transfer_ok:
  assumes "\<forall>s\<in>set (transfers db). transfer_id s \<noteq> transfer_id t \<and> reference s \<noteq> reference t"
    and "from_account t \<in> set (account_ids db)" and "to_account t \<in> set (account_ids db)"
  shows "\<exists>db'. record_transfer t db = Inr (Some t, db')"
proof -
  obtain b1 b2 where b: "balance_of (from_account t) db = Inr b1" "balance_of (to_account t) db = Inr b2"
    using balance_of_ok assms(2,3) by blast
  have "insert_transfer t db = Inr (db\<lparr>transfers := transfers db @ [t]\<rparr>)"
    using assms(1) by (auto simp: insert_transfer_def)
  with b show ?thesis by (simp add: record_transfer_def insert_entry_def balance_of_def)
qed

lemma set_status_finds:
  assumes "ledger_inv db" and "find_hold hid db = Some h" and "status h = Held"
  obtains won db1 where "set_status hid s db = (won, db1)" "won \<noteq> 0"
    "find_hold hid db1 = Some (h\<lparr>status := s\<rparr>)"
    "db1 = db\<lparr>holds := upd (\<lambda>x. hold_id x = hid \<and> status x = Held) (\<lambda>x. x\<lparr>status := s\<rparr>) (holds db)\<rparr>"
proof -
  let ?p = "\<lambda>x. hold_id x = hid \<and> status x = Held"
  have h: "h \<in> set (holds db)" "hold_id h = hid" using find_hold_in [OF assms(1)] assms(2) by auto
  have "filter ?p (holds db) \<noteq> []" using h assms(3) by (auto simp: filter_empty_conv)
  then show thesis
    by (intro that) (auto simp: set_status_def Let_def find_hold_status assms(2,3))
qed

lemma in_i64_between: "0 \<le> x \<Longrightarrow> x \<le> y \<Longrightarrow> in_i64 y \<Longrightarrow> in_i64 x"
  by (simp add: in_i64_def)

lemma capture_debit_ok:
  assumes "book_ok db" and "h \<in> set (holds db)" and "status h = Held"
    and "\<forall>a\<in>set (accounts db). in_i64 (balance a)"
    and "a \<in> set (accounts db)" and "account_id a = ho_account_id h"
  shows "in_i64 (balance a - ho_amount h) \<and> in_i64 (held a - ho_amount h)"
  using held_hold_covered [OF assms(1-3,5,6)] assms(4,5)
    in_i64_between [of "balance a - ho_amount h" "balance a"] in_i64_between [of "held a - ho_amount h" "balance a"]
  by auto


lemma sample_held_rows:
  "holds sample_held = [\<lparr>hold_id = ''h1'', ho_account_id = ''a1'', ho_amount = 30, status = Held,
     ho_reference = ''job'', ho_created_at = 5, ho_expires_at = 65\<rparr>]"
  "transfers sample_held = [\<lparr>transfer_id = ''tr1'', reference = ''r1'', kind = TopUp, from_account = ''a2'',
            to_account = ''a1'', amount = 100, tr_created_at = 5, metadata = None\<rparr>]"
  "map balance (accounts sample_held) = [100, -100]"
  by (simp_all add: sample_held_def sample_def ledger_eval)


subsection \<open>Which credits are spent first\<close>

text \<open>What is left of a lot, and what a draw of \<open>n\<close> takes from it.\<close>

definition left_in :: "string \<Rightarrow> Lot list \<Rightarrow> int" where
  "left_in i ls = (case find (\<lambda>l. lot_id l = i) ls of Some l \<Rightarrow> remaining l | None \<Rightarrow> 0)"

fun taken :: "string \<Rightarrow> Lot list \<Rightarrow> int \<Rightarrow> int" where
  "taken i [] n = 0"
| "taken i (l # rest) n =
     (if n \<le> 0 then 0
      else if lot_id l = i then min (remaining l) n
      else taken i rest (n - min (remaining l) n))"

lemma left_in_upd:
  "j \<in> set (map lot_id ls) \<Longrightarrow>
   left_in i (upd (\<lambda>x. lot_id x = j) (\<lambda>x. x\<lparr>remaining := remaining x - t\<rparr>) ls) =
   left_in i ls - (if i = j then t else 0)"
proof (induction ls)
  case (Cons x xs)
  have "left_in i (upd (\<lambda>x. lot_id x = j) (\<lambda>x. x\<lparr>remaining := remaining x - t\<rparr>) xs) = left_in i xs" if "i \<noteq> j"
    using that by (induction xs) (auto simp: left_in_def upd_Cons upd_map)
  with Cons show ?case by (auto simp: left_in_def upd_Cons)
qed simp

lemma same_lot:
  "distinct (map lot_id ls) \<Longrightarrow> x \<in> set ls \<Longrightarrow> y \<in> set ls \<Longrightarrow> lot_id x = lot_id y \<Longrightarrow> x = y"
  by (metis distinct_map inj_onD)

lemma taken_absent: "i \<notin> set (map lot_id sel) \<Longrightarrow> taken i sel n = 0"
  by (induction i sel n rule: taken.induct) auto

lemma draw_loop_taken:
  assumes "distinct (map lot_id ls)" and "distinct (map lot_id sel)" and "set sel \<subseteq> set ls"
    and "\<forall>l\<in>set sel. 0 \<le> remaining l"
  shows "left_in i (draw_loop sel n ls) = left_in i ls - taken i sel n"
  using assms
proof (induction sel n ls rule: draw_loop.induct)
  case (2 l rest n ls)
  show ?case
  proof (cases "n \<le> 0")
    case False
    let ?t = "min (remaining l) n"
    let ?u = "upd (\<lambda>x. lot_id x = lot_id l) (\<lambda>x. x\<lparr>remaining := remaining x - ?t\<rparr>) ls"
    have row: "take_lot (lot_id l) ?t ls = (1, ?u)" using "2.prems" by (intro take_lot_row) auto
    have sub: "set rest \<subseteq> set ?u"
    proof
      fix x assume x: "x \<in> set rest"
      then have "x \<in> set ls" "lot_id x \<noteq> lot_id l" using "2.prems"(2,3) by (auto simp: image_iff)
      then show "x \<in> set ?u" by (force simp: upd_map)
    qed
    have ids: "map lot_id ?u = map lot_id ls" by (simp add: upd_map)
    have IH: "left_in i (draw_loop rest (n - ?t) ?u) = left_in i ?u - taken i rest (n - ?t)"
      using "2.IH" [OF False refl row [symmetric] refl] "2.prems" ids sub by auto
    have u: "left_in i ?u = left_in i ls - (if i = lot_id l then ?t else 0)"
      using "2.prems"(3) by (intro left_in_upd) auto
    have "taken i rest (n - ?t) = 0" if "i = lot_id l" using that "2.prems"(2) by (intro taken_absent) auto
    with IH u False row show ?thesis by (auto simp: Let_def)
  qed simp
qed simp

lemma taken_order:
  assumes "sorted (map lot_key sel)" and "distinct (map lot_id sel)" and "\<forall>l\<in>set sel. 0 \<le> remaining l"
    and "a \<in> set sel" and "b \<in> set sel" and "lot_key a < lot_key b" and "0 < taken (lot_id b) sel n"
  shows "taken (lot_id a) sel n = remaining a"
  using assms
proof (induction "lot_id b" sel n rule: taken.induct)
  case (2 l rest n)
  have n: "0 < n" using "2.prems"(7) by (auto split: if_splits)
  have "b \<noteq> l" using "2.prems"(1,4,6) by (auto simp: not_less [symmetric])
  then have b: "b \<in> set rest" "lot_id b \<noteq> lot_id l" using "2.prems"(2,5) by (auto simp: image_iff)
  then have tb: "0 < taken (lot_id b) rest (n - min (remaining l) n)" using "2.prems"(7) n by auto
  then have m: "remaining l < n" by (cases rest) (auto split: if_splits)
  show ?case
  proof (cases "a = l")
    case True
    with n m show ?thesis by simp
  next
    case False
    then have a: "a \<in> set rest" "lot_id a \<noteq> lot_id l" using "2.prems"(2,4) by (auto simp: image_iff)
    have "taken (lot_id a) rest (n - min (remaining l) n) = remaining a"
      using 2 n b a tb by auto
    with n a(2) show ?thesis by simp
  qed
qed simp

text \<open>
  C7: consumption spends the credits that die first.  When drawing from an account's lots takes
  anything from one lot, every lot of that account that expires earlier, or expires at all when this
  one never does, has been emptied; and no lot is ever overdrawn.
\<close>

theorem ledger_earliest_expiry_first:
  assumes "distinct (map lot_id (lots db))" and "\<forall>l\<in>set (lots db). 0 \<le> remaining l"
    and "a \<in> set (lots db)" and "b \<in> set (lots db)" and "lo_account_id a = aid" and "lo_account_id b = aid"
    and "lot_key a < lot_key b" and "left_in (lot_id b) (lots (draw_lots aid n db)) < remaining b"
  shows "left_in (lot_id a) (lots (draw_lots aid n db)) = 0 \<and>
    (\<forall>l\<in>set (lots (draw_lots aid (max 0 n) db)). 0 \<le> remaining l)"
proof
  let ?f = "filter (\<lambda>l. lo_account_id l = aid \<and> remaining l > 0) (lots db)"
  let ?sel = "sort_key lot_key ?f"
  have "mset (map lot_id ?sel) = mset (map lot_id ?f)" by simp
  then have d: "distinct (map lot_id ?sel)"
    using distinct_map_filter [OF assms(1)] mset_eq_imp_distinct_iff by blast
  have left: "left_in (lot_id x) (lots db) = remaining x" if "x \<in> set (lots db)" for x
    using find_unique [OF assms(1) that refl] by (simp add: left_in_def)
  have dr: "left_in (lot_id x) (lots (draw_lots aid n db)) = remaining x - taken (lot_id x) ?sel n"
    if "x \<in> set (lots db)" for x
    using draw_loop_taken [OF assms(1) d] left [OF that] by (auto simp: draw_lots_def Let_def)
  have tb: "0 < taken (lot_id b) ?sel n" using dr [OF assms(4)] assms(8) by simp
  then have "lot_id b \<in> set (map lot_id ?sel)" using taken_absent [of "lot_id b" ?sel n] by linarith
  then obtain x where "x \<in> set ?sel" "lot_id x = lot_id b" by auto
  with same_lot [OF assms(1), of x b] assms(4) have b: "b \<in> set ?sel" by auto
  show "left_in (lot_id a) (lots (draw_lots aid n db)) = 0"
  proof (cases "remaining a > 0")
    case True
    then have "a \<in> set ?sel" using assms(3,5) by simp
    then have "taken (lot_id a) ?sel n = remaining a"
      using taken_order [of ?sel a b n] d b assms(7) tb by auto
    with dr [OF assms(3)] show ?thesis by simp
  next
    case False
    then have z: "remaining a = 0" using assms(2,3) by fastforce
    have "\<forall>x\<in>set ?sel. lot_id x \<noteq> lot_id a"
      using z by (auto dest: same_lot [OF assms(1) _ assms(3)])
    then have "lot_id a \<notin> set (map lot_id ?sel)"
      by (auto simp del: set_sort set_filter)
    then have "taken (lot_id a) ?sel n = 0" by (rule taken_absent)
    with dr [OF assms(3)] z show ?thesis by simp
  qed
  show "\<forall>l\<in>set (lots (draw_lots aid (max 0 n) db)). 0 \<le> remaining l"
    by (rule draw_lots_spec(3) [OF assms(1,2)]) simp
qed

definition two_lots :: Tables where
  "two_lots = empty_tables\<lparr>lots :=
     [\<lparr>lot_id = ''l1'', lo_account_id = ''a'', lo_transfer_id = ''t1'', initial = 5, remaining = 5,
       lo_expires_at = None, lo_created_at = 0\<rparr>,
      \<lparr>lot_id = ''l2'', lo_account_id = ''a'', lo_transfer_id = ''t2'', initial = 3, remaining = 3,
       lo_expires_at = Some 9, lo_created_at = 0\<rparr>]\<rparr>"

theorem ledger_earliest_expiry_first_witness:
  "left_in ''l1'' (lots (draw_lots ''a'' 4 two_lots)) = 4 \<and> left_in ''l2'' (lots (draw_lots ''a'' 4 two_lots)) = 0"
proof -
  have l1: "left_in ''l1'' (lots (draw_lots ''a'' 4 two_lots)) = 4"
    by (simp add: two_lots_def draw_lots_def take_lot_def lot_key_def upd_def left_in_def empty_tables_def Let_def)
  with ledger_earliest_expiry_first [of two_lots "lots two_lots ! 1" "lots two_lots ! 0" "''a''" 4]
  show ?thesis by (simp add: two_lots_def lot_key_def empty_tables_def)
qed

subsection \<open>Where the book can come apart\<close>


text \<open>
  a sweep whose transfer cannot be recorded moves the credits all the same.  When the reference
  \<open>expire:<lot>\<close> is already taken, the balances change, no entry is written, the sweep reports
  success, and the audit finds balances that differ from their entries.
\<close>

theorem ledger_sweep_unrecorded:
  "let db = snd (consume ''u'' ''ann'' 10 ''expire:l1'' 5 [''a9''] [''a3''] ''tr2''
              (snd (top_up ''u'' ''ann'' 100 ''r1'' (Some 1) 5 [''a1''] [''a2''] ''tr1'' ''l1'' empty_tables)));
       (r, db') = sweep ''u'' 10 [''a4''] (\<lambda>_. ''tr3'') db
   in audit ''u'' db = [] \<and> r = Inr \<lparr>holds_released = 0, lots_expired = 1, amount_expired = 90\<rparr> \<and>
      audit ''u'' db' = [EntriesDiffer ''ann'' 0 90, EntriesDiffer ''system:expiry'' 90 0]"
  by (simp add: ledger_eval sweep_def stale_holds_def dead_lots_def sweep_lot_def expire_body_def
      available_def audit_def audit_account_def entries_total_def is_system_def
      del: concat_eq_Nil_conv append_is_Nil_conv)

end
