(* ===== verification/Float64.thy ===== *)
theory Float64
  imports Prelude Complex_Main
begin

section \<open>Double precision numbers\<close>

text \<open>
  What the code does with \<open>f64\<close>: an integer becomes one (\<open>as f64\<close>), two small integers are divided,
  one becomes an integer again (\<open>as i64\<close>), and decimal text is read and written.  A finite \<open>f64\<close> is
  a rational with 53 significant bits and an exponent in range; conversions and division round to
  the nearest one, ties to even.  The two zeros, which compare equal, are not told apart.
\<close>

datatype F64 = Finite rat | Infinite bool | NaN

fun bit_len :: "nat \<Rightarrow> nat" where
  "bit_len n = (if n = 0 then 0 else Suc (bit_len (n div 2)))"

declare bit_len.simps [simp del]

text \<open>\<open>v as f64\<close> for an integer.\<close>

definition f64_of_int :: "int \<Rightarrow> int" where
  "f64_of_int n =
     (let m = nat \<bar>n\<bar> in
      if m \<le> 2 ^ 53 then n
      else
        let e = bit_len m - 53; q = m div 2 ^ e; r = m mod 2 ^ e; half = 2 ^ (e - 1);
            q' = (if r > half \<or> (r = half \<and> odd q) then q + 1 else q)
        in sgn n * int (q' * 2 ^ e))"

text \<open>\<open>x as i64\<close> for a float: toward zero, and saturating.\<close>

definition i64_of_f64 :: "rat \<Rightarrow> int" where
  "i64_of_f64 x =
     (let t = (if x < 0 then - \<lfloor>- x\<rfloor> else \<lfloor>x\<rfloor>)
      in max (- (2 ^ 63)) (min (2 ^ 63 - 1) t))"

text \<open>
  \<open>f64::from(a) / f64::from(b)\<close> for \<open>u32\<close> values: the quotient scaled so that its integer part has
  53 bits, rounded, and scaled back.
\<close>

definition f64_quot :: "nat \<Rightarrow> nat \<Rightarrow> rat" where
  "f64_quot a b =
     (if a = 0 then 0
      else
        let k0 = bit_len b + 52 - bit_len a;
            k = (if b * 2 ^ 52 \<le> a * 2 ^ k0 then k0 else k0 + 1);
            q = a * 2 ^ k div b; r = a * 2 ^ k mod b;
            q' = (if 2 * r > b \<or> (2 * r = b \<and> odd q) then q + 1 else q)
        in of_nat q' / 2 ^ k)"

definition f64_to_i64 :: "F64 \<Rightarrow> int" where
  "f64_to_i64 x =
     (case x of Finite r \<Rightarrow> i64_of_f64 r | Infinite neg \<Rightarrow> if neg then - (2 ^ 63) else 2 ^ 63 - 1 | NaN \<Rightarrow> 0)"

text \<open>Powers with a signed exponent, and the nearest \<open>f64\<close> of a rational: 53 bits, or fewer below the normal range.\<close>

definition two_to :: "int \<Rightarrow> rat" where
  "two_to e = (if 0 \<le> e then 2 ^ nat e else 1 / 2 ^ nat (- e))"

definition ten_to :: "int \<Rightarrow> rat" where
  "ten_to e = (if 0 \<le> e then 10 ^ nat e else 1 / 10 ^ nat (- e))"

definition round_even :: "rat \<Rightarrow> int" where
  "round_even x =
     (let q = \<lfloor>x\<rfloor>; r = x - of_int q in if r > 1 / 2 \<or> (r = 1 / 2 \<and> odd q) then q + 1 else q)"

definition f64_round :: "rat \<Rightarrow> F64" where
  "f64_round x =
     (if x = 0 then Finite 0
      else case quotient_of \<bar>x\<bar> of (a, b) \<Rightarrow>
        let k = int (bit_len (nat a)) - int (bit_len (nat b));
            l = (if two_to k \<le> \<bar>x\<bar> then k else k - 1);
            e = max (l - 52) (- 1074);
            v = of_int (round_even (\<bar>x\<bar> / two_to e)) * two_to e
        in if v \<ge> 2 ^ 1024 then Infinite (x < 0) else Finite (sgn x * v))"

text \<open>
  \<open>str::parse::<f64>\<close>, for text of digits, point, exponent mark and signs: an optional sign,
  digits with an optional point among or around them, and an optional exponent.
\<close>

definition is_digit :: "char \<Rightarrow> bool" where
  "is_digit c \<longleftrightarrow> 48 \<le> (of_char c :: nat) \<and> (of_char c :: nat) \<le> 57"

definition digits_val :: "string \<Rightarrow> nat" where
  "digits_val s = foldl (\<lambda>a c. a * 10 + (of_char c - 48)) 0 s"

definition take_sign :: "string \<Rightarrow> bool \<times> string" where
  "take_sign s =
     (case s of
        c # t \<Rightarrow> if c = CHR ''-'' then (True, t) else if c = CHR ''+'' then (False, t) else (False, s)
      | [] \<Rightarrow> (False, s))"

definition parse_exponent :: "string \<Rightarrow> int option" where
  "parse_exponent s =
     (case s of
        [] \<Rightarrow> Some 0
      | c # t \<Rightarrow>
          if c = CHR ''e'' \<or> c = CHR ''E'' then
            (case take_sign t of (neg, ds) \<Rightarrow>
               if ds \<noteq> [] \<and> (\<forall>x\<in>set ds. is_digit x)
               then Some (if neg then - int (digits_val ds) else int (digits_val ds)) else None)
          else None)"

definition parse_f64 :: "string \<Rightarrow> F64 option" where
  "parse_f64 s =
     (case take_sign s of (neg, t) \<Rightarrow>
        let whole = takeWhile is_digit t; r = dropWhile is_digit t;
            (frac, r2) = (case r of
                            c # u \<Rightarrow> if c = CHR ''.'' then (takeWhile is_digit u, dropWhile is_digit u) else ([], r)
                          | [] \<Rightarrow> ([], r))
        in if whole @ frac = [] then None
           else case parse_exponent r2 of
                  None \<Rightarrow> None
                | Some e \<Rightarrow>
                    let x = of_nat (digits_val (whole @ frac)) * ten_to (e - int (length frac))
                    in Some (f64_round (if neg then - x else x)))"

text \<open>
  \<open>Display for f64\<close>: the fewest significant digits that read back as the number, the nearest such
  (the greater of two as near), and never more than seventeen; written without an exponent.
\<close>

definition log10_floor :: "rat \<Rightarrow> int" where
  "log10_floor x =
     (case quotient_of x of (a, b) \<Rightarrow>
        let k = int (length (show_nat (nat a))) - int (length (show_nat (nat b)))
        in if ten_to k \<le> x then k else k - 1)"

fun shortest :: "nat \<Rightarrow> nat \<Rightarrow> rat \<Rightarrow> nat \<times> int" where
  "shortest n d x =
     (let p = log10_floor x + 1 - int d; t = x / ten_to p; lo = \<lfloor>t\<rfloor>;
          down = (f64_round (of_int lo * ten_to p) = Finite x);
          up = (f64_round (of_int (lo + 1) * ten_to p) = Finite x);
          upper = (1 / 2 \<le> t - of_int lo)
      in if up \<and> (\<not> down \<or> upper) then (nat (lo + 1), p)
         else if down then (nat lo, p)
         else case n of
                Suc m \<Rightarrow> shortest m (Suc d) x
              | 0 \<Rightarrow> (if upper then nat (lo + 1) else nat lo, p))"

declare shortest.simps [simp del]

definition strip_zeros :: "string \<Rightarrow> string" where
  "strip_zeros s = rev (dropWhile (\<lambda>c. c = CHR ''0'') (rev s))"

definition show_decimal :: "nat \<Rightarrow> int \<Rightarrow> string" where
  "show_decimal m p =
     (if 0 \<le> p then show_nat m @ replicate (nat p) CHR ''0''
      else
        let k = nat (- p); i = m div 10 ^ k; f = m mod 10 ^ k; ds = show_nat f
        in if f = 0 then show_nat i
           else show_nat i @ ''.'' @ strip_zeros (replicate (k - length ds) CHR ''0'' @ ds))"

definition show_f64 :: "rat \<Rightarrow> string" where
  "show_f64 x =
     (case shortest 16 1 \<bar>x\<bar> of (m, p) \<Rightarrow> (if x < 0 then ''-'' else []) @ show_decimal m p)"

definition exact :: "int \<Rightarrow> bool" where
  "exact n \<longleftrightarrow> \<bar>n\<bar> \<le> 2 ^ 53"

lemma f64_of_int_exact: "exact n \<Longrightarrow> f64_of_int n = n"
  unfolding exact_def f64_of_int_def Let_def by (simp add: nat_le_iff)

lemma i64_of_f64_int: "- (2 ^ 63) \<le> n \<Longrightarrow> n < 2 ^ 63 \<Longrightarrow> i64_of_f64 (of_int n) = n"
  unfolding i64_of_f64_def Let_def by (simp del: of_int_minus add: of_int_minus [symmetric])

lemma bit_len_pos: "0 < n \<Longrightarrow> 2 ^ (bit_len n - 1) \<le> n \<and> n < 2 ^ bit_len n \<and> 0 < bit_len n"
proof (induction n rule: bit_len.induct)
  case (1 n)
  show ?case
  proof (cases "n div 2 = 0")
    case True
    with 1(2) have "n = 1" by simp
    then show ?thesis by (simp add: bit_len.simps)
  next
    case False
    have ih: "2 ^ (bit_len (n div 2) - 1) \<le> n div 2 \<and> n div 2 < 2 ^ bit_len (n div 2) \<and> 0 < bit_len (n div 2)"
      by (rule "1.IH") (use 1(2) False in simp_all)
    then obtain j where j: "bit_len (n div 2) = Suc j" using gr0_implies_Suc by blast
    have b: "bit_len n = Suc (Suc j)" using 1(2) j by (simp add: bit_len.simps [of n])
    show ?thesis using ih unfolding j b by auto
  qed
qed

text \<open>Against a threshold of one half the rounding of the quotient makes no difference.\<close>

lemma f64_quot_half:
  assumes "0 < b" and "b < 2 ^ 52" and "a \<le> b"
  shows "1 / 2 \<le> f64_quot a b \<longleftrightarrow> b \<le> 2 * a"
proof (cases "a = 0")
  case True
  with assms show ?thesis by (simp add: f64_quot_def)
next
  case False
  define k0 where "k0 = bit_len b + 52 - bit_len a"
  define k where "k = (if b * 2 ^ 52 \<le> a * 2 ^ k0 then k0 else k0 + 1)"
  define q where "q = a * 2 ^ k div b"
  define r where "r = a * 2 ^ k mod b"
  define q' where "q' = (if 2 * r > b \<or> (2 * r = b \<and> odd q) then q + 1 else q)"
  have quot: "f64_quot a b = of_nat q' / 2 ^ k"
    unfolding f64_quot_def Let_def k0_def k_def q_def r_def q'_def using False by simp
  have "bit_len a \<le> bit_len b"
  proof (rule ccontr)
    assume "\<not> bit_len a \<le> bit_len b"
    then have "(2::nat) ^ bit_len b \<le> 2 ^ (bit_len a - 1)" by (intro power_increasing) auto
    with bit_len_pos [of a] bit_len_pos [of b] False assms show False by linarith
  qed
  then have "52 \<le> k" by (auto simp: k_def k0_def)
  then obtain j where j: "k = Suc j" by (cases k) auto
  have half: "1 / 2 \<le> f64_quot a b \<longleftrightarrow> 2 ^ j \<le> q'"
  proof -
    have "1 / 2 \<le> (of_nat q' / 2 ^ k :: rat) \<longleftrightarrow> of_nat (2 ^ j) \<le> (of_nat q' :: rat)"
      unfolding j by (simp add: field_simps)
    then show ?thesis unfolding quot of_nat_le_iff .
  qed
  have div: "q * b + r = a * 2 ^ k" and rb: "r < b" using assms(1) by (simp_all add: q_def r_def)
  have big: "b < 2 ^ j * 2"
  proof -
    have "(2::nat) ^ 52 \<le> 2 ^ k" using \<open>52 \<le> k\<close> by (intro power_increasing) auto
    with assms(2) have "b < 2 ^ k" by linarith
    then show ?thesis by (simp add: j)
  qed
  show ?thesis
  proof
    assume "b \<le> 2 * a"
    then have "b * 2 ^ j \<le> a * 2 ^ k" using mult_le_mono1 [of b "2 * a" "2 ^ j"] by (simp add: j mult_ac)
    then have "2 ^ j \<le> q" using assms(1) by (simp add: q_def less_eq_div_iff_mult_less_eq mult.commute)
    then show "1 / 2 \<le> f64_quot a b" unfolding half by (simp add: q'_def)
  next
    assume "1 / 2 \<le> f64_quot a b"
    then have ge: "2 ^ j \<le> q'" unfolding half .
    show "b \<le> 2 * a"
    proof (rule ccontr)
      assume "\<not> b \<le> 2 * a"
      then have "2 * a + 1 \<le> b" by simp
      then have less: "a * 2 ^ k + 2 ^ j \<le> b * 2 ^ j"
        using mult_le_mono1 [of "2 * a + 1" b "2 ^ j"] by (simp add: j algebra_simps)
      then have "q * b + r + 2 ^ j \<le> 2 ^ j * b" using div by (simp add: mult.commute)
      moreover have "0 < (2::nat) ^ j" by simp
      ultimately have "q * b < 2 ^ j * b" by linarith
      then have "q < 2 ^ j" by (simp only: mult_less_cancel2)
      with ge have q: "q + 1 = 2 ^ j" "q' = q + 1" by (auto simp: q'_def split: if_splits)
      then have "b \<le> 2 * r" by (auto simp: q'_def split: if_splits)
      have "(q + 1) * b = b * 2 ^ j" using q(1) by (simp add: mult.commute)
      with less div have "r + 2 ^ j \<le> b" by (simp add: algebra_simps)
      with \<open>b \<le> 2 * r\<close> big show False by linarith
    qed
  qed
qed

text \<open>An integer of 53 bits is an \<open>f64\<close>.\<close>

lemma round_even_int [simp]: "round_even (of_int n) = n"
  by (simp add: round_even_def)

lemma f64_round_int:
  assumes "\<bar>n\<bar> < 2 ^ 53"
  shows "f64_round (of_int n) = Finite (of_int n)"
proof (cases "n = 0")
  case True
  then show ?thesis by (simp add: f64_round_def)
next
  case False
  define m where "m = nat \<bar>n\<bar>"
  have m: "0 < m" "m < 2 ^ 53" "\<bar>of_int n :: rat\<bar> = of_nat m"
    using False assms by (simp_all add: m_def nat_less_iff)
  note len = bit_len_pos [OF m(1)]
  obtain k where k: "bit_len m = Suc k" using len by (cases "bit_len m") auto
  have "2 ^ k \<le> m" "k < 53"
  proof -
    show "2 ^ k \<le> m" using len k by simp
    with m(2) have "(2::nat) ^ k < 2 ^ 53" by linarith
    then show "k < 53" by (rule power_less_imp_less_exp [rotated]) simp
  qed
  then have k52: "k \<le> 52" by simp
  have q: "quotient_of (of_nat m) = (int m, 1)"
    unfolding Fract_of_nat_eq [symmetric] quotient_of_Fract by (simp add: Rat.normalize_def)
  have one: "bit_len 1 = 1" by (simp add: bit_len.simps)
  have l: "two_to (int k) \<le> (of_nat m :: rat)"
    using \<open>2 ^ k \<le> m\<close> by (simp add: two_to_def)
  have e: "max (int k - 52) (- 1074) = - int (52 - k)" using k52 by simp
  have t: "two_to (- int (52 - k)) = 1 / 2 ^ (52 - k)"
    by (cases "52 - k") (simp_all add: two_to_def nat_add_distrib)
  have "(of_nat m :: rat) / (1 / 2 ^ (52 - k)) = of_int (int m * 2 ^ (52 - k))" by simp
  then have re: "round_even (of_nat m / (1 / 2 ^ (52 - k))) = int m * 2 ^ (52 - k)" by (metis round_even_int)
  have r: "of_int (round_even (of_nat m / (1 / 2 ^ (52 - k)))) * (1 / 2 ^ (52 - k)) = (of_nat m :: rat)"
    unfolding re by simp
  have "(of_nat m :: rat) < 2 ^ 53" using m(2) by (metis of_nat_less_iff of_nat_numeral of_nat_power)
  also have "(2::rat) ^ 53 \<le> 2 ^ 1024" by (rule power_increasing) simp_all
  finally have small: "\<not> 2 ^ 1024 \<le> (of_nat m :: rat)" by simp
  have s: "sgn (of_int n :: rat) * of_nat m = of_int n" using m(3) by (simp flip: m(3) add: sgn_mult_abs)
  have kk: "int (bit_len (nat (int m))) - int (bit_len (nat 1)) = int k" using k one by simp
  have "of_int n \<noteq> (0 :: rat)" using False by simp
  then show ?thesis
    unfolding f64_round_def m(3) q prod.case Let_def kk if_P [OF l] e t r if_not_P [OF small] s by (rule if_not_P)
qed

end
