(* ===== verification/Json.thy ===== *)
theory Json
  imports Float64 "HOL-Library.List_Lexorder" "HOL-Library.Char_ord"
begin

section \<open>JSON values\<close>

text \<open>
  The value type of \<open>rustlavel-core/src/json.rs\<close>, its accessors, and the conversions the caches,
  counters and queues use.  The \<open>BTreeMap\<close> of an object is the list of its entries in the order
  of their keys, which is the order of the bytes.
\<close>

datatype Json =
    Null
  | Bool bool
  | Number F64
  | String string
  | Array "Json list"
  | Object "(string \<times> Json) list"

text \<open>\<open>BTreeMap::insert\<close> and \<open>collect\<close>.\<close>

fun btree_insert :: "string \<Rightarrow> 'v \<Rightarrow> (string \<times> 'v) list \<Rightarrow> (string \<times> 'v) list" where
  "btree_insert k v [] = [(k, v)]"
| "btree_insert k v ((l, w) # m) =
     (if k < l then (k, v) # (l, w) # m
      else if k = l then (k, v) # m
      else (l, w) # btree_insert k v m)"

definition btree_of :: "(string \<times> 'v) list \<Rightarrow> (string \<times> 'v) list" where
  "btree_of ps = fold (\<lambda>(k, v). btree_insert k v) ps []"

definition json_object :: "(string \<times> Json) list \<Rightarrow> Json" where
  "json_object ps = Object (btree_of ps)"

text \<open>\<open>get\<close>: a path of segments between points, each a key or an index.\<close>

definition parse_usize :: "string \<Rightarrow> nat option" where
  "parse_usize s =
     (let ds = (case s of c # t \<Rightarrow> if c = CHR ''+'' then t else s | [] \<Rightarrow> s) in
      if ds \<noteq> [] \<and> (\<forall>c\<in>set ds. is_digit c) \<and> digits_val ds < 2 ^ 64 then Some (digits_val ds) else None)"

fun json_walk :: "string list \<Rightarrow> Json \<Rightarrow> Json option" where
  "json_walk [] j = Some j"
| "json_walk (seg # segs) (Object m) =
     (case map_of m seg of Some v \<Rightarrow> json_walk segs v | None \<Rightarrow> None)"
| "json_walk (seg # segs) (Array items) =
     (case parse_usize seg of
        Some i \<Rightarrow> if i < length items then json_walk segs (items ! i) else None
      | None \<Rightarrow> None)"
| "json_walk (seg # segs) _ = None"

definition json_get :: "Json \<Rightarrow> string \<Rightarrow> Json option" where
  "json_get j path = json_walk (split_on CHR ''.'' path) j"

fun json_as_str :: "Json \<Rightarrow> string option" where
  "json_as_str (String s) = Some s"
| "json_as_str _ = None"

fun json_as_f64 :: "Json \<Rightarrow> F64 option" where
  "json_as_f64 (Number n) = Some n"
| "json_as_f64 _ = None"

fun json_as_bool :: "Json \<Rightarrow> bool option" where
  "json_as_bool (Bool b) = Some b"
| "json_as_bool _ = None"

fun json_as_array :: "Json \<Rightarrow> Json list option" where
  "json_as_array (Array items) = Some items"
| "json_as_array _ = None"

fun json_as_object :: "Json \<Rightarrow> (string \<times> Json) list option" where
  "json_as_object (Object m) = Some m"
| "json_as_object _ = None"

definition json_of_int :: "int \<Rightarrow> Json" where
  "json_of_int n = Number (Finite (of_int (f64_of_int n)))"

fun json_as_i64 :: "Json \<Rightarrow> int option" where
  "json_as_i64 (Number x) = Some (f64_to_i64 x)"
| "json_as_i64 _ = None"

lemma i64_of_json_of_int: "exact n \<Longrightarrow> json_as_i64 (json_of_int n) = Some n"
  by (simp add: json_of_int_def f64_to_i64_def f64_of_int_exact i64_of_f64_int exact_def)

text \<open>The entries of an object stay in the order of their keys, and a lookup finds the last one inserted.\<close>

definition keys_sorted :: "(string \<times> 'v) list \<Rightarrow> bool" where
  "keys_sorted m \<longleftrightarrow> sorted_wrt (<) (map fst m)"

lemma btree_insert_keys: "fst ` set (btree_insert k v m) = insert k (fst ` set m)"
  by (induction k v m rule: btree_insert.induct) auto

lemma btree_insert_sorted: "keys_sorted m \<Longrightarrow> keys_sorted (btree_insert k v m)"
proof (induction k v m rule: btree_insert.induct)
  case (1 k v)
  then show ?case by (simp add: keys_sorted_def)
next
  case (2 k v l w m)
  have "keys_sorted m" and lm: "\<forall>x\<in>fst ` set m. l < x" using 2(2) by (auto simp: keys_sorted_def)
  then show ?case
    using 2 btree_insert_keys [of k v m]
    by (auto simp: keys_sorted_def simp flip: image_set intro: less_trans)
qed

lemma btree_insert_last:
  "keys_sorted m \<Longrightarrow> \<forall>x\<in>fst ` set m. x < k \<Longrightarrow> btree_insert k v m = m @ [(k, v)]"
  by (induction k v m rule: btree_insert.induct) (auto simp: keys_sorted_def)

lemma map_of_btree_insert: "map_of (btree_insert k v m) = (map_of m)(k \<mapsto> v)"
  by (induction k v m rule: btree_insert.induct) auto

end
