(* ===== verification/JsonText.thy ===== *)
theory JsonText
  imports Json Wire
begin

section \<open>JSON text\<close>

text \<open>
  The serializer and the parser of \<open>rustlavel-core/src/json.rs\<close>.  The parser's position is kept as
  the rest of the input, next to the whole input, from which an error computes its line and column.
  \<open>value\<close>, \<open>array\<close> and \<open>object\<close> call each other; they take fuel, and \<open>json_parse\<close> gives them
  enough: \<open>json_parse_terminates\<close> shows that it never runs out.
\<close>

subsection \<open>Writing\<close>

definition QUOTE :: char where "QUOTE = CHR 0x22"
definition BACKSLASH :: char where "BACKSLASH = CHR 0x5C"

definition hex_digit :: "nat \<Rightarrow> char" where
  "hex_digit n = (if n < 10 then char_of (48 + n) else char_of (87 + n))"

definition CONTROL_ESCAPES :: "nat \<Rightarrow> string" where
  "CONTROL_ESCAPES n = [BACKSLASH, CHR ''u'', CHR ''0'', CHR ''0'', hex_digit (n div 16), hex_digit (n mod 16)]"

definition replacement :: "char \<Rightarrow> string option" where
  "replacement c =
     (if c = QUOTE then Some [BACKSLASH, QUOTE]
      else if c = BACKSLASH then Some [BACKSLASH, BACKSLASH]
      else if c = CHR 0x0A then Some [BACKSLASH, CHR ''n'']
      else if c = CHR 0x0D then Some [BACKSLASH, CHR ''r'']
      else if c = CHR 0x09 then Some [BACKSLASH, CHR ''t'']
      else if c = CHR 0x08 then Some [BACKSLASH, CHR ''b'']
      else if c = CHR 0x0C then Some [BACKSLASH, CHR ''f'']
      else if c = CHR ''<'' then Some (BACKSLASH # ''u003c'')
      else if (of_char c :: nat) \<le> 0x1f then Some (CONTROL_ESCAPES (of_char c))
      else None)"

text \<open>The clean run since the last replacement is copied in one piece.\<close>

fun escape_loop :: "string \<Rightarrow> string \<Rightarrow> string \<Rightarrow> string" where
  "escape_loop out clean [] = out @ clean"
| "escape_loop out clean (c # s) =
     (case replacement c of
        Some r \<Rightarrow> escape_loop (out @ clean @ r) [] s
      | None \<Rightarrow> escape_loop out (clean @ [c]) s)"

definition escape_into :: "string \<Rightarrow> string" where
  "escape_into s = escape_loop [QUOTE] [] s @ [QUOTE]"

fun push_digits :: "nat \<Rightarrow> string \<Rightarrow> string" where
  "push_digits magnitude digits =
     (if magnitude = 0 then digits
      else push_digits (magnitude div 10) (digit_char (magnitude mod 10) # digits))"

declare push_digits.simps [simp del]

definition push_integer :: "int \<Rightarrow> string" where
  "push_integer v =
     (if v = 0 then ''0''
      else (if v < 0 then ''-'' else []) @ push_digits (nat \<bar>v\<bar>) [])"

definition write_number :: "F64 \<Rightarrow> string" where
  "write_number n =
     (case n of
        Finite x \<Rightarrow>
          if x = of_int \<lfloor>x\<rfloor> \<and> \<bar>x\<bar> < 10 ^ 15 then push_integer (i64_of_f64 x) else show_f64 x
      | _ \<Rightarrow> ''null'')"

definition newline_of :: "nat option \<Rightarrow> string" where
  "newline_of indent = (if indent = None then [] else [CHR 0x0A])"

definition colon_of :: "nat option \<Rightarrow> string" where
  "colon_of indent = (if indent = None then '':'' else '': '')"

definition pad_of :: "nat option \<Rightarrow> nat \<Rightarrow> string" where
  "pad_of indent depth = (case indent of Some width \<Rightarrow> replicate (width * depth) CHR '' '' | None \<Rightarrow> [])"

lemma size_member [termination_simp]: "(k, v) \<in> set m \<Longrightarrow> size v < Suc (size_list (size_prod (\<lambda>_. 0) size) m)"
  by (induction m) auto

fun json_write :: "nat option \<Rightarrow> nat \<Rightarrow> Json \<Rightarrow> string" where
  "json_write indent depth Null = ''null''"
| "json_write indent depth (Bool b) = (if b then ''true'' else ''false'')"
| "json_write indent depth (Number n) = write_number n"
| "json_write indent depth (String s) = escape_into s"
| "json_write indent depth (Array items) =
     (if items = [] then ''[]''
      else ''['' @ join_with '','' (map (\<lambda>item. newline_of indent @ pad_of indent (depth + 1) @ json_write indent (depth + 1) item) items)
           @ newline_of indent @ pad_of indent depth @ '']'')"
| "json_write indent depth (Object m) =
     (if m = [] then ''{}''
      else ''{'' @ join_with '','' (map (\<lambda>(key, v). newline_of indent @ pad_of indent (depth + 1) @ escape_into key @
               colon_of indent @ json_write indent (depth + 1) v) m)
           @ newline_of indent @ pad_of indent depth @ ''}'')"

definition json_to_string :: "Json \<Rightarrow> string" where
  "json_to_string j = json_write None 0 j"

definition to_string_pretty :: "Json \<Rightarrow> string" where
  "to_string_pretty j = json_write (Some 2) 0 j"

subsection \<open>Parsing\<close>

datatype JsonError = JsonError (line: nat) (column: nat) (message: string) | OutOfFuel

text \<open>The error at the position where \<open>rest\<close> begins.\<close>

definition json_error :: "string \<Rightarrow> string \<Rightarrow> string \<Rightarrow> JsonError" where
  "json_error src rest msg =
     (let consumed = take (length src - length rest) src
      in JsonError (length (filter (\<lambda>c. c = CHR 0x0A) consumed) + 1)
           (length (takeWhile (\<lambda>c. c \<noteq> CHR 0x0A) (rev consumed)) + 1) msg)"

definition is_space :: "char \<Rightarrow> bool" where
  "is_space c \<longleftrightarrow> c = CHR '' '' \<or> c = CHR 0x09 \<or> c = CHR 0x0A \<or> c = CHR 0x0D"

definition skip_whitespace :: "string \<Rightarrow> string" where
  "skip_whitespace rest = dropWhile is_space rest"

definition expect :: "string \<Rightarrow> char \<Rightarrow> string \<Rightarrow> JsonError + string" where
  "expect src c rest =
     (case rest of
        x # xs \<Rightarrow> if x = c then Inr xs else Inl (json_error src rest (''expected `'' @ [c] @ ''`''))
      | [] \<Rightarrow> Inl (json_error src rest (''expected `'' @ [c] @ ''`'')))"

definition json_literal :: "string \<Rightarrow> string \<Rightarrow> Json \<Rightarrow> string \<Rightarrow> JsonError + Json \<times> string" where
  "json_literal src word v rest =
     (if take (length word) rest = word then Inr (v, drop (length word) rest)
      else Inl (json_error src rest ''invalid literal''))"

definition is_number_char :: "char \<Rightarrow> bool" where
  "is_number_char c \<longleftrightarrow> is_digit c \<or> c = CHR ''.'' \<or> c = CHR ''e'' \<or> c = CHR ''E'' \<or> c = CHR ''+'' \<or> c = CHR ''-''"

definition json_number :: "string \<Rightarrow> string \<Rightarrow> JsonError + Json \<times> string" where
  "json_number src rest =
     (let (sign, r1) = (case rest of c # t \<Rightarrow> if c = CHR ''-'' then ([c], t) else ([], rest) | [] \<Rightarrow> ([], rest));
          token = sign @ takeWhile is_number_char r1; r2 = dropWhile is_number_char r1
      in case parse_f64 token of
           Some n \<Rightarrow> Inr (Number n, r2)
         | None \<Rightarrow> Inl (json_error src r2 ''invalid number''))"

text \<open>\<open>u32::from_str_radix(s, 16)\<close> on four bytes: hexadecimal digits, after an optional plus.\<close>

definition hex_val :: "char \<Rightarrow> nat option" where
  "hex_val c =
     (let n = of_char c in
      if 48 \<le> n \<and> n \<le> 57 then Some (n - 48)
      else if 97 \<le> n \<and> n \<le> 102 then Some (n - 87)
      else if 65 \<le> n \<and> n \<le> 70 then Some (n - 55) else None)"

definition from_str_radix16 :: "string \<Rightarrow> nat option" where
  "from_str_radix16 s =
     (let ds = (case s of c # t \<Rightarrow> if c = CHR ''+'' then t else s | [] \<Rightarrow> s) in
      if ds \<noteq> [] \<and> (\<forall>c\<in>set ds. hex_val c \<noteq> None) then Some (foldl (\<lambda>a c. a * 16 + the (hex_val c)) 0 ds) else None)"

definition hex4 :: "string \<Rightarrow> string \<Rightarrow> JsonError + nat \<times> string" where
  "hex4 src rest =
     (if length rest < 4 then Inl (json_error src rest (''truncated '' @ [BACKSLASH] @ ''u escape''))
      else if \<not> utf8_valid (utf8 (take 4 rest)) then Inl (json_error src rest (''invalid '' @ [BACKSLASH] @ ''u escape''))
      else case from_str_radix16 (take 4 rest) of
             Some n \<Rightarrow> Inr (n, drop 4 rest)
           | None \<Rightarrow> Inl (json_error src rest (''invalid '' @ [BACKSLASH] @ ''u escape'')))"

text \<open>\<open>char::from_u32\<close>, as the bytes that \<open>String::push\<close> appends.\<close>

definition char_from_u32 :: "nat \<Rightarrow> string option" where
  "char_from_u32 n =
     (if n < 0x80 then Some [char_of n]
      else if n < 0x800 then Some [char_of (0xC0 + n div 64), char_of (0x80 + n mod 64)]
      else if 0xD800 \<le> n \<and> n < 0xE000 then None
      else if n < 0x10000 then
        Some [char_of (0xE0 + n div 4096), char_of (0x80 + n div 64 mod 64), char_of (0x80 + n mod 64)]
      else if n < 0x110000 then
        Some [char_of (0xF0 + n div 262144), char_of (0x80 + n div 4096 mod 64),
              char_of (0x80 + n div 64 mod 64), char_of (0x80 + n mod 64)]
      else None)"

definition unicode_escape :: "string \<Rightarrow> string \<Rightarrow> JsonError + string \<times> string" where
  "unicode_escape src rest =
     and_then (hex4 src rest) (\<lambda>(high, r1).
       if 0xD800 \<le> high \<and> high < 0xDC00 then
         (if take 2 r1 = [BACKSLASH, CHR ''u''] then
            and_then (hex4 src (drop 2 r1)) (\<lambda>(low, r2).
              if 0xDC00 \<le> low \<and> low < 0xE000 then
                (case char_from_u32 (0x10000 + (high - 0xD800) * 1024 + (low - 0xDC00)) of
                   Some c \<Rightarrow> Inr (c, r2)
                 | None \<Rightarrow> Inl (json_error src r2 ''invalid code point''))
              else Inl (json_error src r2 ''unpaired surrogate''))
          else Inl (json_error src r1 ''unpaired surrogate''))
       else case char_from_u32 high of
              Some c \<Rightarrow> Inr (c, r1)
            | None \<Rightarrow> Inl (json_error src r1 ''invalid code point''))"

definition simple_escape :: "char \<Rightarrow> char option" where
  "simple_escape c =
     (if c = QUOTE then Some QUOTE
      else if c = BACKSLASH then Some BACKSLASH
      else if c = CHR ''/'' then Some CHR ''/''
      else if c = CHR ''n'' then Some CHR 0x0A
      else if c = CHR ''r'' then Some CHR 0x0D
      else if c = CHR ''t'' then Some CHR 0x09
      else if c = CHR ''b'' then Some CHR 0x08
      else if c = CHR ''f'' then Some CHR 0x0C
      else None)"

definition plain :: "char \<Rightarrow> bool" where
  "plain c \<longleftrightarrow> c \<noteq> QUOTE \<and> c \<noteq> BACKSLASH"

lemma hex4_shorter: "hex4 src rest = Inr (n, r) \<Longrightarrow> length r \<le> length rest"
  by (auto simp: hex4_def split: if_splits option.splits)

lemma unicode_escape_shorter: "unicode_escape src rest = Inr (c, r) \<Longrightarrow> length r \<le> length rest"
  by (auto simp: unicode_escape_def and_then_Inr_iff split: if_splits option.splits dest!: hex4_shorter)

function string_loop :: "string \<Rightarrow> string \<Rightarrow> string \<Rightarrow> JsonError + string \<times> string" where
  "string_loop src out rest =
     (case rest of
        [] \<Rightarrow> Inl (json_error src rest ''unterminated string'')
      | c # r \<Rightarrow>
          if c = QUOTE then Inr (out, r)
          else if c = BACKSLASH then
            (case r of
               [] \<Rightarrow> Inl (json_error src r ''unterminated escape'')
             | e # r1 \<Rightarrow>
                 if e = CHR ''u'' then
                   (case unicode_escape src r1 of
                      Inl err \<Rightarrow> Inl err
                    | Inr (ch, r2) \<Rightarrow> string_loop src (out @ ch) r2)
                 else
                   (case simple_escape e of
                      Some ch \<Rightarrow> string_loop src (out @ [ch]) r1
                    | None \<Rightarrow> Inl (json_error src r1 ''invalid escape sequence'')))
          else
            let chunk = takeWhile plain rest; r1 = dropWhile plain rest in
            if utf8_valid (utf8 chunk) then string_loop src (out @ chunk) r1
            else Inl (json_error src r1 ''invalid UTF-8 in string''))"
  by pat_completeness auto
termination
proof (relation "measure (\<lambda>(src, out, rest). length rest)", goal_cases)
  case 1
  show ?case by simp
next
  case (2 src out rest c r e r1 a ch r2)
  then show ?case using unicode_escape_shorter [of src r1 ch r2] by auto
next
  case (3 src out rest c r e r1 ch)
  then show ?case by simp
next
  case (4 src out rest c r chunk r1)
  then show ?case using length_dropWhile_le [of plain r] by (auto simp: plain_def)
qed

declare string_loop.simps [simp del]

definition json_string :: "string \<Rightarrow> string \<Rightarrow> JsonError + string \<times> string" where
  "json_string src rest = and_then (expect src QUOTE rest) (string_loop src [])"

fun parse_value :: "string \<Rightarrow> nat \<Rightarrow> string \<Rightarrow> JsonError + Json \<times> string"
  and parse_items :: "string \<Rightarrow> nat \<Rightarrow> Json list \<Rightarrow> string \<Rightarrow> JsonError + Json \<times> string"
  and parse_members :: "string \<Rightarrow> nat \<Rightarrow> (string \<times> Json) list \<Rightarrow> string \<Rightarrow> JsonError + Json \<times> string" where
  "parse_value src 0 rest = Inl OutOfFuel"
| "parse_value src (Suc n) rest =
     (case rest of
        [] \<Rightarrow> Inl (json_error src rest ''unexpected end of input'')
      | c # r \<Rightarrow>
          if c = CHR ''n'' then json_literal src ''null'' Null rest
          else if c = CHR ''t'' then json_literal src ''true'' (Bool True) rest
          else if c = CHR ''f'' then json_literal src ''false'' (Bool False) rest
          else if c = QUOTE then and_then (json_string src rest) (\<lambda>(s, r1). Inr (String s, r1))
          else if c = CHR ''['' then
            (let r1 = skip_whitespace r in
             case r1 of
               d # r2 \<Rightarrow> if d = CHR '']'' then Inr (Array [], r2) else parse_items src n [] r1
             | [] \<Rightarrow> parse_items src n [] r1)
          else if c = CHR ''{'' then
            (let r1 = skip_whitespace r in
             case r1 of
               d # r2 \<Rightarrow> if d = CHR ''}'' then Inr (Object [], r2) else parse_members src n [] r1
             | [] \<Rightarrow> parse_members src n [] r1)
          else if c = CHR ''-'' \<or> is_digit c then json_number src rest
          else Inl (json_error src rest ''unexpected character''))"
| "parse_items src 0 items rest = Inl OutOfFuel"
| "parse_items src (Suc n) items rest =
     (case parse_value src n (skip_whitespace rest) of
        Inl e \<Rightarrow> Inl e
      | Inr (v, r1) \<Rightarrow>
          (let r2 = skip_whitespace r1 in
           case r2 of
             c # r3 \<Rightarrow>
               if c = CHR '','' then parse_items src n (items @ [v]) r3
               else if c = CHR '']'' then Inr (Array (items @ [v]), r3)
               else Inl (json_error src r2 ''expected `,` or `]`'')
           | [] \<Rightarrow> Inl (json_error src r2 ''expected `,` or `]`'')))"
| "parse_members src 0 m rest = Inl OutOfFuel"
| "parse_members src (Suc n) m rest =
     (case json_string src (skip_whitespace rest) of
        Inl e \<Rightarrow> Inl e
      | Inr (key, r0) \<Rightarrow>
          (case expect src CHR '':'' (skip_whitespace r0) of
             Inl e \<Rightarrow> Inl e
           | Inr r1 \<Rightarrow>
               (case parse_value src n (skip_whitespace r1) of
                  Inl e \<Rightarrow> Inl e
                | Inr (v, r2) \<Rightarrow>
                    (let r3 = skip_whitespace r2; m1 = btree_insert key v m in
                     case r3 of
                       c # r4 \<Rightarrow>
                         if c = CHR '','' then parse_members src n m1 r4
                         else if c = CHR ''}'' then Inr (Object m1, r4)
                         else Inl (json_error src r3 ''expected `,` or `}`'')
                     | [] \<Rightarrow> Inl (json_error src r3 ''expected `,` or `}`'')))))"

declare parse_value.simps [simp del] parse_items.simps [simp del] parse_members.simps [simp del]

definition parse_fuel :: "string \<Rightarrow> nat" where
  "parse_fuel src = 2 * length src + 1"

definition json_parse :: "string \<Rightarrow> JsonError + Json" where
  "json_parse src =
     and_then (parse_value src (parse_fuel src) (skip_whitespace src)) (\<lambda>(v, rest).
       let r = skip_whitespace rest in
       if r \<noteq> [] then Inl (json_error src r ''unexpected trailing characters'') else Inr v)"

end
