(* ===== verification/JsonProof.thy ===== *)
theory JsonProof
  imports JsonText
begin

section \<open>What JSON text carries\<close>

text \<open>
  Lemmas and properties of the serializer and the parser of \<open>JsonText\<close>: every string literal, number
  and nested value that is written is read back; parsing any input ends; compact text is safe to embed.
\<close>

subsection \<open>Strings\<close>

definition escape_char :: "char \<Rightarrow> string" where
  "escape_char c = (case replacement c of Some r \<Rightarrow> r | None \<Rightarrow> [c])"

lemma escape_loop_eq: "escape_loop out clean s = out @ clean @ concat (map escape_char s)"
  by (induction out clean s rule: escape_loop.induct) (auto simp: escape_char_def split: option.splits)

lemma escape_into_eq: "escape_into s = QUOTE # concat (map escape_char s) @ [QUOTE]"
  by (simp add: escape_into_def escape_loop_eq)

lemma quote_backslash [simp]: "QUOTE \<noteq> BACKSLASH" "BACKSLASH \<noteq> QUOTE"
  by (simp_all add: QUOTE_def BACKSLASH_def)

lemma replacement_plain: "replacement c = None \<Longrightarrow> plain c"
  by (auto simp: replacement_def plain_def split: if_splits)

lemma replacement_ascii: "replacement c \<noteq> None \<Longrightarrow> (of_char c :: nat) < 0x80"
  by (auto simp: replacement_def QUOTE_def BACKSLASH_def split: if_splits)

lemma unat_numeral_128: "unat (0x80 :: byte) = 0x80"
  by simp

lemma of_char_byte_ascii: "(of_char c :: nat) < 0x80 \<Longrightarrow> (of_char c :: byte) < 0x80"
proof -
  assume a: "(of_char c :: nat) < 0x80"
  have "(of_char c :: byte) = of_nat (of_char c)" by (cases c) simp
  moreover have "unat (of_nat (of_char c) :: byte) = of_char c"
    using a by (simp add: unat_of_nat take_bit_nat_eq_self)
  ultimately show ?thesis using a unfolding word_less_nat_alt by (metis unat_numeral_128)
qed

lemma utf8_append [simp]: "utf8 (a @ b) = utf8 a @ utf8 b" "utf8 [] = []" "utf8 (c # s) = of_char c # utf8 s"
  by (simp_all add: utf8_def)

lemma utf8_valid_drop: "utf8_valid s \<Longrightarrow> is_char_boundary s i \<Longrightarrow> utf8_valid (drop i s)"
proof (induction s arbitrary: i rule: utf8_valid.induct)
  case (1 s)
  show ?case
  proof (cases "s = [] \<or> i = 0")
    case True
    with "1.prems" show ?thesis by auto
  next
    case False
    then obtain n where n: "utf8_head s = Some n" "utf8_valid (drop n s)"
      using "1.prems" by (auto simp: utf8_valid_step)
    show ?thesis
    proof (cases "n \<le> i")
      case True
      have "is_char_boundary (drop n s) (i - n)"
        using "1.prems"(2) True False by (auto simp: is_char_boundary_def)
      from "1.IH" [OF _ n(1,2) this] False True show ?thesis by simp
    next
      case less: False
      have "n \<le> length s" using utf8_head_pos [OF n(1)] by simp
      with less False "1.prems"(2) utf8_head_cont [OF n(1), of i] have False
        by (auto simp: is_char_boundary_def)
      then show ?thesis ..
    qed
  qed
qed

lemma utf8_valid_ascii: "(of_char c :: nat) < 0x80 \<Longrightarrow> utf8_valid (utf8 (c # s)) = utf8_valid (utf8 s)"
  using of_char_byte_ascii [of c] by (subst utf8_valid_step) simp_all

lemma utf8_valid_split:
  assumes "utf8_valid (utf8 (u @ v))" and "v = [] \<or> (of_char (hd v) :: nat) < 0x80"
  shows "utf8_valid (utf8 u)" and "utf8_valid (utf8 v)"
proof -
  have "\<not> is_cont (of_char c)" if "(of_char c :: nat) < 0x80" for c
    using of_char_byte_ascii [OF that] by (simp add: is_cont_def not_le)
  then have b: "is_char_boundary (utf8 (u @ v)) (length u)"
    using assms(2) by (cases v) (auto simp: is_char_boundary_def utf8_def nth_append)
  show "utf8_valid (utf8 u)" using utf8_valid_take [OF assms(1) b] by (simp add: utf8_def)
  show "utf8_valid (utf8 v)" using utf8_valid_drop [OF assms(1) b] by (simp add: utf8_def)
qed

lemma hex_digit_val: "k < 16 \<Longrightarrow> hex_val (hex_digit k) = Some k \<and> (of_char (hex_digit k) :: nat) < 0x80"
proof -
  assume "k < 16"
  then have "k \<in> set [0..<16]" by simp
  moreover have "\<forall>k\<in>set [0..<16]. hex_val (hex_digit k) = Some k \<and> (of_char (hex_digit k) :: nat) < 0x80"
    by (simp add: hex_val_def hex_digit_def)
  ultimately show ?thesis by blast
qed

lemma char_of_nat: "char_of (of_char c :: nat) = c"
  by (rule char_of_char)

lemma hex4_two:
  assumes "a < 16" and "b < 16"
  shows "hex4 src ([CHR ''0'', CHR ''0'', hex_digit a, hex_digit b] @ rest) = Inr (16 * a + b, rest)"
proof -
  have z: "hex_val CHR ''0'' = Some 0" "hex_val CHR ''+'' = None" by (simp_all add: hex_val_def)
  have "utf8_valid (utf8 [CHR ''0'', CHR ''0'', hex_digit a, hex_digit b])"
    using hex_digit_val [OF assms(1)] hex_digit_val [OF assms(2)] by (simp add: utf8_valid_ascii del: utf8_append(3))
  then show ?thesis using hex_digit_val [OF assms(1)] hex_digit_val [OF assms(2)] z
    by (simp add: hex4_def from_str_radix16_def del: utf8_append)
qed

lemma string_loop_unicode:
  assumes "a < 8" and "b < 16"
  shows "string_loop src out ([BACKSLASH, CHR ''u'', CHR ''0'', CHR ''0'', hex_digit a, hex_digit b] @ rest) =
    string_loop src (out @ [char_of (16 * a + b)]) rest"
proof -
  have h: "hex4 src ([CHR ''0'', CHR ''0'', hex_digit a, hex_digit b] @ rest) = Inr (16 * a + b, rest)"
    by (rule hex4_two) (use assms in simp_all)
  have "16 * a + b < 0x80" using assms by simp
  then have "unicode_escape src ([CHR ''0'', CHR ''0'', hex_digit a, hex_digit b] @ rest) =
      Inr ([char_of (16 * a + b)], rest)"
    unfolding unicode_escape_def h by (simp add: char_from_u32_def)
  then show ?thesis by (subst string_loop.simps) (simp add: QUOTE_def BACKSLASH_def)
qed

lemma string_loop_replacement:
  assumes "replacement c = Some r"
  shows "string_loop src out (r @ rest) = string_loop src (out @ [c]) rest"
proof -
  have simple: "string_loop src out ([BACKSLASH, e] @ rest) = string_loop src (out @ [ch]) rest"
    if "simple_escape e = Some ch" "e \<noteq> CHR ''u''" for e ch
    using that by (subst string_loop.simps) (simp add: QUOTE_def BACKSLASH_def)
  note u = string_loop_unicode [of _ _ src out rest]
  have lt: "string_loop src out ((BACKSLASH # ''u003c'') @ rest) = string_loop src (out @ [CHR ''<'']) rest"
  proof -
    have "char_of (51 :: nat) = CHR ''3''" "char_of (99 :: nat) = CHR ''c''" "char_of (60 :: nat) = CHR ''<''"
      using char_of_nat [of "CHR ''3''"] char_of_nat [of "CHR ''c''"] char_of_nat [of "CHR ''<''"] by simp_all
    with u [of 3 12] show ?thesis by (simp add: hex_digit_def)
  qed
  have control: "string_loop src out (CONTROL_ESCAPES n @ rest) = string_loop src (out @ [char_of n]) rest" if "n \<le> 0x1f" for n
    using u [of "n div 16" "n mod 16"] that by (simp add: CONTROL_ESCAPES_def)
  have se: "simple_escape QUOTE = Some QUOTE" "simple_escape BACKSLASH = Some BACKSLASH"
    "simple_escape CHR ''n'' = Some CHR 0x0A" "simple_escape CHR ''r'' = Some CHR 0x0D"
    "simple_escape CHR ''t'' = Some CHR 0x09" "simple_escape CHR ''b'' = Some CHR 0x08"
    "simple_escape CHR ''f'' = Some CHR 0x0C" "QUOTE \<noteq> CHR ''u''" "BACKSLASH \<noteq> CHR ''u''"
    by (simp_all add: simple_escape_def QUOTE_def BACKSLASH_def)
  have esc: "string_loop src out ([BACKSLASH, QUOTE] @ rest) = string_loop src (out @ [QUOTE]) rest"
    "string_loop src out ([BACKSLASH, BACKSLASH] @ rest) = string_loop src (out @ [BACKSLASH]) rest"
    "string_loop src out ([BACKSLASH, CHR ''n''] @ rest) = string_loop src (out @ [CHR 0x0A]) rest"
    "string_loop src out ([BACKSLASH, CHR ''r''] @ rest) = string_loop src (out @ [CHR 0x0D]) rest"
    "string_loop src out ([BACKSLASH, CHR ''t''] @ rest) = string_loop src (out @ [CHR 0x09]) rest"
    "string_loop src out ([BACKSLASH, CHR ''b''] @ rest) = string_loop src (out @ [CHR 0x08]) rest"
    "string_loop src out ([BACKSLASH, CHR ''f''] @ rest) = string_loop src (out @ [CHR 0x0C]) rest"
    by (rule simple; simp add: se)+
  show ?thesis using assms unfolding replacement_def
    using esc lt control [of "of_char c"] by (auto split: if_splits)
qed

lemma string_loop_escaped:
  assumes "utf8_valid (utf8 s)"
  shows "string_loop src out (concat (map escape_char s) @ QUOTE # rest) = Inr (out @ s, rest)"
  using assms
proof (induction "length s" arbitrary: s out rule: less_induct)
  case less
  show ?case
  proof (cases s)
    case Nil
    then show ?thesis by (subst string_loop.simps) simp
  next
    case (Cons c t)
    show ?thesis
    proof (cases "replacement c")
      case (Some r)
      then have "utf8_valid (utf8 t)" using less.prems Cons replacement_ascii utf8_valid_ascii by blast
      with less.hyps [of t "out @ [c]"] Cons Some show ?thesis
        by (simp add: escape_char_def string_loop_replacement)
    next
      case None
      let ?p = "\<lambda>c. replacement c = None"
      define u where "u = takeWhile ?p s"
      define v where "v = dropWhile ?p s"
      have s: "s = u @ v" by (simp add: u_def v_def)
      have ne: "u \<noteq> []" using None Cons by (simp add: u_def)
      have up: "\<forall>c\<in>set u. ?p c" unfolding u_def by (auto dest: set_takeWhileD)
      have v: "v = [] \<or> \<not> ?p (hd v)" unfolding v_def using hd_dropWhile by blast
      then have "v = [] \<or> (of_char (hd v) :: nat) < 0x80" using replacement_ascii by blast
      note valid = utf8_valid_split [OF less.prems [unfolded s] this]
      define w where "w = concat (map escape_char v) @ QUOTE # rest"
      have esc: "concat (map escape_char u) = u" using up by (induction u) (auto simp: escape_char_def)
      have w: "w \<noteq> [] \<and> \<not> plain (hd w)"
        using v by (cases v) (auto simp: w_def plain_def escape_char_def replacement_def CONTROL_ESCAPES_def split: if_splits)
      have all: "\<forall>c\<in>set u. plain c" using up replacement_plain by blast
      have tw: "takeWhile plain (u @ w) = u" "dropWhile plain (u @ w) = w"
        using all w by (cases w; simp add: takeWhile_append2 dropWhile_append2)+
      have hdu: "\<exists>x xs. u = x # xs \<and> x \<noteq> QUOTE \<and> x \<noteq> BACKSLASH" using ne all by (cases u) (auto simp: plain_def)
      have "string_loop src out (u @ w) = string_loop src (out @ u) w"
        using hdu tw valid(1) by (subst string_loop.simps) (auto simp: Let_def split: list.split)
      moreover have "length v < length s" using ne s by simp
      from less.hyps [OF this valid(2)] have "string_loop src (out @ u) w = Inr ((out @ u) @ v, rest)" by (simp add: w_def)
      ultimately show ?thesis by (simp add: s esc w_def)
    qed
  qed
qed

lemma json_string_escaped:
  "utf8_valid (utf8 s) \<Longrightarrow> json_string src (escape_into s @ rest) = Inr (s, rest)"
  by (simp add: json_string_def escape_into_eq expect_def string_loop_escaped)

subsection \<open>Numbers\<close>

text \<open>Digits with an optional fraction, and the number they stand for.\<close>

definition decimal_text :: "string \<Rightarrow> rat \<Rightarrow> bool" where
  "decimal_text body x \<longleftrightarrow> (\<exists>whole frac. whole \<noteq> [] \<and> (\<forall>c\<in>set (whole @ frac). is_digit c) \<and>
     body = whole @ (if frac = [] then [] else CHR ''.'' # frac) \<and>
     x = of_nat (digits_val (whole @ frac)) * ten_to (- int (length frac)))"

lemma digits_val_append: "digits_val (a @ b) = digits_val a * 10 ^ length b + digits_val b"
proof (induction b rule: rev_induct)
  case Nil
  then show ?case by (simp add: digits_val_def)
next
  case (snoc c b)
  have "digits_val (a @ b @ [c]) = digits_val (a @ b) * 10 + (of_char c - 48)"
    "digits_val (b @ [c]) = digits_val b * 10 + (of_char c - 48)"
    by (simp_all add: digits_val_def)
  with snoc show ?case by (simp add: algebra_simps)
qed

lemma digits_val_zeros [simp]: "digits_val (replicate n CHR ''0'') = 0"
  by (induction n) (simp_all add: digits_val_def)

lemma digits_val_show [simp]: "digits_val (show_nat n) = n"
  by (simp add: digits_val_def show_nat_val)

lemma digit_char_digit: "d < 10 \<Longrightarrow> is_digit (digit_char d)"
  by (simp add: is_digit_def of_digit_char)

lemma show_nat_is_digit: "c \<in> set (show_nat n) \<Longrightarrow> is_digit c"
  using show_nat_digits [of n] digit_char_digit by auto

lemma show_nat_ne [simp]: "show_nat n \<noteq> []"
  by (subst show_nat.simps) simp

lemma zero_digit [simp]: "is_digit CHR ''0''"
  by (simp add: is_digit_def)

lemma ten_to_nat: "ten_to (- int n) * 10 ^ n = 1" "ten_to (int n) = 10 ^ n"
  by (simp_all add: ten_to_def)

lemma ten_to_neg: "ten_to (- int n) = 1 / 10 ^ n"
  by (cases n) (simp_all add: ten_to_def nat_add_distrib)

lemma show_nat_less: "n < 10 ^ k \<Longrightarrow> 0 < k \<Longrightarrow> length (show_nat n) \<le> k"
proof (induction n arbitrary: k rule: show_nat.induct)
  case (1 n)
  show ?case
  proof (cases "n < 10")
    case True
    with 1(3) show ?thesis by (simp add: show_nat.simps [of n])
  next
    case False
    then obtain j where k: "k = Suc j" "0 < j" using 1(2) by (cases k; cases "k - 1") auto
    then have "n div 10 < 10 ^ j" using 1(2) by (simp add: less_mult_imp_div_less mult.commute)
    from "1.IH" [OF False this k(2)] show ?thesis using False k by (simp add: show_nat.simps [of n])
  qed
qed

lemma strip_zeros_split: "\<exists>z. s = strip_zeros s @ replicate z CHR ''0''"
proof -
  have "rev s = takeWhile (\<lambda>c. c = CHR ''0'') (rev s) @ dropWhile (\<lambda>c. c = CHR ''0'') (rev s)" by simp
  then have "s = strip_zeros s @ rev (takeWhile (\<lambda>c. c = CHR ''0'') (rev s))"
    unfolding strip_zeros_def by (metis rev_append rev_rev_ident)
  moreover have "takeWhile (\<lambda>c. c = CHR ''0'') (rev s) = replicate (length (takeWhile (\<lambda>c. c = CHR ''0'') (rev s))) CHR ''0''"
    by (rule replicate_length_same [symmetric]) (auto dest: set_takeWhileD)
  ultimately show ?thesis by (metis rev_replicate)
qed

lemma decimal_show_nat: "decimal_text (show_nat m) (of_nat m)"
  unfolding decimal_text_def
  by (rule exI [of _ "show_nat m"], rule exI [of _ "[]"]) (auto simp: ten_to_def dest: show_nat_is_digit)

lemma decimal_show_decimal: "decimal_text (show_decimal m p) (of_nat m * ten_to p)"
proof (cases "0 \<le> p")
  case True
  have "digits_val (show_nat m @ replicate (nat p) CHR ''0'') = m * 10 ^ nat p"
    by (simp add: digits_val_append)
  with True show ?thesis unfolding decimal_text_def show_decimal_def
    by (intro exI [of _ "show_nat m @ replicate (nat p) CHR ''0''"] exI [of _ "[]"])
      (auto simp: ten_to_def dest: show_nat_is_digit)
next
  case False
  define k where "k = nat (- p)"
  have k: "0 < k" "p = - int k" using False by (simp_all add: k_def)
  define i where "i = m div 10 ^ k"
  define f where "f = m mod 10 ^ k"
  have m: "m = i * 10 ^ k + f" unfolding i_def f_def by (rule div_mult_mod_eq [symmetric])
  show ?thesis
  proof (cases "f = 0")
    case True
    have "(of_nat m :: rat) * ten_to p = of_nat i * (ten_to (- int k) * 10 ^ k)"
      using m True by (simp add: k)
    then have "(of_nat m :: rat) * ten_to p = of_nat i" by (simp only: ten_to_nat mult_1_right)
    moreover have "show_decimal m p = show_nat i"
      using False True by (simp add: show_decimal_def Let_def k_def i_def f_def)
    ultimately show ?thesis using decimal_show_nat by simp
  next
    case f0: False
    define pad where "pad = replicate (k - length (show_nat f)) CHR ''0'' @ show_nat f"
    have fk: "f < 10 ^ k" by (simp add: f_def)
    have lp: "length pad = k" using show_nat_less [OF fk k(1)] by (simp add: pad_def)
    have vp: "digits_val pad = f" by (simp add: pad_def digits_val_append)
    obtain z where z: "pad = strip_zeros pad @ replicate z CHR ''0''" using strip_zeros_split by blast
    define fr where "fr = strip_zeros pad"
    have v: "f = digits_val fr * 10 ^ z" using vp z unfolding fr_def [symmetric] by (metis add_0_right digits_val_append digits_val_zeros length_replicate)
    have lk: "k = length fr + z" using lp z unfolding fr_def [symmetric] by (metis length_append length_replicate)
    have ne: "fr \<noteq> []" using v f0 by (auto simp: digits_val_def)
    have dig: "\<forall>c\<in>set fr. is_digit c"
    proof
      fix c assume "c \<in> set fr"
      then have "c \<in> set pad" using z unfolding fr_def [symmetric] by (metis Un_iff set_append)
      then show "is_digit c" by (auto simp: pad_def dest: show_nat_is_digit)
    qed
    have shown: "show_decimal m p = show_nat i @ (if fr = [] then [] else CHR ''.'' # fr)"
      using False f0 ne by (simp add: show_decimal_def Let_def fr_def pad_def k_def i_def f_def)
    have "(of_nat m :: rat) * ten_to p = of_nat (i * 10 ^ length fr + digits_val fr) * 10 ^ z * ten_to (- int k)"
      unfolding m v using lk by (simp add: k(2) power_add algebra_simps)
    also have "ten_to (- int k) = ten_to (- int (length fr)) / 10 ^ z"
      unfolding ten_to_neg lk by (simp add: power_add)
    finally have "(of_nat m :: rat) * ten_to p = of_nat (digits_val (show_nat i @ fr)) * ten_to (- int (length fr))"
      by (simp add: digits_val_append)
    with shown dig ne show ?thesis unfolding decimal_text_def
      by (intro exI [of _ "show_nat i"] exI [of _ fr]) (auto dest: show_nat_is_digit)
  qed
qed

lemma takeWhile_all: "\<forall>c\<in>set a. P c \<Longrightarrow> b = [] \<or> \<not> P (hd b) \<Longrightarrow> takeWhile P (a @ b) = a \<and> dropWhile P (a @ b) = b"
  by (cases b) (simp_all add: takeWhile_append2 dropWhile_append2)

lemma digit_not_sign: "is_digit c \<Longrightarrow> c \<noteq> CHR ''-'' \<and> c \<noteq> CHR ''+'' \<and> c \<noteq> CHR ''.''"
  by (auto simp: is_digit_def)

lemma parse_f64_decimal:
  assumes "decimal_text body x"
  shows "parse_f64 body = Some (f64_round x)" and "parse_f64 (CHR ''-'' # body) = Some (f64_round (- x))"
    and "\<forall>c\<in>set body. is_number_char c" and "body \<noteq> []" and "is_digit (hd body)"
proof -
  obtain whole frac where w: "whole \<noteq> []" "\<forall>c\<in>set (whole @ frac). is_digit c"
    "body = whole @ (if frac = [] then [] else CHR ''.'' # frac)"
    "x = of_nat (digits_val (whole @ frac)) * ten_to (- int (length frac))"
    using assms unfolding decimal_text_def by blast
  have hd: "is_digit (hd body)" "body \<noteq> []" using w by (cases whole; simp)+
  then show "body \<noteq> []" "is_digit (hd body)" by simp_all
  show "\<forall>c\<in>set body. is_number_char c" using w(2,3) by (auto simp: is_number_char_def split: if_splits)
  have nd: "\<not> is_digit CHR ''.''" by (simp add: is_digit_def)
  have tw: "takeWhile is_digit body = whole" "dropWhile is_digit body = (if frac = [] then [] else CHR ''.'' # frac)"
    using takeWhile_all [of whole is_digit "if frac = [] then [] else CHR ''.'' # frac"] w(2,3) nd by auto
  have tf: "takeWhile is_digit frac = frac" "dropWhile is_digit frac = []"
    using takeWhile_all [of frac is_digit "[]"] w(2) by auto
  have s1: "take_sign body = (False, body)"
    using hd digit_not_sign by (cases body) (auto simp: take_sign_def)
  have s2: "take_sign (CHR ''-'' # body) = (True, body)" by (simp add: take_sign_def)
  have pe: "parse_exponent [] = Some 0" by (simp add: parse_exponent_def)
  show "parse_f64 body = Some (f64_round x)"
    unfolding parse_f64_def s1 using w(1,4) by (cases "frac = []") (simp_all add: tw tf pe Let_def)
  show "parse_f64 (CHR ''-'' # body) = Some (f64_round (- x))"
    unfolding parse_f64_def s2 using w(1,4) by (cases "frac = []") (simp_all add: tw tf pe Let_def)
qed

lemma push_digits_eq: "0 < n \<Longrightarrow> push_digits n ds = show_nat n @ ds"
proof (induction n ds rule: push_digits.induct)
  case (1 n ds)
  show ?case
  proof (cases "n < 10")
    case True
    with 1(2) have "n div 10 = 0" by simp
    with True 1(2) show ?thesis
      by (simp add: push_digits.simps [of n] push_digits.simps [of 0] show_nat.simps [of n])
  next
    case False
    with 1 show ?thesis by (simp add: push_digits.simps [of n] show_nat.simps [of n])
  qed
qed

text \<open>
  A number that reads back: an integer below \<open>10 ^ 15\<close>, or one whose shortest digits round to it.
\<close>

definition reads_back :: "rat \<Rightarrow> bool" where
  "reads_back x \<longleftrightarrow> (case shortest 16 1 \<bar>x\<bar> of (m, p) \<Rightarrow> f64_round (of_nat m * ten_to p) = Finite \<bar>x\<bar>)"

definition number_ok :: "F64 \<Rightarrow> bool" where
  "number_ok n = (case n of
     Finite x \<Rightarrow> x = of_int \<lfloor>x\<rfloor> \<and> \<bar>x\<bar> < 10 ^ 15 \<or> reads_back x
   | _ \<Rightarrow> False)"

lemma f64_round_minus: "f64_round x = Finite y \<Longrightarrow> f64_round (- x) = Finite (- y)"
proof (cases "x = 0")
  case True
  then show "f64_round x = Finite y \<Longrightarrow> f64_round (- x) = Finite (- y)" by (simp add: f64_round_def)
next
  case False
  obtain a b where q: "quotient_of \<bar>x\<bar> = (a, b)" by fastforce
  define v where "v = (let k = int (bit_len (nat a)) - int (bit_len (nat b));
    l = (if two_to k \<le> \<bar>x\<bar> then k else k - 1); e = max (l - 52) (- 1074)
    in of_int (round_even (\<bar>x\<bar> / two_to e)) * two_to e)"
  have "f64_round x = (if v \<ge> 2 ^ 1024 then Infinite (x < 0) else Finite (sgn x * v))"
    "f64_round (- x) = (if v \<ge> 2 ^ 1024 then Infinite (- x < 0) else Finite (sgn (- x) * v))"
    using False q unfolding f64_round_def v_def Let_def abs_minus_cancel by simp_all
  then show "f64_round x = Finite y \<Longrightarrow> f64_round (- x) = Finite (- y)"
    by (simp add: sgn_minus split: if_splits)
qed

lemma write_number_text:
  assumes "number_ok n"
  shows "\<exists>neg body x. write_number n = (if neg then CHR ''-'' # body else body) \<and> decimal_text body x \<and>
    f64_round (if neg then - x else x) = n"
proof -
  obtain x where n: "n = Finite x"
    and r: "x = of_int \<lfloor>x\<rfloor> \<and> \<bar>x\<bar> < 10 ^ 15 \<or> reads_back x"
    using assms by (auto simp: number_ok_def split: F64.splits)
  show ?thesis
  proof (cases "x = of_int \<lfloor>x\<rfloor> \<and> \<bar>x\<bar> < 10 ^ 15")
    case True
    then obtain v where v: "x = of_int v" by blast
    then have v15: "\<bar>v\<bar> < 10 ^ 15" using True by (simp add: of_int_abs [symmetric] del: of_int_abs)
    have i: "i64_of_f64 x = v" unfolding v by (rule i64_of_f64_int) (use v15 in simp_all)
    have f: "f64_round x = Finite x" unfolding v by (rule f64_round_int) (use v15 in simp)
    have w: "write_number n = push_integer v" using True i by (simp add: write_number_def n)
    consider "v = 0" | "v < 0" | "0 < v" by linarith
    then show ?thesis
    proof cases
      case 1
      have "''0'' = show_nat 0" using char_of_nat [of "CHR ''0''"] by (simp add: show_nat.simps digit_char_def)
      then show ?thesis using w 1 f n v decimal_show_nat [of 0]
        by (intro exI [of _ False] exI [of _ "''0''"] exI [of _ 0]) (simp add: push_integer_def)
    next
      case 2
      then show ?thesis using w f n v decimal_show_nat [of "nat (- v)"]
        by (intro exI [of _ True] exI [of _ "show_nat (nat (- v))"] exI [of _ "- x"])
          (simp add: push_integer_def push_digits_eq)
    next
      case 3
      then show ?thesis using w f n v decimal_show_nat [of "nat v"]
        by (intro exI [of _ False] exI [of _ "show_nat (nat v)"] exI [of _ x])
          (simp add: push_integer_def push_digits_eq)
    qed
  next
    case False
    obtain m p where mp: "shortest 16 1 \<bar>x\<bar> = (m, p)" by fastforce
    have rb: "f64_round (of_nat m * ten_to p) = Finite \<bar>x\<bar>" using r False mp unfolding reads_back_def by auto
    have w: "write_number n = (if x < 0 then ''-'' else []) @ show_decimal m p"
      using False mp by (auto simp: write_number_def n show_f64_def)
    show ?thesis
      by (rule exI [of _ "x < 0"], rule exI [of _ "show_decimal m p"], rule exI [of _ "of_nat m * ten_to p"])
        (use w rb f64_round_minus [OF rb] decimal_show_decimal n in auto)
  qed
qed

definition stops :: "string \<Rightarrow> bool" where
  "stops rest \<longleftrightarrow> rest = [] \<or> \<not> is_number_char (hd rest)"

lemma json_number_written:
  assumes "number_ok n" and "stops rest"
  shows "json_number src (write_number n @ rest) = Inr (Number n, rest)"
    and "\<exists>c t. write_number n = c # t \<and> (c = CHR ''-'' \<or> is_digit c)"
proof -
  obtain neg body x where w: "write_number n = (if neg then CHR ''-'' # body else body)"
    and d: "decimal_text body x" and f: "f64_round (if neg then - x else x) = n"
    using write_number_text [OF assms(1)] by blast
  note p = parse_f64_decimal [OF d]
  have tw: "takeWhile is_number_char (body @ rest) = body" "dropWhile is_number_char (body @ rest) = rest"
    using takeWhile_all [OF p(3)] assms(2) by (auto simp: stops_def)
  obtain c t where b: "body = c # t" "is_digit c" using p(4,5) by (cases body) auto
  have c: "c \<noteq> CHR ''-''" using digit_not_sign [OF b(2)] by simp
  show "json_number src (write_number n @ rest) = Inr (Number n, rest)"
    using tw p(1,2) f w b c by (auto simp: json_number_def Let_def split: if_splits)
  show "\<exists>c t. write_number n = c # t \<and> (c = CHR ''-'' \<or> is_digit c)" using w b by (cases neg) auto
qed

subsection \<open>Values\<close>

text \<open>What a value must be to come back: valid text, ordered keys, and numbers that read back.\<close>

fun json_ok :: "Json \<Rightarrow> bool" where
  "json_ok Null = True"
| "json_ok (Bool b) = True"
| "json_ok (Number n) = number_ok n"
| "json_ok (String s) = utf8_valid (utf8 s)"
| "json_ok (Array items) = list_all json_ok items"
| "json_ok (Object m) = (keys_sorted m \<and> list_all (\<lambda>(k, v). utf8_valid (utf8 k) \<and> json_ok v) m)"

definition blank :: "string \<Rightarrow> bool" where
  "blank s \<longleftrightarrow> (\<forall>c\<in>set s. is_space c)"

lemma skip_blank: "blank s \<Longrightarrow> skip_whitespace (s @ t) = skip_whitespace t"
  by (simp add: skip_whitespace_def blank_def dropWhile_append2)

lemma skip_start: "t = [] \<or> \<not> is_space (hd t) \<Longrightarrow> skip_whitespace t = t"
  by (cases t) (auto simp: skip_whitespace_def)

lemma blank_layout: "blank (newline_of i @ pad_of i d)" "blank [CHR '' '']" "blank []"
  by (auto simp: blank_def newline_of_def pad_of_def is_space_def split: option.splits)

text \<open>A written value starts with the character that tells the parser what it is.\<close>

lemma json_write_start:
  assumes "json_ok j"
  shows "\<exists>c t. json_write i d j = c # t \<and> \<not> is_space c \<and> c \<noteq> CHR '']'' \<and> c \<noteq> CHR ''}''"
proof (cases j)
  case (Number n)
  then obtain c t where "write_number n = c # t" "c = CHR ''-'' \<or> is_digit c"
    using json_number_written(2) [of n "[]"] assms by (auto simp: stops_def)
  then show ?thesis using Number by (auto simp: is_space_def is_digit_def)
qed (auto simp: is_space_def escape_into_eq QUOTE_def)

lemma stops_layout: "stops (newline_of i @ pad_of i d @ c # t)" if "\<not> is_number_char c"
proof (cases i)
  case None
  then show ?thesis using that by (simp add: stops_def newline_of_def pad_of_def)
next
  case (Some w)
  then show ?thesis by (simp add: stops_def newline_of_def is_number_char_def is_digit_def)
qed

text \<open>The elements of a list, once each of them is known to come back.\<close>

definition comes_back :: "string \<Rightarrow> nat option \<Rightarrow> nat \<Rightarrow> Json \<Rightarrow> bool" where
  "comes_back src i d j \<longleftrightarrow>
     (\<forall>n rest. 2 * length (json_write i d j @ rest) + 1 \<le> n \<longrightarrow> stops rest \<longrightarrow>
        parse_value src n (json_write i d j @ rest) = Inr (j, rest))"

lemma skip_element:
  assumes "json_ok j"
  shows "skip_whitespace (newline_of i @ pad_of i e @ json_write i d j @ rest) = json_write i d j @ rest"
proof -
  obtain c t where "json_write i d j = c # t" "\<not> is_space c" using json_write_start [OF assms] by blast
  then show ?thesis using skip_blank [OF blank_layout(1) [of i e]] by (simp add: skip_start)
qed

lemma parse_items_written:
  assumes "\<forall>j\<in>set (j # js). json_ok j \<and> comes_back src i (d + 1) j"
  shows "2 * length (join_with '','' (map (\<lambda>j. newline_of i @ pad_of i (d + 1) @ json_write i (d + 1) j) (j # js))
      @ newline_of i @ pad_of i d @ CHR '']'' # rest) + 2 \<le> n \<Longrightarrow>
    parse_items src n acc (join_with '','' (map (\<lambda>j. newline_of i @ pad_of i (d + 1) @ json_write i (d + 1) j) (j # js))
      @ newline_of i @ pad_of i d @ CHR '']'' # rest) = Inr (Array (acc @ j # js), rest)"
  using assms
proof (induction js arbitrary: j acc n)
  case Nil
  then obtain k where n: "n = Suc k" by (cases n) auto
  define after where "after = newline_of i @ pad_of i d @ CHR '']'' # rest"
  have st: "stops after" unfolding after_def by (rule stops_layout) (simp add: is_number_char_def is_digit_def)
  have "parse_value src k (json_write i (d + 1) j @ after) = Inr (j, after)"
    using Nil st by (auto simp: comes_back_def n after_def)
  moreover have "skip_whitespace after = CHR '']'' # rest"
    unfolding after_def using skip_blank [OF blank_layout(1) [of i d], of "CHR '']'' # rest"] by (simp add: skip_start is_space_def)
  ultimately show ?case
    using skip_element [of j i "d + 1" "d + 1" after] Nil(2)
    unfolding n by (simp add: parse_items.simps after_def)
next
  case (Cons j2 js)
  then obtain k where n: "n = Suc k" by (cases n) auto
  define more where "more = join_with '','' (map (\<lambda>j. newline_of i @ pad_of i (d + 1) @ json_write i (d + 1) j) (j2 # js))
      @ newline_of i @ pad_of i d @ CHR '']'' # rest"
  have eq: "join_with '','' (map (\<lambda>j. newline_of i @ pad_of i (d + 1) @ json_write i (d + 1) j) (j # j2 # js))
      @ newline_of i @ pad_of i d @ CHR '']'' # rest =
      newline_of i @ pad_of i (d + 1) @ json_write i (d + 1) j @ CHR '','' # more"
    by (simp add: more_def)
  have len: "2 * length (newline_of i @ pad_of i (d + 1) @ json_write i (d + 1) j @ CHR '','' # more) + 2 \<le> Suc k"
    using Cons.prems(1) unfolding eq n .
  have st: "stops (CHR '','' # more)" by (simp add: stops_def is_number_char_def is_digit_def)
  have v: "parse_value src k (json_write i (d + 1) j @ CHR '','' # more) = Inr (j, CHR '','' # more)"
    using Cons.prems(2) st len by (auto simp: comes_back_def)
  have "parse_items src k (acc @ [j]) more = Inr (Array ((acc @ [j]) @ j2 # js), rest)"
    unfolding more_def by (rule Cons.IH) (use len Cons.prems(2) in \<open>auto simp: more_def\<close>)
  then show ?case unfolding eq n
    using skip_element [of j i "d + 1" "d + 1" "CHR '','' # more"] Cons.prems(2) v
    by (simp add: parse_items.simps skip_start is_space_def)
qed

definition write_member :: "nat option \<Rightarrow> nat \<Rightarrow> string \<times> Json \<Rightarrow> string" where
  "write_member i d = (\<lambda>(key, v). newline_of i @ pad_of i (d + 1) @ escape_into key @ colon_of i @ json_write i (d + 1) v)"

lemma skip_key: "skip_whitespace (newline_of i @ pad_of i e @ escape_into key @ rest) = escape_into key @ rest"
proof -
  have "\<not> is_space QUOTE" by (simp add: is_space_def QUOTE_def)
  then show ?thesis using skip_blank [OF blank_layout(1) [of i e]] by (simp add: skip_start escape_into_eq)
qed

lemma skip_colon:
  assumes "json_ok v"
  shows "expect src CHR '':'' (skip_whitespace (colon_of i @ json_write i d v @ rest)) =
      Inr ((if i = None then [] else '' '') @ json_write i d v @ rest)"
    and "skip_whitespace ((if i = None then [] else '' '') @ json_write i d v @ rest) = json_write i d v @ rest"
proof -
  obtain c t where "json_write i d v = c # t" "\<not> is_space c" using json_write_start [OF assms] by blast
  then show "skip_whitespace ((if i = None then [] else '' '') @ json_write i d v @ rest) = json_write i d v @ rest"
    by (simp add: skip_whitespace_def is_space_def)
  show "expect src CHR '':'' (skip_whitespace (colon_of i @ json_write i d v @ rest)) =
      Inr ((if i = None then [] else '' '') @ json_write i d v @ rest)"
    by (simp add: colon_of_def skip_whitespace_def is_space_def expect_def)
qed

lemma parse_member_written:
  assumes "json_ok v" and "utf8_valid (utf8 key)" and "comes_back src i (d + 1) v" and "stops after"
    and "2 * length (write_member i d (key, v) @ after) + 2 \<le> Suc k"
  shows "parse_members src (Suc k) m (write_member i d (key, v) @ after) =
     (let r3 = skip_whitespace after; m1 = btree_insert key v m in
      case r3 of
        c # r4 \<Rightarrow>
          if c = CHR '','' then parse_members src k m1 r4
          else if c = CHR ''}'' then Inr (Object m1, r4)
          else Inl (json_error src r3 ''expected `,` or `}`'')
      | [] \<Rightarrow> Inl (json_error src r3 ''expected `,` or `}`''))"
proof -
  have v: "parse_value src k (json_write i (d + 1) v @ after) = Inr (v, after)"
    using assms(3-5) by (auto simp: comes_back_def write_member_def)
  let ?t = "escape_into key @ colon_of i @ json_write i (d + 1) v @ after"
  have w: "write_member i d (key, v) @ after = newline_of i @ pad_of i (d + 1) @ ?t"
    by (simp add: write_member_def)
  have k: "json_string src ?t = Inr (key, colon_of i @ json_write i (d + 1) v @ after)"
    by (rule json_string_escaped [OF assms(2)])
  show ?thesis unfolding w parse_members.simps skip_key k
    using v skip_colon [OF assms(1)] by simp
qed

lemma parse_members_written:
  assumes "\<forall>(k, v)\<in>set (kv # kvs). utf8_valid (utf8 k) \<and> json_ok v \<and> comes_back src i (d + 1) v"
    and "keys_sorted (acc @ kv # kvs)"
  shows "2 * length (join_with '','' (map (write_member i d) (kv # kvs))
      @ newline_of i @ pad_of i d @ CHR ''}'' # rest) + 2 \<le> n \<Longrightarrow>
    parse_members src n acc (join_with '','' (map (write_member i d) (kv # kvs))
      @ newline_of i @ pad_of i d @ CHR ''}'' # rest) = Inr (Object (acc @ kv # kvs), rest)"
  using assms
proof (induction kvs arbitrary: kv acc n)
  case Nil
  then obtain k where n: "n = Suc k" by (cases n) auto
  obtain key v where kv: "kv = (key, v)" by (cases kv)
  define after where "after = newline_of i @ pad_of i d @ CHR ''}'' # rest"
  have st: "stops after" unfolding after_def by (rule stops_layout) (simp add: is_number_char_def is_digit_def)
  have sk: "skip_whitespace after = CHR ''}'' # rest"
    unfolding after_def using skip_blank [OF blank_layout(1) [of i d], of "CHR ''}'' # rest"] by (simp add: skip_start is_space_def)
  have ins: "btree_insert key v acc = acc @ [(key, v)]"
    by (rule btree_insert_last) (use Nil(3) in \<open>auto simp: keys_sorted_def sorted_wrt_append kv\<close>)
  have len: "2 * length (write_member i d (key, v) @ after) + 2 \<le> Suc k"
    using Nil(1) by (simp add: kv n after_def)
  show ?case using parse_member_written [OF _ _ _ st len, of src acc] Nil(2) sk ins
    by (simp add: kv n after_def)
next
  case (Cons kv2 kvs)
  then obtain k where n: "n = Suc k" by (cases n) auto
  obtain key v where kv: "kv = (key, v)" by (cases kv)
  define more where "more = join_with '','' (map (write_member i d) (kv2 # kvs)) @ newline_of i @ pad_of i d @ CHR ''}'' # rest"
  have eq: "join_with '','' (map (write_member i d) (kv # kv2 # kvs)) @ newline_of i @ pad_of i d @ CHR ''}'' # rest =
      write_member i d (key, v) @ CHR '','' # more"
    by (simp add: more_def kv)
  have st: "stops (CHR '','' # more)" by (simp add: stops_def is_number_char_def is_digit_def)
  have len: "2 * length (write_member i d (key, v) @ CHR '','' # more) + 2 \<le> Suc k"
    using Cons.prems(1) unfolding eq n .
  have ins: "btree_insert key v acc = acc @ [(key, v)]"
    by (rule btree_insert_last) (use Cons.prems(3) in \<open>auto simp: keys_sorted_def sorted_wrt_append kv\<close>)
  have sk: "skip_whitespace (CHR '','' # more) = CHR '','' # more" by (simp add: skip_start is_space_def)
  have "parse_members src k (acc @ [kv]) more = Inr (Object ((acc @ [kv]) @ kv2 # kvs), rest)"
    unfolding more_def by (rule Cons.IH) (use len Cons.prems(2,3) in \<open>auto simp: more_def\<close>)
  with parse_member_written [OF _ _ _ st len, of src acc] Cons.prems(2) sk ins show ?case
    unfolding eq n by (simp add: kv)
qed

lemma skip_idem [simp]: "skip_whitespace (skip_whitespace r) = skip_whitespace r"
  by (induction r) (simp_all add: skip_whitespace_def)

lemma parse_items_skip: "parse_items src k acc (skip_whitespace r) = parse_items src k acc r"
  by (cases k) (simp_all add: parse_items.simps)

lemma parse_members_skip: "parse_members src k acc (skip_whitespace r) = parse_members src k acc r"
  by (cases k) (simp_all add: parse_members.simps)

lemma comes_back_all: "json_ok j \<Longrightarrow> comes_back src i d j"
proof (induction j arbitrary: d)
  case Null
  show ?case unfolding comes_back_def
  proof (intro allI impI)
    fix n rest assume "2 * length (json_write i d Null @ rest) + 1 \<le> n"
    then obtain k where "n = Suc k" by (cases n) auto
    then show "parse_value src n (json_write i d Null @ rest) = Inr (Null, rest)"
      by (simp add: parse_value.simps json_literal_def)
  qed
next
  case (Bool b)
  show ?case unfolding comes_back_def
  proof (intro allI impI)
    fix n rest assume "2 * length (json_write i d (Bool b) @ rest) + 1 \<le> n"
    then obtain k where "n = Suc k" by (cases n) auto
    then show "parse_value src n (json_write i d (Bool b) @ rest) = Inr (Bool b, rest)"
      by (cases b) (simp_all add: parse_value.simps json_literal_def)
  qed
next
  case (Number x)
  show ?case unfolding comes_back_def
  proof (intro allI impI)
    fix n rest assume "2 * length (json_write i d (Number x) @ rest) + 1 \<le> n" and st: "stops rest"
    then obtain k where n: "n = Suc k" by (cases n) auto
    have ok: "number_ok x" using Number by simp
    obtain c t where c: "write_number x = c # t" "c = CHR ''-'' \<or> is_digit c"
      using json_number_written(2) [OF ok st] by blast
    then have ne: "c \<noteq> CHR ''n''" "c \<noteq> CHR ''t''" "c \<noteq> CHR ''f''" "c \<noteq> QUOTE" "c \<noteq> CHR ''[''" "c \<noteq> CHR ''{''"
      by (auto simp: is_digit_def QUOTE_def)
    show "parse_value src n (json_write i d (Number x) @ rest) = Inr (Number x, rest)"
      using json_number_written(1) [OF ok st, of src] c ne by (simp add: n parse_value.simps)
  qed
next
  case (String s)
  show ?case unfolding comes_back_def
  proof (intro allI impI)
    fix n rest assume "2 * length (json_write i d (String s) @ rest) + 1 \<le> n"
    then obtain k where n: "n = Suc k" by (cases n) auto
    have "json_string src (escape_into s @ rest) = Inr (s, rest)"
      by (rule json_string_escaped) (use String in simp)
    then show "parse_value src n (json_write i d (String s) @ rest) = Inr (String s, rest)"
      by (simp add: n parse_value.simps escape_into_eq QUOTE_def)
  qed
next
  case (Array items)
  have all: "\<forall>j\<in>set items. json_ok j \<and> comes_back src i (d + 1) j"
    using Array by (auto simp: list_all_iff)
  show ?case unfolding comes_back_def
  proof (intro allI impI)
    fix n rest assume len: "2 * length (json_write i d (Array items) @ rest) + 1 \<le> n"
    then obtain k where n: "n = Suc k" by (cases n) auto
    show "parse_value src n (json_write i d (Array items) @ rest) = Inr (Array items, rest)"
    proof (cases items)
      case Nil
      then show ?thesis by (simp add: n parse_value.simps QUOTE_def skip_start is_space_def)
    next
      case (Cons j js)
      let ?body = "join_with '','' (map (\<lambda>j. newline_of i @ pad_of i (d + 1) @ json_write i (d + 1) j) items)
        @ newline_of i @ pad_of i d @ CHR '']'' # rest"
      have w: "json_write i d (Array items) @ rest = CHR ''['' # ?body" using Cons by simp
      have k: "2 * length ?body + 2 \<le> k" using len unfolding w n by simp
      have items: "parse_items src k [] ?body = Inr (Array items, rest)"
        using parse_items_written [of j js src i d rest k "[]"] all k Cons by simp
      obtain more where more: "?body = newline_of i @ pad_of i (d + 1) @ json_write i (d + 1) j @ more"
        using Cons by (cases js) simp_all
      obtain c t where c: "skip_whitespace ?body = c # t" "c \<noteq> CHR '']''"
        using skip_element [of j i "d + 1" "d + 1" more] json_write_start [of j i "d + 1"] all Cons
        unfolding more by auto
      show ?thesis using items c parse_items_skip [of src k "[]" ?body]
        unfolding w n by (simp add: parse_value.simps QUOTE_def)
    qed
  qed
next
  case (Object m)
  have all: "\<forall>(k, v)\<in>set m. utf8_valid (utf8 k) \<and> json_ok v \<and> comes_back src i (d + 1) v"
    using Object by (fastforce simp: list_all_iff)
  show ?case unfolding comes_back_def
  proof (intro allI impI)
    fix n rest assume len: "2 * length (json_write i d (Object m) @ rest) + 1 \<le> n"
    then obtain k where n: "n = Suc k" by (cases n) auto
    show "parse_value src n (json_write i d (Object m) @ rest) = Inr (Object m, rest)"
    proof (cases m)
      case Nil
      then show ?thesis by (simp add: n parse_value.simps QUOTE_def skip_start is_space_def)
    next
      case (Cons kv kvs)
      let ?body = "join_with '','' (map (write_member i d) m) @ newline_of i @ pad_of i d @ CHR ''}'' # rest"
      have w: "json_write i d (Object m) @ rest = CHR ''{'' # ?body"
        using Cons by (simp add: write_member_def case_prod_beta)
      have k: "2 * length ?body + 2 \<le> k" using len unfolding w n by simp
      have members: "parse_members src k [] ?body = Inr (Object m, rest)"
        using parse_members_written [of kv kvs src i d "[]" rest k] all k Cons Object.prems by simp
      obtain key v where kv: "kv = (key, v)" by (cases kv)
      obtain more where more: "?body = newline_of i @ pad_of i (d + 1) @ escape_into key @ more"
        using Cons kv by (cases kvs) (simp_all add: write_member_def)
      have c: "skip_whitespace ?body = QUOTE # concat (map escape_char key) @ QUOTE # more"
        unfolding more skip_key by (simp add: escape_into_eq)
      show ?thesis using members c parse_members_skip [of src k "[]" ?body]
        unfolding w n by (simp add: parse_value.simps QUOTE_def)
    qed
  qed
qed

subsection \<open>Fuel\<close>

lemma string_loop_shorter: "string_loop src out rest = Inr (s, r) \<Longrightarrow> length r < length rest"
proof (induction src out rest rule: string_loop.induct)
  case (1 src out rest)
  show ?case
  proof (cases rest)
    case Nil
    with "1.prems" show ?thesis by (simp add: string_loop.simps [of src out "[]"])
  next
    case (Cons c t)
    consider "c = QUOTE" | "c = BACKSLASH" | "c \<noteq> QUOTE" "c \<noteq> BACKSLASH" by blast
    then show ?thesis
    proof cases
      case 1
      with "1.prems" Cons show ?thesis by (simp add: string_loop.simps [of src out "QUOTE # t"])
    next
      case 2
      note eq = string_loop.simps [of src out "BACKSLASH # t"]
      obtain e r1 where t: "t = e # r1" using "1.prems" Cons 2 eq by (cases t) auto
      show ?thesis
      proof (cases "e = CHR ''u''")
        case True
        then obtain ch r2 where u: "unicode_escape src r1 = Inr (ch, r2)"
          using "1.prems" Cons 2 eq t by (cases "unicode_escape src r1") auto
        then have "string_loop src (out @ ch) r2 = Inr (s, r)" using "1.prems" Cons 2 eq t True by simp
        from "1.IH"(1) [OF Cons _ 2 t True u refl this] unicode_escape_shorter [OF u] show ?thesis
          using 2 Cons t by simp
      next
        case False
        then obtain ch where ch: "simple_escape e = Some ch"
          using "1.prems" Cons 2 eq t by (cases "simple_escape e") auto
        then have "string_loop src (out @ [ch]) r1 = Inr (s, r)" using "1.prems" Cons 2 eq t False by simp
        from "1.IH"(2) [OF Cons _ 2 t False ch this] show ?thesis using 2 Cons t by simp
      qed
    next
      case 3
      let ?r = "dropWhile plain rest"
      have "length ?r \<le> length t" using 3 length_dropWhile_le [of plain t] by (simp add: Cons plain_def)
      moreover have "utf8_valid (utf8 (takeWhile plain rest))"
        and loop: "string_loop src (out @ takeWhile plain rest) ?r = Inr (s, r)"
        using "1.prems" Cons 3 string_loop.simps [of src out "c # t"] by (auto simp: Let_def split: if_splits)
      then have "length r < length ?r" using "1.IH"(3) [OF Cons 3 refl refl] by blast
      ultimately show ?thesis by (simp add: Cons)
    qed
  qed
qed

lemma json_string_shorter: "json_string src rest = Inr (s, r) \<Longrightarrow> length r < length rest"
  by (auto simp: json_string_def and_then_Inr_iff expect_def split: list.splits if_splits dest!: string_loop_shorter)

lemma json_literal_shorter: "json_literal src w v rest = Inr (j, r) \<Longrightarrow> w \<noteq> [] \<Longrightarrow> length r < length rest"
  by (cases rest) (auto simp: json_literal_def split: if_splits)

lemma json_number_shorter: "json_number src rest = Inr (j, r) \<Longrightarrow> length r < length rest"
proof -
  assume a: "json_number src rest = Inr (j, r)"
  have e: "parse_f64 [] = None" by (simp add: parse_f64_def take_sign_def)
  show ?thesis
  proof (cases rest)
    case Nil
    with a e show ?thesis by (simp add: json_number_def)
  next
    case (Cons c t)
    show ?thesis
    proof (cases "c = CHR ''-''")
      case True
      with a Cons show ?thesis using length_dropWhile_le [of is_number_char t]
        by (auto simp: json_number_def Let_def split: option.splits)
    next
      case False
      with a Cons e show ?thesis using length_dropWhile_le [of is_number_char t]
        by (auto simp: json_number_def Let_def split: option.splits if_splits)
    qed
  qed
qed

lemma skip_le: "length (skip_whitespace r) \<le> length r"
  by (simp add: skip_whitespace_def length_dropWhile_le)

lemma skip_shorter: "length a < length (skip_whitespace r) \<Longrightarrow> length a < length r"
  using skip_le [of r] by simp

lemma expect_shorter: "expect src c rest = Inr r \<Longrightarrow> length r < length rest"
  by (auto simp: expect_def split: list.splits if_splits)

lemma skip_Cons: "skip_whitespace r = c # t \<Longrightarrow> length t < length r"
  using skip_le [of r] by simp

lemma parse_shorter:
  "parse_value src n rest = Inr (j, r) \<Longrightarrow> length r < length rest"
  "parse_items src n acc rest = Inr (j, r) \<Longrightarrow> length r < length rest"
  "parse_members src n m rest = Inr (j, r) \<Longrightarrow> length r < length rest"
proof (induction n arbitrary: rest acc m j r)
  case 0
  {
    case 1
    then show ?case by (simp add: parse_value.simps)
  next
    case 2
    then show ?case by (simp add: parse_items.simps)
  next
    case 3
    then show ?case by (simp add: parse_members.simps)
  }
next
  case (Suc n)
  {
    case 1
    then obtain c t where rest: "rest = c # t" by (cases rest) (auto simp: parse_value.simps)
    have sk: "length (skip_whitespace t) \<le> length t" by (rule skip_le)
    have items: "length r < length (skip_whitespace t)" if "parse_items src n [] (skip_whitespace t) = Inr (j, r)"
      using Suc(2) [OF that] .
    have members: "length r < length (skip_whitespace t)" if "parse_members src n [] (skip_whitespace t) = Inr (j, r)"
      using Suc(3) [OF that] .
    show ?case using 1 sk items members json_literal_shorter [of src _ _ rest j r] json_string_shorter [of src rest] json_number_shorter [of src rest j r]
      unfolding rest
      by (auto simp: parse_value.simps and_then_Inr_iff Let_def split: if_splits list.splits)
  next
    case 2
    then obtain v r1 where v: "parse_value src n (skip_whitespace rest) = Inr (v, r1)"
      by (auto simp: parse_items.simps split: sum.splits)
    have l: "length r1 < length rest" using skip_shorter [OF Suc(1) [OF v]] .
    obtain c r3 where c: "skip_whitespace r1 = c # r3" using 2 v by (cases "skip_whitespace r1") (auto simp: parse_items.simps)
    have "length r \<le> length r3"
      using 2 v c Suc(2) [of "acc @ [v]" r3 j r] by (auto simp: parse_items.simps split: if_splits)
    with l skip_Cons [OF c] show ?case by simp
  next
    case 3
    then obtain key r0 where k: "json_string src (skip_whitespace rest) = Inr (key, r0)"
      by (auto simp: parse_members.simps split: sum.splits)
    then obtain r1 where r1: "expect src CHR '':'' (skip_whitespace r0) = Inr r1"
      using 3 by (auto simp: parse_members.simps split: sum.splits)
    then obtain v r2 where v: "parse_value src n (skip_whitespace r1) = Inr (v, r2)"
      using 3 k by (auto simp: parse_members.simps split: sum.splits)
    have l: "length r0 < length rest" "length r1 < length r0" "length r2 < length r1"
      using skip_shorter [OF json_string_shorter [OF k]] skip_shorter [OF expect_shorter [OF r1]] skip_shorter [OF Suc(1) [OF v]] .
    obtain c r4 where c: "skip_whitespace r2 = c # r4" using 3 k r1 v by (cases "skip_whitespace r2") (auto simp: parse_members.simps)
    have "length r \<le> length r4"
      using 3 k r1 v c Suc(3) [of "btree_insert key v m" r4 j r] by (auto simp: parse_members.simps Let_def split: if_splits)
    with l skip_Cons [OF c] show ?case by simp
  }
qed

text \<open>No error but the one of the recursion is about fuel.\<close>

lemma json_error_fuel [simp]: "json_error src rest msg \<noteq> OutOfFuel"
  by (simp add: json_error_def Let_def)

lemma hex4_fuel: "hex4 src rest \<noteq> Inl OutOfFuel"
  by (auto simp: hex4_def split: option.splits)

lemma unicode_escape_fuel: "unicode_escape src rest \<noteq> Inl OutOfFuel"
  using hex4_fuel by (auto simp: unicode_escape_def and_then_Inl_iff split: option.splits if_splits)

lemma string_loop_fuel: "string_loop src out rest \<noteq> Inl OutOfFuel"
proof (induction src out rest rule: string_loop.induct)
  case (1 src out rest)
  note ih = "1.IH"
  show ?case
  proof (cases rest)
    case Nil
    then show ?thesis by (simp add: string_loop.simps [of src out "[]"])
  next
    case (Cons c t)
    show ?thesis
      using ih Cons unicode_escape_fuel
      by (subst string_loop.simps) (auto simp: Let_def split: list.splits sum.splits option.splits if_splits)
  qed
qed

lemma json_string_fuel: "json_string src rest \<noteq> Inl OutOfFuel"
  using string_loop_fuel by (auto simp: json_string_def and_then_Inl_iff expect_def split: list.splits if_splits)

lemma parse_fuel_enough:
  "2 * length rest + 1 \<le> n \<Longrightarrow> parse_value src n rest \<noteq> Inl OutOfFuel"
  "2 * length rest + 2 \<le> n \<Longrightarrow> parse_items src n acc rest \<noteq> Inl OutOfFuel"
  "2 * length rest + 2 \<le> n \<Longrightarrow> parse_members src n m rest \<noteq> Inl OutOfFuel"
proof (induction n arbitrary: rest acc m)
  case 0
  {
    case 1
    then show ?case by simp
  next
    case 2
    then show ?case by simp
  next
    case 3
    then show ?case by simp
  }
next
  case (Suc n)
  {
    case 1
    show ?case
    proof (cases rest)
      case Nil
      then show ?thesis by (simp add: parse_value.simps)
    next
      case (Cons c t)
      have l: "2 * length (skip_whitespace t) + 2 \<le> n" using 1 Cons skip_le [of t] by simp
      have num: "json_number src rest \<noteq> Inl OutOfFuel" by (simp add: json_number_def Let_def split: option.split prod.split)
      show ?thesis using Suc(2) [OF l, of "[]"] Suc(3) [OF l, of "[]"] num json_string_fuel [of src rest]
        unfolding Cons
        by (auto simp: parse_value.simps json_literal_def and_then_Inl_iff Let_def split: list.splits)
    qed
  next
    case 2
    have l: "2 * length (skip_whitespace rest) + 1 \<le> n" using 2 skip_le [of rest] by simp
    show ?case
    proof (cases "parse_value src n (skip_whitespace rest)")
      case (Inl e)
      then show ?thesis using Suc(1) [OF l] by (auto simp: parse_items.simps)
    next
      case (Inr p)
      obtain v r1 where p: "p = (v, r1)" by (cases p)
      have lr: "length r1 < length rest" using skip_shorter [OF parse_shorter(1) [OF Inr [unfolded p]]] .
      have "parse_items src n (acc @ [v]) r3 \<noteq> Inl OutOfFuel" if "skip_whitespace r1 = c # r3" for c r3
        by (rule Suc(2)) (use lr skip_Cons [OF that] 2 in simp)
      then show ?thesis using Inr p by (auto simp: parse_items.simps Let_def split: list.splits)
    qed
  next
    case 3
    show ?case
    proof (cases "json_string src (skip_whitespace rest)")
      case (Inl e)
      then show ?thesis using json_string_fuel by (auto simp: parse_members.simps)
    next
      case (Inr p)
      obtain key r0 where p: "p = (key, r0)" by (cases p)
      have l0: "length r0 < length rest" using skip_shorter [OF json_string_shorter [OF Inr [unfolded p]]] .
      show ?thesis
      proof (cases "expect src CHR '':'' (skip_whitespace r0)")
        case e: (Inl e)
        then have "e \<noteq> OutOfFuel" by (auto simp: expect_def split: list.splits if_splits)
        with e Inr p show ?thesis by (simp add: parse_members.simps)
      next
        case e: (Inr r1)
        have l1: "length r1 < length r0" using skip_shorter [OF expect_shorter [OF e]] .
        have l: "2 * length (skip_whitespace r1) + 1 \<le> n" using 3 l0 l1 skip_le [of r1] by simp
        show ?thesis
        proof (cases "parse_value src n (skip_whitespace r1)")
          case v: (Inl x)
          then show ?thesis using Suc(1) [OF l] Inr p e by (auto simp: parse_members.simps)
        next
          case v: (Inr q)
          obtain w r2 where q: "q = (w, r2)" by (cases q)
          have l2: "length r2 < length r1" using skip_shorter [OF parse_shorter(1) [OF v [unfolded q]]] .
          have "parse_members src n (btree_insert key w m) r4 \<noteq> Inl OutOfFuel" if "skip_whitespace r2 = c # r4" for c r4
            by (rule Suc(3)) (use l0 l1 l2 skip_Cons [OF that] 3 in simp)
          then show ?thesis using Inr p e v q by (auto simp: parse_members.simps Let_def split: list.splits)
        qed
      qed
    qed
  }
qed

subsection \<open>Properties\<close>



text \<open>
  Text for a single line of a page: no control character and no less-than sign.
\<close>

definition safe_char :: "char \<Rightarrow> bool" where
  "safe_char c \<longleftrightarrow> c \<noteq> CHR ''<'' \<and> 0x20 \<le> (of_char c :: nat)"

definition safe_text :: "string \<Rightarrow> bool" where
  "safe_text s \<longleftrightarrow> (\<forall>c\<in>set s. safe_char c)"

lemma safe_append [simp]: "safe_text (a @ b) \<longleftrightarrow> safe_text a \<and> safe_text b" "safe_text []"
  "safe_text (c # s) \<longleftrightarrow> safe_char c \<and> safe_text s"
  by (auto simp: safe_text_def)

lemma safe_digit: "is_digit c \<Longrightarrow> safe_char c"
  by (auto simp: safe_char_def is_digit_def)

lemma safe_show_nat: "safe_text (show_nat n)"
  using show_nat_is_digit safe_digit by (auto simp: safe_text_def)

lemma safe_decimal: "decimal_text s x \<Longrightarrow> safe_text s"
proof -
  have "safe_char CHR ''.''" by (simp add: safe_char_def)
  then show "decimal_text s x \<Longrightarrow> safe_text s"
    using safe_digit by (auto simp: decimal_text_def safe_text_def split: if_splits)
qed

lemma safe_write_number: "safe_text (write_number n)"
proof -
  have "safe_text (push_integer v)" for v
    using safe_show_nat [of "nat \<bar>v\<bar>"] push_digits_eq [of "nat \<bar>v\<bar>" "[]"] by (auto simp: push_integer_def safe_char_def)
  moreover have "safe_text (show_f64 x)" for x
    using safe_decimal [OF decimal_show_decimal] by (auto simp: show_f64_def safe_char_def split: prod.split)
  ultimately show ?thesis by (simp add: write_number_def safe_char_def split: F64.split)
qed

lemma safe_hex_digit: "k < 16 \<Longrightarrow> safe_char (hex_digit k)"
proof -
  assume k: "k < 16"
  have n: "hex_val CHR ''<'' = None" by (simp add: hex_val_def)
  have "0x20 \<le> (of_char (hex_digit k) :: nat)" using k by (simp add: hex_digit_def)
  with n hex_digit_val [OF k] show ?thesis by (auto simp: safe_char_def)
qed

lemma safe_quote: "safe_char QUOTE" "safe_char BACKSLASH"
  by (simp_all add: safe_char_def QUOTE_def BACKSLASH_def)

lemma safe_escape_char: "safe_text (escape_char c)"
proof (cases "replacement c")
  case None
  then have "safe_char c" by (auto simp: replacement_def safe_char_def split: if_splits)
  with None show ?thesis by (simp add: escape_char_def)
next
  case (Some r)
  have c: "safe_text (CONTROL_ESCAPES n)" if "n \<le> 0x1f" for n
    using that safe_hex_digit [of "n div 16"] safe_hex_digit [of "n mod 16"]
    by (simp add: CONTROL_ESCAPES_def safe_quote safe_char_def [of "CHR ''u''"] safe_char_def [of "CHR ''0''"])
  have "safe_text r" using Some c [of "of_char c"]
    by (auto simp: replacement_def safe_char_def QUOTE_def BACKSLASH_def split: if_splits)
  with Some show ?thesis by (simp add: escape_char_def)
qed

lemma safe_escape_into: "safe_text (escape_into s)"
proof -
  have "safe_text (concat (map escape_char s))" using safe_escape_char by (induction s) auto
  then show ?thesis by (simp add: escape_into_eq safe_quote)
qed

lemma safe_join: "safe_text sep \<Longrightarrow> \<forall>x\<in>set xs. safe_text x \<Longrightarrow> safe_text (join_with sep xs)"
  by (induction sep xs rule: join_with.induct) auto

text \<open>
  C20: compact text can be embedded in a page and in a log line.  Whatever strings, keys and numbers a value has,
  its compact text has no control character, so no line break, and no \<open><\<close>, so it cannot close a
  script element.
\<close>

theorem json_text_safe: "safe_text (json_to_string j)"
proof -
  have "safe_text (json_write None d j)" for d
  proof (induction j arbitrary: d)
    case (Array items)
    then show ?case
      by (auto simp: newline_of_def pad_of_def safe_char_def intro!: safe_join)
  next
    case (Object m)
    have "safe_text (json_write None (d + 1) v)" if "(k, v) \<in> set m" for k v
      using Object [of "(k, v)" v] that by simp
    then show ?case
      by (auto simp: newline_of_def pad_of_def colon_of_def safe_char_def safe_escape_into intro!: safe_join)
  qed (auto simp: safe_char_def safe_write_number safe_escape_into)
  then show ?thesis by (simp add: json_to_string_def)
qed

text \<open>
  the parser accepts text that is not JSON: a plus sign among the four digits of an escape, and
  a number with a leading zero.
\<close>

theorem json_lenient:
  "json_parse [QUOTE, BACKSLASH, CHR ''u'', CHR ''+'', CHR ''0'', CHR ''4'', CHR ''1'', QUOTE] = Inr (String ''A'') \<and>
   json_parse ''01'' = Inr (Number (Finite 1))"
proof -
  have a: "json_parse [QUOTE, BACKSLASH, CHR ''u'', CHR ''+'', CHR ''0'', CHR ''4'', CHR ''1'', QUOTE] = Inr (String ''A'')"
  proof -
    have h: "hex4 src [CHR ''+'', CHR ''0'', CHR ''4'', CHR ''1'', QUOTE] = Inr (65, [QUOTE])" for src
      by (simp add: hex4_def from_str_radix16_def hex_val_def utf8_valid_ascii del: utf8_append(3))
    have "char_of (65 :: nat) = CHR ''A''" using char_of_nat [of "CHR ''A''"] by simp
    then have "unicode_escape src [CHR ''+'', CHR ''0'', CHR ''4'', CHR ''1'', QUOTE] = Inr (''A'', [QUOTE])" for src
      by (simp add: unicode_escape_def h char_from_u32_def)
    then have "string_loop src [] [BACKSLASH, CHR ''u'', CHR ''+'', CHR ''0'', CHR ''4'', CHR ''1'', QUOTE] = Inr (''A'', [])" for src
      by (simp add: string_loop.simps)
    then show ?thesis
      by (simp add: json_parse_def parse_fuel_def skip_whitespace_def is_space_def parse_value.simps json_string_def expect_def QUOTE_def numeral_eq_Suc)
  qed
  have f: "f64_round 1 = Finite 1" using f64_round_int [of 1] by simp
  note token = parse_value.simps json_number_def is_digit_def is_number_char_def parse_f64_def take_sign_def
    parse_exponent_def digits_val_def ten_to_def QUOTE_def
  have "parse_value src (Suc n) ''01'' = Inr (Number (Finite 1), [])" for src n
    using f by (simp add: token)
  then have b: "json_parse ''01'' = Inr (Number (Finite 1))"
    by (simp add: json_parse_def parse_fuel_def skip_start is_space_def numeral_eq_Suc)
  show ?thesis using a b by blast
qed


end
