(* ===== verification/Cache.thy ===== *)
theory Cache
  imports Json "HOL-Library.AList"
begin

section \<open>The cache and the rate limiter\<close>

text \<open>
  \<open>rustlavel-cache\<close>: the in-memory store of \<open>memory.rs\<close>, the contract of \<open>store.rs\<close> with its
  default methods, and the fixed-window limiter of \<open>rate_limit.rs\<close>.  Instants are natural numbers
  of milliseconds and an argument of each operation; the hash that picks a shard is an argument
  too, since nothing is documented of it.  A \<open>HashMap\<close> is an association list with distinct keys.
  Every operation but \<open>read\<close> holds its shard's lock from beginning to end, so it is one atomic
  step; \<open>read\<close> is two, and what the second sees is covered for every state between them.
  \<open>i64\<close> addition wraps, as in a release build.

  The locale \<open>cache_driver\<close> is the contract as the limiter uses it; the memory store is
  shown to satisfy it, and what the limiter counts is proved inside it.
\<close>

subsection \<open>The in-memory store\<close>

record CacheEntry =
  cached :: Json
  expires_at :: "nat option"

definition is_expired :: "CacheEntry \<Rightarrow> nat \<Rightarrow> bool" where
  "is_expired e now \<longleftrightarrow> (case expires_at e of None \<Rightarrow> False | Some due \<Rightarrow> due \<le> now)"

definition SHARDS :: nat where "SHARDS = 16"

type_synonym shard = "(string \<times> CacheEntry) list"

record MemoryStore =
  shards :: "shard list"
  prefix :: string

definition with_prefix :: "string \<Rightarrow> MemoryStore" where
  "with_prefix p = \<lparr>shards = replicate SHARDS [], prefix = p\<rparr>"

definition shard_of :: "(string \<Rightarrow> nat) \<Rightarrow> string \<Rightarrow> nat" where
  "shard_of hash key = hash key mod SHARDS"

definition prefixed :: "string \<Rightarrow> string \<Rightarrow> string" where
  "prefixed p key = (if p = [] then key else p @ key)"

definition sweep_store :: "nat \<Rightarrow> MemoryStore \<Rightarrow> MemoryStore" where
  "sweep_store now s = s\<lparr>shards := map (filter (\<lambda>(_, e). \<not> is_expired e now)) (shards s)\<rparr>"

definition live_count :: "nat \<Rightarrow> MemoryStore \<Rightarrow> nat" where
  "live_count now s = (\<Sum>m \<leftarrow> shards s. length (filter (\<lambda>(_, e). \<not> is_expired e now) m))"

text \<open>
  \<open>read\<close> looks under the read lock and answers, unless it finds an expired entry (\<open>None\<close>); then it
  looks again under the write lock, in whatever state the shard has by then.
\<close>

definition read_fast :: "(string \<Rightarrow> nat) \<Rightarrow> nat \<Rightarrow> string \<Rightarrow> MemoryStore \<Rightarrow> Json option option" where
  "read_fast hash now key s =
     (case map_of (shards s ! shard_of hash key) key of
        None \<Rightarrow> Some None
      | Some e \<Rightarrow> if \<not> is_expired e now then Some (Some (cached e)) else None)"

definition read_evict :: "(string \<Rightarrow> nat) \<Rightarrow> nat \<Rightarrow> string \<Rightarrow> MemoryStore \<Rightarrow> Json option \<times> MemoryStore" where
  "read_evict hash now key s =
     (let i = shard_of hash key; m = shards s ! i in
      case map_of m key of
        Some e \<Rightarrow>
          if is_expired e now then (None, s\<lparr>shards := (shards s)[i := AList.delete key m]\<rparr>)
          else (Some (cached e), s)
      | None \<Rightarrow> (None, s))"

definition read_key :: "(string \<Rightarrow> nat) \<Rightarrow> nat \<Rightarrow> string \<Rightarrow> MemoryStore \<Rightarrow> Json option \<times> MemoryStore" where
  "read_key hash now key s =
     (case read_fast hash now key s of Some r \<Rightarrow> (r, s) | None \<Rightarrow> read_evict hash now key s)"

definition write_key :: "(string \<Rightarrow> nat) \<Rightarrow> string \<Rightarrow> Json \<Rightarrow> nat option \<Rightarrow> MemoryStore \<Rightarrow> MemoryStore" where
  "write_key hash key v due s =
     (let i = shard_of hash key in
      s\<lparr>shards := (shards s)[i := AList.update key \<lparr>cached = v, expires_at = due\<rparr> (shards s ! i)]\<rparr>)"

definition remove_key :: "(string \<Rightarrow> nat) \<Rightarrow> nat \<Rightarrow> string \<Rightarrow> MemoryStore \<Rightarrow> bool \<times> MemoryStore" where
  "remove_key hash now key s =
     (let i = shard_of hash key; m = shards s ! i in
      ((case map_of m key of None \<Rightarrow> False | Some e \<Rightarrow> \<not> is_expired e now),
       s\<lparr>shards := (shards s)[i := AList.delete key m]\<rparr>))"

definition counter_value :: "Json option \<Rightarrow> int" where
  "counter_value v =
     (case v of
        Some (Number x) \<Rightarrow> f64_to_i64 x
      | Some (String s) \<Rightarrow> (case parse_i64 (str_trim s) of Some n \<Rightarrow> n | None \<Rightarrow> 0)
      | _ \<Rightarrow> 0)"

definition bump :: "(string \<Rightarrow> nat) \<Rightarrow> nat \<Rightarrow> string \<Rightarrow> int \<Rightarrow> nat option \<Rightarrow> MemoryStore \<Rightarrow> int \<times> MemoryStore" where
  "bump hash now key by ttl s =
     (let i = shard_of hash key; m = shards s ! i in
      case map_of m key of
        Some e \<Rightarrow>
          if \<not> is_expired e now then
            let n = wrap_i64 (counter_value (Some (cached e)) + by)
            in (n, s\<lparr>shards := (shards s)[i := AList.update key (e\<lparr>cached := json_of_int n\<rparr>) m]\<rparr>)
          else (by, write_key hash key (json_of_int by) (map_option ((+) now) ttl) s)
      | None \<Rightarrow> (by, write_key hash key (json_of_int by) (map_option ((+) now) ttl) s))"

subsection \<open>The driver's operations\<close>

definition cache_get :: "(string \<Rightarrow> nat) \<Rightarrow> nat \<Rightarrow> string \<Rightarrow> MemoryStore \<Rightarrow> Json option \<times> MemoryStore" where
  "cache_get hash now key s = read_key hash now (prefixed (prefix s) key) s"

definition cache_put :: "(string \<Rightarrow> nat) \<Rightarrow> nat \<Rightarrow> string \<Rightarrow> Json \<Rightarrow> nat \<Rightarrow> MemoryStore \<Rightarrow> MemoryStore" where
  "cache_put hash now key v ttl s =
     (let full = prefixed (prefix s) key in
      if ttl = 0 then snd (remove_key hash now full s)
      else write_key hash full v (Some (now + ttl)) s)"

definition cache_forever :: "(string \<Rightarrow> nat) \<Rightarrow> string \<Rightarrow> Json \<Rightarrow> MemoryStore \<Rightarrow> MemoryStore" where
  "cache_forever hash key v s = write_key hash (prefixed (prefix s) key) v None s"

definition cache_forget :: "(string \<Rightarrow> nat) \<Rightarrow> nat \<Rightarrow> string \<Rightarrow> MemoryStore \<Rightarrow> bool \<times> MemoryStore" where
  "cache_forget hash now key s = remove_key hash now (prefixed (prefix s) key) s"

definition cache_flush :: "MemoryStore \<Rightarrow> MemoryStore" where
  "cache_flush s = s\<lparr>shards := map (\<lambda>_. []) (shards s)\<rparr>"

definition cache_increment :: "(string \<Rightarrow> nat) \<Rightarrow> nat \<Rightarrow> string \<Rightarrow> int \<Rightarrow> MemoryStore \<Rightarrow> int \<times> MemoryStore" where
  "cache_increment hash now key by s = bump hash now (prefixed (prefix s) key) by None s"

definition increment_within :: "(string \<Rightarrow> nat) \<Rightarrow> nat \<Rightarrow> string \<Rightarrow> int \<Rightarrow> nat \<Rightarrow> MemoryStore \<Rightarrow> int \<times> MemoryStore" where
  "increment_within hash now key by ttl s = bump hash now (prefixed (prefix s) key) by (Some ttl) s"

definition cache_ttl :: "(string \<Rightarrow> nat) \<Rightarrow> nat \<Rightarrow> string \<Rightarrow> MemoryStore \<Rightarrow> nat option" where
  "cache_ttl hash now key s =
     (let full = prefixed (prefix s) key in
      case map_of (shards s ! shard_of hash full) full of
        None \<Rightarrow> None
      | Some e \<Rightarrow> if is_expired e now then None else map_option (\<lambda>due. due - now) (expires_at e))"

text \<open>The default methods of the trait, over any driver's \<open>get\<close>, \<open>put\<close>, \<open>forget\<close> and \<open>increment\<close>.\<close>

definition cache_has :: "('s \<Rightarrow> Json option \<times> 's) \<Rightarrow> 's \<Rightarrow> bool \<times> 's" where
  "cache_has get s = apfst (\<lambda>v. v \<noteq> None) (get s)"

definition decrement :: "(int \<Rightarrow> 's \<Rightarrow> int \<times> 's) \<Rightarrow> int \<Rightarrow> 's \<Rightarrow> int \<times> 's" where
  "decrement increment by s = increment (- by) s"

definition pull :: "('s \<Rightarrow> Json option \<times> 's) \<Rightarrow> ('s \<Rightarrow> bool \<times> 's) \<Rightarrow> 's \<Rightarrow> Json option \<times> 's" where
  "pull get forget s =
     (case get s of
        (Some v, s1) \<Rightarrow> (Some v, snd (forget s1))
      | (None, s1) \<Rightarrow> (None, s1))"

definition remember ::
  "('s \<Rightarrow> Json option \<times> 's) \<Rightarrow> (Json \<Rightarrow> 's \<Rightarrow> 's) \<Rightarrow> 'e + Json \<Rightarrow> 's \<Rightarrow> ('e + Json) \<times> 's" where
  "remember get put computed s =
     (case get s of
        (Some hit, s1) \<Rightarrow> (Inr hit, s1)
      | (None, s1) \<Rightarrow>
          (case computed of Inl e \<Rightarrow> (Inl e, s1) | Inr v \<Rightarrow> (Inr v, put v s1)))"

subsection \<open>The rate limiter\<close>

record RateLimit =
  limit :: nat
  used :: nat
  remaining :: nat
  reset_after :: nat
  exceeded :: bool

definition NAMESPACE :: string where "NAMESPACE = ''rustlavel:throttle:''"

definition window_millis :: "nat \<Rightarrow> nat" where
  "window_millis window = max window 1"

definition counter_key :: "string \<Rightarrow> nat \<Rightarrow> string" where
  "counter_key key slot = NAMESPACE @ key @ '':'' @ show_nat slot"

definition retry_after_seconds :: "RateLimit \<Rightarrow> nat" where
  "retry_after_seconds r = max (reset_after r div 1000) 1"

text \<open>
  \<open>wall\<close> is the system clock in milliseconds; the driver's own clock is inside \<open>incr\<close>, its
  \<open>increment_within\<close>.
\<close>

definition attempt ::
  "(string \<Rightarrow> int \<Rightarrow> nat \<Rightarrow> 's \<Rightarrow> int \<times> 's) \<Rightarrow> nat \<Rightarrow> string \<Rightarrow> nat \<Rightarrow> nat \<Rightarrow> 's \<Rightarrow> RateLimit \<times> 's" where
  "attempt incr wall key cap window s =
     (let w = window_millis window; slot = wall div w;
          (n, s1) = incr (counter_key key slot) 1 (w + 1000) s;
          u = nat (max n 0);
          window_ends = (slot + 1) * w
      in (\<lparr>limit = cap, used = u, remaining = cap - u, reset_after = window_ends - wall,
           exceeded = (u > cap)\<rparr>, s1))"

definition used_in :: "(string \<Rightarrow> 's \<Rightarrow> Json option \<times> 's) \<Rightarrow> nat \<Rightarrow> string \<Rightarrow> nat \<Rightarrow> 's \<Rightarrow> nat \<times> 's" where
  "used_in get wall key window s =
     (let w = window_millis window; slot = wall div w in
      apfst (\<lambda>v. nat (max (case Option.bind v json_as_i64 of Some n \<Rightarrow> n | None \<Rightarrow> 0) 0))
        (get (counter_key key slot) s))"

definition too_many :: "(string \<Rightarrow> 's \<Rightarrow> Json option \<times> 's) \<Rightarrow> nat \<Rightarrow> string \<Rightarrow> nat \<Rightarrow> nat \<Rightarrow> 's \<Rightarrow> bool \<times> 's" where
  "too_many get wall key cap window s = apfst (\<lambda>u. u \<ge> cap) (used_in get wall key window s)"

definition clear_window :: "(string \<Rightarrow> 's \<Rightarrow> bool \<times> 's) \<Rightarrow> nat \<Rightarrow> string \<Rightarrow> nat \<Rightarrow> 's \<Rightarrow> 's" where
  "clear_window forget wall key window s =
     (let w = window_millis window; slot = wall div w in snd (forget (counter_key key slot) s))"

subsection \<open>The contract\<close>

text \<open>
  What a key holds at an instant: a live value with its expiry.  The laws say what each operation
  answers and leaves, and that time only takes entries away.
\<close>

locale cache_driver =
  fixes get :: "nat \<Rightarrow> string \<Rightarrow> 's \<Rightarrow> Json option \<times> 's"
    and incr :: "nat \<Rightarrow> string \<Rightarrow> int \<Rightarrow> nat \<Rightarrow> 's \<Rightarrow> int \<times> 's"
    and forget :: "nat \<Rightarrow> string \<Rightarrow> 's \<Rightarrow> bool \<times> 's"
    and view :: "nat \<Rightarrow> 's \<Rightarrow> string \<Rightarrow> (Json \<times> nat option) option"
    and ok :: "'s \<Rightarrow> bool"
  assumes get_value: "ok s \<Longrightarrow> fst (get now k s) = map_option fst (view now s k)"
    and get_view: "ok s \<Longrightarrow> now \<le> t \<Longrightarrow> view t (snd (get now k s)) k' = view t s k'"
    and incr_value: "ok s \<Longrightarrow> fst (incr now k by ttl s) =
      (case view now s k of Some (v, due) \<Rightarrow> wrap_i64 (counter_value (Some v) + by) | None \<Rightarrow> by)"
    and incr_view: "ok s \<Longrightarrow> 0 < ttl \<Longrightarrow> view now (snd (incr now k by ttl s)) k' =
      (if k' = k
       then Some (json_of_int (fst (incr now k by ttl s)),
                  case view now s k of Some (v, due) \<Rightarrow> due | None \<Rightarrow> Some (now + ttl))
       else view now s k')"
    and forget_view: "ok s \<Longrightarrow> view now (snd (forget now k s)) k' = (if k' = k then None else view now s k')"
    and view_later: "now \<le> t \<Longrightarrow> view t s k =
      (case view now s k of
         Some (v, Some due) \<Rightarrow> if due \<le> t then None else Some (v, Some due)
       | x \<Rightarrow> x)"
    and ok_get: "ok s \<Longrightarrow> ok (snd (get now k s))"
    and ok_incr: "ok s \<Longrightarrow> ok (snd (incr now k by ttl s))"
    and ok_forget: "ok s \<Longrightarrow> ok (snd (forget now k s))"

text \<open>
  A run of the limiter: attempts, each at an instant of the driver's clock and a time of the system
  clock, with the same limit and window.
\<close>

fun run_attempts ::
  "(nat \<Rightarrow> string \<Rightarrow> int \<Rightarrow> nat \<Rightarrow> 's \<Rightarrow> int \<times> 's) \<Rightarrow> nat \<Rightarrow> nat \<Rightarrow> (nat \<times> nat \<times> string) list \<Rightarrow> 's \<Rightarrow> RateLimit list" where
  "run_attempts incr cap window [] s = []"
| "run_attempts incr cap window ((inst, wall, key) # xs) s =
     (case attempt (incr inst) wall key cap window s of
        (r, s1) \<Rightarrow> r # run_attempts incr cap window xs s1)"

text \<open>The counter an attempt goes to, and how many attempts of a list went to it.\<close>

definition counter_of :: "nat \<Rightarrow> nat \<times> nat \<times> string \<Rightarrow> string \<times> nat" where
  "counter_of window x = (case x of (inst, wall, key) \<Rightarrow> (key, wall div window_millis window))"

definition hits :: "nat \<Rightarrow> string \<times> nat \<Rightarrow> (nat \<times> nat \<times> string) list \<Rightarrow> nat" where
  "hits window c xs = length (filter (\<lambda>x. counter_of window x = c) xs)"

text \<open>
  The driver's clock never goes back, and while the system clock stays in one window the driver's
  clock advances by less than the window and the second of slack that the limiter adds.
\<close>

definition clocks_ok :: "nat \<Rightarrow> (nat \<times> nat \<times> string) list \<Rightarrow> bool" where
  "clocks_ok window xs \<longleftrightarrow>
     sorted_wrt (\<lambda>x y. fst x \<le> fst y \<and>
       (counter_of window x = counter_of window y \<longrightarrow> fst y < fst x + window_millis window + 1000)) xs"

text \<open>A counter key names one key and one window.\<close>

lemma last_colon:
  "a @ '':'' @ s = b @ '':'' @ t \<Longrightarrow> CHR '':'' \<notin> set s \<Longrightarrow> CHR '':'' \<notin> set t \<Longrightarrow> a = b \<and> s = t"
proof (induction a arbitrary: b)
  case Nil
  then show ?case by (cases b) auto
next
  case (Cons c a)
  then show ?case by (cases b) auto
qed

lemma show_nat_no_colon: "CHR '':'' \<notin> set (show_nat n)"
proof
  assume "CHR '':'' \<in> set (show_nat n)"
  then obtain d where d: "d < 10" "CHR '':'' = digit_char d" using show_nat_digits [of n] by auto
  have "(of_char CHR '':'' :: nat) = 48 + d" unfolding d(2) by (rule of_digit_char [OF d(1)])
  with d(1) show False by simp
qed

lemma counter_key_inj: "counter_key k i = counter_key l j \<Longrightarrow> k = l \<and> i = j"
  using last_colon [of "NAMESPACE @ k" "show_nat i" "NAMESPACE @ l" "show_nat j"] show_nat_no_colon
  by (auto simp: counter_key_def dest: show_nat_inj)

context cache_driver
begin

lemma attempt_result:
  assumes "ok s" and "exact (int n)"
    and "view inst s (counter_key key slot) = (if n = 0 then None else Some (json_of_int (int n), due))"
    and "slot = wall div window_millis window"
  shows "used (fst (attempt (incr inst) wall key cap window s)) = n + 1"
    and "exceeded (fst (attempt (incr inst) wall key cap window s)) \<longleftrightarrow> cap < n + 1"
    and "snd (attempt (incr inst) wall key cap window s) =
      snd (incr inst (counter_key key slot) 1 (window_millis window + 1000) s)"
    and "fst (incr inst (counter_key key slot) 1 (window_millis window + 1000) s) = int n + 1"
proof -
  have c: "counter_value (Some (json_of_int (int n))) = int n"
    using i64_of_json_of_int [OF assms(2)] by (simp add: counter_value_def json_of_int_def)
  have w: "wrap_i64 (int n + 1) = int n + 1"
    using assms(2) by (intro wrap_i64_id) (auto simp: exact_def)
  show f: "fst (incr inst (counter_key key slot) 1 (window_millis window + 1000) s) = int n + 1"
    using incr_value [OF assms(1), of inst "counter_key key slot" 1 "window_millis window + 1000"] assms(3) c w
    by (cases "n = 0") auto
  obtain m s1 where m: "incr inst (counter_key key slot) 1 (window_millis window + 1000) s = (m, s1)"
    by fastforce
  show "used (fst (attempt (incr inst) wall key cap window s)) = n + 1"
    and "exceeded (fst (attempt (incr inst) wall key cap window s)) \<longleftrightarrow> cap < n + 1"
    and "snd (attempt (incr inst) wall key cap window s) =
      snd (incr inst (counter_key key slot) 1 (window_millis window + 1000) s)"
    using f m assms(4) by (auto simp: attempt_def Let_def)
qed

definition tracked :: "'s \<Rightarrow> nat \<Rightarrow> (string \<times> nat \<Rightarrow> nat) \<Rightarrow> nat \<times> nat \<times> string \<Rightarrow> bool" where
  "tracked s window cnt x \<longleftrightarrow>
     (case counter_of window x of (key, slot) \<Rightarrow>
        if cnt (key, slot) = 0 then view (fst x) s (counter_key key slot) = None
        else (\<exists>d. fst x < d \<and>
          view (fst x) s (counter_key key slot) = Some (json_of_int (int (cnt (key, slot))), Some d)))"

lemma tracked_step:
  assumes ok: "ok s" and x: "tracked s window cnt x" and y: "tracked s window cnt y"
    and le: "fst x \<le> fst y"
    and near: "counter_of window x = counter_of window y \<Longrightarrow> fst y < fst x + window_millis window + 1000"
    and cx: "counter_of window x = (key, slot)"
    and ex: "exact (int (cnt (key, slot)))"
    and s1: "s1 = snd (incr (fst x) (counter_key key slot) 1 (window_millis window + 1000) s)"
    and v: "fst (incr (fst x) (counter_key key slot) 1 (window_millis window + 1000) s) = int (cnt (key, slot)) + 1"
  shows "tracked s1 window (cnt((key, slot) := cnt (key, slot) + 1)) y"
proof -
  obtain key' slot' where cy: "counter_of window y = (key', slot')" by fastforce
  have now: "view (fst x) s1 k' = (if k' = counter_key key slot
       then Some (json_of_int (int (cnt (key, slot)) + 1),
                  case view (fst x) s (counter_key key slot) of Some (w, due) \<Rightarrow> due
                  | None \<Rightarrow> Some (fst x + (window_millis window + 1000)))
       else view (fst x) s k')" for k'
    unfolding s1 using incr_view [OF ok, of "window_millis window + 1000" "fst x" "counter_key key slot" 1 k'] v
    by simp
  show ?thesis
  proof (cases "(key', slot') = (key, slot)")
    case same: True
    show ?thesis
    proof (cases "cnt (key, slot) = 0")
      case True
      with x cx have "view (fst x) s (counter_key key slot) = None" by (simp add: tracked_def)
      with True now [of "counter_key key slot"]
      have n: "view (fst x) s1 (counter_key key slot) =
          Some (json_of_int 1, Some (fst x + (window_millis window + 1000)))" by simp
      have "fst y < fst x + (window_millis window + 1000)" using near cx cy same by simp
      with n view_later [OF le, of s1 "counter_key key slot"] True same cy show ?thesis
        by (simp add: tracked_def)
    next
      case False
      with x cx obtain d where d: "view (fst x) s (counter_key key slot) =
          Some (json_of_int (int (cnt (key, slot))), Some d)" by (auto simp: tracked_def)
      with y cy same False view_later [OF le, of s "counter_key key slot"] have "fst y < d"
        by (auto simp: tracked_def split: if_splits)
      with d now [of "counter_key key slot"] view_later [OF le, of s1 "counter_key key slot"] same cy
      show ?thesis by (simp add: tracked_def algebra_simps)
    qed
  next
    case False
    then have "counter_key key' slot' \<noteq> counter_key key slot" using counter_key_inj by blast
    with now have "view (fst x) s1 (counter_key key' slot') = view (fst x) s (counter_key key' slot')"
      by simp
    then have "view (fst y) s1 (counter_key key' slot') = view (fst y) s (counter_key key' slot')"
      using view_later [OF le, of s1 "counter_key key' slot'"] view_later [OF le, of s "counter_key key' slot'"]
      by simp
    with y cy False show ?thesis by (auto simp: tracked_def)
  qed
qed

text \<open>The limiter counts exactly: the attempts of the run so far on the same key and window.\<close>

lemma run_attempts_counts:
  assumes "ok s" and "\<forall>x\<in>set xs. tracked s window cnt x" and "clocks_ok window xs"
    and "\<forall>c. cnt c + length xs \<le> 2 ^ 53"
  shows "length (run_attempts incr cap window xs s) = length xs \<and>
    (\<forall>i<length xs.
       used (run_attempts incr cap window xs s ! i) =
         cnt (counter_of window (xs ! i)) + hits window (counter_of window (xs ! i)) (take (Suc i) xs) \<and>
       (exceeded (run_attempts incr cap window xs s ! i) \<longleftrightarrow>
         cap < used (run_attempts incr cap window xs s ! i)))"
  using assms
proof (induction xs arbitrary: s cnt)
  case Nil
  then show ?case by simp
next
  case (Cons x xs)
  obtain inst wall key where x: "x = (inst, wall, key)" by (cases x) auto
  define slot where "slot = wall div window_millis window"
  define c where "c = (key, slot)"
  have cx: "counter_of window x = (key, slot)" by (simp add: counter_of_def x slot_def)
  have le: "cnt (key, slot) + length (x # xs) \<le> 2 ^ 53" using Cons.prems(4) by blast
  then have ex: "exact (int (cnt (key, slot)))" by (simp add: exact_def)
  have "tracked s window cnt x" using Cons.prems(2) by simp
  then obtain due where v: "view inst s (counter_key key slot) =
      (if cnt (key, slot) = 0 then None else Some (json_of_int (int (cnt (key, slot))), due))"
    using cx by (auto simp: tracked_def x split: if_splits)
  define s1 where "s1 = snd (incr inst (counter_key key slot) 1 (window_millis window + 1000) s)"
  define cnt1 where "cnt1 = cnt((key, slot) := cnt (key, slot) + 1)"
  note r = attempt_result [OF Cons.prems(1) ex v slot_def]
  have tr: "\<forall>y\<in>set xs. tracked s1 window cnt1 y"
  proof
    fix y assume y: "y \<in> set xs"
    have c: "fst x \<le> fst y"
      "counter_of window x = counter_of window y \<Longrightarrow> fst y < fst x + window_millis window + 1000"
      using Cons.prems(3) y by (auto simp: clocks_ok_def)
    show "tracked s1 window cnt1 y" unfolding cnt1_def
    proof (rule tracked_step [where x = x and s = s and cnt = cnt, OF Cons.prems(1) _ _ c(1) c(2) cx ex])
      show "tracked s window cnt x" "tracked s window cnt y" using Cons.prems(2) y by simp_all
    qed (use r(4) in \<open>simp_all add: x s1_def\<close>)
  qed
  have ih: "length (run_attempts incr cap window xs s1) = length xs \<and>
    (\<forall>i<length xs.
       used (run_attempts incr cap window xs s1 ! i) =
         cnt1 (counter_of window (xs ! i)) + hits window (counter_of window (xs ! i)) (take (Suc i) xs) \<and>
       (exceeded (run_attempts incr cap window xs s1 ! i) \<longleftrightarrow>
         cap < used (run_attempts incr cap window xs s1 ! i)))"
  proof (rule Cons.IH [OF _ tr])
    show "ok s1" unfolding s1_def by (rule ok_incr [OF Cons.prems(1)])
    show "clocks_ok window xs" using Cons.prems(3) by (simp add: clocks_ok_def)
    show "\<forall>c. cnt1 c + length xs \<le> 2 ^ 53"
    proof
      fix c show "cnt1 c + length xs \<le> 2 ^ 53" using spec [OF Cons.prems(4), of c] by (auto simp: cnt1_def)
    qed
  qed
  have run: "run_attempts incr cap window (x # xs) s =
      fst (attempt (incr inst) wall key cap window s) # run_attempts incr cap window xs s1"
    using r(3) [of cap] by (cases "attempt (incr inst) wall key cap window s") (simp add: x s1_def)
  show ?case
  proof (intro conjI allI impI)
    show "length (run_attempts incr cap window (x # xs) s) = length (x # xs)" using ih by (simp add: run)
  next
    fix i assume i: "i < length (x # xs)"
    show "used (run_attempts incr cap window (x # xs) s ! i) =
         cnt (counter_of window ((x # xs) ! i)) + hits window (counter_of window ((x # xs) ! i)) (take (Suc i) (x # xs))"
    proof (cases i)
      case 0
      then show ?thesis using r(1) cx by (simp add: run hits_def)
    next
      case (Suc j)
      with i ih show ?thesis by (simp add: run hits_def cnt1_def cx)
    qed
    show "exceeded (run_attempts incr cap window (x # xs) s ! i) \<longleftrightarrow>
         cap < used (run_attempts incr cap window (x # xs) s ! i)"
      using i ih r(1,2) by (cases i) (simp_all add: run)
  qed
qed

end

subsection \<open>The memory store keeps the contract\<close>

text \<open>A live entry under a full key, and under a caller's key.\<close>

definition live :: "(string \<Rightarrow> nat) \<Rightarrow> nat \<Rightarrow> MemoryStore \<Rightarrow> string \<Rightarrow> (Json \<times> nat option) option" where
  "live hash now s full =
     (case map_of (shards s ! shard_of hash full) full of
        None \<Rightarrow> None
      | Some e \<Rightarrow> if is_expired e now then None else Some (cached e, expires_at e))"

definition cache_view :: "(string \<Rightarrow> nat) \<Rightarrow> nat \<Rightarrow> MemoryStore \<Rightarrow> string \<Rightarrow> (Json \<times> nat option) option" where
  "cache_view hash now s key = live hash now s (prefixed (prefix s) key)"

text \<open>Every key is in the shard its hash names, once.\<close>

definition store_ok :: "(string \<Rightarrow> nat) \<Rightarrow> MemoryStore \<Rightarrow> bool" where
  "store_ok hash s \<longleftrightarrow> length (shards s) = SHARDS \<and>
     (\<forall>i<SHARDS. distinct (map fst (shards s ! i)) \<and>
        (\<forall>k\<in>fst ` set (shards s ! i). shard_of hash k = i))"

lemma prefixed_eq [simp]: "prefixed p key = p @ key"
  by (simp add: prefixed_def)

lemma shard_bound [simp]: "shard_of hash k < SHARDS"
  by (simp add: shard_of_def SHARDS_def)

lemma store_ok_length: "store_ok hash s \<Longrightarrow> length (shards s) = SHARDS"
  by (simp add: store_ok_def)

lemma store_ok_set:
  assumes "store_ok hash s" and "i < SHARDS" and "distinct (map fst m)"
    and "\<And>k. k \<in> fst ` set m \<Longrightarrow> shard_of hash k = i"
  shows "store_ok hash (s\<lparr>shards := (shards s)[i := m]\<rparr>)"
  using assms by (auto simp: store_ok_def nth_list_update)

lemma store_ok_shard:
  assumes "store_ok hash s"
  shows "distinct (map fst (shards s ! shard_of hash k))"
    and "k' \<in> fst ` set (shards s ! shard_of hash k) \<Longrightarrow> shard_of hash k' = shard_of hash k"
  using assms shard_bound [of hash k] unfolding store_ok_def by blast+

lemma store_ok_update:
  assumes "store_ok hash s"
  shows "store_ok hash (s\<lparr>shards := (shards s)[shard_of hash k := AList.update k e (shards s ! shard_of hash k)]\<rparr>)"
proof (rule store_ok_set [OF assms shard_bound])
  show "distinct (map fst (AList.update k e (shards s ! shard_of hash k)))"
    using store_ok_shard(1) [OF assms] by (rule distinct_update)
  fix k' assume "k' \<in> fst ` set (AList.update k e (shards s ! shard_of hash k))"
  then have "k' = k \<or> k' \<in> fst ` set (shards s ! shard_of hash k)" by (simp add: dom_update)
  with store_ok_shard(2) [OF assms] show "shard_of hash k' = shard_of hash k" by blast
qed

lemma store_ok_delete:
  assumes "store_ok hash s"
  shows "store_ok hash (s\<lparr>shards := (shards s)[shard_of hash k := AList.delete k (shards s ! shard_of hash k)]\<rparr>)"
proof (rule store_ok_set [OF assms shard_bound])
  show "distinct (map fst (AList.delete k (shards s ! shard_of hash k)))"
    using store_ok_shard(1) [OF assms] by (rule distinct_delete)
  fix k' assume "k' \<in> fst ` set (AList.delete k (shards s ! shard_of hash k))"
  then have "k' \<in> fst ` set (shards s ! shard_of hash k)" using dom_delete_subset by fast
  with store_ok_shard(2) [OF assms] show "shard_of hash k' = shard_of hash k" by blast
qed

lemma live_set:
  assumes "length (shards s) = SHARDS"
  shows "live hash now (s\<lparr>shards := (shards s)[shard_of hash k := m]\<rparr>) k' =
    (if shard_of hash k' = shard_of hash k
     then (case map_of m k' of None \<Rightarrow> None | Some e \<Rightarrow> if is_expired e now then None else Some (cached e, expires_at e))
     else live hash now s k')"
  using assms by (simp add: live_def nth_list_update)

lemma live_update:
  assumes "length (shards s) = SHARDS"
  shows "live hash now (s\<lparr>shards := (shards s)[shard_of hash k := AList.update k e (shards s ! shard_of hash k)]\<rparr>) k' =
    (if k' = k then (if is_expired e now then None else Some (cached e, expires_at e)) else live hash now s k')"
  unfolding live_set [OF assms] by (simp add: live_def update_conv')

lemma live_delete:
  assumes "length (shards s) = SHARDS"
  shows "live hash now (s\<lparr>shards := (shards s)[shard_of hash k := AList.delete k (shards s ! shard_of hash k)]\<rparr>) k' =
    (if k' = k then None else live hash now s k')"
  unfolding live_set [OF assms] by (simp add: live_def delete_conv')

lemma live_later:
  assumes "now \<le> t"
  shows "live hash t s k =
    (case live hash now s k of
       Some (v, Some due) \<Rightarrow> if due \<le> t then None else Some (v, Some due)
     | x \<Rightarrow> x)"
  using assms by (auto simp: live_def is_expired_def split: option.splits)

lemmas live_simps = live_update live_delete
lemmas store_ok_simps = store_ok_update store_ok_delete

lemma map_of_filter_live:
  "distinct (map fst m) \<Longrightarrow> map_of (filter (\<lambda>(_, e). \<not> is_expired e now) m) k =
      (case map_of m k of None \<Rightarrow> None | Some e \<Rightarrow> if is_expired e now then None else Some e)"
proof (induction m)
  case Nil
  then show ?case by simp
next
  case (Cons p m)
  have "k \<notin> fst ` set m \<Longrightarrow> map_of (filter (\<lambda>(_, e). \<not> is_expired e now) m) k = None"
    by (auto simp: map_of_eq_None_iff)
  with Cons show ?case by (cases p) auto
qed

lemma live_sweep:
  assumes "store_ok hash s" and "now \<le> t"
  shows "live hash t (sweep_store now s) k = live hash t s k"
proof -
  have i: "shard_of hash k < length (shards s)" using store_ok_length [OF assms(1)] by simp
  have e: "is_expired e t" if "is_expired e now" for e
    using that assms(2) by (auto simp: is_expired_def split: option.splits)
  show ?thesis
    using i e map_of_filter_live [OF store_ok_shard(1) [OF assms(1)], of now k k]
    by (auto simp: live_def sweep_store_def split: option.splits if_splits)
qed

lemma store_ok_sweep: "store_ok hash s \<Longrightarrow> store_ok hash (sweep_store now s)"
  by (auto simp: store_ok_def sweep_store_def distinct_map inj_on_def filter_is_subset)

lemma read_step:
  assumes "store_ok hash s"
  shows "fst (read_key hash now k s) = map_option fst (live hash now s k)"
    and "now \<le> t \<Longrightarrow> live hash t (snd (read_key hash now k s)) k' = live hash t s k'"
    and "store_ok hash (snd (read_key hash now k s))"
    and "prefix (snd (read_key hash now k s)) = prefix s"
proof -
  note len = store_ok_length [OF assms]
  consider (absent) "map_of (shards s ! shard_of hash k) k = None"
    | (fresh) e where "map_of (shards s ! shard_of hash k) k = Some e" "\<not> is_expired e now"
    | (stale) e where "map_of (shards s ! shard_of hash k) k = Some e" "is_expired e now"
    by (cases "map_of (shards s ! shard_of hash k) k") auto
  note defs = read_key_def read_fast_def read_evict_def Let_def
  show "fst (read_key hash now k s) = map_option fst (live hash now s k)"
    by (auto simp: defs live_def split: option.splits)
  show "store_ok hash (snd (read_key hash now k s))"
    using assms by (auto simp: defs store_ok_simps split: option.splits)
  show "prefix (snd (read_key hash now k s)) = prefix s"
    by (auto simp: defs split: option.splits)
  assume t: "now \<le> t"
  have "live hash t s k = None" if "map_of (shards s ! shard_of hash k) k = Some e" "is_expired e now" for e
    using that t by (auto simp: live_def is_expired_def split: option.splits)
  then show "live hash t (snd (read_key hash now k s)) k' = live hash t s k'"
    by (auto simp: defs live_delete [OF len] split: option.splits)
qed

lemma write_step:
  assumes "store_ok hash s"
  shows "live hash now (write_key hash k v due s) k' =
      (if k' = k then (case due of Some d \<Rightarrow> if d \<le> now then None else Some (v, due) | None \<Rightarrow> Some (v, due))
       else live hash now s k')"
    and "store_ok hash (write_key hash k v due s)"
    and "prefix (write_key hash k v due s) = prefix s"
  using assms
  by (auto simp: write_key_def Let_def live_update [OF store_ok_length] is_expired_def store_ok_simps split: option.split)

lemma remove_step:
  assumes "store_ok hash s"
  shows "fst (remove_key hash now k s) \<longleftrightarrow> live hash now s k \<noteq> None"
    and "live hash t (snd (remove_key hash now k s)) k' = (if k' = k then None else live hash t s k')"
    and "store_ok hash (snd (remove_key hash now k s))"
    and "prefix (snd (remove_key hash now k s)) = prefix s"
proof -
  show "fst (remove_key hash now k s) \<longleftrightarrow> live hash now s k \<noteq> None"
    by (simp add: remove_key_def Let_def live_def split: option.split)
qed (use assms in \<open>simp_all add: remove_key_def Let_def live_delete [OF store_ok_length] store_ok_simps\<close>)

lemma bump_step:
  assumes "store_ok hash s"
  shows "fst (bump hash now k by ttl s) =
      (case live hash now s k of Some (v, due) \<Rightarrow> wrap_i64 (counter_value (Some v) + by) | None \<Rightarrow> by)"
    and "ttl \<noteq> Some 0 \<Longrightarrow> live hash now (snd (bump hash now k by ttl s)) k' =
      (if k' = k
       then Some (json_of_int (fst (bump hash now k by ttl s)),
                  case live hash now s k of Some (v, due) \<Rightarrow> due | None \<Rightarrow> map_option ((+) now) ttl)
       else live hash now s k')"
    and "store_ok hash (snd (bump hash now k by ttl s))"
    and "prefix (snd (bump hash now k by ttl s)) = prefix s"
proof -
  note len = store_ok_length [OF assms]
  show "fst (bump hash now k by ttl s) =
      (case live hash now s k of Some (v, due) \<Rightarrow> wrap_i64 (counter_value (Some v) + by) | None \<Rightarrow> by)"
    by (auto simp: bump_def Let_def live_def split: option.split)
  show "store_ok hash (snd (bump hash now k by ttl s))"
    using assms by (auto simp: bump_def Let_def store_ok_simps write_step(2) split: option.split)
  show "prefix (snd (bump hash now k by ttl s)) = prefix s"
    using assms by (auto simp: bump_def Let_def write_step(3) split: option.split)
  assume "ttl \<noteq> Some 0"
  then show "live hash now (snd (bump hash now k by ttl s)) k' =
      (if k' = k
       then Some (json_of_int (fst (bump hash now k by ttl s)),
                  case live hash now s k of Some (v, due) \<Rightarrow> due | None \<Rightarrow> map_option ((+) now) ttl)
       else live hash now s k')"
  proof (cases "map_of (shards s ! shard_of hash k) k")
    case None
    then have "live hash now s k = None" by (simp add: live_def)
    with None \<open>ttl \<noteq> Some 0\<close> show ?thesis
      by (auto simp: bump_def Let_def write_step(1) [OF assms] split: option.split)
  next
    case (Some e)
    show ?thesis
    proof (cases "is_expired e now")
      case True
      with Some have "live hash now s k = None" by (simp add: live_def)
      with Some True \<open>ttl \<noteq> Some 0\<close> show ?thesis
        by (auto simp: bump_def Let_def write_step(1) [OF assms] split: option.split)
    next
      case False
      with Some have "live hash now s k = Some (cached e, expires_at e)" by (simp add: live_def)
      moreover have "\<not> is_expired (e\<lparr>cached := x\<rparr>) now" for x using False by (simp add: is_expired_def)
      ultimately show ?thesis using Some False by (simp add: bump_def Let_def live_update [OF len])
    qed
  qed
qed

interpretation memory: cache_driver "cache_get hash" "increment_within hash" "cache_forget hash"
  "cache_view hash" "store_ok hash" for hash
proof
  fix s :: MemoryStore and now t ttl :: nat and k k' and n :: int
  assume ok: "store_ok hash s"
  show "fst (cache_get hash now k s) = map_option fst (cache_view hash now s k)"
    by (simp add: cache_get_def cache_view_def read_step(1) [OF ok])
  show "fst (increment_within hash now k n ttl s) =
      (case cache_view hash now s k of Some (v, due) \<Rightarrow> wrap_i64 (counter_value (Some v) + n) | None \<Rightarrow> n)"
    by (simp add: increment_within_def cache_view_def bump_step(1) [OF ok])
  show "cache_view hash now (snd (cache_forget hash now k s)) k' = (if k' = k then None else cache_view hash now s k')"
    by (simp add: cache_forget_def cache_view_def remove_step [OF ok])
  show "store_ok hash (snd (cache_get hash now k s))" by (simp add: cache_get_def read_step(3) [OF ok])
  show "store_ok hash (snd (increment_within hash now k n ttl s))"
    by (simp add: increment_within_def bump_step(3) [OF ok])
  show "store_ok hash (snd (cache_forget hash now k s))" by (simp add: cache_forget_def remove_step(3) [OF ok])
  show "cache_view hash now (snd (increment_within hash now k n ttl s)) k' =
      (if k' = k
       then Some (json_of_int (fst (increment_within hash now k n ttl s)),
                  case cache_view hash now s k of Some (v, due) \<Rightarrow> due | None \<Rightarrow> Some (now + ttl))
       else cache_view hash now s k')" if "0 < ttl"
    using that by (simp add: increment_within_def cache_view_def bump_step [OF ok] split: option.split)
  show "cache_view hash t (snd (cache_get hash now k s)) k' = cache_view hash t s k'" if "now \<le> t"
    using that by (simp add: cache_get_def cache_view_def read_step [OF ok])
next
  fix s :: MemoryStore and now t :: nat and k
  assume "now \<le> t"
  then show "cache_view hash t s k =
      (case cache_view hash now s k of
         Some (v, Some due) \<Rightarrow> if due \<le> t then None else Some (v, Some due)
       | x \<Rightarrow> x)"
    unfolding cache_view_def by (rule live_later)
qed

subsection \<open>What a caller sees\<close>

lemma fresh_store: "store_ok hash (with_prefix p)" "cache_view hash now (with_prefix p) k = None"
proof -
  have "shards (with_prefix p) ! i = []" if "i < SHARDS" for i
    using that by (simp add: with_prefix_def)
  then show "store_ok hash (with_prefix p)" "cache_view hash now (with_prefix p) k = None"
    by (simp_all add: store_ok_def cache_view_def live_def) (simp add: with_prefix_def)
qed

text \<open>
  C14: the in-memory store is a map from keys to values with an expiry.  At any instant, \<open>get\<close>
  answers the live value and changes nothing that is alive then or later; \<open>put\<close> stores under its
  key until its time to live is over, and removes the key when that is zero; \<open>forever\<close>, \<open>forget\<close>,
  \<open>flush\<close> and \<open>sweep\<close> do what they say, to the given key alone or to all; \<open>increment\<close> adds to the
  number there, keeping its expiry, and starts a key that is absent or expired without one.
\<close>

theorem cache_is_expiring_map:
  assumes "store_ok hash s"
  shows
    "fst (cache_get hash now k s) = map_option fst (cache_view hash now s k) \<and>
     (\<forall>t\<ge>now. cache_view hash t (snd (cache_get hash now k s)) = cache_view hash t s) \<and>
     (\<forall>t\<ge>now. cache_view hash t (cache_put hash now k v ttl s) =
        (if ttl = 0 then (cache_view hash t s)(k := None)
         else (cache_view hash t s)(k := (if t < now + ttl then Some (v, Some (now + ttl)) else None)))) \<and>
     (\<forall>t. cache_view hash t (cache_forever hash k v s) = (cache_view hash t s)(k \<mapsto> (v, None))) \<and>
     (fst (cache_forget hash now k s) \<longleftrightarrow> cache_view hash now s k \<noteq> None) \<and>
     (\<forall>t. cache_view hash t (snd (cache_forget hash now k s)) = (cache_view hash t s)(k := None)) \<and>
     (\<forall>t. cache_view hash t (cache_flush s) = Map.empty) \<and>
     (\<forall>t\<ge>now. cache_view hash t (sweep_store now s) = cache_view hash t s) \<and>
     (case cache_view hash now s k of
        None \<Rightarrow> fst (cache_increment hash now k n s) = n \<and>
          cache_view hash now (snd (cache_increment hash now k n s)) = (cache_view hash now s)(k \<mapsto> (json_of_int n, None))
      | Some (w, due) \<Rightarrow>
          let m = wrap_i64 (counter_value (Some w) + n) in
          fst (cache_increment hash now k n s) = m \<and>
          cache_view hash now (snd (cache_increment hash now k n s)) = (cache_view hash now s)(k \<mapsto> (json_of_int m, due))) \<and>
     cache_ttl hash now k s =
       (case cache_view hash now s k of Some (w, Some due) \<Rightarrow> Some (due - now) | _ \<Rightarrow> None)"
proof -
  note ok = assms
  have flush: "shards (cache_flush s) ! i = []" if "i < SHARDS" for i
    using that store_ok_length [OF ok] by (simp add: cache_flush_def)
  have get: "fst (cache_get hash now k s) = map_option fst (cache_view hash now s k)"
    by (rule memory.get_value [OF ok])
  have get_later: "\<forall>t\<ge>now. cache_view hash t (snd (cache_get hash now k s)) = cache_view hash t s"
    using memory.get_view [OF ok] by blast
  have put: "\<forall>t\<ge>now. cache_view hash t (cache_put hash now k v ttl s) =
        (if ttl = 0 then (cache_view hash t s)(k := None)
         else (cache_view hash t s)(k := (if t < now + ttl then Some (v, Some (now + ttl)) else None)))"
    by (auto simp: cache_view_def cache_put_def Let_def remove_step [OF ok] write_step [OF ok])
  have forever: "\<forall>t. cache_view hash t (cache_forever hash k v s) = (cache_view hash t s)(k \<mapsto> (v, None))"
    by (auto simp: cache_view_def cache_forever_def write_step [OF ok])
  have forget: "fst (cache_forget hash now k s) \<longleftrightarrow> cache_view hash now s k \<noteq> None"
    by (simp add: cache_view_def cache_forget_def remove_step [OF ok])
  have forget_view: "\<forall>t. cache_view hash t (snd (cache_forget hash now k s)) = (cache_view hash t s)(k := None)"
    by (auto simp: cache_view_def cache_forget_def remove_step [OF ok])
  have "\<forall>t. cache_view hash t (cache_flush s) = Map.empty"
    by (auto simp: cache_view_def live_def flush)
  moreover have "\<forall>t\<ge>now. cache_view hash t (sweep_store now s) = cache_view hash t s"
    by (auto simp: cache_view_def live_sweep [OF ok] fun_eq_iff) (simp_all add: sweep_store_def)
  moreover have "case cache_view hash now s k of
        None \<Rightarrow> fst (cache_increment hash now k n s) = n \<and>
          cache_view hash now (snd (cache_increment hash now k n s)) = (cache_view hash now s)(k \<mapsto> (json_of_int n, None))
      | Some (w, due) \<Rightarrow>
          let m = wrap_i64 (counter_value (Some w) + n) in
          fst (cache_increment hash now k n s) = m \<and>
          cache_view hash now (snd (cache_increment hash now k n s)) = (cache_view hash now s)(k \<mapsto> (json_of_int m, due))"
    by (simp add: cache_increment_def cache_view_def bump_step [OF ok] fun_eq_iff split: option.split)
  moreover have "cache_ttl hash now k s =
       (case cache_view hash now s k of Some (w, Some due) \<Rightarrow> Some (due - now) | _ \<Rightarrow> None)"
    by (simp add: cache_ttl_def cache_view_def live_def Let_def split: option.split)
  ultimately show ?thesis using get get_later put forever forget forget_view by blast
qed

text \<open>The number of live entries.\<close>

lemma sum_filter_count:
  assumes "\<And>i. i < length ms \<Longrightarrow> distinct (map fst (ms ! i))"
    and "\<And>i j. i < length ms \<Longrightarrow> j < length ms \<Longrightarrow> i \<noteq> j \<Longrightarrow> fst ` set (ms ! i) \<inter> fst ` set (ms ! j) = {}"
  shows "(\<Sum>m\<leftarrow>ms. length (filter P m)) = card (\<Union>m\<in>set ms. fst ` {x \<in> set m. P x})"
  using assms
proof (induction ms)
  case Nil
  then show ?case by simp
next
  case (Cons m ms)
  have "card (fst ` {x \<in> set m. P x}) = length (filter P m)"
  proof -
    have "distinct (map fst (filter P m))" using Cons.prems(1) [of 0] by (simp add: distinct_map_filter)
    from distinct_card [OF this] show ?thesis by simp
  qed
  moreover have "fst ` {x \<in> set m. P x} \<inter> (\<Union>m\<in>set ms. fst ` {x \<in> set m. P x}) = {}"
  proof -
    have "fst ` set m \<inter> fst ` set m' = {}" if m': "m' \<in> set ms" for m'
    proof -
      obtain j where "j < length ms" "ms ! j = m'" using m' unfolding in_set_conv_nth by blast
      then show ?thesis using Cons.prems(2) [of 0 "Suc j"] by simp
    qed
    then show ?thesis by fastforce
  qed
  moreover have "(\<Sum>m\<leftarrow>ms. length (filter P m)) = card (\<Union>m\<in>set ms. fst ` {x \<in> set m. P x})"
  proof (rule Cons.IH)
    show "distinct (map fst (ms ! i))" if "i < length ms" for i using that Cons.prems(1) [of "Suc i"] by simp
    show "fst ` set (ms ! i) \<inter> fst ` set (ms ! j) = {}" if "i < length ms" "j < length ms" "i \<noteq> j" for i j
      using that Cons.prems(2) [of "Suc i" "Suc j"] by simp
  qed
  ultimately show ?case by (simp add: card_Un_disjoint)
qed

lemma live_count_card:
  assumes "store_ok hash s"
  shows "live_count now s = card (dom (live hash now s))"
proof -
  note len = store_ok_length [OF assms]
  have home: "shard_of hash k = i" if "i < SHARDS" "k \<in> fst ` set (shards s ! i)" for i k
    using assms that unfolding store_ok_def by blast
  have "live_count now s = card (\<Union>m\<in>set (shards s). fst ` {x \<in> set m. case x of (_, e) \<Rightarrow> \<not> is_expired e now})"
    unfolding live_count_def
  proof (rule sum_filter_count)
    show "distinct (map fst (shards s ! i))" if "i < length (shards s)" for i
      using assms that by (simp add: store_ok_def)
    show "fst ` set (shards s ! i) \<inter> fst ` set (shards s ! j) = {}"
      if "i < length (shards s)" "j < length (shards s)" "i \<noteq> j" for i j
      using home [of i] home [of j] that unfolding len by blast
  qed
  also have "(\<Union>m\<in>set (shards s). fst ` {x \<in> set m. case x of (_, e) \<Rightarrow> \<not> is_expired e now}) = dom (live hash now s)"
  proof (intro set_eqI iffI)
    fix k assume "k \<in> (\<Union>m\<in>set (shards s). fst ` {x \<in> set m. case x of (_, e) \<Rightarrow> \<not> is_expired e now})"
    then obtain i e where i: "i < SHARDS" "(k, e) \<in> set (shards s ! i)" "\<not> is_expired e now"
      using len by (fastforce simp: in_set_conv_nth)
    then have h: "shard_of hash k = i" using home [of i k] by force
    then have "map_of (shards s ! i) k = Some e"
      using i(2) store_ok_shard(1) [OF assms, of k] by (simp add: map_of_eq_Some_iff)
    with i(3) h show "k \<in> dom (live hash now s)" by (simp add: live_def dom_def)
  next
    fix k assume "k \<in> dom (live hash now s)"
    then obtain e where e: "map_of (shards s ! shard_of hash k) k = Some e" "\<not> is_expired e now"
      by (auto simp: live_def dom_def split: option.splits if_splits)
    then have "(k, e) \<in> set (shards s ! shard_of hash k)" by (blast dest: map_of_SomeD)
    moreover have "shards s ! shard_of hash k \<in> set (shards s)" using len by simp
    ultimately show "k \<in> (\<Union>m\<in>set (shards s). fst ` {x \<in> set m. case x of (_, e) \<Rightarrow> \<not> is_expired e now})"
      using e(2) by force
  qed
  finally show ?thesis .
qed

text \<open>
  the background sweep removes exactly what has expired: afterwards every stored entry is
  alive, nothing that was alive is gone, and \<open>len\<close> counts the live keys, before and after.
\<close>

theorem cache_sweep_exact:
  assumes "store_ok hash s"
  shows "store_ok hash (sweep_store now s) \<and>
    live hash now (sweep_store now s) = live hash now s \<and>
    live_count now s = card (dom (live hash now s)) \<and>
    (\<Sum>m\<leftarrow>shards (sweep_store now s). length m) = live_count now s"
proof -
  have "live hash now (sweep_store now s) = live hash now s"
    using live_sweep [OF assms order_refl] by blast
  moreover have "(\<Sum>m\<leftarrow>shards (sweep_store now s). length m) = live_count now s"
    by (simp add: sweep_store_def live_count_def comp_def)
  ultimately show ?thesis using store_ok_sweep [OF assms] live_count_card [OF assms] by blast
qed

lemma count_prefixes:
  "length (filter (\<lambda>i. P (xs ! i) \<and> length (filter P (take (Suc i) xs)) \<le> n) [0..<length xs]) =
   min n (length (filter P xs))"
proof (induction xs rule: rev_induct)
  case Nil
  then show ?case by simp
next
  case (snoc x xs)
  have eq: "filter (\<lambda>i. P ((xs @ [x]) ! i) \<and> length (filter P (take (Suc i) (xs @ [x]))) \<le> n) [0..<length xs] =
      filter (\<lambda>i. P (xs ! i) \<and> length (filter P (take (Suc i) xs)) \<le> n) [0..<length xs]"
    by (rule filter_cong) (auto simp: nth_append)
  have up: "[0..<length (xs @ [x])] = [0..<length xs] @ [length xs]" by simp
  show ?case unfolding up unfolding filter_append eq unfolding length_append snoc by simp
qed

text \<open>
  C13: the limiter over the in-memory store counts exactly.  In a run of at most \<open>2 ^ 53\<close> attempts
  from a fresh store, in which the store's clock never goes back and moves by less than the window
  and a second while the system clock stays in one window, the \<open>used\<close> reported for an attempt is the
  number of attempts so far on its key in its window, itself included, however many other keys
  and windows are in use in between; it is refused exactly when that is above the limit; and the
  attempts let through in a window are as many as were made, up to the limit.
\<close>

theorem rate_limit_exact:
  assumes "clocks_ok window xs" and "length xs \<le> 2 ^ 53"
    and "rs = run_attempts (increment_within hash) cap window xs (with_prefix p)"
  shows "length rs = length xs \<and>
    (\<forall>i<length xs. used (rs ! i) = hits window (counter_of window (xs ! i)) (take (Suc i) xs)) \<and>
    (\<forall>i<length xs. exceeded (rs ! i) \<longleftrightarrow> cap < used (rs ! i)) \<and>
    (\<forall>c. length (filter (\<lambda>i. counter_of window (xs ! i) = c \<and> \<not> exceeded (rs ! i)) [0..<length xs]) =
       min cap (hits window c xs))"
proof -
  have "\<forall>x\<in>set xs. memory.tracked hash (with_prefix p) window (\<lambda>c. 0) x"
    using fresh_store(2) by (simp add: memory.tracked_def split: prod.split)
  from memory.run_attempts_counts [OF fresh_store(1) this assms(1), of cap] assms(2,3)
  have r: "length rs = length xs"
    "\<And>i. i < length xs \<Longrightarrow> used (rs ! i) = hits window (counter_of window (xs ! i)) (take (Suc i) xs)"
    "\<And>i. i < length xs \<Longrightarrow> exceeded (rs ! i) \<longleftrightarrow> cap < used (rs ! i)"
    by simp_all
  have "length (filter (\<lambda>i. counter_of window (xs ! i) = c \<and> \<not> exceeded (rs ! i)) [0..<length xs]) =
       min cap (hits window c xs)" for c
  proof -
    have "filter (\<lambda>i. counter_of window (xs ! i) = c \<and> \<not> exceeded (rs ! i)) [0..<length xs] =
      filter (\<lambda>i. counter_of window (xs ! i) = c \<and>
        length (filter (\<lambda>x. counter_of window x = c) (take (Suc i) xs)) \<le> cap) [0..<length xs]"
      by (rule filter_cong) (auto simp: r hits_def)
    then show ?thesis using count_prefixes [of "\<lambda>x. counter_of window x = c" xs cap]
      by (simp add: hits_def)
  qed
  with r show ?thesis by blast
qed

theorem rate_limit_exact_witness:
  "length (run_attempts (increment_within length) 1 60000
      [(0, 59000, ''ada''), (10, 59010, ''bob''), (20, 59020, ''ada'')] (with_prefix [])) = 3 \<and>
   exceeded (run_attempts (increment_within length) 1 60000
      [(0, 59000, ''ada''), (10, 59010, ''bob''), (20, 59020, ''ada'')] (with_prefix []) ! 2)"
proof -
  have c: "clocks_ok 60000 [(0, 59000, ''ada''), (10, 59010, ''bob''), (20, 59020, ''ada'')]"
    by (simp add: clocks_ok_def counter_of_def window_millis_def)
  have h: "hits 60000 (counter_of 60000 (20, 59020, ''ada''))
      [(0, 59000, ''ada''), (10, 59010, ''bob''), (20, 59020, ''ada'')] = 2"
    by (simp add: hits_def counter_of_def window_millis_def)
  have two: "2 < length [(0 :: nat, 59000 :: nat, ''ada''), (10, 59010, ''bob''), (20, 59020, ''ada'')]" by simp
  have n: "[(0 :: nat, 59000 :: nat, ''ada''), (10, 59010, ''bob''), (20, 59020, ''ada'')] ! 2 = (20, 59020, ''ada'')"
    "take (Suc 2) [(0 :: nat, 59000 :: nat, ''ada''), (10, 59010, ''bob''), (20, 59020, ''ada'')] =
      [(0, 59000, ''ada''), (10, 59010, ''bob''), (20, 59020, ''ada'')]"
    by simp_all
  have len: "length [(0 :: nat, 59000 :: nat, ''ada''), (10, 59010, ''bob''), (20, 59020, ''ada'')] \<le> 2 ^ 53" by simp
  note r = rate_limit_exact [OF c len refl, of length 1 "[]"]
  have "used (run_attempts (increment_within length) 1 60000
      [(0, 59000, ''ada''), (10, 59010, ''bob''), (20, 59020, ''ada'')] (with_prefix []) ! 2) = 2"
    using r [THEN conjunct2, THEN conjunct1, rule_format, OF two] unfolding n h .
  moreover have "length [(0 :: nat, 59000 :: nat, ''ada''), (10, 59010, ''bob''), (20, 59020, ''ada'')] = 3" by simp
  ultimately show ?thesis
    using r [THEN conjunct1] r [THEN conjunct2, THEN conjunct2, THEN conjunct1, rule_format, OF two]
    by (metis one_less_numeral_iff semiring_norm(76))
qed

theorem cache_is_expiring_map_witness:
  "fst (cache_get length 5 ''k'' (cache_put length 0 ''k'' (Bool True) 10 (with_prefix ''p:''))) = Some (Bool True)"
proof -
  have ok: "store_ok length (with_prefix ''p:'')" by (rule fresh_store)
  have "store_ok length (cache_put length 0 ''k'' (Bool True) 10 (with_prefix ''p:''))"
    using write_step(2) [OF ok] by (simp add: cache_put_def Let_def)
  from cache_is_expiring_map [OF this, of 5 "''k''"] cache_is_expiring_map [OF ok, of 0 "''k''" "Bool True" 10]
  show ?thesis by simp
qed

theorem cache_sweep_exact_witness:
  "live_count 20 (sweep_store 20 (cache_put length 0 ''k'' (Bool True) 10 (with_prefix []))) = 0"
proof -
  have ok: "store_ok length (with_prefix [])" by (rule fresh_store)
  have o2: "store_ok length (cache_put length 0 ''k'' (Bool True) 10 (with_prefix []))"
    using write_step(2) [OF ok] by (simp add: cache_put_def Let_def)
  have "live length 20 (with_prefix []) k = None" for k
    using fresh_store(2) [of length 20 "[]" k] by (simp add: cache_view_def with_prefix_def)
  then have "live length 20 (cache_put length 0 ''k'' (Bool True) 10 (with_prefix [])) = Map.empty"
    by (simp add: cache_put_def Let_def write_step(1) [OF ok] fun_eq_iff)
  with cache_sweep_exact [OF o2, of 20] cache_sweep_exact [of length "sweep_store 20 (cache_put length 0 ''k'' (Bool True) 10 (with_prefix []))" 20]
  show ?thesis by simp
qed

end
