(* ===== verification/Breaker.thy ===== *)
theory Breaker
  imports Float64
begin

section \<open>The circuit breaker\<close>

text \<open>
  \<open>rustlavel-client/src/breaker.rs\<close>.  Instants and durations are natural numbers of nanoseconds; the
  clock is an argument of each operation.  Every operation runs under the lock on the hosts, so it
  is one atomic step; a permit lives outside the lock until it is reported or dropped, so
  \<open>breaker_step\<close> interleaves operations with a multiset of outstanding permits.  The \<open>u32\<close> counters
  are natural numbers: a window of \<open>2 ^ 32\<close> calls is not considered.
\<close>

definition BUCKETS :: nat where "BUCKETS = 10"

datatype State = Closed | Open | HalfOpen

datatype BreakerError = Unavailable string

record Settings =
  failure_threshold :: rat
  minimum_calls :: nat
  window :: nat
  reset_after :: nat
  probes :: nat
  is_failure :: "nat \<Rightarrow> bool"

record Circuit =
  buckets :: "(nat \<times> nat \<times> nat) list"
  origin :: "nat option"
  opened_at :: "nat option"
  half_open :: bool
  probes_left :: nat
  probe_successes :: nat

definition default_circuit :: Circuit where
  "default_circuit =
     \<lparr>buckets = [], origin = None, opened_at = None, half_open = False, probes_left = 0, probe_successes = 0\<rparr>"

record CircuitBreaker =
  settings :: Settings
  hosts :: "string \<rightharpoonup> Circuit"

record Permit =
  permit_host :: string
  probe :: bool
  reported :: bool

subsection \<open>Settings\<close>

definition new_breaker :: CircuitBreaker where
  "new_breaker =
     \<lparr>settings = \<lparr>failure_threshold = 1 / 2, minimum_calls = 20, window = 60 * 10 ^ 9,
        reset_after = 30 * 10 ^ 9, probes = 3, is_failure = (\<lambda>code. code \<ge> 500)\<rparr>,
      hosts = Map.empty\<rparr>"

definition set_failure_rate :: "rat \<Rightarrow> CircuitBreaker \<Rightarrow> CircuitBreaker" where
  "set_failure_rate rate b = b\<lparr>settings := (settings b)\<lparr>failure_threshold := max 0 (min 1 rate)\<rparr>\<rparr>"

definition set_minimum_calls :: "nat \<Rightarrow> CircuitBreaker \<Rightarrow> CircuitBreaker" where
  "set_minimum_calls calls b = b\<lparr>settings := (settings b)\<lparr>minimum_calls := max calls 1\<rparr>\<rparr>"

definition set_window :: "nat \<Rightarrow> CircuitBreaker \<Rightarrow> CircuitBreaker" where
  "set_window w b = b\<lparr>settings := (settings b)\<lparr>window := max w (BUCKETS * 10 ^ 6)\<rparr>\<rparr>"

definition set_reset_after :: "nat \<Rightarrow> CircuitBreaker \<Rightarrow> CircuitBreaker" where
  "set_reset_after pause b = b\<lparr>settings := (settings b)\<lparr>reset_after := pause\<rparr>\<rparr>"

definition set_probes :: "nat \<Rightarrow> CircuitBreaker \<Rightarrow> CircuitBreaker" where
  "set_probes n b = b\<lparr>settings := (settings b)\<lparr>probes := max n 1\<rparr>\<rparr>"

definition count_failure_when :: "(nat \<Rightarrow> bool) \<Rightarrow> CircuitBreaker \<Rightarrow> CircuitBreaker" where
  "count_failure_when rule b = b\<lparr>settings := (settings b)\<lparr>is_failure := rule\<rparr>\<rparr>"

definition counts_as_failure :: "CircuitBreaker \<Rightarrow> nat \<Rightarrow> bool" where
  "counts_as_failure b status = is_failure (settings b) status"

subsection \<open>One host's circuit\<close>

definition circuit_state :: "Settings \<Rightarrow> nat \<Rightarrow> Circuit \<Rightarrow> State \<times> Circuit" where
  "circuit_state st now c =
     (case opened_at c of
        None \<Rightarrow> (Closed, c)
      | Some opened \<Rightarrow>
          if half_open c then (HalfOpen, c)
          else if reset_after st \<le> now - opened then
            (HalfOpen, c\<lparr>half_open := True, probes_left := probes st, probe_successes := 0\<rparr>)
          else (Open, c))"

definition open_circuit :: "nat \<Rightarrow> Settings \<Rightarrow> Circuit \<Rightarrow> Circuit" where
  "open_circuit now st c =
     c\<lparr>opened_at := Some now, half_open := False, probe_successes := 0, probes_left := probes st, buckets := []\<rparr>"

definition close_circuit :: "Circuit \<Rightarrow> Circuit" where
  "close_circuit c = c\<lparr>opened_at := None, half_open := False, probe_successes := 0, buckets := []\<rparr>"

definition bucket_of :: "nat \<Rightarrow> Settings \<Rightarrow> Circuit \<Rightarrow> nat \<times> Circuit" where
  "bucket_of now st c =
     (let start = (case origin c of Some x \<Rightarrow> x | None \<Rightarrow> now);
          width = window st div BUCKETS
      in ((now - start) div max width 1, c\<lparr>origin := Some start\<rparr>))"

definition push_outcome :: "nat \<Rightarrow> bool \<Rightarrow> (nat \<times> nat \<times> nat) list \<Rightarrow> (nat \<times> nat \<times> nat) list" where
  "push_outcome bucket failed bs =
     (case rev bs of
        (number, successes, failures) # _ \<Rightarrow>
          if number = bucket then
            butlast bs @ [if failed then (number, successes, failures + 1) else (number, successes + 1, failures)]
          else bs @ [(bucket, of_bool (\<not> failed), of_bool failed)]
      | [] \<Rightarrow> bs @ [(bucket, of_bool (\<not> failed), of_bool failed)])"

definition count_call :: "nat \<Rightarrow> Settings \<Rightarrow> bool \<Rightarrow> Circuit \<Rightarrow> Circuit" where
  "count_call now st failed c =
     (case bucket_of now st c of (bucket, c1) \<Rightarrow>
        c1\<lparr>buckets := push_outcome bucket failed
             (dropWhile (\<lambda>(number, _, _). number + BUCKETS \<le> bucket) (buckets c1))\<rparr>)"

definition total :: "Circuit \<Rightarrow> nat" where
  "total c = (\<Sum>(_, s, f)\<leftarrow>buckets c. s + f)"

definition failures :: "Circuit \<Rightarrow> nat" where
  "failures c = (\<Sum>(_, s, f)\<leftarrow>buckets c. f)"

definition failure_rate :: "Circuit \<Rightarrow> rat" where
  "failure_rate c = (if total c = 0 then 0 else f64_quot (failures c) (total c))"

definition should_open :: "Settings \<Rightarrow> Circuit \<Rightarrow> bool" where
  "should_open st c \<longleftrightarrow>
     opened_at c = None \<and> minimum_calls st \<le> total c \<and> failure_threshold st \<le> failure_rate c"

subsection \<open>The breaker's operations\<close>

definition breaker_state :: "nat \<Rightarrow> string \<Rightarrow> CircuitBreaker \<Rightarrow> State \<times> CircuitBreaker" where
  "breaker_state now host b =
     (case hosts b host of
        Some c \<Rightarrow> (case circuit_state (settings b) now c of (s, c1) \<Rightarrow> (s, b\<lparr>hosts := (hosts b)(host \<mapsto> c1)\<rparr>))
      | None \<Rightarrow> (Closed, b))"

definition new_permit :: "string \<Rightarrow> bool \<Rightarrow> Permit" where
  "new_permit host is_probe = \<lparr>permit_host = host, probe = is_probe, reported = False\<rparr>"

definition acquire :: "nat \<Rightarrow> string \<Rightarrow> CircuitBreaker \<Rightarrow> (BreakerError + Permit) \<times> CircuitBreaker" where
  "acquire now host b =
     (let c = (case hosts b host of Some c \<Rightarrow> c | None \<Rightarrow> default_circuit) in
      case circuit_state (settings b) now c of
        (Closed, c1) \<Rightarrow> (Inr (new_permit host False), b\<lparr>hosts := (hosts b)(host \<mapsto> c1)\<rparr>)
      | (Open, c1) \<Rightarrow>
          (let since = (case opened_at c1 of Some opened \<Rightarrow> now - opened | None \<Rightarrow> 0);
               for_another = reset_after (settings b) - since
           in (Inl (Unavailable (host @ '' is not being called: too many of the last requests to it failed, so the circuit is open for another ''
                 @ show_nat (max (for_another div 10 ^ 9) 1) @ '' second(s). Nothing was sent.'')),
               b\<lparr>hosts := (hosts b)(host \<mapsto> c1)\<rparr>))
      | (HalfOpen, c1) \<Rightarrow>
          if 0 < probes_left c1 then
            (Inr (new_permit host True), b\<lparr>hosts := (hosts b)(host \<mapsto> c1\<lparr>probes_left := probes_left c1 - 1\<rparr>)\<rparr>)
          else
            (Inl (Unavailable (host @ '' is being probed after a failure and is not taking other calls yet. Nothing was sent.'')),
             b\<lparr>hosts := (hosts b)(host \<mapsto> c1)\<rparr>))"

definition record_circuit :: "nat \<Rightarrow> Settings \<Rightarrow> bool \<Rightarrow> bool \<Rightarrow> Circuit \<Rightarrow> Circuit" where
  "record_circuit now st was_probe failed c =
     (case circuit_state st now c of
        (s, c1) \<Rightarrow>
          if s = HalfOpen \<and> was_probe then
            if failed then open_circuit now st c1
            else
              let c2 = c1\<lparr>probe_successes := probe_successes c1 + 1\<rparr>
              in if probes st \<le> probe_successes c2 then close_circuit c2 else c2
          else if was_probe then c1
          else
            let c2 = count_call now st failed c1
            in if should_open st c2 then open_circuit now st c2 else c2)"

definition record_outcome :: "nat \<Rightarrow> string \<Rightarrow> bool \<Rightarrow> bool \<Rightarrow> CircuitBreaker \<Rightarrow> CircuitBreaker" where
  "record_outcome now host was_probe failed b =
     (case hosts b host of
        None \<Rightarrow> b
      | Some c \<Rightarrow> b\<lparr>hosts := (hosts b)(host \<mapsto> record_circuit now (settings b) was_probe failed c)\<rparr>)"

definition reset_breaker :: "CircuitBreaker \<Rightarrow> CircuitBreaker" where
  "reset_breaker b = b\<lparr>hosts := Map.empty\<rparr>"

definition drop_permit :: "Permit \<Rightarrow> CircuitBreaker \<Rightarrow> CircuitBreaker" where
  "drop_permit p b =
     (if reported p \<or> \<not> probe p then b
      else case hosts b (permit_host p) of
             Some c \<Rightarrow> b\<lparr>hosts := (hosts b)(permit_host p \<mapsto> c\<lparr>probes_left := probes_left c + 1\<rparr>)\<rparr>
           | None \<Rightarrow> b)"

text \<open>\<open>success\<close> and \<open>failure\<close> consume the permit, so it is dropped at their end.\<close>

definition permit_success :: "nat \<Rightarrow> Permit \<Rightarrow> CircuitBreaker \<Rightarrow> CircuitBreaker" where
  "permit_success now p b =
     drop_permit (p\<lparr>reported := True\<rparr>) (record_outcome now (permit_host p) (probe p) False b)"

definition permit_failure :: "nat \<Rightarrow> Permit \<Rightarrow> CircuitBreaker \<Rightarrow> CircuitBreaker" where
  "permit_failure now p b =
     drop_permit (p\<lparr>reported := True\<rparr>) (record_outcome now (permit_host p) (probe p) True b)"

definition record_status :: "nat \<Rightarrow> nat \<Rightarrow> Permit \<Rightarrow> CircuitBreaker \<Rightarrow> CircuitBreaker" where
  "record_status now status p b =
     (if counts_as_failure b status then permit_failure now p b else permit_success now p b)"

subsection \<open>Runs\<close>

datatype breaker_op =
    Acquire string
  | Report Permit bool
  | Drop_permit Permit
  | Query string
  | Reset

type_synonym breaker_run = "nat \<times> CircuitBreaker \<times> Permit multiset"

inductive breaker_step :: "breaker_op \<Rightarrow> breaker_run \<Rightarrow> breaker_run \<Rightarrow> bool" where
  granted: "t \<le> now \<Longrightarrow> acquire now host b = (Inr p, b') \<Longrightarrow>
    breaker_step (Acquire host) (t, b, ps) (now, b', add_mset p ps)"
| refused: "t \<le> now \<Longrightarrow> acquire now host b = (Inl e, b') \<Longrightarrow>
    breaker_step (Acquire host) (t, b, ps) (now, b', ps)"
| succeeded: "t \<le> now \<Longrightarrow> p \<in># ps \<Longrightarrow>
    breaker_step (Report p False) (t, b, ps) (now, permit_success now p b, ps - {#p#})"
| failed: "t \<le> now \<Longrightarrow> p \<in># ps \<Longrightarrow>
    breaker_step (Report p True) (t, b, ps) (now, permit_failure now p b, ps - {#p#})"
| dropped: "t \<le> now \<Longrightarrow> p \<in># ps \<Longrightarrow>
    breaker_step (Drop_permit p) (t, b, ps) (now, drop_permit p b, ps - {#p#})"
| queried: "t \<le> now \<Longrightarrow>
    breaker_step (Query host) (t, b, ps) (now, snd (breaker_state now host b), ps)"
| forgotten: "t \<le> now \<Longrightarrow>
    breaker_step Reset (t, b, ps) (now, reset_breaker b, ps)"

inductive_cases breaker_stepE: "breaker_step op (t, b, ps) r"

subsection \<open>Settings stay sane\<close>

definition settings_ok :: "Settings \<Rightarrow> bool" where
  "settings_ok st \<longleftrightarrow> 0 \<le> failure_threshold st \<and> failure_threshold st \<le> 1 \<and> 1 \<le> minimum_calls st \<and>
     BUCKETS * 10 ^ 6 \<le> window st \<and> 1 \<le> probes st"

lemma settings_ok_new: "settings_ok (settings new_breaker)"
  by (simp add: settings_ok_def new_breaker_def BUCKETS_def)

lemma settings_ok_build:
  assumes "settings_ok (settings b)"
  shows "settings_ok (settings (set_failure_rate r b))"
    and "settings_ok (settings (set_minimum_calls n b))"
    and "settings_ok (settings (set_window w b))"
    and "settings_ok (settings (set_reset_after w b))"
    and "settings_ok (settings (set_probes n b))"
    and "settings_ok (settings (count_failure_when rule b))"
  using assms
  by (auto simp: settings_ok_def set_failure_rate_def set_minimum_calls_def set_window_def
      set_reset_after_def set_probes_def count_failure_when_def)

subsection \<open>The invariant of a run\<close>

text \<open>
  A half-open circuit has fewer successes than it needs, and enough probes either to give out or
  outstanding to reach them; an open one was opened in the past.
\<close>

definition circuit_ok :: "Settings \<Rightarrow> nat \<Rightarrow> nat \<Rightarrow> Circuit \<Rightarrow> bool" where
  "circuit_ok st t n c \<longleftrightarrow>
     (half_open c \<longrightarrow> opened_at c \<noteq> None \<and> probe_successes c < probes st \<and>
        probes st \<le> probes_left c + probe_successes c + n) \<and>
     (\<forall>opened. opened_at c = Some opened \<longrightarrow> opened \<le> t)"

definition probes_out :: "string \<Rightarrow> Permit multiset \<Rightarrow> nat" where
  "probes_out host ps = size {#p \<in># ps. permit_host p = host \<and> probe p#}"

definition breaker_inv :: "breaker_run \<Rightarrow> bool" where
  "breaker_inv r = (case r of (t, b, ps) \<Rightarrow>
     settings_ok (settings b) \<and> (\<forall>p\<in>#ps. \<not> reported p) \<and>
     (\<forall>h c. hosts b h = Some c \<longrightarrow> circuit_ok (settings b) t (probes_out h ps) c))"

lemma circuit_ok_default: "circuit_ok st t n default_circuit"
  by (simp add: circuit_ok_def default_circuit_def)

lemma circuit_ok_mono: "circuit_ok st t n c \<Longrightarrow> t \<le> u \<Longrightarrow> n \<le> m \<Longrightarrow> circuit_ok st u m c"
  by (auto simp: circuit_ok_def)

lemma circuit_ok_state:
  assumes "circuit_ok st t n c" and "t \<le> now" and "settings_ok st" and "circuit_state st now c = (s, c1)"
  shows "circuit_ok st now n c1"
    and "s = HalfOpen \<longleftrightarrow> half_open c1"
    and "s = Closed \<longleftrightarrow> opened_at c1 = None"
  using assms
  by (auto simp: circuit_ok_def circuit_state_def settings_ok_def split: option.splits if_splits)

lemma count_call_keeps [simp]:
  "opened_at (count_call now st f c) = opened_at c"
  "half_open (count_call now st f c) = half_open c"
  "probes_left (count_call now st f c) = probes_left c"
  "probe_successes (count_call now st f c) = probe_successes c"
  by (simp_all add: count_call_def bucket_of_def Let_def)

lemma open_circuit_ok: "circuit_ok st now n (open_circuit now st c)"
  by (simp add: circuit_ok_def open_circuit_def)

lemma close_circuit_ok: "circuit_ok st now n (close_circuit c)"
  by (simp add: circuit_ok_def close_circuit_def)

lemma record_circuit_ok:
  assumes "circuit_ok st t n c" and "t \<le> now" and "settings_ok st"
    and "was_probe \<Longrightarrow> n = Suc m" and "\<not> was_probe \<Longrightarrow> m = n"
  shows "circuit_ok st now m (record_circuit now st was_probe failed c)"
proof -
  obtain s c1 where s: "circuit_state st now c = (s, c1)" by fastforce
  note ok = circuit_ok_state [OF assms(1-3) s]
  show ?thesis
  proof (cases "was_probe")
    case True
    with assms(4) have n: "n = Suc m" by simp
    show ?thesis
      using ok n True s open_circuit_ok close_circuit_ok
      by (auto simp: record_circuit_def Let_def circuit_ok_def)
  next
    case False
    then have "circuit_ok st now m (count_call now st failed c1)"
      using ok(1) assms(5) by (simp add: circuit_ok_def)
    then show ?thesis using False s open_circuit_ok by (simp add: record_circuit_def Let_def)
  qed
qed

lemma probes_out_add [simp]:
  "probes_out h (add_mset p ps) = probes_out h ps + of_bool (permit_host p = h \<and> probe p)"
  by (simp add: probes_out_def)

lemma probes_out_diff:
  "p \<in># ps \<Longrightarrow> probes_out h ps = probes_out h (ps - {#p#}) + of_bool (permit_host p = h \<and> probe p)"
  by (metis insert_DiffM probes_out_add)

lemma drop_reported [simp]: "drop_permit (p\<lparr>reported := True\<rparr>) b = b"
  by (simp add: drop_permit_def)

lemma acquire_cases:
  assumes "acquire now host b = (r, b')"
  obtains s c1 where
    "circuit_state (settings b) now (case hosts b host of Some c \<Rightarrow> c | None \<Rightarrow> default_circuit) = (s, c1)"
    and "s = Closed \<Longrightarrow> r = Inr (new_permit host False) \<and> b' = b\<lparr>hosts := (hosts b)(host \<mapsto> c1)\<rparr>"
    and "s = Open \<Longrightarrow> \<exists>e. r = Inl e \<and> b' = b\<lparr>hosts := (hosts b)(host \<mapsto> c1)\<rparr>"
    and "s = HalfOpen \<Longrightarrow> probes_left c1 = 0 \<Longrightarrow> \<exists>e. r = Inl e \<and> b' = b\<lparr>hosts := (hosts b)(host \<mapsto> c1)\<rparr>"
    and "s = HalfOpen \<Longrightarrow> 0 < probes_left c1 \<Longrightarrow>
      r = Inr (new_permit host True) \<and> b' = b\<lparr>hosts := (hosts b)(host \<mapsto> c1\<lparr>probes_left := probes_left c1 - 1\<rparr>)\<rparr>"
proof -
  obtain s c1 where s: "circuit_state (settings b) now (case hosts b host of Some c \<Rightarrow> c | None \<Rightarrow> default_circuit) = (s, c1)"
    by fastforce
  show thesis
    by (rule that [OF s]) (use assms s in \<open>auto simp: acquire_def Let_def split: if_splits\<close>)
qed

lemma breaker_inv_set:
  assumes "breaker_inv (t, b, ps)" and "t \<le> now"
    and "circuit_ok (settings b) now (probes_out h ps') c" and "\<forall>p\<in>#ps'. \<not> reported p"
    and "\<And>h'. h' \<noteq> h \<Longrightarrow> probes_out h' ps \<le> probes_out h' ps'"
  shows "breaker_inv (now, b\<lparr>hosts := (hosts b)(h \<mapsto> c)\<rparr>, ps')"
proof -
  have other: "circuit_ok (settings b) now (probes_out h' ps') c'" if "h' \<noteq> h" "hosts b h' = Some c'" for h' c'
  proof (rule circuit_ok_mono [OF _ assms(2)])
    show "circuit_ok (settings b) t (probes_out h' ps) c'" using assms(1) that(2) by (simp add: breaker_inv_def)
    show "probes_out h' ps \<le> probes_out h' ps'" by (rule assms(5) [OF that(1)])
  qed
  with assms(1,3,4) show ?thesis by (simp add: breaker_inv_def)
qed

lemma breaker_inv_acquire:
  assumes inv: "breaker_inv (t, b, ps)" and le: "t \<le> now" and acq: "acquire now host b = (r, b')"
  shows "breaker_inv (now, b', case r of Inl _ \<Rightarrow> ps | Inr p \<Rightarrow> add_mset p ps)"
proof -
  let ?c = "case hosts b host of Some c \<Rightarrow> c | None \<Rightarrow> default_circuit"
  from acq show ?thesis
  proof (rule acquire_cases)
    fix s c1
    assume s: "circuit_state (settings b) now ?c = (s, c1)"
      and closed: "s = Closed \<Longrightarrow> r = Inr (new_permit host False) \<and> b' = b\<lparr>hosts := (hosts b)(host \<mapsto> c1)\<rparr>"
      and opened: "s = Open \<Longrightarrow> \<exists>e. r = Inl e \<and> b' = b\<lparr>hosts := (hosts b)(host \<mapsto> c1)\<rparr>"
      and none: "s = HalfOpen \<Longrightarrow> probes_left c1 = 0 \<Longrightarrow> \<exists>e. r = Inl e \<and> b' = b\<lparr>hosts := (hosts b)(host \<mapsto> c1)\<rparr>"
      and some: "s = HalfOpen \<Longrightarrow> 0 < probes_left c1 \<Longrightarrow>
        r = Inr (new_permit host True) \<and> b' = b\<lparr>hosts := (hosts b)(host \<mapsto> c1\<lparr>probes_left := probes_left c1 - 1\<rparr>)\<rparr>"
    have st: "settings_ok (settings b)" and rep: "\<forall>p\<in>#ps. \<not> reported p" using inv by (simp_all add: breaker_inv_def)
    have "circuit_ok (settings b) t (probes_out host ps) ?c"
      using inv circuit_ok_default by (auto simp: breaker_inv_def split: option.split)
    note ok = circuit_ok_state [OF this le st s]
    have half: "circuit_ok (settings b) now (Suc (probes_out host ps)) (c1\<lparr>probes_left := probes_left c1 - 1\<rparr>)"
      using ok(1) by (auto simp: circuit_ok_def)
    note set = breaker_inv_set [OF inv le]
    consider "s = Closed" | "s = Open" | "s = HalfOpen" "probes_left c1 = 0" | "s = HalfOpen" "0 < probes_left c1"
      by (cases s) auto
    then show ?thesis
    proof cases
      case 1
      then show ?thesis using closed ok(1) rep by (auto intro!: set simp: new_permit_def)
    next
      case 2
      then show ?thesis using opened ok(1) rep by (auto intro!: set)
    next
      case 3
      then show ?thesis using none ok(1) rep by (auto intro!: set)
    next
      case 4
      then show ?thesis using some half rep by (auto intro!: set simp: new_permit_def)
    qed
  qed
qed

lemma probes_out_other: "p \<in># ps \<Longrightarrow> h \<noteq> permit_host p \<Longrightarrow> probes_out h ps = probes_out h (ps - {#p#})"
  using probes_out_diff [of p ps h] by auto

lemma breaker_inv_remove:
  assumes inv: "breaker_inv (t, b, ps)" and le: "t \<le> now" and p: "p \<in># ps" and "hosts b (permit_host p) = None"
  shows "breaker_inv (now, b, ps - {#p#})"
proof -
  have "circuit_ok (settings b) now (probes_out h (ps - {#p#})) c" if "hosts b h = Some c" for h c
  proof (rule circuit_ok_mono [OF _ le])
    show "circuit_ok (settings b) t (probes_out h ps) c" using inv that by (simp add: breaker_inv_def)
    have "h \<noteq> permit_host p" using that assms(4) by auto
    from probes_out_other [OF p this] show "probes_out h ps \<le> probes_out h (ps - {#p#})" by simp
  qed
  with inv show ?thesis by (auto simp: breaker_inv_def dest: in_diffD)
qed

lemma breaker_inv_report:
  assumes inv: "breaker_inv (t, b, ps)" and le: "t \<le> now" and p: "p \<in># ps"
  shows "breaker_inv (now, record_outcome now (permit_host p) (probe p) failed b, ps - {#p#})"
proof (cases "hosts b (permit_host p)")
  case None
  then show ?thesis using breaker_inv_remove [OF inv le p] by (simp add: record_outcome_def)
next
  case (Some c)
  have st: "settings_ok (settings b)" and rep: "\<forall>q\<in>#ps - {#p#}. \<not> reported q"
    using inv by (auto simp: breaker_inv_def dest: in_diffD)
  have "circuit_ok (settings b) t (probes_out (permit_host p) ps) c"
    using inv Some by (simp add: breaker_inv_def)
  then have "circuit_ok (settings b) now (probes_out (permit_host p) (ps - {#p#}))
      (record_circuit now (settings b) (probe p) failed c)"
    by (rule record_circuit_ok [OF _ le st]) (use probes_out_diff [OF p] in simp_all)
  from breaker_inv_set [OF inv le this rep] show ?thesis
    using Some probes_out_other [OF p] by (simp add: record_outcome_def)
qed

lemma breaker_inv_drop:
  assumes inv: "breaker_inv (t, b, ps)" and le: "t \<le> now" and p: "p \<in># ps"
  shows "breaker_inv (now, drop_permit p b, ps - {#p#})"
proof (cases "hosts b (permit_host p)")
  case None
  then show ?thesis using breaker_inv_remove [OF inv le p] by (simp add: drop_permit_def)
next
  case (Some c)
  have rep: "\<forall>q\<in>#ps - {#p#}. \<not> reported q" and np: "\<not> reported p"
    using inv p by (auto simp: breaker_inv_def dest: in_diffD)
  have c: "circuit_ok (settings b) t (probes_out (permit_host p) ps) c"
    using inv Some by (simp add: breaker_inv_def)
  let ?c = "if probe p then c\<lparr>probes_left := probes_left c + 1\<rparr> else c"
  have "circuit_ok (settings b) now (probes_out (permit_host p) (ps - {#p#})) ?c"
    using c le probes_out_diff [OF p, of "permit_host p"] by (auto simp: circuit_ok_def)
  from breaker_inv_set [OF inv le this rep]
  have "breaker_inv (now, b\<lparr>hosts := (hosts b)(permit_host p \<mapsto> ?c)\<rparr>, ps - {#p#})"
    using probes_out_other [OF p] by simp
  moreover have "b\<lparr>hosts := (hosts b)(permit_host p \<mapsto> ?c)\<rparr> = drop_permit p b"
    using Some np by (auto simp: drop_permit_def map_upd_triv)
  ultimately show ?thesis by simp
qed

lemma breaker_inv_step:
  assumes "breaker_inv r" and "breaker_step op r r'"
  shows "breaker_inv r'"
  using assms(2,1)
proof cases
  case (granted t now host b p b' ps)
  then show ?thesis using breaker_inv_acquire [of t b ps now host "Inr p" b'] assms(1) by simp
next
  case (refused t now host b e b' ps)
  then show ?thesis using breaker_inv_acquire [of t b ps now host "Inl e" b'] assms(1) by simp
next
  case (succeeded t now p ps b)
  then show ?thesis using breaker_inv_report [of t b ps now p False] assms(1) by (simp add: permit_success_def)
next
  case (failed t now p ps b)
  then show ?thesis using breaker_inv_report [of t b ps now p True] assms(1) by (simp add: permit_failure_def)
next
  case (dropped t now p ps b)
  then show ?thesis using breaker_inv_drop [of t b ps now p] assms(1) by simp
next
  case (queried t now host b ps)
  have inv: "breaker_inv (t, b, ps)" using assms(1) queried by simp
  show ?thesis
  proof (cases "hosts b host")
    case None
    with queried inv show ?thesis by (auto simp: breaker_inv_def breaker_state_def intro: circuit_ok_mono)
  next
    case (Some c)
    obtain s c1 where s: "circuit_state (settings b) now c = (s, c1)" by fastforce
    have "circuit_ok (settings b) now (probes_out host ps) c1"
      by (rule circuit_ok_state(1) [OF _ \<open>t \<le> now\<close> _ s]) (use inv Some in \<open>simp_all add: breaker_inv_def\<close>)
    from breaker_inv_set [OF inv \<open>t \<le> now\<close> this] inv Some s queried show ?thesis
      by (simp add: breaker_state_def breaker_inv_def)
  qed
next
  case (forgotten t now b ps)
  then show ?thesis using assms(1) by (simp add: breaker_inv_def reset_breaker_def)
qed

definition breaker_init :: "breaker_run \<Rightarrow> bool" where
  "breaker_init r = (case r of (t, b, ps) \<Rightarrow> settings_ok (settings b) \<and> hosts b = Map.empty \<and> ps = {#})"

definition breaker_moves :: "breaker_run \<Rightarrow> breaker_run \<Rightarrow> bool" where
  "breaker_moves r r' \<longleftrightarrow> (\<exists>op. breaker_step op r r')"

interpretation breaker: invariant_system breaker_init breaker_moves breaker_inv
proof
  show "breaker_inv r" if "breaker_init r" for r
    using that by (auto simp: breaker_init_def breaker_inv_def split: prod.splits)
  show "breaker_inv r'" if "breaker_inv r" "breaker_moves r r'" for r r'
    using that(2) breaker_inv_step [OF that(1)] unfolding breaker_moves_def by blast
qed

subsection \<open>Refusals\<close>

text \<open>
  C15: the breaker never refuses without a cause and cannot be wedged.  In every state that any
  interleaving of calls, reports, dropped permits and resets can reach, a call to a host is refused
  only while the pause after the circuit's opening is running, or while a probe of that host is
  outstanding.
\<close>

theorem breaker_never_wedged:
  assumes "breaker_init r" and "breaker_moves\<^sup>*\<^sup>* r (t, b, ps)" and "t \<le> now"
    and "acquire now host b = (Inl e, b')"
  shows "(\<exists>c opened. hosts b host = Some c \<and> opened_at c = Some opened \<and> \<not> half_open c \<and>
       opened \<le> t \<and> now < opened + reset_after (settings b)) \<or> 0 < probes_out host ps"
proof -
  have inv: "breaker_inv (t, b, ps)" by (rule breaker.reachable_inv [OF assms(1,2)])
  let ?c = "case hosts b host of Some c \<Rightarrow> c | None \<Rightarrow> default_circuit"
  have st: "settings_ok (settings b)" using inv by (simp add: breaker_inv_def)
  have ok: "circuit_ok (settings b) t (probes_out host ps) ?c"
    using inv circuit_ok_default by (auto simp: breaker_inv_def split: option.split)
  show ?thesis
  proof (rule acquire_cases [OF assms(4)])
    fix s c1
    assume s: "circuit_state (settings b) now ?c = (s, c1)"
      and closed: "s = Closed \<Longrightarrow> Inl e = Inr (new_permit host False) \<and> b' = b\<lparr>hosts := (hosts b)(host \<mapsto> c1)\<rparr>"
      and some: "s = HalfOpen \<Longrightarrow> 0 < probes_left c1 \<Longrightarrow>
        Inl e = Inr (new_permit host True) \<and> b' = b\<lparr>hosts := (hosts b)(host \<mapsto> c1\<lparr>probes_left := probes_left c1 - 1\<rparr>)\<rparr>"
    note ok1 = circuit_ok_state [OF ok assms(3) st s]
    show ?thesis
    proof (cases s)
      case Closed
      with closed show ?thesis by simp
    next
      case HalfOpen
      with some have "probes_left c1 = 0" by auto
      with ok1(1,2) HalfOpen have "0 < probes_out host ps" by (auto simp: circuit_ok_def)
      then show ?thesis ..
    next
      case Open
      with s ok have "hosts b host \<noteq> None"
        by (auto simp: circuit_state_def default_circuit_def split: option.splits)
      with s ok Open show ?thesis by (auto simp: circuit_state_def circuit_ok_def split: option.splits if_splits)
    qed
  qed
qed

text \<open>Every operation but \<open>reset\<close> leaves an open circuit open until the pause is over.\<close>

definition stays_open :: "string \<Rightarrow> nat \<Rightarrow> breaker_run \<Rightarrow> bool" where
  "stays_open host opened r = (case r of (t, b, ps) \<Rightarrow>
     opened + reset_after (settings b) \<le> t \<or>
     (\<exists>c. hosts b host = Some c \<and> opened_at c = Some opened \<and> \<not> half_open c))"

lemma open_state: "opened_at c = Some opened \<Longrightarrow> \<not> half_open c \<Longrightarrow> opened \<le> now \<Longrightarrow> now < opened + reset_after st \<Longrightarrow>
  circuit_state st now c = (Open, c)"
  by (auto simp: circuit_state_def)

lemma open_record:
  assumes "opened_at c = Some opened" "\<not> half_open c" "opened \<le> now" "now < opened + reset_after st"
  shows "opened_at (record_circuit now st w f c) = Some opened \<and> \<not> half_open (record_circuit now st w f c)"
  using assms open_state [OF assms] by (simp add: record_circuit_def Let_def should_open_def)

lemma settings_kept [simp]:
  "settings (record_outcome now h w f b) = settings b"
  "settings (drop_permit p b) = settings b"
  "settings (snd (breaker_state now h b)) = settings b"
  "settings (reset_breaker b) = settings b"
  by (auto simp: record_outcome_def drop_permit_def breaker_state_def reset_breaker_def split: option.split prod.split)

lemma settings_acquire: "acquire now h b = (r, b') \<Longrightarrow> settings b' = settings b"
proof (erule acquire_cases)
  fix s c1
  assume "s = Closed \<Longrightarrow> r = Inr (new_permit h False) \<and> b' = b\<lparr>hosts := (hosts b)(h \<mapsto> c1)\<rparr>"
    and "s = Open \<Longrightarrow> \<exists>e. r = Inl e \<and> b' = b\<lparr>hosts := (hosts b)(h \<mapsto> c1)\<rparr>"
    and "s = HalfOpen \<Longrightarrow> probes_left c1 = 0 \<Longrightarrow> \<exists>e. r = Inl e \<and> b' = b\<lparr>hosts := (hosts b)(h \<mapsto> c1)\<rparr>"
    and "s = HalfOpen \<Longrightarrow> 0 < probes_left c1 \<Longrightarrow>
      r = Inr (new_permit h True) \<and> b' = b\<lparr>hosts := (hosts b)(h \<mapsto> c1\<lparr>probes_left := probes_left c1 - 1\<rparr>)\<rparr>"
  then show "settings b' = settings b" by (cases s; cases "probes_left c1 = 0") auto
qed

lemma breaker_step_keeps:
  "breaker_step op (t, b, ps) (now, b', ps') \<Longrightarrow> t \<le> now \<and> settings b' = settings b"
  by (erule breaker_stepE) (auto simp: permit_success_def permit_failure_def dest: settings_acquire)

lemma open_acquire:
  assumes "hosts b host = Some c" "circuit_state (settings b) now c = (Open, c)"
  shows "\<exists>e. acquire now host b = (Inl e, b)"
  using assms by (simp add: acquire_def Let_def map_upd_triv)

lemma acquire_other:
  assumes "acquire now h b = (r, b')" and "host \<noteq> h"
  shows "hosts b' host = hosts b host"
proof -
  obtain s c1 where "circuit_state (settings b) now (case hosts b h of Some c \<Rightarrow> c | None \<Rightarrow> default_circuit) = (s, c1)"
    by fastforce
  then show ?thesis using assms by (cases s) (auto simp: acquire_def Let_def split: if_splits)
qed

lemma stays_open_step:
  assumes inv: "breaker_inv r" and so: "stays_open host opened r" and step: "breaker_step op r r'" and "op \<noteq> Reset"
  shows "stays_open host opened r'"
proof -
  obtain t b ps where r: "r = (t, b, ps)" by (cases r)
  obtain now b' ps' where r': "r' = (now, b', ps')" by (cases r')
  have "t \<le> now" and set: "settings b' = settings b"
    using breaker_step_keeps step unfolding r r' by blast+
  show ?thesis
  proof (cases "opened + reset_after (settings b) \<le> now")
    case True
    then show ?thesis using set r' by (simp add: stays_open_def)
  next
    case False
    with so \<open>t \<le> now\<close> obtain c where c: "hosts b host = Some c" "opened_at c = Some opened" "\<not> half_open c"
      by (auto simp: stays_open_def r)
    have "opened \<le> t" using inv c by (auto simp: breaker_inv_def r circuit_ok_def)
    with \<open>t \<le> now\<close> False have now: "opened \<le> now" "now < opened + reset_after (settings b)" by simp_all
    note st = open_state [OF c(2,3) now]
    note rec = open_record [OF c(2,3) now]
    have acq: "hosts b1 host = Some c" if "acquire now h b = (x, b1)" for h x b1
      using acquire_other [OF that] open_acquire [OF c(1) st] that c(1) by (cases "h = host") auto
    have "\<exists>c. hosts b' host = Some c \<and> opened_at c = Some opened \<and> \<not> half_open c"
      using step unfolding r r'
    proof (rule breaker_stepE)
      fix n h p b1
      assume "(now, b', ps') = (n, b1, add_mset p ps)" "acquire n h b = (Inr p, b1)"
      then show ?thesis using c acq by blast
    next
      fix n h e b1
      assume "(now, b', ps') = (n, b1, ps)" "acquire n h b = (Inl e, b1)"
      then show ?thesis using c acq by blast
    next
      fix n p assume "(now, b', ps') = (n, permit_success n p b, ps - {#p#})"
      then show ?thesis using c rec by (auto simp: permit_success_def record_outcome_def split: option.split)
    next
      fix n p assume "(now, b', ps') = (n, permit_failure n p b, ps - {#p#})"
      then show ?thesis using c rec by (auto simp: permit_failure_def record_outcome_def split: option.split)
    next
      fix n p assume "(now, b', ps') = (n, drop_permit p b, ps - {#p#})"
      then show ?thesis using c by (auto simp: drop_permit_def split: option.split)
    next
      fix n h assume "(now, b', ps') = (n, snd (breaker_state n h b), ps)"
      then show ?thesis using c st by (auto simp: breaker_state_def split: option.split prod.split)
    next
      assume "op = Reset"
      then show ?thesis using assms(4) by simp
    qed
    then show ?thesis by (simp add: stays_open_def r')
  qed
qed

text \<open>
  C16: an open circuit gives the upstream its pause.  Once a circuit has opened, then whatever else
  happens short of a \<open>reset\<close> - late reports, dropped permits, calls to this and to other hosts -
  every call to the host is refused, and changes nothing, until \<open>reset_after\<close> has passed since it opened.
\<close>

theorem breaker_open_refuses:
  assumes "breaker_init r" and "breaker_moves\<^sup>*\<^sup>* r (t, b, ps)"
    and "hosts b host = Some c" and "opened_at c = Some opened" and "\<not> half_open c"
    and "(\<lambda>x y. \<exists>op. op \<noteq> Reset \<and> breaker_step op x y)\<^sup>*\<^sup>* (t, b, ps) (t', b', ps')"
    and "t' \<le> now" and "now < opened + reset_after (settings b')"
  shows "\<exists>e. acquire now host b' = (Inl e, b')"
proof -
  have "breaker_inv (t, b, ps)" by (rule breaker.reachable_inv [OF assms(1,2)])
  moreover have "stays_open host opened (t, b, ps)" using assms(3-5) by (simp add: stays_open_def)
  ultimately have start: "breaker_inv (t, b, ps) \<and> stays_open host opened (t, b, ps)" ..
  have so: "breaker_inv (t', b', ps') \<and> stays_open host opened (t', b', ps')"
    using assms(6)
  proof (rule rtranclp_induct)
    show "breaker_inv (t, b, ps) \<and> stays_open host opened (t, b, ps)" by (rule start)
    show "breaker_inv z \<and> stays_open host opened z"
      if "\<exists>op. op \<noteq> Reset \<and> breaker_step op y z" "breaker_inv y \<and> stays_open host opened y" for y z
      using that breaker_inv_step stays_open_step by blast
  qed
  with assms(7,8) obtain c' where c': "hosts b' host = Some c'" "opened_at c' = Some opened" "\<not> half_open c'"
    by (auto simp: stays_open_def)
  with so have "opened \<le> t'" by (auto simp: breaker_inv_def circuit_ok_def)
  then have "circuit_state (settings b') now c' = (Open, c')"
    using open_state [OF c'(2,3)] assms(7,8) by simp
  with c'(1) show ?thesis by (rule open_acquire)
qed

subsection \<open>The sliding window\<close>

text \<open>The calls of a calls that fall in the last ten slices, and those of them that failed.\<close>

definition slot_of :: "Settings \<Rightarrow> nat \<Rightarrow> nat \<Rightarrow> nat" where
  "slot_of st start now = (now - start) div max (window st div BUCKETS) 1"

definition in_window :: "Settings \<Rightarrow> nat \<Rightarrow> nat \<Rightarrow> (nat \<times> bool) list \<Rightarrow> (nat \<times> bool) list" where
  "in_window st start now calls = filter (\<lambda>(t, _). slot_of st start now < slot_of st start t + BUCKETS) calls"

fun count_all :: "Settings \<Rightarrow> (nat \<times> bool) list \<Rightarrow> Circuit \<Rightarrow> Circuit" where
  "count_all st [] c = c"
| "count_all st ((now, failed) # calls) c = count_all st calls (count_call now st failed c)"

lemma count_all_append: "count_all st (xs @ ys) c = count_all st ys (count_all st xs c)"
  by (induction st xs c rule: count_all.induct) auto

lemma count_all_keeps [simp]: "opened_at (count_all st calls c) = opened_at c"
  by (induction st calls c rule: count_all.induct) auto

definition tally :: "(nat \<Rightarrow> bool) \<Rightarrow> (nat \<times> nat \<times> nat) list \<Rightarrow> nat \<times> nat" where
  "tally P bs = (\<Sum>(n, s, f)\<leftarrow>bs. if P n then s else 0, \<Sum>(n, s, f)\<leftarrow>bs. if P n then f else 0)"

lemma push_outcome_snoc:
  "push_outcome k failed [] = [(k, of_bool (\<not> failed), of_bool failed)]"
  "push_outcome k failed (bs @ [(n, s, f)]) =
     (if n = k then bs @ [(n, s + of_bool (\<not> failed), f + of_bool failed)]
      else bs @ [(n, s, f), (k, of_bool (\<not> failed), of_bool failed)])"
  by (simp_all add: push_outcome_def)

lemma tally_push:
  "tally P (push_outcome k failed bs) =
     (fst (tally P bs) + of_bool (P k \<and> \<not> failed), snd (tally P bs) + of_bool (P k \<and> failed))"
proof (cases bs rule: rev_cases)
  case Nil
  then show ?thesis by (simp add: push_outcome_snoc tally_def)
next
  case (snoc ys y)
  then show ?thesis by (cases y) (auto simp: push_outcome_snoc tally_def)
qed

lemma tally_dropWhile:
  assumes "sorted_wrt (<) (map fst bs)" and "\<And>n. P n \<Longrightarrow> k < n + BUCKETS"
  shows "tally P (dropWhile (\<lambda>(n, _, _). n + BUCKETS \<le> k) bs) = tally P bs"
  using assms(1)
proof (induction bs)
  case Nil
  then show ?case by simp
next
  case (Cons x bs)
  have "\<not> P (fst x)" if "fst x + BUCKETS \<le> k" using assms(2) [of "fst x"] that by auto
  with Cons show ?case by (auto simp: tally_def split: prod.splits)
qed

text \<open>The buckets of a circuit that has counted a calls: in order, recent, and adding up.\<close>

definition bucket_inv :: "Settings \<Rightarrow> nat \<Rightarrow> nat \<Rightarrow> (nat \<times> bool) list \<Rightarrow> (nat \<times> nat \<times> nat) list \<Rightarrow> bool" where
  "bucket_inv st start k calls bs \<longleftrightarrow>
     sorted_wrt (<) (map fst bs) \<and> (\<forall>n\<in>fst ` set bs. n \<le> k \<and> k < n + BUCKETS) \<and>
     (\<forall>P. (\<forall>n. P n \<longrightarrow> k < n + BUCKETS) \<longrightarrow>
       tally P bs = (length (filter (\<lambda>(t, f). P (slot_of st start t) \<and> \<not> f) calls),
                     length (filter (\<lambda>(t, f). P (slot_of st start t) \<and> f) calls)))"

lemma sorted_push:
  assumes "sorted_wrt (<) (map fst bs)" and "\<forall>n\<in>fst ` set bs. n \<le> k"
  shows "sorted_wrt (<) (map fst (push_outcome k failed bs))"
    and "fst ` set (push_outcome k failed bs) = insert k (fst ` set bs)"
proof -
  show "sorted_wrt (<) (map fst (push_outcome k failed bs))"
  proof (cases bs rule: rev_cases)
    case Nil
    then show ?thesis by (simp add: push_outcome_snoc)
  next
    case (snoc ys y)
    obtain n s f where y: "y = (n, s, f)" by (cases y)
    have "\<forall>m\<in>fst ` set ys. m < n" using assms(1) snoc y by (simp add: sorted_wrt_append)
    moreover have "n \<le> k" using assms(2) snoc y by simp
    ultimately show ?thesis using assms(1) snoc y
      by (auto simp: push_outcome_snoc sorted_wrt_append dest!: order_le_neq_trans)
  qed
  show "fst ` set (push_outcome k failed bs) = insert k (fst ` set bs)"
  proof (cases bs rule: rev_cases)
    case Nil
    then show ?thesis by (simp add: push_outcome_snoc)
  next
    case (snoc ys y)
    then show ?thesis by (cases y) (auto simp: push_outcome_snoc)
  qed
qed

lemma dropWhile_recent:
  assumes "sorted_wrt (<) (map fst bs)"
  shows "\<forall>n\<in>fst ` set (dropWhile (\<lambda>(n, _, _). n + BUCKETS \<le> k) bs). k < n + BUCKETS"
    and "sorted_wrt (<) (map fst (dropWhile (\<lambda>(n, _, _). n + BUCKETS \<le> k) bs))"
proof -
  have "(\<forall>n\<in>fst ` set (dropWhile (\<lambda>(n, _, _). n + BUCKETS \<le> k) bs). k < n + BUCKETS) \<and>
      sorted_wrt (<) (map fst (dropWhile (\<lambda>(n, _, _). n + BUCKETS \<le> k) bs))"
    using assms
  proof (induction bs)
    case Nil
    then show ?case by simp
  next
    case (Cons x bs)
    obtain n s f where x: "x = (n, s, f)" by (cases x)
    show ?case
    proof (cases "n + BUCKETS \<le> k")
      case True
      with Cons x show ?thesis by simp
    next
      case False
      have "\<forall>m\<in>fst ` set bs. n < m" using Cons.prems x by simp
      with False Cons.prems x show ?thesis by fastforce
    qed
  qed
  then show "\<forall>n\<in>fst ` set (dropWhile (\<lambda>(n, _, _). n + BUCKETS \<le> k) bs). k < n + BUCKETS"
    and "sorted_wrt (<) (map fst (dropWhile (\<lambda>(n, _, _). n + BUCKETS \<le> k) bs))"
    by blast+
qed

lemma bucket_inv_count:
  assumes inv: "bucket_inv st start k calls (buckets c)" and "origin c = Some start"
    and k': "k' = slot_of st start now" and "k \<le> k'"
  shows "bucket_inv st start k' (calls @ [(now, failed)]) (buckets (count_call now st failed c))"
    and "origin (count_call now st failed c) = Some start"
proof -
  define old where "old = dropWhile (\<lambda>(n, _, _). n + BUCKETS \<le> k') (buckets c)"
  have new: "buckets (count_call now st failed c) = push_outcome k' failed old"
    using assms(2) by (simp add: count_call_def bucket_of_def Let_def old_def k' slot_of_def)
  show "origin (count_call now st failed c) = Some start"
    using assms(2) by (simp add: count_call_def bucket_of_def Let_def)
  have srt: "sorted_wrt (<) (map fst (buckets c))" using inv by (simp add: bucket_inv_def)
  note recent = dropWhile_recent [OF srt, of k', folded old_def]
  have le: "\<forall>n\<in>fst ` set old. n \<le> k'"
    using inv assms(4) unfolding old_def bucket_inv_def by (force dest: set_dropWhileD)
  note p = sorted_push [OF recent(2) le, of failed]
  have t: "tally P (push_outcome k' failed old) =
      (length (filter (\<lambda>(t, f). P (slot_of st start t) \<and> \<not> f) (calls @ [(now, failed)])),
       length (filter (\<lambda>(t, f). P (slot_of st start t) \<and> f) (calls @ [(now, failed)])))"
    if P: "\<forall>n. P n \<longrightarrow> k' < n + BUCKETS" for P
  proof -
    have "tally P old = tally P (buckets c)"
      unfolding old_def by (rule tally_dropWhile [OF srt]) (use P in blast)
    moreover have "\<forall>n. P n \<longrightarrow> k < n + BUCKETS" using P assms(4) by fastforce
    ultimately have "tally P old =
        (length (filter (\<lambda>(t, f). P (slot_of st start t) \<and> \<not> f) calls),
         length (filter (\<lambda>(t, f). P (slot_of st start t) \<and> f) calls))"
      using inv unfolding bucket_inv_def by metis
    then show ?thesis by (simp add: tally_push k')
  qed
  show "bucket_inv st start k' (calls @ [(now, failed)]) (buckets (count_call now st failed c))"
    unfolding bucket_inv_def new using p recent(1) le t by (simp add: BUCKETS_def)
qed

lemma slot_of_mono: "a \<le> b \<Longrightarrow> slot_of st start a \<le> slot_of st start b"
  by (simp add: slot_of_def div_le_mono)

lemma count_all_inv:
  assumes "bucket_inv st start k pre (buckets c)" and "origin c = Some start"
    and "sorted (map fst calls)" and "\<forall>t\<in>fst ` set calls. k \<le> slot_of st start t"
  shows "bucket_inv st start (if calls = [] then k else slot_of st start (fst (last calls))) (pre @ calls)
    (buckets (count_all st calls c))"
  using assms
proof (induction calls arbitrary: c pre k)
  case Nil
  then show ?case by simp
next
  case (Cons x calls)
  obtain now failed where x: "x = (now, failed)" by (cases x)
  have "k \<le> slot_of st start now" using Cons.prems(4) x by simp
  note b = bucket_inv_count [OF Cons.prems(1,2) refl this, of failed]
  have "\<forall>t\<in>fst ` set calls. slot_of st start now \<le> slot_of st start t"
    using Cons.prems(3) x slot_of_mono by auto
  from Cons.IH [OF b _ this] Cons.prems(3) show ?case by (simp add: x split: if_splits)
qed

lemma bucket_inv_tally:
  assumes "bucket_inv st start (slot_of st start now) calls (buckets c)"
  shows "failures c = length (filter snd (in_window st start now calls))"
    and "total c = length (in_window st start now calls)"
proof -
  let ?P = "\<lambda>n. slot_of st start now < n + BUCKETS"
  have t: "tally ?P (buckets c) =
      (length (filter (\<lambda>(t, f). ?P (slot_of st start t) \<and> \<not> f) calls),
       length (filter (\<lambda>(t, f). ?P (slot_of st start t) \<and> f) calls))"
    using assms unfolding bucket_inv_def by (elim conjE allE [of _ ?P] impE) simp_all
  have all: "\<forall>x\<in>set (buckets c). ?P (fst x)" using assms by (auto simp: bucket_inv_def)
  then have "tally ?P (buckets c) = (\<Sum>(n, s, f)\<leftarrow>buckets c. s, \<Sum>(n, s, f)\<leftarrow>buckets c. f)"
    by (auto simp: tally_def intro!: arg_cong [of _ _ sum_list] map_cong)
  with t have sf: "(\<Sum>(n, s, f)\<leftarrow>buckets c. s) = length (filter (\<lambda>(t, f). ?P (slot_of st start t) \<and> \<not> f) calls)"
    "(\<Sum>(n, s, f)\<leftarrow>buckets c. f) = length (filter (\<lambda>(t, f). ?P (slot_of st start t) \<and> f) calls)"
    by simp_all
  have split: "length (filter (\<lambda>(t, _). Q t) xs) =
      length (filter (\<lambda>(t, f). Q t \<and> \<not> f) xs) + length (filter (\<lambda>(t, f). Q t \<and> f) xs)"
    for Q and xs :: "(nat \<times> bool) list"
    by (induction xs) auto
  show "failures c = length (filter snd (in_window st start now calls))"
    unfolding failures_def in_window_def filter_filter sf(2) by (rule arg_cong [of _ _ length], rule filter_cong) auto
  have "total c = (\<Sum>(n, s, f)\<leftarrow>buckets c. s) + (\<Sum>(n, s, f)\<leftarrow>buckets c. f)"
    unfolding total_def by (induction "buckets c") (auto simp: case_prod_beta sum_list_addf)
  then show "total c = length (in_window st start now calls)"
    unfolding in_window_def sf by (simp add: split)
qed

lemma count_call_origin:
  "origin c = None \<Longrightarrow> count_call now st f c = count_call now st f (c\<lparr>origin := Some now\<rparr>)"
  by (simp add: count_call_def bucket_of_def Let_def)

lemma count_all_window:
  assumes "buckets c = []" and "calls \<noteq> []" and "sorted (map fst calls)"
    and "start = (case origin c of Some x \<Rightarrow> x | None \<Rightarrow> fst (hd calls))"
  shows "bucket_inv st start (slot_of st start (fst (last calls))) calls (buckets (count_all st calls c))"
proof -
  let ?c = "c\<lparr>origin := Some start\<rparr>"
  have "count_all st calls c = count_all st calls ?c"
  proof (cases "origin c")
    case None
    obtain now f rest where "calls = (now, f) # rest" using assms(2) by (cases calls) auto
    with None assms(4) count_call_origin show ?thesis by simp
  next
    case (Some x)
    then have "?c = c" using assms(4) by simp
    then show ?thesis by simp
  qed
  moreover have "bucket_inv st start 0 [] (buckets ?c)" using assms(1) by (simp add: bucket_inv_def tally_def)
  from count_all_inv [OF this _ assms(3)] assms(2)
  have "bucket_inv st start (slot_of st start (fst (last calls))) calls (buckets (count_all st calls ?c))"
    by simp
  ultimately show ?thesis by simp
qed

text \<open>
  C17: a closed circuit opens exactly when it should.  After any calls, in the order of time, since
  its window was last cleared, the report of one more call opens the circuit iff the calls of the last ten
  slices of the window - counted exactly, this one included - are at least \<open>minimum_calls\<close> and the
  failures among them reach the configured rate; with the default rate of one half, iff they are at
  least half of them.
\<close>

theorem breaker_trips:
  assumes "opened_at c = None" and "buckets c = []" and "sorted (map fst (calls @ [(now, failed)]))"
    and "start = (case origin c of Some x \<Rightarrow> x | None \<Rightarrow> fst (hd (calls @ [(now, failed)])))"
    and "recent = in_window st start now (calls @ [(now, failed)])"
    and "length calls < 2 ^ 32"
  shows "opened_at (record_circuit now st False failed (count_all st calls c)) =
      (if minimum_calls st \<le> length recent \<and>
          failure_threshold st \<le> f64_quot (length (filter snd recent)) (length recent)
       then Some now else None) \<and>
    (failure_threshold st = 1 / 2 \<longrightarrow>
      (failure_threshold st \<le> f64_quot (length (filter snd recent)) (length recent) \<longleftrightarrow>
       length recent \<le> 2 * length (filter snd recent)))"
proof -
  let ?c = "count_all st (calls @ [(now, failed)]) c"
  have inv: "bucket_inv st start (slot_of st start now) (calls @ [(now, failed)]) (buckets ?c)"
    using count_all_window [OF assms(2) _ assms(3,4), of st] by simp
  have t: "failures ?c = length (filter snd recent)" "total ?c = length recent"
    unfolding assms(5) by (rule bucket_inv_tally [OF inv])+
  have pos: "0 < length recent" by (simp add: assms(5) in_window_def BUCKETS_def)
  have "length recent \<le> Suc (length calls)" unfolding assms(5) in_window_def
    using length_filter_le [of _ "calls @ [(now, failed)]"] by (metis length_append_singleton)
  with assms(6) have small: "length recent < 2 ^ 52" by simp
  have "record_circuit now st False failed (count_all st calls c) =
      (if should_open st ?c then open_circuit now st ?c else ?c)"
    using assms(1) by (simp add: record_circuit_def circuit_state_def Let_def count_all_append)
  then have "opened_at (record_circuit now st False failed (count_all st calls c)) =
      (if minimum_calls st \<le> length recent \<and>
          failure_threshold st \<le> f64_quot (length (filter snd recent)) (length recent)
       then Some now else None)"
    using assms(1) t pos by (simp add: should_open_def failure_rate_def open_circuit_def)
  with f64_quot_half [OF pos small length_filter_le, of snd] show ?thesis by metis
qed

text \<open>
  a probe left over from an earlier pause can let one probe too many through.  With two probes
  configured: the circuit opens; after the pause two probes go out, and one of them fails, which opens the circuit again;
  after the second pause two probes go out and the next call is refused; but when the other probe of
  the first round is now dropped, its permit is given back to the second round, and a third probe
  goes out beside the two.
\<close>

theorem breaker_probe_overrun:
  "let host = ''api'';
       pr = new_permit host True;
       b0 = set_probes 2 (set_minimum_calls 1 new_breaker);
       b1 = permit_failure 1 (new_permit host False) (snd (acquire 0 host b0));
       (r1, b2) = acquire (40 * 10 ^ 9) host b1;
       (r2, b3) = acquire (40 * 10 ^ 9) host b2;
       b4 = permit_failure (41 * 10 ^ 9) pr b3;
       (r3, b5) = acquire (80 * 10 ^ 9) host b4;
       (r4, b6) = acquire (80 * 10 ^ 9) host b5;
       (r5, b7) = acquire (80 * 10 ^ 9) host b6;
       (r6, b8) = acquire (80 * 10 ^ 9) host (drop_permit pr b7)
   in probes (settings b0) = 2 \<and> r1 = Inr pr \<and> r2 = Inr pr \<and> r3 = Inr pr \<and> r4 = Inr pr \<and>
      (\<exists>e. r5 = Inl e) \<and> r6 = Inr pr"
proof -
  have one: "bit_len 1 = 1" by (simp add: bit_len.simps)
  have "f64_quot 1 1 = 1" by (simp add: f64_quot_def one)
  then show ?thesis
    by (simp add: new_permit_def set_probes_def set_minimum_calls_def new_breaker_def permit_failure_def acquire_def
        default_circuit_def circuit_state_def record_outcome_def record_circuit_def count_call_def bucket_of_def
        push_outcome_def should_open_def total_def failures_def failure_rate_def open_circuit_def drop_permit_def
        Let_def BUCKETS_def)
qed

text \<open>A run: the first call to a host fails, and opens its circuit.\<close>

definition example_circuit :: Circuit where
  "example_circuit = \<lparr>buckets = [], origin = Some 1, opened_at = Some 1, half_open = False, probes_left = 3, probe_successes = 0\<rparr>"

definition example_breaker :: "(string \<rightharpoonup> Circuit) \<Rightarrow> CircuitBreaker" where
  "example_breaker hs = (set_minimum_calls 1 new_breaker)\<lparr>hosts := hs\<rparr>"

lemma example_init: "breaker_init (0, example_breaker Map.empty, {#})"
  using settings_ok_build(2) [OF settings_ok_new, of 1] by (simp add: breaker_init_def example_breaker_def)

lemma example_failure:
  "permit_failure 1 (new_permit ''api'' False) (example_breaker [''api'' \<mapsto> default_circuit]) =
   example_breaker [''api'' \<mapsto> example_circuit]"
proof -
  have "f64_quot (Suc 0) (Suc 0) = 1" by (simp add: f64_quot_def bit_len.simps)
  then show ?thesis
    by (simp add: example_breaker_def example_circuit_def set_minimum_calls_def new_breaker_def permit_failure_def
        default_circuit_def circuit_state_def record_outcome_def record_circuit_def count_call_def bucket_of_def
        push_outcome_def should_open_def total_def failures_def failure_rate_def open_circuit_def new_permit_def
        drop_permit_def Let_def BUCKETS_def)
qed

lemma example_run:
  "breaker_moves\<^sup>*\<^sup>* (0, example_breaker Map.empty, {#}) (1, example_breaker [''api'' \<mapsto> example_circuit], {#})"
proof -
  let ?p = "new_permit ''api'' False"
  let ?b1 = "example_breaker [''api'' \<mapsto> default_circuit]"
  have "acquire 0 ''api'' (example_breaker Map.empty) = (Inr ?p, ?b1)"
    by (simp add: acquire_def Let_def example_breaker_def set_minimum_calls_def new_breaker_def default_circuit_def circuit_state_def)
  then have "breaker_moves (0, example_breaker Map.empty, {#}) (0, ?b1, {#?p#})"
    unfolding breaker_moves_def using granted [of 0 0 "''api''" "example_breaker Map.empty" ?p ?b1 "{#}"] by auto
  moreover have "breaker_moves (0, ?b1, {#?p#}) (1, example_breaker [''api'' \<mapsto> example_circuit], {#})"
    unfolding breaker_moves_def using failed [of 0 1 ?p "{#?p#}" ?b1] by (auto simp: example_failure simp del: One_nat_def)
  ultimately show ?thesis by auto
qed

lemma example_refused:
  "\<exists>e. acquire 2 ''api'' (example_breaker [''api'' \<mapsto> example_circuit]) =
    (Inl e, example_breaker [''api'' \<mapsto> example_circuit])"
  by (simp add: acquire_def example_breaker_def example_circuit_def set_minimum_calls_def new_breaker_def
      circuit_state_def Let_def)

theorem breaker_never_wedged_witness:
  "\<exists>c opened. hosts (example_breaker [''api'' \<mapsto> example_circuit]) ''api'' = Some c \<and> opened_at c = Some opened \<and>
     \<not> half_open c \<and> opened \<le> 1 \<and> 2 < opened + reset_after (settings (example_breaker [''api'' \<mapsto> example_circuit]))"
proof -
  obtain e where e: "acquire 2 ''api'' (example_breaker [''api'' \<mapsto> example_circuit]) =
      (Inl e, example_breaker [''api'' \<mapsto> example_circuit])"
    using example_refused by blast
  show ?thesis using breaker_never_wedged [OF example_init example_run _ e] by (simp add: probes_out_def)
qed

theorem breaker_open_refuses_witness:
  "\<exists>e. acquire 2 ''api'' (example_breaker [''api'' \<mapsto> example_circuit]) =
    (Inl e, example_breaker [''api'' \<mapsto> example_circuit])"
proof (rule breaker_open_refuses [OF example_init example_run])
  show "hosts (example_breaker [''api'' \<mapsto> example_circuit]) ''api'' = Some example_circuit"
    by (simp add: example_breaker_def)
  show "opened_at example_circuit = Some 1" "\<not> half_open example_circuit" by (simp_all add: example_circuit_def)
  show "(\<lambda>x y. \<exists>op. op \<noteq> Reset \<and> breaker_step op x y)\<^sup>*\<^sup>* (1, example_breaker [''api'' \<mapsto> example_circuit], {#})
      (1, example_breaker [''api'' \<mapsto> example_circuit], {#})" by simp
  show "(1::nat) \<le> 2" by simp
  show "2 < 1 + reset_after (settings (example_breaker [''api'' \<mapsto> example_circuit]))"
    by (simp add: example_breaker_def set_minimum_calls_def new_breaker_def)
qed

theorem breaker_trips_witness:
  "opened_at (record_circuit 3 (settings (set_minimum_calls 2 new_breaker)) False True
     (count_all (settings (set_minimum_calls 2 new_breaker)) [(1, False)] default_circuit)) = Some 3"
proof -
  let ?st = "settings (set_minimum_calls 2 new_breaker)"
  have w: "in_window ?st 1 3 ([(1, False)] @ [(3, True)]) = [(1, False), (3, True)]"
    by (simp add: in_window_def slot_of_def set_minimum_calls_def new_breaker_def BUCKETS_def)
  have th: "failure_threshold ?st = 1 / 2" "minimum_calls ?st = 2"
    by (simp_all add: set_minimum_calls_def new_breaker_def)
  have "opened_at default_circuit = None" "buckets default_circuit = []" "sorted (map fst ([(1, False)] @ [(3::nat, True)]))"
    "1 = (case origin default_circuit of Some x \<Rightarrow> x | None \<Rightarrow> fst (hd ([(1, False)] @ [(3::nat, True)])))"
    "length [(1 :: nat, False)] < 2 ^ 32"
    by (simp_all add: default_circuit_def)
  from breaker_trips [OF this(1-4) refl this(5), of ?st, unfolded w] th show ?thesis by simp
qed

end
