(* ===== verification/Jobs.thy ===== *)
theory Jobs
  imports Json
begin

section \<open>Queued jobs and chains\<close>

text \<open>
  \<open>rustlavel-queue\<close>: the job as it is stored (\<open>job.rs\<close>) and chains of jobs (\<open>chain.rs\<close>).
  Durations are natural numbers of nanoseconds.
\<close>

definition SECOND :: nat where "SECOND = 10 ^ 9"

definition as_secs :: "nat \<Rightarrow> nat" where "as_secs d = d div SECOND"

definition DEFAULT_QUEUE :: string where "DEFAULT_QUEUE = ''default''"
definition DEFAULT_TRIES :: nat where "DEFAULT_TRIES = 3"
definition DEFAULT_RETRY_AFTER :: nat where "DEFAULT_RETRY_AFTER = 60 * SECOND"

datatype QueuedJob = QueuedJob
  (job_name: string)
  (job_payload: Json)
  (job_queue: string)
  (max_tries: nat)
  (retry_after: nat)
  (delay: nat)
  (chain: "string option")
  (then_steps: "QueuedJob list")

definition new_job :: "string \<Rightarrow> Json \<Rightarrow> QueuedJob" where
  "new_job name p = QueuedJob name p DEFAULT_QUEUE DEFAULT_TRIES DEFAULT_RETRY_AFTER 0 None []"

text \<open>\<open>Job::to_queued\<close>, from what a job type declares.\<close>

definition to_queued :: "string \<Rightarrow> Json \<Rightarrow> string \<Rightarrow> nat \<Rightarrow> nat \<Rightarrow> QueuedJob" where
  "to_queued name p q tries ra = QueuedJob name p q (max tries 1) ra 0 None []"

definition on_queue :: "string \<Rightarrow> QueuedJob \<Rightarrow> QueuedJob" where
  "on_queue q j = QueuedJob (job_name j) (job_payload j) q (max_tries j) (retry_after j) (delay j) (chain j) (then_steps j)"

definition with_delay :: "nat \<Rightarrow> QueuedJob \<Rightarrow> QueuedJob" where
  "with_delay d j = QueuedJob (job_name j) (job_payload j) (job_queue j) (max_tries j) (retry_after j) d (chain j) (then_steps j)"

definition with_tries :: "nat \<Rightarrow> QueuedJob \<Rightarrow> QueuedJob" where
  "with_tries n j = QueuedJob (job_name j) (job_payload j) (job_queue j) (max n 1) (retry_after j) (delay j) (chain j) (then_steps j)"

definition with_retry_after :: "nat \<Rightarrow> QueuedJob \<Rightarrow> QueuedJob" where
  "with_retry_after d j = QueuedJob (job_name j) (job_payload j) (job_queue j) (max_tries j) d (delay j) (chain j) (then_steps j)"

definition set_chain :: "string option \<Rightarrow> QueuedJob list \<Rightarrow> QueuedJob \<Rightarrow> QueuedJob" where
  "set_chain c steps j = QueuedJob (job_name j) (job_payload j) (job_queue j) (max_tries j) (retry_after j) (delay j) c steps"

subsection \<open>Storage\<close>

fun queued_to_json :: "QueuedJob \<Rightarrow> Json" where
  "queued_to_json (QueuedJob name p q tries ra d c steps) =
     json_object
       [(''name'', String name),
        (''payload'', p),
        (''queue'', String q),
        (''max_tries'', json_of_int (int tries)),
        (''retry_after'', json_of_int (wrap_i64 (int (as_secs ra)))),
        (''delay'', json_of_int (wrap_i64 (int (as_secs d)))),
        (''then'', Array (map queued_to_json steps))]"

definition stored_payload :: "QueuedJob \<Rightarrow> Json" where
  "stored_payload j =
     (if chain j = None \<and> then_steps j = [] then job_payload j
      else json_object
        [(''$payload'', job_payload j),
         (''$chain'', case chain j of Some c \<Rightarrow> String c | None \<Rightarrow> Null),
         (''$then'', Array (map queued_to_json (then_steps j)))])"

text \<open>The cast of an \<open>i64\<close> to \<open>u32\<close> keeps the low bits.\<close>

definition as_u32 :: "int \<Rightarrow> nat" where "as_u32 n = nat (n mod 2 ^ 32)"

lemma json_walk_size: "json_walk segs j = Some v \<Longrightarrow> size v \<le> size j"
proof (induction segs j rule: json_walk.induct)
  case (2 seg segs m)
  then obtain w where w: "map_of m seg = Some w" "json_walk segs w = Some v" by (auto split: option.splits)
  have "size w < Suc (size_list (size_prod (\<lambda>_. 0) size) m)" using map_of_SomeD [OF w(1)] by (induction m) auto
  with 2(1) [OF w(1) w(2)] show ?case by simp
next
  case (3 seg segs items)
  then obtain i where i: "parse_usize seg = Some i" "i < length items" "json_walk segs (items ! i) = Some v"
    by (auto split: option.splits if_splits)
  have "size (items ! i) < Suc (size_list size items)" using nth_mem [OF i(2)]
    by (meson size_list_estimation' le_imp_less_Suc order_refl)
  with 3(1) [OF i(1,2,3)] show ?case by simp
qed auto

lemma json_get_array_size:
  "json_get j path = Some (Array items) \<Longrightarrow> x \<in> set items \<Longrightarrow> size x < size j"
proof -
  assume a: "json_get j path = Some (Array items)" and x: "x \<in> set items"
  have "size x < Suc (size_list size items)" using x by (meson size_list_estimation' le_imp_less_Suc order_refl)
  with json_walk_size [OF a [unfolded json_get_def]] show "size x < size j" by simp
qed

function queued_of_json :: "Json \<Rightarrow> QueuedJob option" where
  "queued_of_json j =
     (case Option.bind (json_get j ''name'') json_as_str of
        None \<Rightarrow> None
      | Some name \<Rightarrow>
          Some (QueuedJob name
            (case json_get j ''payload'' of Some p \<Rightarrow> p | None \<Rightarrow> Null)
            (case Option.bind (json_get j ''queue'') json_as_str of Some q \<Rightarrow> q | None \<Rightarrow> DEFAULT_QUEUE)
            (as_u32 (max (case Option.bind (json_get j ''max_tries'') json_as_i64 of Some n \<Rightarrow> n | None \<Rightarrow> int DEFAULT_TRIES) 1))
            (nat (max (case Option.bind (json_get j ''retry_after'') json_as_i64 of Some n \<Rightarrow> n | None \<Rightarrow> 60) 0) * SECOND)
            (nat (max (case Option.bind (json_get j ''delay'') json_as_i64 of Some n \<Rightarrow> n | None \<Rightarrow> 0) 0) * SECOND)
            None
            (case json_get j ''then'' of
               Some (Array steps) \<Rightarrow> List.map_filter id (map queued_of_json steps)
             | _ \<Rightarrow> [])))"
  by pat_completeness auto
termination
  by (relation "measure size") (auto dest: json_get_array_size)

declare queued_of_json.simps [simp del]

definition with_stored_payload :: "Json \<Rightarrow> QueuedJob \<Rightarrow> QueuedJob" where
  "with_stored_payload stored j =
     (if \<not> (json_get stored ''$payload'' \<noteq> None \<and> json_get stored ''$then'' \<noteq> None) then
        QueuedJob (job_name j) stored (job_queue j) (max_tries j) (retry_after j) (delay j) (chain j) (then_steps j)
      else
        QueuedJob (job_name j)
          (case json_get stored ''$payload'' of Some p \<Rightarrow> p | None \<Rightarrow> Null)
          (job_queue j) (max_tries j) (retry_after j) (delay j)
          (Option.bind (json_get stored ''$chain'') json_as_str)
          (case Option.bind (json_get stored ''$then'') json_as_array of
             Some steps \<Rightarrow> List.map_filter queued_of_json steps
           | None \<Rightarrow> []))"

subsection \<open>Chains\<close>

record Chain =
  chain_id :: string
  chain_steps :: "QueuedJob list"

text \<open>The id that a chain starts with, from the clock and a counter, is an argument.\<close>

definition new_chain :: "string \<Rightarrow> QueuedJob \<Rightarrow> Chain" where
  "new_chain ident first = \<lparr>chain_id = ident, chain_steps = [first]\<rparr>"

definition chain_named :: "string \<Rightarrow> Chain \<Rightarrow> Chain" where
  "chain_named ident c = c\<lparr>chain_id := ident\<rparr>"

definition chain_then :: "QueuedJob \<Rightarrow> Chain \<Rightarrow> Chain" where
  "chain_then j c = c\<lparr>chain_steps := chain_steps c @ [j]\<rparr>"

text \<open>\<open>into_queued\<close> panics on a chain without steps; \<open>dispatch_chain\<close> refuses one before.\<close>

definition into_queued :: "Chain \<Rightarrow> QueuedJob option" where
  "into_queued c =
     (case chain_steps c of
        [] \<Rightarrow> None
      | first # rest \<Rightarrow> Some (set_chain (Some (chain_id c)) rest first))"

definition next_in_chain :: "QueuedJob \<Rightarrow> QueuedJob option" where
  "next_in_chain j =
     (case then_steps j of
        [] \<Rightarrow> None
      | next_job # rest \<Rightarrow> Some (set_chain (chain j) rest next_job))"

subsection \<open>Reserved and failed jobs\<close>

record ReservedJob =
  res_id :: string
  res_job :: QueuedJob
  res_attempts :: nat

definition is_last_attempt :: "ReservedJob \<Rightarrow> bool" where
  "is_last_attempt r \<longleftrightarrow> max_tries (res_job r) \<le> res_attempts r"

record FailedJob =
  fj_id :: string
  fj_name :: string
  fj_queue :: string
  fj_payload :: Json
  fj_attempts :: nat
  fj_error :: string
  fj_failed_at :: int

definition failed_to_json :: "FailedJob \<Rightarrow> Json" where
  "failed_to_json f =
     json_object
       [(''id'', String (fj_id f)),
        (''name'', String (fj_name f)),
        (''queue'', String (fj_queue f)),
        (''payload'', fj_payload f),
        (''attempts'', json_of_int (int (fj_attempts f))),
        (''error'', String (fj_error f)),
        (''failed_at'', json_of_int (fj_failed_at f))]"

subsection \<open>What is stored comes back\<close>

lemma map_of_btree_of: "map_of (btree_of ps) k = map_of (rev ps) k"
proof -
  have "map_of (fold (\<lambda>(k, v). btree_insert k v) ps acc) k =
      (case map_of (rev ps) k of Some v \<Rightarrow> Some v | None \<Rightarrow> map_of acc k)" for acc
    by (induction ps arbitrary: acc) (auto simp: map_of_btree_insert map_add_def split: option.splits)
  then show ?thesis by (simp add: btree_of_def split: option.split)
qed

lemma json_get_object: "CHR ''.'' \<notin> set k \<Longrightarrow> json_get (json_object ps) k = map_of (rev ps) k"
  by (simp add: json_get_def split_on_plain json_object_def map_of_btree_of split: option.split)

lemma as_i64_exact: "n \<le> 2 ^ 53 \<Longrightarrow> json_as_i64 (json_of_int (int n)) = Some (int n)"
  by (rule i64_of_json_of_int) (simp add: exact_def)

text \<open>A step that a column of JSON can hold: whole seconds, attempts of 32 bits, and no chain of its own.\<close>

fun storable :: "QueuedJob \<Rightarrow> bool" where
  "storable (QueuedJob name p q tries ra d c steps) \<longleftrightarrow>
     1 \<le> tries \<and> tries < 2 ^ 32 \<and> SECOND dvd ra \<and> as_secs ra \<le> 2 ^ 53 \<and>
     SECOND dvd d \<and> as_secs d \<le> 2 ^ 53 \<and> c = None \<and> list_all storable steps"

lemma queued_json: "storable j \<Longrightarrow> queued_of_json (queued_to_json j) = Some j"
proof (induction j)
  case (QueuedJob name p q tries ra d c steps)
  let ?o = "queued_to_json (QueuedJob name p q tries ra d c steps)"
  have g: "json_get ?o ''name'' = Some (String name)" "json_get ?o ''payload'' = Some p"
    "json_get ?o ''queue'' = Some (String q)" "json_get ?o ''max_tries'' = Some (json_of_int (int tries))"
    "json_get ?o ''retry_after'' = Some (json_of_int (int (as_secs ra)))"
    "json_get ?o ''delay'' = Some (json_of_int (int (as_secs d)))"
    "json_get ?o ''then'' = Some (Array (map queued_to_json steps))"
    using QueuedJob.prems by (simp_all add: json_get_object wrap_i64_id)
  have t: "json_as_i64 (json_of_int (int tries)) = Some (int tries)"
    "json_as_i64 (json_of_int (int (as_secs ra))) = Some (int (as_secs ra))"
    "json_as_i64 (json_of_int (int (as_secs d))) = Some (int (as_secs d))"
    using QueuedJob.prems by (auto intro!: as_i64_exact)
  have u: "as_u32 (int tries) = tries" using QueuedJob.prems by (simp add: as_u32_def)
  have s: "as_secs ra * SECOND = ra" "as_secs d * SECOND = d"
    using QueuedJob.prems by (simp_all add: as_secs_def)
  have steps: "List.map_filter id (map queued_of_json (map queued_to_json steps)) = steps"
  proof -
    have "map queued_of_json (map queued_to_json steps) = map Some steps"
      using QueuedJob by (auto simp: list_all_iff)
    then have "List.map_filter id (map queued_of_json (map queued_to_json steps)) = List.map_filter id (map Some steps)"
      by (rule arg_cong)
    also have "\<dots> = steps" by (induction steps) (simp_all add: map_filter_simps)
    finally show ?thesis .
  qed
  show ?case
    unfolding queued_of_json.simps [of ?o] g using QueuedJob.prems u by (simp add: t s steps [simplified])
qed

lemma storable_steps: "list_all storable js \<Longrightarrow> List.map_filter queued_of_json (map queued_to_json js) = js"
  by (induction js) (simp_all add: map_filter_simps queued_json)


subsection \<open>The order of a chain\<close>

lemma next_in_chain_shorter: "next_in_chain j = Some k \<Longrightarrow> length (then_steps k) < length (then_steps j)"
  by (auto simp: next_in_chain_def set_chain_def split: list.splits)

text \<open>The jobs pushed one after the other as each one succeeds.\<close>

function chain_run :: "QueuedJob \<Rightarrow> QueuedJob list" where
  "chain_run j = j # (case next_in_chain j of None \<Rightarrow> [] | Some k \<Rightarrow> chain_run k)"
  by pat_completeness auto
termination
  by (relation "measure (\<lambda>j. length (then_steps j))") (auto dest: next_in_chain_shorter)

declare chain_run.simps [simp del]

lemma chain_run_steps:
  "chain_run (set_chain c rest j) =
     map (\<lambda>i. set_chain c (drop (Suc i) (j # rest)) ((j # rest) ! i)) [0..<Suc (length rest)]"
proof (induction rest arbitrary: j)
  case Nil
  show ?case by (subst chain_run.simps) (simp add: next_in_chain_def set_chain_def)
next
  case (Cons k rest)
  have n: "next_in_chain (set_chain c (k # rest) j) = Some (set_chain c rest k)"
    by (simp add: next_in_chain_def set_chain_def)
  have "chain_run (set_chain c (k # rest) j) = set_chain c (k # rest) j # chain_run (set_chain c rest k)"
    by (subst chain_run.simps) (simp add: n)
  also have "\<dots> = map (\<lambda>i. set_chain c (drop (Suc i) (j # k # rest)) ((j # k # rest) ! i)) (0 # map Suc [0..<Suc (length rest)])"
    unfolding Cons.IH by (simp add: comp_def)
  also have "0 # map Suc [0..<Suc (length rest)] = [0..<Suc (length (k # rest))]"
    unfolding map_Suc_upt by (simp add: upt_conv_Cons del: upt_Suc)
  finally show ?case .
qed

text \<open>
  a chain runs its steps in order, each once.  The jobs pushed as each one before succeeds are the steps of the
  chain as they were added, every one with the chain's id and with exactly the steps that come after it.
\<close>

theorem chain_in_order:
  assumes "into_queued c = Some j"
  shows "chain_run j = map (\<lambda>i. set_chain (Some (chain_id c)) (drop (Suc i) (chain_steps c)) (chain_steps c ! i)) [0..<length (chain_steps c)]"
proof -
  obtain first rest where s: "chain_steps c = first # rest" "j = set_chain (Some (chain_id c)) rest first"
    using assms by (auto simp: into_queued_def split: list.splits)
  show ?thesis unfolding s(2) chain_run_steps using s(1) by simp
qed

theorem chain_in_order_witness:
  "map job_name (chain_run (set_chain (Some ''c'') [new_job ''b'' Null] (new_job ''a'' Null))) = [''a'', ''b'']"
proof -
  have "into_queued \<lparr>chain_id = ''c'', chain_steps = [new_job ''a'' Null, new_job ''b'' Null]\<rparr> =
      Some (set_chain (Some ''c'') [new_job ''b'' Null] (new_job ''a'' Null))"
    by (simp add: into_queued_def)
  from chain_in_order [OF this] show ?thesis by (simp add: set_chain_def new_job_def upt_rec)
qed


end
