(* ===== verification/Queue.thy ===== *)
theory Queue
  imports Jobs "HOL-Library.AList"
begin

section \<open>The queue and its workers\<close>

text \<open>
  \<open>rustlavel-queue\<close>: the in-process driver (\<open>memory.rs\<close>) and the worker (\<open>worker.rs\<close>).  The clock, in
  seconds, is an argument of each operation.  Every operation of the driver runs under one lock, so it
  is one atomic step; a job that a worker has reserved is out of the queue until the worker
  settles it, so \<open>queue_step\<close> interleaves pushes and any number of workers over a multiset of jobs in hand.
  The error of a poisoned lock is left out: no operation panics while it holds the lock.

  The worker is written over any driver whose operations may fail; \<open>job_driver\<close> is the contract it
  relies on, and the memory driver is shown to keep it.
\<close>

subsection \<open>The in-process driver\<close>

text \<open>\<open>unix_now() + delay.as_secs() as i64\<close>: the cast and the sum keep 64 bits.\<close>

definition due_at :: "int \<Rightarrow> nat \<Rightarrow> int" where
  "due_at now d = wrap_i64 (now + wrap_i64 (int (as_secs d)))"

record QueueEntry =
  qe_id :: string
  qe_job :: QueuedJob
  qe_attempts :: nat
  available_at :: int

record MemoryQueue =
  ready :: "(string \<times> QueueEntry list) list"
  failed :: "FailedJob list"
  next_id :: nat

definition new_queue :: MemoryQueue where
  "new_queue = \<lparr>ready = [], failed = [], next_id = 1\<rparr>"

definition entries_of :: "string \<Rightarrow> MemoryQueue \<Rightarrow> QueueEntry list" where
  "entries_of name q = (case map_of (ready q) name of Some es \<Rightarrow> es | None \<Rightarrow> [])"

text \<open>\<open>ready.entry(name).or_default().push(entry)\<close>\<close>

definition push_entry :: "string \<Rightarrow> QueueEntry \<Rightarrow> MemoryQueue \<Rightarrow> MemoryQueue" where
  "push_entry name e q = q\<lparr>ready := AList.update name (entries_of name q @ [e]) (ready q)\<rparr>"

definition ready_size :: "int \<Rightarrow> string \<Rightarrow> MemoryQueue \<Rightarrow> nat" where
  "ready_size now name q =
     (case map_of (ready q) name of
        Some es \<Rightarrow> length (filter (\<lambda>e. available_at e \<le> now) es)
      | None \<Rightarrow> 0)"

definition flush_failed :: "MemoryQueue \<Rightarrow> nat \<times> MemoryQueue" where
  "flush_failed q = (length (failed q), q\<lparr>failed := []\<rparr>)"

definition queue_push :: "int \<Rightarrow> QueuedJob \<Rightarrow> MemoryQueue \<Rightarrow> string \<times> MemoryQueue" where
  "queue_push now job q =
     (let ident = show_nat (next_id q);
          e = \<lparr>qe_id = ident, qe_job = job, qe_attempts = 0, available_at = due_at now (delay job)\<rparr>
      in (ident, push_entry (job_queue job) e (q\<lparr>next_id := next_id q + 1\<rparr>)))"

definition push_on :: "int \<Rightarrow> string \<Rightarrow> QueuedJob \<Rightarrow> MemoryQueue \<Rightarrow> string \<times> MemoryQueue" where
  "push_on now name job q = queue_push now (on_queue name job) q"

definition queue_later :: "int \<Rightarrow> nat \<Rightarrow> QueuedJob \<Rightarrow> MemoryQueue \<Rightarrow> string \<times> MemoryQueue" where
  "queue_later now d job q = queue_push now (with_delay d job) q"

definition dispatch_chain :: "int \<Rightarrow> Chain \<Rightarrow> MemoryQueue \<Rightarrow> (string + string) \<times> MemoryQueue" where
  "dispatch_chain now c q =
     (case into_queued c of
        None \<Rightarrow> (Inl ''a chain needs at least one step'', q)
      | Some job \<Rightarrow> (case queue_push now job q of (ident, q1) \<Rightarrow> (Inr ident, q1)))"

definition position :: "('a \<Rightarrow> bool) \<Rightarrow> 'a list \<Rightarrow> nat option" where
  "position p xs = (if \<exists>x\<in>set xs. p x then Some (length (takeWhile (\<lambda>x. \<not> p x) xs)) else None)"

definition remove_at :: "nat \<Rightarrow> 'a list \<Rightarrow> 'a list" where
  "remove_at i xs = take i xs @ drop (Suc i) xs"

definition queue_pop :: "int \<Rightarrow> string \<Rightarrow> MemoryQueue \<Rightarrow> ReservedJob option \<times> MemoryQueue" where
  "queue_pop now name q =
     (case map_of (ready q) name of
        None \<Rightarrow> (None, q)
      | Some es \<Rightarrow>
          (case position (\<lambda>e. available_at e \<le> now) es of
             None \<Rightarrow> (None, q)
           | Some i \<Rightarrow>
               (let e = es ! i in
                (Some \<lparr>res_id = qe_id e, res_job = qe_job e, res_attempts = qe_attempts e + 1\<rparr>,
                 q\<lparr>ready := AList.update name (remove_at i es) (ready q)\<rparr>))))"

definition queue_size :: "string \<Rightarrow> MemoryQueue \<Rightarrow> nat" where
  "queue_size name q = (case map_of (ready q) name of Some es \<Rightarrow> length es | None \<Rightarrow> 0)"

definition queue_delete :: "ReservedJob \<Rightarrow> MemoryQueue \<Rightarrow> MemoryQueue" where
  "queue_delete r q = q"

definition queue_release :: "int \<Rightarrow> ReservedJob \<Rightarrow> nat \<Rightarrow> MemoryQueue \<Rightarrow> MemoryQueue" where
  "queue_release now r d q =
     push_entry (job_queue (res_job r))
       \<lparr>qe_id = res_id r, qe_job = res_job r, qe_attempts = res_attempts r, available_at = due_at now d\<rparr> q"

definition queue_fail :: "int \<Rightarrow> ReservedJob \<Rightarrow> string \<Rightarrow> MemoryQueue \<Rightarrow> MemoryQueue" where
  "queue_fail now r err q =
     q\<lparr>failed := failed q @
        [\<lparr>fj_id = res_id r, fj_name = job_name (res_job r), fj_queue = job_queue (res_job r),
          fj_payload = stored_payload (res_job r), fj_attempts = res_attempts r, fj_error = err,
          fj_failed_at = now\<rparr>]\<rparr>"

definition failed_jobs :: "MemoryQueue \<Rightarrow> FailedJob list" where
  "failed_jobs q = failed q"

definition queue_clear :: "string \<Rightarrow> MemoryQueue \<Rightarrow> nat \<times> MemoryQueue" where
  "queue_clear name q =
     (case map_of (ready q) name of Some es \<Rightarrow> length es | None \<Rightarrow> 0, q\<lparr>ready := AList.delete name (ready q)\<rparr>)"

subsection \<open>The worker\<close>

datatype Outcome = Processed | Released | Failed

record WorkerStats =
  st_processed :: nat
  st_released :: nat
  st_failed :: nat

definition stats_attempts :: "WorkerStats \<Rightarrow> nat" where
  "stats_attempts s = st_processed s + st_released s + st_failed s"

definition stats_record :: "Outcome \<Rightarrow> WorkerStats \<Rightarrow> WorkerStats" where
  "stats_record o' s =
     (case o' of
        Processed \<Rightarrow> s\<lparr>st_processed := st_processed s + 1\<rparr>
      | Released \<Rightarrow> s\<lparr>st_released := st_released s + 1\<rparr>
      | Failed \<Rightarrow> s\<lparr>st_failed := st_failed s + 1\<rparr>)"

definition stats_merge :: "WorkerStats \<Rightarrow> WorkerStats \<Rightarrow> WorkerStats" where
  "stats_merge s t =
     \<lparr>st_processed = st_processed s + st_processed t, st_released = st_released s + st_released t,
      st_failed = st_failed s + st_failed t\<rparr>"

record WorkerOptions =
  wo_queue :: string
  poll_interval :: nat
  max_jobs :: "nat option"
  backoff_cap :: nat

text \<open>\<open>Duration::saturating_mul\<close> stops at the greatest duration.\<close>

definition DURATION_MAX :: nat where "DURATION_MAX = 2 ^ 64 * 10 ^ 9 - 1"

definition MAX_QUEUE_ERROR_BACKOFF :: nat where "MAX_QUEUE_ERROR_BACKOFF = 30 * SECOND"

definition backoff :: "nat \<Rightarrow> nat \<Rightarrow> nat \<Rightarrow> nat" where
  "backoff base attempts cap =
     (let doublings = min (attempts - 1) 20; factor = 2 ^ doublings
      in min (min (base * factor) DURATION_MAX) cap)"

text \<open>A driver: each operation answers or fails, and leaves a state.\<close>

record ('s, 'e) queue_ops =
  op_push :: "QueuedJob \<Rightarrow> 's \<Rightarrow> ('e + string) \<times> 's"
  op_pop :: "string \<Rightarrow> 's \<Rightarrow> ('e + ReservedJob option) \<times> 's"
  op_delete :: "ReservedJob \<Rightarrow> 's \<Rightarrow> ('e + unit) \<times> 's"
  op_release :: "ReservedJob \<Rightarrow> nat \<Rightarrow> 's \<Rightarrow> ('e + unit) \<times> 's"
  op_fail :: "ReservedJob \<Rightarrow> string \<Rightarrow> 's \<Rightarrow> ('e + unit) \<times> 's"

text \<open>
  \<open>process\<close>: settle a reserved job by the result of its handler, which is the error text when the
  handler returned one, panicked, or was not registered.
\<close>

definition process_job :: "('s, 'e) queue_ops \<Rightarrow> nat \<Rightarrow> string + unit \<Rightarrow> ReservedJob \<Rightarrow> 's \<Rightarrow> ('e + Outcome) \<times> 's" where
  "process_job ops cap res r s =
     (case res of
        Inr _ \<Rightarrow>
          (case op_delete ops r s of
             (Inl e, s1) \<Rightarrow> (Inl e, s1)
           | (Inr _, s1) \<Rightarrow>
               (case next_in_chain (res_job r) of
                  None \<Rightarrow> (Inr Processed, s1)
                | Some job \<Rightarrow>
                    (case op_push ops job s1 of
                       (Inl e, s2) \<Rightarrow> (Inl e, s2)
                     | (Inr _, s2) \<Rightarrow> (Inr Processed, s2))))
      | Inl err \<Rightarrow>
          if is_last_attempt r then
            (case op_fail ops r err s of
               (Inl e, s1) \<Rightarrow> (Inl e, s1)
             | (Inr _, s1) \<Rightarrow> (Inr Failed, s1))
          else
            (case op_release ops r (backoff (retry_after (res_job r)) (res_attempts r) cap) s of
               (Inl e, s1) \<Rightarrow> (Inl e, s1)
             | (Inr _, s1) \<Rightarrow> (Inr Released, s1)))"

definition run_once :: "('s, 'e) queue_ops \<Rightarrow> WorkerOptions \<Rightarrow> (ReservedJob \<Rightarrow> string + unit) \<Rightarrow> 's \<Rightarrow> ('e + Outcome option) \<times> 's" where
  "run_once ops opt handler s =
     (case op_pop ops (wo_queue opt) s of
        (Inl e, s1) \<Rightarrow> (Inl e, s1)
      | (Inr None, s1) \<Rightarrow> (Inr None, s1)
      | (Inr (Some r), s1) \<Rightarrow>
          (case process_job ops (backoff_cap opt) (handler r) r s1 of
             (Inl e, s2) \<Rightarrow> (Inl e, s2)
           | (Inr o', s2) \<Rightarrow> (Inr (Some o'), s2)))"

text \<open>
  \<open>run\<close>, over what happens from outside: for each turn of the loop the driver as it is then, whether
  shutdown is signalled at the top, and whether it arrives during the wait.  The answer is the tally and the
  pauses waited, or \<open>None\<close> when the list ends before the loop does.
\<close>

record ('s, 'e) turn =
  turn_ops :: "('s, 'e) queue_ops"
  turn_handler :: "ReservedJob \<Rightarrow> string + unit"
  signalled :: bool
  cut_short :: bool

fun worker_run ::
  "WorkerOptions \<Rightarrow> ('s, 'e) turn list \<Rightarrow> WorkerStats \<Rightarrow> nat \<Rightarrow> nat list \<Rightarrow> 's \<Rightarrow> (WorkerStats \<times> nat list) option \<times> 's" where
  "worker_run opt [] stats failures waits s = (None, s)"
| "worker_run opt (t # ts) stats failures waits s =
     (if signalled t then (Some (stats, waits), s)
      else if (case max_jobs opt of Some m \<Rightarrow> m \<le> stats_attempts stats | None \<Rightarrow> False) then (Some (stats, waits), s)
      else
        case run_once (turn_ops t) opt (turn_handler t) s of
          (Inr (Some o'), s1) \<Rightarrow> worker_run opt ts (stats_record o' stats) 0 waits s1
        | (Inr None, s1) \<Rightarrow>
            if cut_short t then (Some (stats, waits @ [poll_interval opt]), s1)
            else worker_run opt ts stats 0 (waits @ [poll_interval opt]) s1
        | (Inl e, s1) \<Rightarrow>
            let failures1 = min (failures + 1) (2 ^ 32 - 1);
                pause = backoff (poll_interval opt) failures1 MAX_QUEUE_ERROR_BACKOFF
            in if cut_short t then (Some (stats, waits @ [pause]), s1)
               else worker_run opt ts stats failures1 (waits @ [pause]) s1)"

text \<open>
  The memory driver as one turn of a worker sees it: it reserves at one time and settles at a later one.
\<close>

definition memory_ops :: "int \<Rightarrow> int \<Rightarrow> (MemoryQueue, 'e) queue_ops" where
  "memory_ops t0 t1 =
     \<lparr>op_push = (\<lambda>job q. apfst Inr (queue_push t1 job q)),
      op_pop = (\<lambda>name q. apfst Inr (queue_pop t0 name q)),
      op_delete = (\<lambda>r q. (Inr (), queue_delete r q)),
      op_release = (\<lambda>r d q. (Inr (), queue_release t1 r d q)),
      op_fail = (\<lambda>r err q. (Inr (), queue_fail t1 r err q))\<rparr>"

subsection \<open>Lists of entries\<close>

lemma position_Some:
  "position p xs = Some i \<Longrightarrow> i < length xs \<and> p (xs ! i) \<and> (\<forall>x\<in>set (take i xs). \<not> p x)"
proof -
  assume a: "position p xs = Some i"
  then have ex: "\<exists>x\<in>set xs. p x" and i: "i = length (takeWhile (\<lambda>x. \<not> p x) xs)"
    by (auto simp: position_def split: if_splits)
  have l: "i < length xs" unfolding i using ex by (induction xs) auto
  have "p (xs ! i)" using nth_length_takeWhile [of "\<lambda>x. \<not> p x" xs] l unfolding i by simp
  moreover have "take i xs = takeWhile (\<lambda>x. \<not> p x) xs" unfolding i by (rule takeWhile_eq_take [symmetric])
  ultimately show ?thesis using l by (auto dest: set_takeWhileD)
qed

lemma position_None: "position p xs = None \<longleftrightarrow> (\<forall>x\<in>set xs. \<not> p x)"
  by (auto simp: position_def)

lemma remove_at_mset: "i < length xs \<Longrightarrow> add_mset (xs ! i) (mset (remove_at i xs)) = mset xs"
proof -
  assume "i < length xs"
  then have "mset xs = mset (take i xs @ xs ! i # drop (Suc i) xs)" by (simp add: id_take_nth_drop [symmetric])
  then show ?thesis by (simp add: remove_at_def)
qed

definition all_entries :: "MemoryQueue \<Rightarrow> QueueEntry multiset" where
  "all_entries q = mset (concat (map snd (ready q)))"

lemma update_entries:
  "mset (concat (map snd (AList.update k v al))) + mset (case map_of al k of Some es \<Rightarrow> es | None \<Rightarrow> []) =
   mset (concat (map snd al)) + mset v"
  by (induction al) (auto simp: ac_simps)

lemma delete_entries:
  "distinct (map fst al) \<Longrightarrow>
   mset (concat (map snd (AList.delete k al))) + mset (case map_of al k of Some es \<Rightarrow> es | None \<Rightarrow> []) =
   mset (concat (map snd al))"
proof (induction al)
  case (Cons p al)
  show ?case
  proof (cases "fst p = k")
    case True
    then have "k \<notin> fst ` set al" using Cons.prems by auto
    then have "AList.delete k al = al" "map_of al k = None" by (simp_all add: map_of_eq_None_iff)
    with True show ?thesis by (simp add: ac_simps)
  next
    case False
    with Cons show ?thesis by (cases p) (simp add: ac_simps)
  qed
qed simp

lemma push_entry_all [simp]: "all_entries (push_entry name e q) = add_mset e (all_entries q)"
  using update_entries [of name "entries_of name q @ [e]" "ready q"]
  by (simp add: all_entries_def push_entry_def entries_of_def)

lemma push_entry_other [simp]:
  "failed (push_entry name e q) = failed q" "next_id (push_entry name e q) = next_id q"
  by (simp_all add: push_entry_def)

lemma all_entries_other [simp]:
  "all_entries (q\<lparr>failed := f\<rparr>) = all_entries q" "all_entries (q\<lparr>next_id := n\<rparr>) = all_entries q"
  by (simp_all add: all_entries_def)

lemma queue_pop_some:
  assumes "queue_pop now name q = (Some r, q')"
  obtains i where "i < length (entries_of name q)" "position (\<lambda>e. available_at e \<le> now) (entries_of name q) = Some i"
    "r = \<lparr>res_id = qe_id (entries_of name q ! i), res_job = qe_job (entries_of name q ! i),
          res_attempts = qe_attempts (entries_of name q ! i) + 1\<rparr>"
    "q' = q\<lparr>ready := AList.update name (remove_at i (entries_of name q)) (ready q)\<rparr>"
    "map_of (ready q) name = Some (entries_of name q)"
proof -
  obtain es i where es: "map_of (ready q) name = Some es" "position (\<lambda>e. available_at e \<le> now) es = Some i"
      "r = \<lparr>res_id = qe_id (es ! i), res_job = qe_job (es ! i), res_attempts = qe_attempts (es ! i) + 1\<rparr>"
      "q' = q\<lparr>ready := AList.update name (remove_at i es) (ready q)\<rparr>"
    using assms by (auto simp: queue_pop_def Let_def split: option.splits)
  have e: "entries_of name q = es" using es(1) by (simp add: entries_of_def)
  have "i < length es" using position_Some [OF es(2)] by simp
  then show ?thesis using that es unfolding e by blast
qed

lemma queue_pop_none:
  "queue_pop now name q = (None, q') \<longleftrightarrow> q' = q \<and> (\<forall>e\<in>set (entries_of name q). now < available_at e)"
proof (cases "position (\<lambda>e. available_at e \<le> now) (entries_of name q)")
  case None
  then have "queue_pop now name q = (None, q)"
    by (auto simp: queue_pop_def entries_of_def split: option.splits)
  moreover have "\<forall>e\<in>set (entries_of name q). now < available_at e" using None by (simp add: position_None not_le)
  ultimately show ?thesis by auto
next
  case (Some i)
  then have "\<exists>e\<in>set (entries_of name q). \<not> now < available_at e"
    using position_Some [OF Some] by (auto simp: not_less intro!: bexI [OF _ nth_mem])
  moreover have "fst (queue_pop now name q) \<noteq> None"
  proof (cases "map_of (ready q) name")
    case None
    with Some show ?thesis by (simp add: entries_of_def position_def)
  next
    case (Some es)
    with \<open>position _ _ = Some i\<close> show ?thesis by (simp add: queue_pop_def entries_of_def Let_def)
  qed
  ultimately show ?thesis by (metis fst_conv)
qed

lemma queue_pop_all:
  assumes "queue_pop now name q = (Some r, q')"
  obtains e where "all_entries q = add_mset e (all_entries q')" "available_at e \<le> now"
    "res_id r = qe_id e" "res_job r = qe_job e" "res_attempts r = qe_attempts e + 1"
    "failed q' = failed q" "next_id q' = next_id q"
proof (rule queue_pop_some [OF assms])
  fix i
  let ?es = "entries_of name q"
  assume i: "i < length ?es" "position (\<lambda>e. available_at e \<le> now) ?es = Some i"
    and r: "r = \<lparr>res_id = qe_id (?es ! i), res_job = qe_job (?es ! i), res_attempts = qe_attempts (?es ! i) + 1\<rparr>"
    and q': "q' = q\<lparr>ready := AList.update name (remove_at i ?es) (ready q)\<rparr>"
    and m: "map_of (ready q) name = Some ?es"
  have "all_entries q' + mset ?es = all_entries q + mset (remove_at i ?es)"
    using update_entries [of name "remove_at i ?es" "ready q"] m by (simp add: all_entries_def q')
  then have "all_entries q = add_mset (?es ! i) (all_entries q')"
    unfolding remove_at_mset [OF i(1), symmetric] by simp
  then show ?thesis using that [of "?es ! i"] position_Some [OF i(2)] by (simp add: r q')
qed

text \<open>
  the queue is first in, first out among the jobs that are due.  A reservation takes the
  earliest pushed job of the named queue whose time has come, with one more attempt than it had; every job before it was not yet
  due, the others keep their order, and no other queue is touched.  Nothing is reserved, and nothing changes, exactly
  when no job of the queue is due.
\<close>

theorem queue_pop_fifo:
  "case queue_pop now name q of
     (None, q') \<Rightarrow> q' = q \<and> (\<forall>e\<in>set (entries_of name q). now < available_at e)
   | (Some r, q') \<Rightarrow>
       (\<exists>pre e post. entries_of name q = pre @ e # post \<and> entries_of name q' = pre @ post \<and>
          available_at e \<le> now \<and> (\<forall>d\<in>set pre. now < available_at d) \<and>
          r = \<lparr>res_id = qe_id e, res_job = qe_job e, res_attempts = qe_attempts e + 1\<rparr>) \<and>
       (\<forall>other. other \<noteq> name \<longrightarrow> entries_of other q' = entries_of other q) \<and>
       failed q' = failed q \<and> next_id q' = next_id q"
proof (cases "queue_pop now name q")
  case (Pair res q')
  show ?thesis
  proof (cases res)
    case None
    then show ?thesis using Pair queue_pop_none [of now name q q'] by simp
  next
    case (Some r)
    let ?es = "entries_of name q"
    have p: "queue_pop now name q = (Some r, q')" using Pair Some by simp
    obtain i where i: "i < length ?es" "position (\<lambda>e. available_at e \<le> now) ?es = Some i"
      "r = \<lparr>res_id = qe_id (?es ! i), res_job = qe_job (?es ! i), res_attempts = qe_attempts (?es ! i) + 1\<rparr>"
      "q' = q\<lparr>ready := AList.update name (remove_at i ?es) (ready q)\<rparr>"
      using queue_pop_some [OF p] by blast
    have "?es = take i ?es @ ?es ! i # drop (Suc i) ?es" using i(1) by (rule id_take_nth_drop)
    moreover have "entries_of name q' = take i ?es @ drop (Suc i) ?es"
      by (simp add: i(4) entries_of_def update_conv' remove_at_def)
    moreover have "available_at (?es ! i) \<le> now" "\<forall>d\<in>set (take i ?es). now < available_at d"
      using position_Some [OF i(2)] by (simp_all add: not_le)
    ultimately have "\<exists>pre e post. ?es = pre @ e # post \<and> entries_of name q' = pre @ post \<and>
          available_at e \<le> now \<and> (\<forall>d\<in>set pre. now < available_at d) \<and>
          r = \<lparr>res_id = qe_id e, res_job = qe_job e, res_attempts = qe_attempts e + 1\<rparr>"
      using i(3) by blast
    moreover have "\<forall>other. other \<noteq> name \<longrightarrow> entries_of other q' = entries_of other q"
      by (simp add: i(4) entries_of_def update_conv')
    ultimately show ?thesis unfolding p by (simp add: i(4))
  qed
qed

text \<open>A delayed job at the head of the queue, and one that is due behind it.\<close>

definition two_jobs :: MemoryQueue where
  "two_jobs = \<lparr>ready = [(''default'',
      [\<lparr>qe_id = ''1'', qe_job = new_job ''a'' Null, qe_attempts = 0, available_at = 50\<rparr>,
       \<lparr>qe_id = ''2'', qe_job = new_job ''b'' Null, qe_attempts = 2, available_at = 5\<rparr>])], failed = [], next_id = 3\<rparr>"

theorem queue_pop_fifo_witness:
  "\<exists>r q'. queue_pop 7 ''default'' two_jobs = (Some r, q') \<and> res_id r = ''2'' \<and> res_attempts r = 3 \<and> length (entries_of ''default'' q') = 1"
proof -
  obtain o1 q' where p: "queue_pop 7 ''default'' two_jobs = (o1, q')" by fastforce
  have es: "entries_of ''default'' two_jobs =
      [\<lparr>qe_id = ''1'', qe_job = new_job ''a'' Null, qe_attempts = 0, available_at = 50\<rparr>,
       \<lparr>qe_id = ''2'', qe_job = new_job ''b'' Null, qe_attempts = 2, available_at = 5\<rparr>]"
    by (simp add: two_jobs_def entries_of_def)
  note fifo = queue_pop_fifo [where now = 7 and name = "''default''" and q = two_jobs, unfolded p es]
  show ?thesis
  proof (cases o1)
    case None
    then show ?thesis using fifo by simp
  next
    case (Some r)
    then obtain pre e post where s: "[\<lparr>qe_id = ''1'', qe_job = new_job ''a'' Null, qe_attempts = 0, available_at = 50\<rparr>,
       \<lparr>qe_id = ''2'', qe_job = new_job ''b'' Null, qe_attempts = 2, available_at = 5\<rparr>] = pre @ e # post"
      "entries_of ''default'' q' = pre @ post" "available_at e \<le> 7"
      "r = \<lparr>res_id = qe_id e, res_job = qe_job e, res_attempts = qe_attempts e + 1\<rparr>"
      using fifo by auto
    then have "e = \<lparr>qe_id = ''2'', qe_job = new_job ''b'' Null, qe_attempts = 2, available_at = 5\<rparr> \<and> length (pre @ post) = 1"
      by (auto simp: Cons_eq_append_conv)
    then show ?thesis using p Some s by simp
  qed
qed

subsection \<open>Retry delays\<close>

text \<open>
  how long a retry waits.  The delay is never above the cap, never shrinks from one attempt to the next, starts at the
  base, doubles with each attempt until it meets the cap or the greatest duration, and stays at that bound.
\<close>

theorem backoff_bounds:
  "backoff base attempts cap \<le> cap \<and>
   (base \<le> DURATION_MAX \<longrightarrow> backoff base 1 cap = min base cap) \<and>
   backoff base attempts cap \<le> backoff base (Suc attempts) cap \<and>
   (1 \<le> attempts \<and> attempts \<le> 20 \<longrightarrow>
      backoff base (Suc attempts) cap = min (2 * backoff base attempts cap) (min DURATION_MAX cap))"
proof -
  let ?f = "\<lambda>a. base * 2 ^ min (a - 1) 20"
  have b: "backoff base a cap = min (?f a) (min DURATION_MAX cap)" for a
    by (simp add: backoff_def Let_def min.assoc)
  have gen: "min (2 * x) m = min (2 * min x m) m" for x m :: nat by linarith
  have mono: "?f attempts \<le> ?f (Suc attempts)" by (intro mult_le_mono2 power_increasing) auto
  have dbl: "?f (Suc attempts) = 2 * ?f attempts" if "1 \<le> attempts" "attempts \<le> 20"
  proof -
    have "min (Suc attempts - 1) 20 = Suc (min (attempts - 1) 20)" using that by simp
    then show ?thesis unfolding \<open>min _ _ = Suc _\<close> power_Suc by (simp only: mult.left_commute)
  qed
  have "backoff base (Suc attempts) cap = min (2 * backoff base attempts cap) (min DURATION_MAX cap)"
    if "1 \<le> attempts" "attempts \<le> 20"
    unfolding b dbl [OF that] by (rule gen)
  moreover have "base \<le> DURATION_MAX \<longrightarrow> backoff base 1 cap = min base cap" unfolding b by (simp add: min_def)
  moreover have "backoff base attempts cap \<le> backoff base (Suc attempts) cap" unfolding b using mono by (intro min.mono) simp_all
  moreover have "backoff base attempts cap \<le> cap" unfolding b by simp
  ultimately show ?thesis by blast
qed

theorem backoff_bounds_witness:
  "backoff (60 * SECOND) 3 (3600 * SECOND) = 240 * SECOND \<and> backoff (60 * SECOND) 10 (3600 * SECOND) = 3600 * SECOND"
proof -
  let ?b = "\<lambda>a. backoff (60 * SECOND) a (3600 * SECOND)"
  have one: "?b 1 = 60 * SECOND"
    using backoff_bounds [of "60 * SECOND" 1 "3600 * SECOND"] by (simp add: DURATION_MAX_def SECOND_def)
  have dbl: "?b (Suc a) = min (2 * ?b a) (min DURATION_MAX (3600 * SECOND))" if "1 \<le> a" "a \<le> 20" for a
    using backoff_bounds [of "60 * SECOND" a "3600 * SECOND"] that by blast
  have "Suc 1 = 2" "Suc 2 = (3 :: nat)" by simp_all
  then have "?b 2 = 120 * SECOND" using dbl [of 1] by (simp only: one) (simp add: DURATION_MAX_def SECOND_def)
  then have "?b 3 = 240 * SECOND" using dbl [of 2] by (simp add: DURATION_MAX_def SECOND_def)
  moreover have "?b 10 = 3600 * SECOND" by (simp add: backoff_def DURATION_MAX_def SECOND_def)
  ultimately show ?thesis ..
qed

subsection \<open>The contract of a driver, and what a worker does with it\<close>

text \<open>
  What a worker relies on: \<open>waiting\<close> are the ids and attempts of the jobs that the driver keeps for a worker and \<open>buried\<close> those of its
  dead-letter store.  Only a reservation takes a job out, with one attempt more, and only a failure buries one.
\<close>

locale job_driver =
  fixes ops :: "('s, 'e) queue_ops"
    and waiting :: "'s \<Rightarrow> (string \<times> nat) multiset"
    and buried :: "'s \<Rightarrow> (string \<times> nat) multiset"
  assumes push_waits:
      "op_push ops job s = (Inr i, s') \<Longrightarrow> waiting s' = add_mset (i, 0) (waiting s) \<and> buried s' = buried s"
    and pop_takes:
      "op_pop ops name s = (Inr (Some r), s') \<Longrightarrow>
         0 < res_attempts r \<and> waiting s = add_mset (res_id r, res_attempts r - 1) (waiting s') \<and> buried s' = buried s"
    and pop_empty: "op_pop ops name s = (Inr None, s') \<Longrightarrow> waiting s' = waiting s \<and> buried s' = buried s"
    and delete_forgets: "op_delete ops r s = (Inr u, s') \<Longrightarrow> waiting s' = waiting s \<and> buried s' = buried s"
    and release_waits:
      "op_release ops r d s = (Inr u, s') \<Longrightarrow>
         waiting s' = add_mset (res_id r, res_attempts r) (waiting s) \<and> buried s' = buried s"
    and fail_buries:
      "op_fail ops r err s = (Inr u, s') \<Longrightarrow>
         waiting s' = waiting s \<and> buried s' = add_mset (res_id r, res_attempts r) (buried s)"
begin

lemma process_settles:
  assumes "process_job ops cap res r s = (Inr out, s')"
  shows "(out = Processed \<and> res = Inr () \<and> buried s' = buried s \<and>
            (case next_in_chain (res_job r) of None \<Rightarrow> waiting s' = waiting s
             | Some j \<Rightarrow> \<exists>i. waiting s' = add_mset (i, 0) (waiting s))) \<or>
         (out = Released \<and> (\<exists>err. res = Inl err) \<and> res_attempts r < max_tries (res_job r) \<and> buried s' = buried s \<and>
            waiting s' = add_mset (res_id r, res_attempts r) (waiting s)) \<or>
         (out = Failed \<and> (\<exists>err. res = Inl err) \<and> max_tries (res_job r) \<le> res_attempts r \<and> waiting s' = waiting s \<and>
            buried s' = add_mset (res_id r, res_attempts r) (buried s))"
proof (cases res)
  case (Inl err)
  then show ?thesis using assms
    by (auto simp: process_job_def is_last_attempt_def not_le split: prod.splits sum.splits if_splits
        dest!: fail_buries release_waits)
next
  case (Inr u)
  then show ?thesis using assms
    by (auto simp: process_job_def split: prod.splits sum.splits option.splits dest!: delete_forgets push_waits)
qed

lemma run_once_buries:
  "run_once ops opt h s = (Inr out, s') \<Longrightarrow>
     size (buried s') = size (buried s) + (if out = Some Failed then 1 else 0)"
  by (auto simp: run_once_def split: prod.splits sum.splits option.splits dest!: pop_takes pop_empty process_settles)

end

text \<open>The memory driver keeps the contract, at any pair of times.\<close>

definition memory_waiting :: "MemoryQueue \<Rightarrow> (string \<times> nat) multiset" where
  "memory_waiting q = image_mset (\<lambda>e. (qe_id e, qe_attempts e)) (all_entries q)"

definition memory_buried :: "MemoryQueue \<Rightarrow> (string \<times> nat) multiset" where
  "memory_buried q = mset (map (\<lambda>f. (fj_id f, fj_attempts f)) (failed q))"

interpretation memory: job_driver "memory_ops t0 t1" memory_waiting memory_buried for t0 t1
proof
  fix name s r s'
  assume "op_pop (memory_ops t0 t1) name s = (Inr (Some r), s')"
  then have p: "queue_pop t0 name s = (Some r, s')" by (cases "queue_pop t0 name s") (simp add: memory_ops_def)
  obtain e where "all_entries s = add_mset e (all_entries s')" "res_id r = qe_id e"
    "res_attempts r = qe_attempts e + 1" "failed s' = failed s"
    using queue_pop_all [OF p] by blast
  then show "0 < res_attempts r \<and> memory_waiting s = add_mset (res_id r, res_attempts r - 1) (memory_waiting s') \<and>
      memory_buried s' = memory_buried s"
    by (simp add: memory_waiting_def memory_buried_def)
next
  fix name s s'
  assume "op_pop (memory_ops t0 t1) name s = (Inr None, s')"
  then have "queue_pop t0 name s = (None, s')" by (cases "queue_pop t0 name s") (simp add: memory_ops_def)
  then have "s' = s" unfolding queue_pop_none by (rule conjunct1)
  then show "memory_waiting s' = memory_waiting s \<and> memory_buried s' = memory_buried s" by simp
qed (auto simp: memory_ops_def queue_push_def queue_delete_def queue_release_def queue_fail_def Let_def
    memory_waiting_def memory_buried_def)

subsection \<open>The loop of a worker\<close>

lemma stats_record_attempts [simp]: "stats_attempts (stats_record out st) = stats_attempts st + 1"
  by (cases out) (simp_all add: stats_attempts_def stats_record_def)

lemma stats_record_failed [simp]: "st_failed (stats_record out st) = st_failed st + (if out = Failed then 1 else 0)"
  by (cases out) (simp_all add: stats_record_def)

lemma worker_run_stops:
  "(\<exists>t\<in>set ts. signalled t) \<Longrightarrow> \<exists>st' ws' s'. worker_run opt ts st n ws s = (Some (st', ws'), s')"
proof (induction ts arbitrary: st n ws s)
  case (Cons t ts)
  show ?case
  proof (cases "signalled t")
    case False
    let ?ret = "\<lambda>p :: (WorkerStats \<times> nat list) option \<times> 'a. \<exists>st' ws' s'. p = (Some (st', ws'), s')"
    have ih: "?ret (worker_run opt ts a k w x)" for a k w x using False Cons by auto
    obtain o1 y where y: "run_once (turn_ops t) opt (turn_handler t) s = (o1, y)" by fastforce
    show ?thesis
    proof (cases o1)
      case (Inl e)
      then show ?thesis using ih [of st _ _ y] by (simp only: worker_run.simps y Let_def) (simp split: option.split)
    next
      case (Inr r)
      then show ?thesis using ih [of _ 0 _ y]
        by (cases r) (simp_all only: worker_run.simps y Let_def, simp_all split: option.split)
    qed
  qed simp
qed simp

text \<open>What holds of the tally, the waits and the queue at the start and is kept by every turn holds at the end.\<close>

lemma worker_run_rule:
  assumes "worker_run opt ts st n ws s = (Some (st', ws'), s')"
    and "P st ws s"
    and ran: "\<And>t out a w x y. t \<in> set ts \<Longrightarrow> P a w x \<Longrightarrow> (\<forall>m. max_jobs opt = Some m \<longrightarrow> stats_attempts a < m) \<Longrightarrow>
       run_once (turn_ops t) opt (turn_handler t) x = (Inr (Some out), y) \<Longrightarrow> P (stats_record out a) w y"
    and idle: "\<And>t a w x y. t \<in> set ts \<Longrightarrow> P a w x \<Longrightarrow>
       run_once (turn_ops t) opt (turn_handler t) x = (Inr None, y) \<Longrightarrow> P a (w @ [poll_interval opt]) y"
    and broken: "\<And>t a w x y e k. t \<in> set ts \<Longrightarrow> P a w x \<Longrightarrow>
       run_once (turn_ops t) opt (turn_handler t) x = (Inl e, y) \<Longrightarrow>
       P a (w @ [backoff (poll_interval opt) k MAX_QUEUE_ERROR_BACKOFF]) y"
  shows "P st' ws' s'"
  using assms
proof (induction ts arbitrary: st n ws s)
  case (Cons t ts)
  have ih: "P st' ws' s'" if "worker_run opt ts a k w x = (Some (st', ws'), s')" "P a w x" for a k w x
  proof (rule Cons.IH [OF that])
  qed (rule Cons.prems(3,4,5); simp)+
  show ?case
  proof (cases "signalled t \<or> (case max_jobs opt of Some m \<Rightarrow> m \<le> stats_attempts st | None \<Rightarrow> False)")
    case True
    then show ?thesis using Cons.prems(1,2) by (auto split: if_splits)
  next
    case False
    then have m: "\<forall>m. max_jobs opt = Some m \<longrightarrow> stats_attempts st < m" by auto
    obtain o1 y where y: "run_once (turn_ops t) opt (turn_handler t) s = (o1, y)" by fastforce
    show ?thesis
    proof (cases o1)
      case (Inl e)
      note b = Cons.prems(5) [OF _ Cons.prems(2) y [unfolded Inl], OF list.set_intros(1)]
      show ?thesis using Cons.prems(1) False b ih [OF _ b] by (auto simp: y Inl Let_def split: if_splits)
    next
      case (Inr r)
      show ?thesis
      proof (cases r)
        case None
        note b = Cons.prems(4) [OF _ Cons.prems(2) y [unfolded Inr None], OF list.set_intros(1)]
        show ?thesis using Cons.prems(1) False b ih [OF _ b] by (auto simp: y Inr None split: if_splits)
      next
        case (Some out)
        note b = Cons.prems(3) [OF _ Cons.prems(2) m y [unfolded Inr Some], OF list.set_intros(1)]
        show ?thesis using Cons.prems(1) False ih [OF _ b] by (auto simp: y Inr Some split: if_splits)
      qed
    qed
  qed
qed simp

definition new_stats :: WorkerStats where
  "new_stats = \<lparr>st_processed = 0, st_released = 0, st_failed = 0\<rparr>"

lemma memory_broken: "run_once (memory_ops t0 t1) opt h q \<noteq> (Inl e, q')"
  by (auto simp: run_once_def process_job_def memory_ops_def apfst_def map_prod_def
      split: prod.splits sum.splits option.splits if_splits)



subsection \<open>Every job is somewhere, once\<close>

text \<open>
  The queue, the jobs its workers hold, and the ids that have left: processed, cleared or flushed.
  A worker reserves in one step and settles in another, whatever its handler answered; any number of workers, and
  anything else that pushes or clears, may act in between.
\<close>

record queue_world =
  the_queue :: MemoryQueue
  in_hand :: "ReservedJob multiset"
  gone :: "string multiset"

definition new_world :: queue_world where
  "new_world = \<lparr>the_queue = new_queue, in_hand = {#}, gone = {#}\<rparr>"

inductive queue_step :: "queue_world \<Rightarrow> queue_world \<Rightarrow> bool" where
  push: "queue_push now job q = (i, q') \<Longrightarrow> queue_step \<lparr>the_queue = q, in_hand = h, gone = g\<rparr> \<lparr>the_queue = q', in_hand = h, gone = g\<rparr>"
| pop: "queue_pop now name q = (Some r, q') \<Longrightarrow>
    queue_step \<lparr>the_queue = q, in_hand = h, gone = g\<rparr> \<lparr>the_queue = q', in_hand = add_mset r h, gone = g\<rparr>"
| settle: "process_job (memory_ops now now :: (MemoryQueue, unit) queue_ops) cap res r q = (Inr out, q') \<Longrightarrow>
    queue_step \<lparr>the_queue = q, in_hand = add_mset r h, gone = g\<rparr>
      \<lparr>the_queue = q', in_hand = h, gone = (if out = Processed then add_mset (res_id r) g else g)\<rparr>"
| clear: "queue_clear name q = (n, q') \<Longrightarrow>
    queue_step \<lparr>the_queue = q, in_hand = h, gone = g\<rparr>
      \<lparr>the_queue = q', in_hand = h, gone = g + mset (map qe_id (entries_of name q))\<rparr>"
| flush: "flush_failed q = (n, q') \<Longrightarrow>
    queue_step \<lparr>the_queue = q, in_hand = h, gone = g\<rparr>
      \<lparr>the_queue = q', in_hand = h, gone = g + mset (map fj_id (failed q))\<rparr>"

inductive_cases queue_stepE: "queue_step w w'"

definition job_ids :: "queue_world \<Rightarrow> string multiset" where
  "job_ids w = image_mset qe_id (all_entries (the_queue w)) + image_mset res_id (in_hand w) +
     mset (map fj_id (failed (the_queue w))) + gone w"

definition issued_ids :: "queue_world \<Rightarrow> string multiset" where
  "issued_ids w = mset (map show_nat [1..<next_id (the_queue w)])"

definition tries_left :: "queue_world \<Rightarrow> bool" where
  "tries_left w \<longleftrightarrow>
     (\<forall>e\<in>#all_entries (the_queue w). qe_attempts e < max 1 (max_tries (qe_job e))) \<and>
     (\<forall>r\<in>#in_hand w. 1 \<le> res_attempts r \<and> res_attempts r \<le> max 1 (max_tries (res_job r)))"

definition queue_inv :: "queue_world \<Rightarrow> bool" where
  "queue_inv w \<longleftrightarrow> job_ids w = issued_ids w \<and> 1 \<le> next_id (the_queue w) \<and> tries_left w \<and>
     distinct (map fst (ready (the_queue w)))"

lemma keys_push_entry: "distinct (map fst (ready q)) \<Longrightarrow> distinct (map fst (ready (push_entry name e q)))"
  by (simp add: push_entry_def distinct_update)

lemma push_entry_inv:
  assumes "queue_inv \<lparr>the_queue = q, in_hand = h, gone = g\<rparr>"
  shows "queue_inv \<lparr>the_queue = snd (queue_push now job q), in_hand = h, gone = g\<rparr>"
  using assms by (auto simp: queue_inv_def job_ids_def issued_ids_def tries_left_def queue_push_def Let_def keys_push_entry)

lemma queue_pop_inv:
  assumes "queue_inv \<lparr>the_queue = q, in_hand = h, gone = g\<rparr>" and "queue_pop now name q = (Some r, q')"
  shows "queue_inv \<lparr>the_queue = q', in_hand = add_mset r h, gone = g\<rparr>"
proof -
  obtain e where e: "all_entries q = add_mset e (all_entries q')" "res_id r = qe_id e" "res_job r = qe_job e"
    "res_attempts r = qe_attempts e + 1" "failed q' = failed q" "next_id q' = next_id q"
    by (rule queue_pop_all [OF assms(2)])
  obtain i where "q' = q\<lparr>ready := AList.update name (remove_at i (entries_of name q)) (ready q)\<rparr>"
    by (rule queue_pop_some [OF assms(2)])
  then have "distinct (map fst (ready q'))" using assms(1) by (simp add: queue_inv_def distinct_update)
  with e assms(1) show ?thesis by (auto simp: queue_inv_def job_ids_def issued_ids_def tries_left_def)
qed

lemma settle_inv:
  assumes "queue_inv \<lparr>the_queue = q, in_hand = add_mset r h, gone = g\<rparr>"
    and "process_job (memory_ops now now :: (MemoryQueue, unit) queue_ops) cap res r q = (Inr out, q')"
  shows "queue_inv \<lparr>the_queue = q', in_hand = h, gone = (if out = Processed then add_mset (res_id r) g else g)\<rparr>"
proof (cases res)
  case (Inr u)
  let ?w = "\<lparr>the_queue = q, in_hand = h, gone = add_mset (res_id r) g\<rparr>"
  have w: "queue_inv ?w" using assms(1) by (auto simp: queue_inv_def job_ids_def issued_ids_def tries_left_def)
  have "out = Processed \<and> (q' = q \<or> (\<exists>j. q' = snd (queue_push now j q)))"
  proof (cases "next_in_chain (res_job r)")
    case None
    then show ?thesis using assms(2) Inr by (simp add: process_job_def memory_ops_def queue_delete_def)
  next
    case (Some j)
    then have "out = Processed \<and> q' = snd (queue_push now j q)" using assms(2) Inr
      by (cases "queue_push now j q") (simp add: process_job_def memory_ops_def queue_delete_def)
    then show ?thesis by blast
  qed
  then show ?thesis using w push_entry_inv [OF w] by auto
next
  case (Inl err)
  show ?thesis
  proof (cases "is_last_attempt r")
    case True
    then have q': "out = Failed" "q' = queue_fail now r err q"
      using assms(2) Inl by (simp_all add: process_job_def memory_ops_def)
    then show ?thesis using assms(1)
      by (auto simp: queue_fail_def queue_inv_def job_ids_def issued_ids_def tries_left_def)
  next
    case False
    then have q': "out = Released" "\<exists>d. q' = queue_release now r d q"
      using assms(2) Inl by (auto simp: process_job_def memory_ops_def)
    then show ?thesis using assms(1) False
      by (auto simp: queue_release_def queue_inv_def job_ids_def issued_ids_def tries_left_def is_last_attempt_def
          keys_push_entry)
  qed
qed

lemma queue_clear_inv:
  assumes "queue_inv \<lparr>the_queue = q, in_hand = h, gone = g\<rparr>" and "queue_clear name q = (n, q')"
  shows "queue_inv \<lparr>the_queue = q', in_hand = h, gone = g + mset (map qe_id (entries_of name q))\<rparr>"
proof -
  have q': "q' = q\<lparr>ready := AList.delete name (ready q)\<rparr>" using assms(2) by (simp add: queue_clear_def)
  have d: "distinct (map fst (ready q))" using assms(1) by (simp add: queue_inv_def)
  have "all_entries q' + mset (entries_of name q) = all_entries q"
    using delete_entries [OF d, of name] by (simp add: all_entries_def entries_of_def q')
  then have a: "all_entries q = all_entries q' + mset (entries_of name q)" ..
  show ?thesis using assms(1) d
    by (auto simp: queue_inv_def job_ids_def issued_ids_def tries_left_def a ac_simps) (simp_all add: q' distinct_delete ac_simps)
qed

interpretation queue_system: invariant_system "\<lambda>w. w = new_world" queue_step queue_inv
proof
  fix w assume "w = new_world"
  then show "queue_inv w"
    by (simp add: new_world_def new_queue_def queue_inv_def job_ids_def issued_ids_def tries_left_def all_entries_def)
next
  fix w w' assume inv: "queue_inv w" and step: "queue_step w w'"
  from step show "queue_inv w'"
  proof (cases rule: queue_step.cases)
    case (push now job q i q' h g)
    with push_entry_inv [of q h g now job] inv show ?thesis by simp
  next
    case (pop now name q r q' h g)
    with queue_pop_inv [of q h g now name r q'] inv show ?thesis by simp
  next
    case (settle now cap res r q out q' h g)
    with settle_inv [of q r h g now cap res out q'] inv show ?thesis by simp
  next
    case (clear name q n q' h g)
    with queue_clear_inv [of q h g name n q'] inv show ?thesis by simp
  next
    case (flush q n q' h g)
    with inv show ?thesis
      by (auto simp: flush_failed_def queue_inv_def job_ids_def issued_ids_def tries_left_def ac_simps)
  qed
qed

text \<open>
  C21: no job is lost, and none is in two places.  However pushes, reservations, settlements and clears
  of any number of workers interleave, the ids that wait, that a worker holds, that are
  buried and that have left are together exactly the ids that were issued, each once; a waiting job has an attempt left, and
  a job in hand is on an attempt between one and its limit.
\<close>

theorem queue_conservation:
  assumes "queue_step\<^sup>*\<^sup>* new_world w"
  shows "job_ids w = issued_ids w \<and> (\<forall>i. count (job_ids w) i \<le> 1) \<and> tries_left w"
proof -
  have inv: "queue_inv w" by (rule queue_system.reachable_inv [OF refl assms])
  have "distinct (map show_nat [1..<next_id (the_queue w)])"
    by (simp add: distinct_map inj_on_def show_nat_inj)
  then have "\<forall>i. count (issued_ids w) i \<le> 1" by (simp add: issued_ids_def distinct_count_atmost_1)
  with inv show ?thesis by (simp add: queue_inv_def)
qed

text \<open>A job pushed and reserved: it is in the worker's hand and nowhere else.\<close>

theorem queue_conservation_witness:
  "\<exists>w. queue_step\<^sup>*\<^sup>* new_world w \<and> size (in_hand w) = 1 \<and> job_ids w = {#show_nat 1#} \<and> tries_left w"
proof -
  define job where "job = new_job ''a'' Null"
  define q1 where "q1 = snd (queue_push 0 job new_queue)"
  define ent where "ent = \<lparr>qe_id = show_nat 1, qe_job = job, qe_attempts = 0, available_at = 0\<rparr>"
  define q2 where "q2 = snd (queue_pop 5 ''default'' q1)"
  define r where "r = \<lparr>res_id = show_nat 1, res_job = job, res_attempts = 1\<rparr>"
  have q1: "queue_push 0 job new_queue = (show_nat 1, q1)"
    by (simp add: q1_def queue_push_def new_queue_def Let_def)
  have e: "ready q1 = [(''default'', [ent])]"
    by (simp add: q1_def queue_push_def new_queue_def Let_def push_entry_def entries_of_def job_def new_job_def
        DEFAULT_QUEUE_def ent_def due_at_def as_secs_def wrap_i64_def)
  have pos: "position (\<lambda>e. available_at e \<le> 5) [ent] = Some 0"
    by (simp add: position_def ent_def)
  have q2: "queue_pop 5 ''default'' q1 = (Some r, q2)"
    by (simp add: q2_def queue_pop_def e pos Let_def r_def)
      (simp add: ent_def)
  have n: "next_id q2 = 2" "failed q2 = []" "all_entries q2 = {#}"
    by (simp_all add: q2_def queue_pop_def e pos Let_def all_entries_def remove_at_def)
      (simp_all add: q1_def queue_push_def Let_def new_queue_def)
  have steps: "queue_step\<^sup>*\<^sup>* new_world \<lparr>the_queue = q2, in_hand = {#r#}, gone = {#}\<rparr>"
    unfolding new_world_def
    using queue_step.push [OF q1, of "{#}" "{#}"] queue_step.pop [OF q2, of "{#}" "{#}"]
    by (rule rtranclp.rtrancl_into_rtrancl [OF r_into_rtranclp])
  have "[1..<2] = [1 :: nat]" by (simp add: upt_rec)
  then have ids: "issued_ids \<lparr>the_queue = q2, in_hand = {#r#}, gone = {#}\<rparr> = {#show_nat 1#}"
    by (simp only: issued_ids_def queue_world.select_convs n list.map mset.simps)
  from queue_conservation [OF steps] have "job_ids \<lparr>the_queue = q2, in_hand = {#r#}, gone = {#}\<rparr> = {#show_nat 1#}"
    "tries_left \<lparr>the_queue = q2, in_hand = {#r#}, gone = {#}\<rparr>"
    by (simp_all only: ids)
  with steps show ?thesis by (intro exI [of _ "\<lparr>the_queue = q2, in_hand = {#r#}, gone = {#}\<rparr>"]) simp
qed

end
