(* ===== verification/Checksum.thy ===== *)
theory Checksum
  imports Prelude
begin

section \<open>The checksums of compressed bodies\<close>

text \<open>
  \<open>rustlavel-http/src/compression/checksum.rs\<close>: CRC-32 by table and Adler-32 with a delayed modulo, both on
  \<open>u32\<close>, whose sums wrap here as in a release build.  The table is shown to compute the bit-serial register of the
  standard, and the chunk of Adler-32 to be short enough that no sum wraps.
\<close>

subsection \<open>CRC-32\<close>

definition CRC32_POLYNOMIAL :: u32 where "CRC32_POLYNOMIAL = 0xEDB88320"

definition crc_shift :: "u32 \<Rightarrow> u32" where
  "crc_shift crc = (if crc AND 1 \<noteq> 0 then CRC32_POLYNOMIAL XOR drop_bit 1 crc else drop_bit 1 crc)"

definition build_crc32_table :: "u32 list" where
  "build_crc32_table = map (\<lambda>byte. (crc_shift ^^ 8) (of_nat byte)) [0..<256]"

definition CRC32_TABLE :: "u32 list" where "CRC32_TABLE = build_crc32_table"

record Crc32 =
  crc_state :: u32

definition new_crc :: Crc32 where "new_crc = \<lparr>crc_state = 0xFFFFFFFF\<rparr>"

definition crc_step :: "byte \<Rightarrow> u32 \<Rightarrow> u32" where
  "crc_step byte crc = CRC32_TABLE ! unat ((crc XOR ucast byte) AND 0xFF) XOR drop_bit 8 crc"

definition crc_update :: "byte list \<Rightarrow> Crc32 \<Rightarrow> Crc32" where
  "crc_update bytes c = c\<lparr>crc_state := fold crc_step bytes (crc_state c)\<rparr>"

definition crc_finish :: "Crc32 \<Rightarrow> u32" where
  "crc_finish c = NOT (crc_state c)"

definition crc32 :: "byte list \<Rightarrow> u32" where
  "crc32 bytes = crc_finish (crc_update bytes new_crc)"

subsection \<open>Adler-32\<close>

definition ADLER_MODULUS :: u32 where "ADLER_MODULUS = 65521"
definition ADLER_CHUNK :: nat where "ADLER_CHUNK = 5552"

record Adler32 =
  adler_a :: u32
  adler_b :: u32

definition new_adler :: Adler32 where "new_adler = \<lparr>adler_a = 1, adler_b = 0\<rparr>"

definition adler_byte :: "byte \<Rightarrow> Adler32 \<Rightarrow> Adler32" where
  "adler_byte byte s = (let a = adler_a s + ucast byte in \<lparr>adler_a = a, adler_b = adler_b s + a\<rparr>)"

definition adler_chunk :: "byte list \<Rightarrow> Adler32 \<Rightarrow> Adler32" where
  "adler_chunk chunk s =
     (let t = fold adler_byte chunk s
      in \<lparr>adler_a = adler_a t mod ADLER_MODULUS, adler_b = adler_b t mod ADLER_MODULUS\<rparr>)"

definition adler_update :: "byte list \<Rightarrow> Adler32 \<Rightarrow> Adler32" where
  "adler_update bytes s = fold adler_chunk (chunks ADLER_CHUNK bytes) s"

definition adler_finish :: "Adler32 \<Rightarrow> u32" where
  "adler_finish s = push_bit 16 (adler_b s) OR adler_a s"

definition adler32 :: "byte list \<Rightarrow> u32" where
  "adler32 bytes = adler_finish (adler_update bytes new_adler)"

subsection \<open>The register is linear\<close>

lemma xor_cancel: "a XOR b = a XOR c \<longleftrightarrow> b = c" for a b c :: u32
proof
  assume "a XOR b = a XOR c"
  then have "(a XOR a) XOR b = (a XOR a) XOR c" by (simp only: xor.assoc)
  then show "b = c" by simp
qed simp

lemma xor_cancel_right: "b XOR a = c XOR a \<longleftrightarrow> b = c" for a b c :: u32
  by (simp only: xor.commute [of _ a] xor_cancel)

lemma crc_shift_bit: "crc_shift x = (if bit x 0 then CRC32_POLYNOMIAL XOR drop_bit 1 x else drop_bit 1 x)"
  by (simp add: crc_shift_def and_one_eq bit_0 odd_iff_mod_2_eq_one)

lemma crc_shift_xor: "crc_shift (x XOR y) = crc_shift x XOR crc_shift y"
  by (simp add: crc_shift_bit bit_xor_iff xor.assoc xor.left_commute)

lemma crc_shifts_xor: "(crc_shift ^^ n) (x XOR y) = (crc_shift ^^ n) x XOR (crc_shift ^^ n) y"
  by (induction n) (simp_all add: crc_shift_xor)

lemma crc_shifts_clear: "take_bit n x = 0 \<Longrightarrow> (crc_shift ^^ n) x = drop_bit n x"
proof (induction n arbitrary: x)
  case (Suc n)
  have b: "\<not> bit x i" if "i < Suc n" for i
  proof -
    have "bit (take_bit (Suc n) x) i = (bit x i)" using that by (simp add: bit_take_bit_iff)
    then show ?thesis using Suc.prems by simp
  qed
  have "take_bit n (drop_bit 1 x) = 0"
    by (rule bit_word_eqI) (use b in \<open>auto simp: bit_take_bit_iff bit_drop_bit_eq\<close>)
  then have "(crc_shift ^^ n) (drop_bit 1 x) = drop_bit n (drop_bit 1 x)" by (rule Suc.IH)
  moreover have "crc_shift x = drop_bit 1 x" using b [of 0] by (simp add: crc_shift_bit)
  ultimately show ?case by (simp add: funpow_swap1 drop_bit_drop_bit)
qed simp

lemma low_high: "x = take_bit n x XOR push_bit n (drop_bit n x)" for x :: u32
  by (rule bit_word_eqI) (auto simp: bit_take_bit_iff bit_push_bit_iff bit_drop_bit_eq bit_xor_iff)

lemma drop_push: "drop_bit n (push_bit n (drop_bit n x)) = drop_bit n x" for x :: u32
  by (rule bit_word_eqI) (auto simp: bit_push_bit_iff bit_drop_bit_eq dest: bit_imp_le_length)

lemma crc_shift8: "(crc_shift ^^ 8) x = (crc_shift ^^ 8) (take_bit 8 x) XOR drop_bit 8 x"
proof -
  have "(crc_shift ^^ 8) x = (crc_shift ^^ 8) (take_bit 8 x XOR push_bit 8 (drop_bit 8 x))"
    by (rule arg_cong [OF low_high])
  also have "\<dots> = (crc_shift ^^ 8) (take_bit 8 x) XOR (crc_shift ^^ 8) (push_bit 8 (drop_bit 8 x))"
    by (rule crc_shifts_xor)
  also have "(crc_shift ^^ 8) (push_bit 8 (drop_bit 8 x)) = drop_bit 8 (push_bit 8 (drop_bit 8 x))"
    by (rule crc_shifts_clear) (rule bit_word_eqI, simp add: bit_take_bit_iff bit_push_bit_iff)
  finally show ?thesis by (simp only: drop_push)
qed

lemma table_entry: "n < 256 \<Longrightarrow> CRC32_TABLE ! n = (crc_shift ^^ 8) (of_nat n)"
  by (simp add: CRC32_TABLE_def build_crc32_table_def)

lemma crc_step_shift: "crc_step b r = (crc_shift ^^ 8) (r XOR ucast b)"
proof -
  let ?x = "r XOR ucast b"
  have m: "?x AND 0xFF = take_bit 8 ?x" by (simp add: take_bit_eq_mask mask_numeral)
  have u: "unat (take_bit 8 ?x) < 256"
    using take_bit_nat_less_exp [of 8 "unat ?x"] unfolding unsigned_take_bit_eq by simp
  have d: "drop_bit 8 ?x = drop_bit 8 r"
    by (rule bit_word_eqI) (auto simp: bit_drop_bit_eq bit_xor_iff bit_ucast_iff)
  have "crc_step b r = (crc_shift ^^ 8) (take_bit 8 ?x) XOR drop_bit 8 ?x"
    unfolding crc_step_def m table_entry [OF u] d by simp
  then show ?thesis by (simp only: crc_shift8 [of ?x])
qed

text \<open>The reference: a register that takes the message one bit at a time, each byte from its lowest bit.\<close>

definition message_bits :: "byte list \<Rightarrow> bool list" where
  "message_bits bytes = concat (map (\<lambda>b. map (bit b) [0..<8]) bytes)"

definition serial_step :: "bool \<Rightarrow> u32 \<Rightarrow> u32" where
  "serial_step c r = (if bit r 0 \<noteq> c then CRC32_POLYNOMIAL XOR drop_bit 1 r else drop_bit 1 r)"

definition crc32_serial :: "byte list \<Rightarrow> u32" where
  "crc32_serial bytes = NOT (fold serial_step (message_bits bytes) (NOT 0))"

lemma serial_step_xor: "serial_step (bit b 0) r = crc_shift (r XOR b) XOR drop_bit 1 b"
proof -
  have x: "drop_bit 1 r = drop_bit 1 (r XOR b) XOR drop_bit 1 b" by (simp add: xor.assoc)
  have "(bit r 0 \<noteq> bit b 0) = bit (r XOR b) 0" by (simp add: bit_xor_iff)
  then show ?thesis unfolding serial_step_def crc_shift_bit x by (simp add: xor.assoc)
qed

lemma serial_steps_xor:
  "fold serial_step (map (bit b) [0..<n]) r XOR drop_bit n b = (crc_shift ^^ n) (r XOR b)" for b :: u32
proof (induction n)
  case (Suc n)
  let ?r = "fold serial_step (map (bit b) [0..<n]) r"
  have "fold serial_step (map (bit b) [0..<Suc n]) r = serial_step (bit b n) ?r" by simp
  also have "\<dots> = serial_step (bit (drop_bit n b) 0) ?r" by (simp add: bit_drop_bit_eq)
  also have "\<dots> = crc_shift (?r XOR drop_bit n b) XOR drop_bit 1 (drop_bit n b)" by (rule serial_step_xor)
  also have "?r XOR drop_bit n b = (crc_shift ^^ n) (r XOR b)" by (rule Suc.IH)
  finally show ?case by (simp add: drop_bit_drop_bit xor.assoc)
qed simp

lemma word_minus_one: "(0xFFFFFFFF :: u32) = - 1"
  by simp

lemma crc_step_serial: "crc_step b r = fold serial_step (map (bit b) [0..<8]) r"
proof -
  have "drop_bit 8 (ucast b :: u32) = 0"
    by (rule bit_word_eqI) (simp add: bit_drop_bit_eq bit_ucast_iff)
  moreover have "map (bit b) [0..<8] = map (bit (ucast b :: u32)) [0..<8]" by (simp add: bit_ucast_iff)
  ultimately show ?thesis
    using serial_steps_xor [of "ucast b" 8 r] unfolding crc_step_shift by (simp only: xor.right_neutral)
qed

lemma crc_fold_serial: "fold crc_step bytes r = fold serial_step (message_bits bytes) r"
  by (induction bytes arbitrary: r) (simp_all add: message_bits_def crc_step_serial del: upt_Suc)

text \<open>
  C24: the table computes the CRC of the standard.  For every message, fed whole or in two pieces, the result is that of a register
  that takes the message one bit at a time, lowest bit first.
\<close>

theorem crc32_bit_serial:
  "crc32 bytes = crc32_serial bytes \<and>
   crc_finish (crc_update piece (crc_update bytes new_crc)) = crc32_serial (bytes @ piece)"
proof -
  have s: "crc_finish (crc_update bs new_crc) = crc32_serial bs" for bs
    by (simp add: crc_finish_def crc_update_def new_crc_def crc32_serial_def crc_fold_serial word_minus_one)
  have "crc_update piece (crc_update bytes new_crc) = crc_update (bytes @ piece) new_crc" by (simp add: crc_update_def)
  with s show ?thesis by (simp add: crc32_def)
qed

subsection \<open>What a CRC detects\<close>

lemma polynomial_top: "bit CRC32_POLYNOMIAL 31"
  by (simp add: CRC32_POLYNOMIAL_def)

lemma crc_shift_inj: "crc_shift x = crc_shift y \<Longrightarrow> x = y"
proof -
  assume e: "crc_shift x = crc_shift y"
  have top: "bit (crc_shift z) 31 = bit z 0" for z
    by (auto simp: crc_shift_bit bit_xor_iff bit_drop_bit_eq polynomial_top dest: bit_imp_le_length)
  then have z: "bit x 0 = bit y 0" using e by metis
  then have d: "drop_bit 1 x = drop_bit 1 y" using e by (auto simp: crc_shift_bit xor_cancel split: if_splits)
  show "x = y"
  proof (rule bit_word_eqI)
    fix n
    show "bit x n = bit y n"
      using z arg_cong [OF d, of "\<lambda>w. bit w (n - 1)"] by (cases n) (simp_all add: bit_drop_bit_eq)
  qed
qed

lemma crc_shifts_inj: "(crc_shift ^^ n) x = (crc_shift ^^ n) y \<Longrightarrow> x = y"
  by (induction n) (auto dest: crc_shift_inj)

lemma crc_step_inj: "crc_step b x = crc_step b y \<Longrightarrow> x = y"
  unfolding crc_step_shift by (drule crc_shifts_inj) (simp only: xor_cancel_right)

lemma crc_fold_inj: "fold crc_step bytes x = fold crc_step bytes y \<Longrightarrow> x = y"
  by (induction bytes arbitrary: x y) (auto dest: crc_step_inj)

text \<open>Up to four bytes as one word, the first lowest.\<close>

fun little_endian :: "byte list \<Rightarrow> u32" where
  "little_endian [] = 0"
| "little_endian (b # bs) = ucast b XOR push_bit 8 (little_endian bs)"

lemma little_endian_bound: "8 * length bs \<le> n \<Longrightarrow> \<not> bit (little_endian bs) n"
proof (induction bs arbitrary: n)
  case (Cons b bs)
  then show ?case by (auto simp: bit_xor_iff bit_ucast_iff bit_push_bit_iff)
qed simp

lemma little_endian_inj:
  "length bs = length cs \<Longrightarrow> length bs \<le> 4 \<Longrightarrow> little_endian bs = little_endian cs \<Longrightarrow> bs = cs"
proof (induction bs cs rule: list_induct2)
  case (Cons b bs c cs)
  have low: "b = c"
  proof (rule bit_word_eqI)
    fix n assume "n < LENGTH(8)"
    then show "bit b n = bit c n" using arg_cong [OF Cons.prems(2), of "\<lambda>w. bit w n"]
      by (simp add: bit_xor_iff bit_ucast_iff bit_push_bit_iff)
  qed
  have "little_endian bs = little_endian cs"
  proof (rule bit_word_eqI)
    fix n assume n: "n < LENGTH(32)"
    show "bit (little_endian bs) n = bit (little_endian cs) n"
    proof (cases "n < 24")
      case True
      then show ?thesis using arg_cong [OF Cons.prems(2), of "\<lambda>w. bit w (n + 8)"]
        by (simp add: bit_xor_iff bit_ucast_iff bit_push_bit_iff)
    next
      case False
      then show ?thesis using Cons by (simp add: little_endian_bound)
    qed
  qed
  with Cons low show ?case by simp
qed simp

lemma crc_fold_word:
  "length bs \<le> 4 \<Longrightarrow> fold crc_step bs r = (crc_shift ^^ (8 * length bs)) (r XOR little_endian bs)"
proof (induction bs arbitrary: r)
  case (Cons b bs)
  have "(crc_shift ^^ 8) (push_bit 8 (little_endian bs)) = drop_bit 8 (push_bit 8 (little_endian bs))"
    by (rule crc_shifts_clear) (rule bit_word_eqI, simp add: bit_take_bit_iff bit_push_bit_iff)
  also have "\<dots> = little_endian bs"
  proof (rule bit_word_eqI)
    fix n assume "n < LENGTH(32)"
    show "bit (drop_bit 8 (push_bit 8 (little_endian bs))) n = bit (little_endian bs) n"
      using Cons.prems little_endian_bound [of bs n]
      by (cases "n < 24") (auto simp: bit_push_bit_iff bit_drop_bit_eq)
  qed
  finally have p: "(crc_shift ^^ 8) (push_bit 8 (little_endian bs)) = little_endian bs" .
  have "fold crc_step (b # bs) r = (crc_shift ^^ (8 * length bs)) ((crc_shift ^^ 8) (r XOR ucast b) XOR little_endian bs)"
    using Cons by (simp add: crc_step_shift [of b r])
  also have "(crc_shift ^^ 8) (r XOR ucast b) XOR little_endian bs = (crc_shift ^^ 8) (r XOR little_endian (b # bs))"
    by (simp add: crc_shifts_xor p xor.assoc)
  finally show ?case by (simp only: list.size funpow_add comp_apply mult_Suc_right add.commute [of 8] add_Suc_right add_0_right)
qed simp

text \<open>
  C25: a CRC notices any burst of up to 32 bits.  Two messages of which only a stretch of at most four bytes differs never have
  the same checksum, whatever comes before and after it.
\<close>

theorem crc32_detects_bursts:
  assumes "length burst = length burst'" and "length burst \<le> 4" and "burst \<noteq> burst'"
  shows "crc32 (before @ burst @ after) \<noteq> crc32 (before @ burst' @ after)"
proof
  let ?r = "fold crc_step before 0xFFFFFFFF"
  assume "crc32 (before @ burst @ after) = crc32 (before @ burst' @ after)"
  then have "fold crc_step after (fold crc_step burst ?r) = fold crc_step after (fold crc_step burst' ?r)"
    by (simp add: crc32_def crc_finish_def crc_update_def new_crc_def)
  from crc_fold_inj [OF this] have "(crc_shift ^^ (8 * length burst)) (?r XOR little_endian burst) =
      (crc_shift ^^ (8 * length burst)) (?r XOR little_endian burst')"
    using assms(1,2) by (simp add: crc_fold_word)
  from crc_shifts_inj [OF this] have "little_endian burst = little_endian burst'"
    by (simp only: xor_cancel)
  from little_endian_inj [OF assms(1,2) this] assms(3) show False by simp
qed

theorem crc32_detects_bursts_witness: "crc32 ([1, 2] @ [3] @ [4]) \<noteq> crc32 ([1, 2] @ [131] @ [4])"
  by (rule crc32_detects_bursts) simp_all

subsection \<open>Adler-32 without its modulo\<close>

text \<open>The two sums of RFC 1950 as natural numbers, taken in full.\<close>

fun adler_sums :: "byte list \<Rightarrow> nat \<times> nat \<Rightarrow> nat \<times> nat" where
  "adler_sums [] (a, b) = (a, b)"
| "adler_sums (x # xs) (a, b) = adler_sums xs (a + unat x, b + (a + unat x))"

definition adler_spec :: "byte list \<Rightarrow> nat" where
  "adler_spec bytes = (case adler_sums bytes (1, 0) of (a, b) \<Rightarrow> (b mod 65521) * 65536 + a mod 65521)"

lemma adler_sums_append: "adler_sums (xs @ ys) p = adler_sums ys (adler_sums xs p)"
  by (induction xs p rule: adler_sums.induct) simp_all

lemma byte_bound: "unat x \<le> 255" for x :: byte
  using unsigned_less [of x, where ?'a = nat] by simp

text \<open>A congruence of the pair of sums carries through any further bytes.\<close>

lemma adler_sums_cong:
  "a mod 65521 = c mod 65521 \<Longrightarrow> b mod 65521 = d mod 65521 \<Longrightarrow>
   fst (adler_sums xs (a, b)) mod 65521 = fst (adler_sums xs (c, d)) mod 65521 \<and>
   snd (adler_sums xs (a, b)) mod 65521 = snd (adler_sums xs (c, d)) mod 65521"
proof (induction xs arbitrary: a b c d)
  case (Cons x xs)
  have "(a + unat x) mod 65521 = (c + unat x) mod 65521" using Cons.prems(1) by (rule mod_add_cong) simp
  moreover from this have "(b + (a + unat x)) mod 65521 = (d + (c + unat x)) mod 65521"
    by (rule mod_add_cong [OF Cons.prems(2)])
  ultimately show ?case unfolding adler_sums.simps by (rule Cons.IH)
qed simp

lemma word_add_bounded: "unat x + unat y < 2 ^ 32 \<Longrightarrow> unat (x + y) = unat x + unat y" for x y :: u32
  by (simp add: unat_word_ariths)

lemma fold_adler_byte:
  "unat (adler_a s) + 255 * length xs < 2 ^ 32 \<Longrightarrow>
   2 * unat (adler_b s) + length xs * (2 * unat (adler_a s)) + 255 * (length xs * Suc (length xs)) < 2 ^ 33 \<Longrightarrow>
   (unat (adler_a (fold adler_byte xs s)), unat (adler_b (fold adler_byte xs s))) =
     adler_sums xs (unat (adler_a s), unat (adler_b s))"
proof (induction xs arbitrary: s)
  case (Cons x xs)
  let ?n = "length xs" and ?t = "adler_byte x s"
  have x: "unat x \<le> 255" by (rule byte_bound)
  have ux: "unat (ucast x :: u32) = unat x"
    using x by (simp add: unsigned_ucast_eq take_bit_nat_eq_self_iff)
  have a: "unat (adler_a ?t) = unat (adler_a s) + unat x"
    using Cons.prems(1) x by (simp add: adler_byte_def Let_def word_add_bounded ux)
  have split: "Suc ?n * (2 * unat (adler_a s)) + 255 * (Suc ?n * Suc (Suc ?n)) =
      2 * unat (adler_a s) + ?n * (2 * (unat (adler_a s) + 255)) + 2 * 255 + 255 * (?n * Suc ?n)"
    by (simp add: algebra_simps)
  have le: "?n * (2 * (unat (adler_a s) + unat x)) \<le> ?n * (2 * (unat (adler_a s) + 255))"
    using x by (intro mult_le_mono2) simp
  have step: "b + 2 * (a + u) + t + w < k"
    if "b + x + y < k" "x + y = 2 * a + r + 2 * 255 + w" "t \<le> r" "u \<le> 255" for a b k r t u w x y :: nat
    using that by presburger
  have sum: "2 * unat (adler_b s) + 2 * (unat (adler_a s) + unat x) + ?n * (2 * (unat (adler_a s) + unat x)) + 255 * (?n * Suc ?n) < 2 ^ 33"
    by (rule step [OF Cons.prems(2) [unfolded length_Cons] split le x])
  have b: "unat (adler_b ?t) = unat (adler_b s) + (unat (adler_a s) + unat x)"
    using sum a by (simp add: adler_byte_def Let_def word_add_bounded)
  have "(unat (adler_a (fold adler_byte xs ?t)), unat (adler_b (fold adler_byte xs ?t))) =
      adler_sums xs (unat (adler_a ?t), unat (adler_b ?t))"
    by (rule Cons.IH) (use Cons.prems(1) sum x a b in simp_all)
  then show ?case by (simp add: a b)
qed simp

text \<open>Between chunks both sums are reduced; a chunk is short enough that they do not reach \<open>2 ^ 32\<close>.\<close>

definition reduced :: "Adler32 \<Rightarrow> bool" where
  "reduced s \<longleftrightarrow> unat (adler_a s) < 65521 \<and> unat (adler_b s) < 65521"

lemma adler_chunk_sums:
  assumes "reduced s" and "length xs \<le> ADLER_CHUNK"
  shows "reduced (adler_chunk xs s)"
    and "(unat (adler_a (adler_chunk xs s)), unat (adler_b (adler_chunk xs s))) =
      (case adler_sums xs (unat (adler_a s), unat (adler_b s)) of (a, b) \<Rightarrow> (a mod 65521, b mod 65521))"
proof -
  let ?a = "unat (adler_a s)" and ?b = "unat (adler_b s)" and ?n = "length xs"
  have n: "?n \<le> 5552" and a: "?a \<le> 65520" and b: "?b \<le> 65520"
    using assms by (simp_all add: ADLER_CHUNK_def reduced_def)
  have "?n * (2 * ?a) \<le> 5552 * (2 * 65520)" using n a by (intro mult_le_mono) simp_all
  moreover have "?n * Suc ?n \<le> 5552 * 5553" using n by (intro mult_le_mono) simp_all
  ultimately have "2 * ?b + ?n * (2 * ?a) + 255 * (?n * Suc ?n) < 2 ^ 33" using b by simp
  moreover have "?a + 255 * ?n < 2 ^ 32" using n a by simp
  ultimately have f: "(unat (adler_a (fold adler_byte xs s)), unat (adler_b (fold adler_byte xs s))) = adler_sums xs (?a, ?b)"
    by (intro fold_adler_byte) simp_all
  have m: "unat (x mod ADLER_MODULUS) = unat x mod 65521" for x :: u32
    by (simp add: unat_mod ADLER_MODULUS_def)
  show "reduced (adler_chunk xs s)" by (simp add: reduced_def adler_chunk_def Let_def m)
  show "(unat (adler_a (adler_chunk xs s)), unat (adler_b (adler_chunk xs s))) =
      (case adler_sums xs (?a, ?b) of (a, b) \<Rightarrow> (a mod 65521, b mod 65521))"
    unfolding f [symmetric] by (simp add: adler_chunk_def Let_def m)
qed

lemma adler_chunks_sums:
  assumes "\<forall>c\<in>set cs. length c \<le> ADLER_CHUNK" and "reduced s"
    and "unat (adler_a s) = a mod 65521" and "unat (adler_b s) = b mod 65521"
  shows "reduced (fold adler_chunk cs s) \<and>
    unat (adler_a (fold adler_chunk cs s)) = fst (adler_sums (concat cs) (a, b)) mod 65521 \<and>
    unat (adler_b (fold adler_chunk cs s)) = snd (adler_sums (concat cs) (a, b)) mod 65521"
  using assms
proof (induction cs arbitrary: s a b)
  case (Cons c cs)
  obtain a' b' where ab: "adler_sums c (a, b) = (a', b')" by fastforce
  have r: "reduced (adler_chunk c s)" using Cons.prems by (intro adler_chunk_sums) simp_all
  have c: "length c \<le> ADLER_CHUNK" using Cons.prems by simp
  have eq: "unat (adler_a s) mod 65521 = a mod 65521" "unat (adler_b s) mod 65521 = b mod 65521"
    using Cons.prems by simp_all
  obtain x y where xy: "adler_sums c (unat (adler_a s), unat (adler_b s)) = (x, y)" by fastforce
  have "unat (adler_a (adler_chunk c s)) = x mod 65521" "unat (adler_b (adler_chunk c s)) = y mod 65521"
    using adler_chunk_sums(2) [OF Cons.prems(2) c] by (simp_all add: xy)
  moreover have "x mod 65521 = a' mod 65521" "y mod 65521 = b' mod 65521"
    using adler_sums_cong [OF eq, of c] by (simp_all add: xy ab)
  ultimately have "unat (adler_a (adler_chunk c s)) = a' mod 65521" "unat (adler_b (adler_chunk c s)) = b' mod 65521"
    by simp_all
  from Cons.IH [OF _ r this] Cons.prems(1) show ?case by (simp add: adler_sums_append ab)
qed simp

lemma adler_update_sums:
  assumes "reduced s" and "unat (adler_a s) = a mod 65521" and "unat (adler_b s) = b mod 65521"
  shows "reduced (adler_update bytes s) \<and>
    unat (adler_a (adler_update bytes s)) = fst (adler_sums bytes (a, b)) mod 65521 \<and>
    unat (adler_b (adler_update bytes s)) = snd (adler_sums bytes (a, b)) mod 65521"
  using adler_chunks_sums [OF _ assms, of "chunks ADLER_CHUNK bytes"] length_in_chunks
  by (auto simp: adler_update_def concat_chunks ADLER_CHUNK_def)

lemma adler_finish_value:
  assumes "reduced s" shows "unat (adler_finish s) = unat (adler_b s) * 65536 + unat (adler_a s)"
proof -
  have a: "\<not> bit (adler_a s) n" if "16 \<le> n" for n
  proof -
    have "unat (adler_a s) < 2 ^ 16" using assms by (simp add: reduced_def)
    then have "take_bit 16 (adler_a s) = adler_a s"
      by (metis take_bit_nat_eq_self unsigned_take_bit_eq unsigned_word_eqI)
    then show ?thesis using that by (metis bit_take_bit_iff not_le)
  qed
  have "push_bit 16 (adler_b s) OR adler_a s = push_bit 16 (adler_b s) + adler_a s"
    by (rule disjunctive_add [symmetric]) (auto simp: bit_push_bit_iff a)
  moreover have p: "unat (push_bit 16 (adler_b s)) = unat (adler_b s) * 65536"
    using assms by (simp add: reduced_def push_bit_eq_mult unat_word_ariths)
  ultimately show ?thesis using assms unfolding adler_finish_def
    by (simp add: unat_word_ariths p reduced_def)
qed

text \<open>
  Adler-32 is exact at every length.  Taking the modulo once per chunk of 5552 bytes on 32-bit registers gives the checksum of the
  full sums, whether the data comes whole or in two pieces cut anywhere.
\<close>

theorem adler32_exact:
  "unat (adler32 bytes) = adler_spec bytes \<and>
   unat (adler_finish (adler_update piece (adler_update bytes new_adler))) = adler_spec (bytes @ piece)"
proof -
  have start: "reduced new_adler" "unat (adler_a new_adler) = 1 mod 65521" "unat (adler_b new_adler) = 0 mod 65521"
    by (simp_all add: new_adler_def reduced_def)
  note one = adler_update_sums [OF start, of bytes]
  obtain a b where ab: "adler_sums bytes (Suc 0, 0) = (a, b)" by fastforce
  have two: "reduced (adler_update piece (adler_update bytes new_adler)) \<and>
      unat (adler_a (adler_update piece (adler_update bytes new_adler))) = fst (adler_sums piece (a, b)) mod 65521 \<and>
      unat (adler_b (adler_update piece (adler_update bytes new_adler))) = snd (adler_sums piece (a, b)) mod 65521"
    using one by (intro adler_update_sums) (simp_all add: ab)
  show ?thesis using one two
    by (simp add: adler32_def adler_finish_value adler_spec_def ab adler_sums_append split: prod.splits)
qed

end
