(* ===== verification/Url.thy ===== *)
theory Url
  imports Wire
begin

section \<open>URLs\<close>

text \<open>
  \<open>rustlavel-http/src/url.rs\<close>: percent-encoding, query strings and the normalisation that keeps a request
  for a file inside the public directory.  Strings are their UTF-8 bytes.
\<close>

text \<open>
  \<open>String::from_utf8_lossy\<close>: each longest start of a sequence that turns out not to be well formed becomes one
  replacement character.
\<close>

definition second_ok :: "byte \<Rightarrow> byte \<Rightarrow> bool" where
  "second_ok a b \<longleftrightarrow> is_cont b \<and> (a = 0xE0 \<longrightarrow> 0xA0 \<le> b) \<and> (a = 0xED \<longrightarrow> b \<le> 0x9F) \<and>
     (a = 0xF0 \<longrightarrow> 0x90 \<le> b) \<and> (a = 0xF4 \<longrightarrow> b \<le> 0x8F)"

definition broken_length :: "byte list \<Rightarrow> nat" where
  "broken_length bs =
     (case bs of
        a # b # cs \<Rightarrow>
          if 0xE0 \<le> a \<and> a \<le> 0xEF \<and> second_ok a b then 2
          else if 0xF0 \<le> a \<and> a \<le> 0xF4 \<and> second_ok a b then
            (case cs of c # _ \<Rightarrow> if is_cont c then 3 else 2 | [] \<Rightarrow> 2)
          else 1
      | _ \<Rightarrow> 1)"

lemma broken_length_pos: "0 < broken_length bs"
  by (auto simp: broken_length_def split: list.split)

function lossy_bytes :: "byte list \<Rightarrow> byte list" where
  "lossy_bytes bs =
     (if bs = [] then []
      else case utf8_head bs of
        Some n \<Rightarrow> take n bs @ lossy_bytes (drop n bs)
      | None \<Rightarrow> [0xEF, 0xBF, 0xBD] @ lossy_bytes (drop (broken_length bs) bs))"
  by pat_completeness auto
termination
  by (relation "measure length") (auto dest: utf8_head_pos simp: broken_length_pos)

declare lossy_bytes.simps [simp del]

definition from_utf8_lossy :: "string \<Rightarrow> string" where
  "from_utf8_lossy s = map (\<lambda>b. char_of (unat b)) (lossy_bytes (utf8 s))"

lemma lossy_valid: "utf8_valid bs \<Longrightarrow> lossy_bytes bs = bs"
proof (induction bs rule: lossy_bytes.induct)
  case (1 bs)
  show ?case
  proof (cases "bs = []")
    case True
    then show ?thesis by (simp add: lossy_bytes.simps)
  next
    case False
    then obtain n where n: "utf8_head bs = Some n" "utf8_valid (drop n bs)"
      using "1.prems" by (auto simp: utf8_valid_step)
    from "1.IH"(2) [OF False n] False n(1) show ?thesis by (simp add: lossy_bytes.simps [of bs])
  qed
qed

lemma from_utf8_lossy_valid: "utf8_valid (utf8 s) \<Longrightarrow> from_utf8_lossy s = s"
proof -
  assume "utf8_valid (utf8 s)"
  then have "from_utf8_lossy s = map (\<lambda>b. char_of (unat b)) (map (of_char :: char \<Rightarrow> byte) s)"
    by (simp add: from_utf8_lossy_def lossy_valid) (simp add: utf8_def)
  moreover have "char_of (unat (of_char c :: byte)) = c" for c
  proof -
    have "(of_char c :: byte) = of_nat (of_char c)" by (rule of_nat_of_char [symmetric])
    then have "unat (of_char c :: byte) = of_char c" by (simp add: unsigned_of_nat take_bit_eq_mod)
    then show ?thesis by simp
  qed
  ultimately show ?thesis by (simp only: list.map_comp comp_def list.map_ident)
qed

subsection \<open>Percent-encoding\<close>

definition url_hex_digit :: "char \<Rightarrow> nat option" where
  "url_hex_digit c =
     (let n = of_char c in
      if 48 \<le> n \<and> n \<le> 57 then Some (n - 48)
      else if 97 \<le> n \<and> n \<le> 102 then Some (n - 97 + 10)
      else if 65 \<le> n \<and> n \<le> 70 then Some (n - 65 + 10)
      else None)"

definition hex_pair :: "char \<Rightarrow> char \<Rightarrow> char option" where
  "hex_pair high low =
     (case url_hex_digit high of
        None \<Rightarrow> None
      | Some h \<Rightarrow> (case url_hex_digit low of None \<Rightarrow> None | Some l \<Rightarrow> Some (char_of (push_bit 4 h OR l))))"

fun decode_bytes :: "string \<Rightarrow> string" where
  "decode_bytes [] = []"
| "decode_bytes (c # s) =
     (if c = CHR ''%'' then
        (case s of
           h # l # t \<Rightarrow>
             (case hex_pair h l of
                Some b \<Rightarrow> b # decode_bytes t
              | None \<Rightarrow> CHR ''%'' # decode_bytes s)
         | _ \<Rightarrow> c # decode_bytes s)
      else if c = CHR ''+'' then CHR '' '' # decode_bytes s
      else c # decode_bytes s)"

definition url_decode :: "string \<Rightarrow> string" where
  "url_decode input =
     (if CHR ''%'' \<notin> set input \<and> CHR ''+'' \<notin> set input then input
      else from_utf8_lossy (decode_bytes input))"

text \<open>A digit of \<open>{:X}\<close>.\<close>

definition upper_hex :: "nat \<Rightarrow> char" where
  "upper_hex d = (if d < 10 then char_of (48 + d) else char_of (55 + d))"

definition unreserved :: "char \<Rightarrow> bool" where
  "unreserved c \<longleftrightarrow>
     (let n = of_char c :: nat in
      65 \<le> n \<and> n \<le> 90 \<or> 97 \<le> n \<and> n \<le> 122 \<or> 48 \<le> n \<and> n \<le> 57) \<or> c \<in> set ''-_.~''"

definition url_encode :: "string \<Rightarrow> string" where
  "url_encode input =
     concat (map (\<lambda>c. if unreserved c then [c]
       else [CHR ''%'', upper_hex (of_char c div 16), upper_hex (of_char c mod 16)]) input)"

definition split_once :: "char \<Rightarrow> string \<Rightarrow> (string \<times> string) option" where
  "split_once c s =
     (if c \<in> set s then Some (takeWhile (\<lambda>x. x \<noteq> c) s, tl (dropWhile (\<lambda>x. x \<noteq> c) s)) else None)"

definition parse_query :: "string \<Rightarrow> (string \<times> string) list" where
  "parse_query query =
     map (\<lambda>part. case split_once CHR ''='' part of
            Some (key, val) \<Rightarrow> (url_decode key, url_decode val)
          | None \<Rightarrow> (url_decode part, []))
       (filter (\<lambda>part. part \<noteq> []) (split_on CHR ''&'' query))"

definition split_target :: "string \<Rightarrow> string \<times> string" where
  "split_target target = (case split_once CHR ''?'' target of Some p \<Rightarrow> p | None \<Rightarrow> (target, []))"

subsection \<open>Paths\<close>

definition forbidden :: "string \<Rightarrow> bool" where
  "forbidden s \<longleftrightarrow> CHR 0x5C \<in> set s \<or> CHR 0x00 \<in> set s"

fun normalize_loop :: "string list \<Rightarrow> string list \<Rightarrow> string list option" where
  "normalize_loop [] segments = Some segments"
| "normalize_loop (s # rest) segments =
     (if s = [] \<or> s = ''.'' then normalize_loop rest segments
      else if s = ''..'' then (if segments = [] then None else normalize_loop rest (butlast segments))
      else if forbidden s then None
      else normalize_loop rest (segments @ [s]))"

definition normalize_path :: "string \<Rightarrow> string option" where
  "normalize_path path =
     (case normalize_loop (split_on CHR ''/'' path) [] of
        None \<Rightarrow> None
      | Some segments \<Rightarrow> Some (CHR ''/'' # join_with ''/'' segments))"

subsection \<open>Encoding is undone by decoding\<close>

lemma upper_hex_digit: "d < 16 \<Longrightarrow> url_hex_digit (upper_hex d) = Some d"
  by (auto simp: url_hex_digit_def upper_hex_def Let_def)

lemma hex_pair_of_char:
  "hex_pair (upper_hex (of_char c div 16)) (upper_hex (of_char c mod 16)) = Some c"
proof -
  have n: "(of_char c :: nat) < 256" by (rule nat_of_char_less_256)
  have "push_bit 4 (of_char c div 16) OR (of_char c mod 16) = (of_char c :: nat)"
  proof -
    have "(of_char c :: nat) mod 16 = take_bit 4 (of_char c)" by (simp add: take_bit_eq_mod)
    moreover have "(of_char c :: nat) div 16 = drop_bit 4 (of_char c)" by (simp add: drop_bit_eq_div)
    moreover have "push_bit 4 (drop_bit 4 (of_char c)) OR take_bit 4 (of_char c) = (of_char c :: nat)"
      by (rule bit_eqI) (auto simp: bit_or_iff bit_push_bit_iff bit_drop_bit_eq bit_take_bit_iff)
    ultimately show ?thesis by simp
  qed
  moreover have "(of_char c :: nat) div 16 < 16" "(of_char c :: nat) mod 16 < 16" using n by linarith+
  ultimately show ?thesis by (simp only: hex_pair_def upper_hex_digit option.case char_of_char)
qed

lemma unreserved_plain: "unreserved c \<Longrightarrow> c \<noteq> CHR ''%'' \<and> c \<noteq> CHR ''+'' \<and> c \<noteq> CHR ''/''"
  by (auto simp: unreserved_def Let_def)

lemma upper_hex_plain:
  assumes "d < 16" shows "upper_hex d \<noteq> CHR ''%'' \<and> upper_hex d \<noteq> CHR ''+'' \<and> upper_hex d \<noteq> CHR ''/''"
proof -
  have "url_hex_digit c = None" if "c \<in> {CHR ''%'', CHR ''+'', CHR ''/''}" for c
    using that by (auto simp: url_hex_digit_def Let_def)
  then show ?thesis using upper_hex_digit [OF assms] by fastforce
qed

lemma url_encode_Cons:
  "url_encode (c # s) =
     (if unreserved c then [c] else [CHR ''%'', upper_hex (of_char c div 16), upper_hex (of_char c mod 16)]) @ url_encode s"
  by (simp add: url_encode_def)

lemma decode_encode_bytes: "decode_bytes (url_encode s) = s"
proof (induction s)
  case (Cons c s)
  then show ?case by (simp add: url_encode_Cons unreserved_plain hex_pair_of_char)
qed (simp add: url_encode_def)

lemma url_encode_same: "CHR ''%'' \<notin> set (url_encode s) \<Longrightarrow> url_encode s = s"
  by (induction s) (auto simp: url_encode_Cons url_encode_def [of "[]"] split: if_splits)

lemma url_decode_encode: "utf8_valid (utf8 s) \<Longrightarrow> url_decode (url_encode s) = s"
  by (auto simp: url_decode_def decode_encode_bytes from_utf8_lossy_valid url_encode_same)

subsection \<open>No path leaves the root\<close>

text \<open>How deep below the root a list of segments leads, when \<open>..\<close> may go above it.\<close>

fun depth :: "string list \<Rightarrow> int" where
  "depth [] = 0"
| "depth (s # rest) = (if s = [] \<or> s = ''.'' then 0 else if s = ''..'' then - 1 else 1) + depth rest"

definition clean :: "string \<Rightarrow> bool" where
  "clean s \<longleftrightarrow> s \<noteq> [] \<and> s \<noteq> ''.'' \<and> s \<noteq> ''..'' \<and> CHR ''/'' \<notin> set s \<and> \<not> forbidden s"

lemma normalize_loop_None:
  "normalize_loop segs stack = None \<longleftrightarrow>
     (\<exists>s\<in>set segs. forbidden s) \<or> (\<exists>n. int (length stack) + depth (take n segs) < 0)"
proof (induction segs arbitrary: stack)
  case Nil
  show ?case by simp
next
  case (Cons s rest)
  have shift: "(\<exists>n. int (length stack) + depth (take n (s # rest)) < 0) \<longleftrightarrow>
      (\<exists>n. int (length stack) + (if s = [] \<or> s = ''.'' then 0 else if s = ''..'' then - 1 else 1) + depth (take n rest) < 0)"
    (is "?l \<longleftrightarrow> ?r")
  proof
    assume ?l
    then obtain n where n: "int (length stack) + depth (take n (s # rest)) < 0" ..
    then have "n \<noteq> 0" by (cases n) simp_all
    with n show ?r by (intro exI [of _ "n - 1"]) (cases n, simp_all add: algebra_simps split: if_splits)
  next
    assume ?r
    then obtain n where "int (length stack) + (if s = [] \<or> s = ''.'' then 0 else if s = ''..'' then - 1 else 1) + depth (take n rest) < 0" ..
    then show ?l by (intro exI [of _ "Suc n"]) (simp add: algebra_simps split: if_splits)
  qed
  have dots: "\<not> forbidden ''..''" "\<not> forbidden ''.''" "\<not> forbidden []" by (simp_all add: forbidden_def)
  consider "s = [] \<or> s = ''.''" | "s = ''..''" "stack = []" | "s = ''..''" "stack \<noteq> []"
    | "s \<noteq> []" "s \<noteq> ''.''" "s \<noteq> ''..''" by blast
  then show ?case
  proof cases
    case 1
    then show ?thesis unfolding shift using Cons.IH [of stack] dots by auto
  next
    case 2
    then have "\<exists>n. int (length stack) + - 1 + depth (take n rest) < 0" by (intro exI [of _ 0]) simp
    with 2 show ?thesis unfolding shift by simp
  next
    case 3
    then have "int (length (butlast stack)) = int (length stack) - 1" by (cases stack) simp_all
    with 3 show ?thesis unfolding shift using Cons.IH [of "butlast stack"] dots by (simp add: algebra_simps)
  next
    case 4
    then show ?thesis unfolding shift using Cons.IH [of "stack @ [s]"] by (auto simp: algebra_simps)
  qed
qed

lemma normalize_loop_clean:
  "normalize_loop segs stack = Some out \<Longrightarrow> list_all clean stack \<Longrightarrow> \<forall>s\<in>set segs. CHR ''/'' \<notin> set s \<Longrightarrow> list_all clean out"
proof (induction segs stack rule: normalize_loop.induct)
  case (2 s rest stack)
  have b: "list_all clean (butlast stack)" using "2.prems"(2) by (auto simp: list_all_iff dest: in_set_butlastD)
  have r: "\<forall>s\<in>set rest. CHR ''/'' \<notin> set s" using "2.prems"(3) by simp
  consider "s = [] \<or> s = ''.''" | "s = ''..''" | "s \<noteq> []" "s \<noteq> ''.''" "s \<noteq> ''..''" by blast
  then show ?case
  proof cases
    case 1
    then show ?thesis using "2.IH"(1) "2.prems"(1,2) r by simp
  next
    case 2
    then show ?thesis using "2.IH"(2) "2.prems"(1) b r by (simp split: if_splits)
  next
    case 3
    then have c: "clean s" "normalize_loop rest (stack @ [s]) = Some out"
      using "2.prems"(1,3) by (simp_all add: clean_def split: if_splits)
    then show ?thesis using "2.IH"(3) 3 "2.prems"(2) r by (simp add: clean_def)
  qed
qed simp

lemma normalize_loop_fixed: "list_all clean segs \<Longrightarrow> normalize_loop segs stack = Some (stack @ segs)"
  by (induction segs arbitrary: stack) (auto simp: clean_def)

lemma normalize_path_fixed:
  assumes "list_all clean segs" shows "normalize_path (CHR ''/'' # join_with ''/'' segs) = Some (CHR ''/'' # join_with ''/'' segs)"
proof (cases "segs = []")
  case True
  then show ?thesis by (simp add: normalize_path_def)
next
  case False
  then have "split_on CHR ''/'' (join_with ''/'' segs) = segs"
    using assms by (intro split_on_join) (auto simp: list_all_iff clean_def)
  then show ?thesis using normalize_loop_fixed [OF assms, of "[]"] by (simp add: normalize_path_def)
qed

text \<open>
  C26: a request for a file stays inside the root.  What a path normalises to is a list of plain names, none of them empty, a dot or two dots and none with a
  separator, backslash or NUL inside, and normalising it again changes nothing.  A path is refused exactly when a segment
  has a backslash or a NUL, or when some start of the path leads above the root.
\<close>

theorem normalize_path_safe:
  "case normalize_path path of
     None \<Rightarrow> (\<exists>s\<in>set (split_on CHR ''/'' path). forbidden s) \<or> (\<exists>n. depth (take n (split_on CHR ''/'' path)) < 0)
   | Some p \<Rightarrow>
       (\<exists>segs. p = CHR ''/'' # join_with ''/'' segs \<and> list_all clean segs) \<and> normalize_path p = Some p \<and>
       \<not> ((\<exists>s\<in>set (split_on CHR ''/'' path). forbidden s) \<or> (\<exists>n. depth (take n (split_on CHR ''/'' path)) < 0))"
proof (cases "normalize_loop (split_on CHR ''/'' path) []")
  case None
  then show ?thesis using normalize_loop_None [of "split_on CHR ''/'' path" "[]"] by (simp add: normalize_path_def)
next
  case (Some segs)
  have c: "list_all clean segs" by (rule normalize_loop_clean [OF Some]) (auto dest: split_on_parts)
  have p: "normalize_path path = Some (CHR ''/'' # join_with ''/'' segs)" by (simp add: normalize_path_def Some)
  show ?thesis unfolding p option.case
    using normalize_path_fixed [OF c] c Some normalize_loop_None [of "split_on CHR ''/'' path" "[]"] by auto
qed

end
