(* ===== verification/Dates.thy ===== *)
theory Dates
  imports Wire
begin

section \<open>HTTP dates\<close>

text \<open>
  \<open>rustlavel-http/src/date.rs\<close>.  Days and seconds are \<open>i64\<close>; sums that a date from a header can push out of range wrap, as in a
  release build.  \<open>div_euclid\<close> and \<open>rem_euclid\<close> by a positive number are \<open>div\<close> and \<open>mod\<close>.
\<close>

definition DAY_NAMES :: "string list" where
  "DAY_NAMES = [''Thu'', ''Fri'', ''Sat'', ''Sun'', ''Mon'', ''Tue'', ''Wed'']"

definition MONTH_NAMES :: "string list" where
  "MONTH_NAMES = [''Jan'', ''Feb'', ''Mar'', ''Apr'', ''May'', ''Jun'', ''Jul'', ''Aug'', ''Sep'', ''Oct'', ''Nov'', ''Dec'']"

definition civil_from_days :: "int \<Rightarrow> int \<times> int \<times> int" where
  "civil_from_days days =
     (let z = days + 719468;
          era = z div 146097;
          day_of_era = z mod 146097;
          year_of_era = (day_of_era - day_of_era div 1460 + day_of_era div 36524 - day_of_era div 146096) div 365;
          year = year_of_era + era * 400;
          day_of_year = day_of_era - (365 * year_of_era + year_of_era div 4 - year_of_era div 100);
          mp = (5 * day_of_year + 2) div 153;
          day = day_of_year - (153 * mp + 2) div 5 + 1;
          month = (if mp < 10 then mp + 3 else mp - 9)
      in (year + (if month \<le> 2 then 1 else 0), month, day))"

definition days_from_civil :: "int \<Rightarrow> int \<Rightarrow> int \<Rightarrow> int" where
  "days_from_civil year month day =
     (let year1 = (if month \<le> 2 then wrap_i64 (year - 1) else year);
          era = year1 div 400;
          year_of_era = year1 mod 400;
          day_of_year = (153 * (if month > 2 then month - 3 else month + 9) + 2) div 5 + day - 1;
          day_of_era = year_of_era * 365 + year_of_era div 4 - year_of_era div 100 + day_of_year
      in wrap_i64 (era * 146097 + day_of_era - 719468))"

text \<open>\<open>{:02}\<close> of a number that is not negative.\<close>

definition pad2 :: "int \<Rightarrow> string" where
  "pad2 n = (if n < 10 then ''0'' else []) @ show_int n"

definition http_date :: "int \<Rightarrow> string" where
  "http_date unix =
     (let days_since_epoch = unix div 86400;
          seconds_of_day = unix mod 86400
      in case civil_from_days days_since_epoch of
           (year, month, day) \<Rightarrow>
             DAY_NAMES ! nat (days_since_epoch mod 7) @ '', '' @ pad2 day @ '' '' @ MONTH_NAMES ! nat (month - 1) @ '' '' @
             show_int year @ '' '' @ pad2 (seconds_of_day div 3600) @ '':'' @
             pad2 (seconds_of_day mod 3600 div 60) @ '':'' @ pad2 (seconds_of_day mod 60) @ '' GMT'')"

definition month_number :: "string \<Rightarrow> int option" where
  "month_number name =
     (let lower = ascii_lowercase name;
          MONTHS = [''jan'', ''feb'', ''mar'', ''apr'', ''may'', ''jun'', ''jul'', ''aug'', ''sep'', ''oct'', ''nov'', ''dec'']
      in map_option (\<lambda>i. int i + 1) (List.find (\<lambda>i. MONTHS ! i = lower) [0..<12]))"

definition parse_u32 :: "string \<Rightarrow> int option" where
  "parse_u32 s =
     (let ds = (case s of c # t \<Rightarrow> if c = CHR ''+'' then t else s | [] \<Rightarrow> s)
      in case parse_digits ds of Some n \<Rightarrow> if n < 2 ^ 32 then Some n else None | None \<Rightarrow> None)"

text \<open>\<open>split_whitespace\<close>, at the encodings of the white space characters.\<close>

function split_space :: "string \<Rightarrow> string \<Rightarrow> string list" where
  "split_space cur s =
     (case find (\<lambda>w. w \<noteq> [] \<and> take (length w) s = w) white_space of
        Some w \<Rightarrow> (if cur = [] then [] else [cur]) @ split_space [] (drop (length w) s)
      | None \<Rightarrow>
          (case s of
             [] \<Rightarrow> if cur = [] then [] else [cur]
           | c # t \<Rightarrow> split_space (cur @ [c]) t))"
  by pat_completeness auto
termination
proof (relation "measure (\<lambda>(cur, s). length s)")
  fix cur s w
  assume "find (\<lambda>w. w \<noteq> [] \<and> take (length w) s = w) white_space = Some w"
  then have "w \<noteq> []" "take (length w) s = w" by (auto simp: find_Some_iff)
  then have "0 < length w" "s \<noteq> []" by auto
  then show "(([], drop (length w) s), (cur, s)) \<in> measure (\<lambda>(cur, s). length s)" by simp
qed auto

declare split_space.simps [simp del]

definition split_whitespace :: "string \<Rightarrow> string list" where
  "split_whitespace s = split_space [] s"

definition ends_with_comma :: "string \<Rightarrow> bool" where
  "ends_with_comma s \<longleftrightarrow> s \<noteq> [] \<and> last s = CHR '',''"

text \<open>The three formats: day, month, year and clock.\<close>

definition date_fields :: "string list \<Rightarrow> (int \<times> int \<times> int \<times> string) option" where
  "date_fields parts =
     (case parts of
        [weekday, day, month, year, clock, zone] \<Rightarrow>
          if zone = ''GMT'' \<and> ends_with_comma weekday then
            (case (parse_u32 day, month_number month, parse_i64 year) of
               (Some d, Some m, Some y) \<Rightarrow> Some (d, m, y, clock)
             | _ \<Rightarrow> None)
          else None
      | [weekday, date, clock, zone] \<Rightarrow>
          if zone = ''GMT'' \<and> ends_with_comma weekday then
            (case split_on CHR ''-'' date of
               [day, month, year] \<Rightarrow>
                 (case (parse_u32 day, month_number month, parse_i64 year) of
                    (Some d, Some m, Some y) \<Rightarrow>
                      Some (d, m, if y < 100 then if y < 70 then 2000 + y else 1900 + y else y, clock)
                  | _ \<Rightarrow> None)
             | _ \<Rightarrow> None)
          else None
      | [weekday, month, day, clock, year] \<Rightarrow>
          (case (parse_u32 day, month_number month, parse_i64 year) of
             (Some d, Some m, Some y) \<Rightarrow> Some (d, m, y, clock)
           | _ \<Rightarrow> None)
      | _ \<Rightarrow> None)"

definition clock_seconds :: "string \<Rightarrow> int option" where
  "clock_seconds clock =
     (case split_on CHR '':'' clock of
        [h, m, s] \<Rightarrow>
          (case (parse_i64 h, parse_i64 m, parse_i64 s) of
             (Some hour, Some minute, Some second) \<Rightarrow>
               if hour > 23 \<or> minute > 59 \<or> second > 60 then None
               else Some (hour * 3600 + minute * 60 + second)
           | _ \<Rightarrow> None)
      | _ \<Rightarrow> None)"

definition parse_http_date :: "string \<Rightarrow> int option" where
  "parse_http_date input =
     (case date_fields (split_whitespace (str_trim input)) of
        None \<Rightarrow> None
      | Some (day, month, year, clock) \<Rightarrow>
          (case clock_seconds clock of
             None \<Rightarrow> None
           | Some seconds \<Rightarrow>
               if day = 0 \<or> day > 31 then None
               else Some (wrap_i64 (days_from_civil year month day * 86400 + seconds))))"

definition parse_ymd :: "string \<Rightarrow> int option" where
  "parse_ymd input =
     (case split_on CHR ''-'' (str_trim input) of
        [y, m, d] \<Rightarrow>
          (case (parse_i64 y, parse_u32 m, parse_u32 d) of
             (Some year, Some month, Some day) \<Rightarrow>
               if 1 \<le> month \<and> month \<le> 12 \<and> 1 \<le> day \<and> day \<le> 31 then
                 Some (wrap_i64 (days_from_civil year month day * 86400))
               else None
           | _ \<Rightarrow> None)
      | _ \<Rightarrow> None)"

subsection \<open>The calendar\<close>

text \<open>
  The days of an era of 400 years that starts in March, as centuries, cycles of four years, years and days.
\<close>

lemma div_between: "0 < k \<Longrightarrow> k * (x div k) \<le> x \<and> x < k * (x div k) + k" for k x :: int
  using pos_mod_sign [of k x] pos_mod_bound [of k x] minus_mult_div_eq_mod [of x k] by linarith

lemma era_split:
  assumes "0 \<le> n" and "n \<le> (146096 :: int)"
  obtains c b a d where "0 \<le> c" "c \<le> 3" "0 \<le> b" "b \<le> 24" "0 \<le> a" "a \<le> 3" "0 \<le> d" "d \<le> 365"
    "n = 36524 * c + 1461 * b + 365 * a + d"
    "d = 365 \<Longrightarrow> a = 3 \<and> (b = 24 \<longrightarrow> c = 3)"
    "(n - n div 1460 + n div 36524 - n div 146096) div 365 = 100 * c + 4 * b + a"
proof -
  define c where "c = n div 36524 - n div 146096"
  define r where "r = n - 36524 * c"
  define b where "b = r div 1461"
  define s where "s = r mod 1461"
  define e where "e = (24 * c + b + s) div 1460"
  define a where "a = (s - e) div 365"
  have e1: "0 \<le> n div 146096" "n div 146096 \<le> 1" using div_between [of 146096 n] assms by linarith+
  have c: "0 \<le> c \<and> c \<le> 3 \<and> 0 \<le> r \<and> r \<le> 36524 \<and> (r = 36524 \<longrightarrow> c = 3)"
  proof (cases "n div 146096 = 1")
    case True
    then have "n = 146096" using div_between [of 146096 n] assms by linarith
    then show ?thesis by (simp add: c_def r_def)
  next
    case False
    then have z: "n div 146096 = 0" using e1 by linarith
    then have "n < 146096" using div_between [of 146096 n] by linarith
    moreover have "c = n div 36524" by (simp add: c_def z)
    then have "36524 * c \<le> n" "n < 36524 * c + 36524" using div_between [of 36524 n] by simp_all
    ultimately have "0 \<le> c" "c \<le> 3" "0 \<le> r" "r < 36524" using assms r_def by linarith+
    then show ?thesis by simp
  qed
  have b: "0 \<le> b" "b \<le> 24" "0 \<le> s" "s \<le> 1460" "r = 1461 * b + s"
    unfolding b_def s_def using div_between [of 1461 r] c minus_mult_div_eq_mod [of r 1461] by linarith+
  have b24: "c = 3" if "b = 24" "s = 1460" using b(5) c that by linarith
  have e: "0 \<le> e" "e \<le> 1" "e = 1 \<Longrightarrow> 1364 \<le> s" "e = 0 \<Longrightarrow> s \<le> 1459"
    unfolding e_def using div_between [of 1460 "24 * c + b + s"] b c by linarith+
  have a: "0 \<le> a \<and> a \<le> 3 \<and> 0 \<le> s - 365 * a \<and> s - 365 * a \<le> 365 \<and> (s - 365 * a = 365 \<longrightarrow> a = 3 \<and> s = 1460)"
  proof (cases "e = 1")
    case True
    then have "a = 3" unfolding a_def using div_between [of 365 "s - e"] e(3) [OF True] b by linarith
    then show ?thesis using e(3) [OF True] b by simp
  next
    case False
    then have z: "e = 0" using e by linarith
    then have "a = s div 365" by (simp add: a_def)
    then have "365 * a \<le> s" "s < 365 * a + 365" using div_between [of 365 s] by simp_all
    then have "0 \<le> a" "a \<le> 3" "0 \<le> s - 365 * a" "s - 365 * a < 365" using e(4) [OF z] b by linarith+
    then show ?thesis by simp
  qed
  have n: "n = 36524 * c + 1461 * b + s" using b(5) by (simp add: r_def)
  have q: "n div 1460 = 25 * c + b + e"
  proof -
    have "n = (25 * c + b) * 1460 + (24 * c + b + s)" using n by simp
    then show ?thesis unfolding e_def by simp
  qed
  have sum: "m - q + x - y = 365 * (100 * k + 4 * l) + (t - f)"
    if "m = 36524 * k + 1461 * l + t" "q = 25 * k + l + f" "k = x - y" for m q x y k l t f :: int
    using that by (simp add: algebra_simps)
  have "n - n div 1460 + n div 36524 - n div 146096 = 365 * (100 * c + 4 * b) + (s - e)"
    by (rule sum [OF n q c_def])
  then have "(n - n div 1460 + n div 36524 - n div 146096) div 365 = 100 * c + 4 * b + a"
    unfolding a_def by simp
  moreover have "n = 36524 * c + 1461 * b + 365 * a + (s - 365 * a)" by (simp only: n)
  moreover have "a = 3 \<and> (b = 24 \<longrightarrow> c = 3)" if "s - 365 * a = 365" using a b24 that by blast
  ultimately show ?thesis using c b(1,2) a by (intro that [of c b a "s - 365 * a"]) blast+
qed

lemma era_years:
  assumes "0 \<le> c" "c \<le> 3" "0 \<le> b" "b \<le> 24" "0 \<le> a" "a \<le> (3 :: int)"
  shows "(100 * c + 4 * b + a) div 4 = 25 * c + b" "(100 * c + 4 * b + a) div 100 = c"
proof -
  show "(100 * c + 4 * b + a) div 4 = 25 * c + b"
    using div_between [of 4 "100 * c + 4 * b + a"] assms by linarith
  show "(100 * c + 4 * b + a) div 100 = c"
    using div_between [of 100 "100 * c + 4 * b + a"] assms by linarith
qed

text \<open>The month counted from March, and the day in it, of a day of the year.\<close>

lemma month_split:
  assumes "0 \<le> d" and "d \<le> (365 :: int)" and "mp = (5 * d + 2) div 153"
  shows "0 \<le> mp \<and> mp \<le> 11 \<and> 1 \<le> d - (153 * mp + 2) div 5 + 1 \<and> d - (153 * mp + 2) div 5 + 1 \<le> 31"
proof -
  have m: "153 * mp \<le> 5 * d + 2" "5 * d + 2 < 153 * mp + 153" using div_between [of 153 "5 * d + 2"] assms(3) by simp_all
  let ?q = "(153 * mp + 2) div 5"
  have q: "5 * ?q \<le> 153 * mp + 2" "153 * mp + 2 < 5 * ?q + 5" using div_between [of 5 "153 * mp + 2"] by simp_all
  from m q assms(1,2) show ?thesis by linarith
qed

lemma civil_from_days_cases:
  obtains era c b a d mp where "0 \<le> c" "c \<le> 3" "0 \<le> b" "b \<le> 24" "0 \<le> a" "a \<le> 3" "0 \<le> d" "d \<le> 365"
    "d = 365 \<Longrightarrow> a = 3 \<and> (b = 24 \<longrightarrow> c = 3)" "mp = (5 * d + 2) div 153"
    "days + 719468 = 146097 * era + (36524 * c + 1461 * b + 365 * a + d)"
    "civil_from_days days =
       (100 * c + 4 * b + a + era * 400 + (if mp < 10 then 0 else 1), if mp < 10 then mp + 3 else mp - 9, d - (153 * mp + 2) div 5 + 1)"
proof -
  let ?n = "(days + 719468) mod 146097"
  have "0 \<le> ?n" "?n \<le> 146096" by simp_all
  then obtain c b a d where r: "0 \<le> c" "c \<le> 3" "0 \<le> b" "b \<le> 24" "0 \<le> a" "a \<le> 3" "0 \<le> d" "d \<le> 365"
    "?n = 36524 * c + 1461 * b + 365 * a + d" "d = 365 \<Longrightarrow> a = 3 \<and> (b = 24 \<longrightarrow> c = 3)"
    "(?n - ?n div 1460 + ?n div 36524 - ?n div 146096) div 365 = 100 * c + 4 * b + a"
    by (rule era_split) blast
  let ?y = "100 * c + 4 * b + a" and ?mp = "(5 * d + 2) div 153"
  have d: "?n - (365 * ?y + ?y div 4 - ?y div 100) = d"
    using r(9) era_years [OF r(1-6)] by simp
  have mp: "0 \<le> ?mp" "?mp \<le> 11" using month_split [OF r(7,8) refl] by simp_all
  have leap: "(if (if ?mp < 10 then ?mp + 3 else ?mp - 9) \<le> 2 then 1 else 0 :: int) = (if ?mp < 10 then 0 else 1)"
    using mp by auto
  have "civil_from_days days = (?y + (days + 719468) div 146097 * 400 + (if ?mp < 10 then 0 else 1),
      if ?mp < 10 then ?mp + 3 else ?mp - 9, d - (153 * ?mp + 2) div 5 + 1)"
    unfolding civil_from_days_def Let_def r(11) d leap ..
  moreover have "days + 719468 = 146097 * ((days + 719468) div 146097) + (36524 * c + 1461 * b + 365 * a + d)"
    using r(9) by (metis mult_div_mod_eq)
  ultimately show ?thesis using that r by blast
qed

lemma century_unique:
  assumes "36524 * c + x = 36524 * c' + x'" and "0 \<le> x" "x \<le> 36524" "x = 36524 \<Longrightarrow> c = 3"
    and "0 \<le> x'" "x' \<le> 36524" "x' = 36524 \<Longrightarrow> c' = 3" and "c \<le> 3" "c' \<le> (3 :: int)"
  shows "c = c' \<and> x = x'"
proof -
  have "\<not> c < c'" using assms by (cases "x = 36524") linarith+
  moreover have "\<not> c' < c" using assms by (cases "x' = 36524") linarith+
  ultimately show ?thesis using assms(1) by linarith
qed

definition era_day :: "int \<Rightarrow> int \<Rightarrow> int \<Rightarrow> int \<Rightarrow> bool" where
  "era_day c b a d \<longleftrightarrow> 0 \<le> c \<and> c \<le> 3 \<and> 0 \<le> b \<and> b \<le> 24 \<and> 0 \<le> a \<and> a \<le> 3 \<and> 0 \<le> d \<and> d \<le> 365 \<and>
     (d = 365 \<longrightarrow> a = 3 \<and> (b = 24 \<longrightarrow> c = 3))"

lemma era_day_unique:
  assumes "era_day c b a d" and "era_day c' b' a' d'"
    and "36524 * c + 1461 * b + 365 * a + d = 36524 * c' + 1461 * b' + 365 * a' + d'"
  shows "c = c' \<and> b = b' \<and> a = a' \<and> d = d'"
proof -
  have y: "0 \<le> 365 * a + d" "365 * a + d \<le> 1460" "0 \<le> 365 * a' + d'" "365 * a' + d' \<le> 1460"
    using assms(1,2) by (cases "a = 3"; cases "a' = 3"; cases "d = 365"; cases "d' = 365"; simp add: era_day_def)+
  have full: "c = 3" if "1461 * b + 365 * a + d = 36524" using that assms(1) by (cases "d = 365") (auto simp: era_day_def)
  have full': "c' = 3" if "1461 * b' + 365 * a' + d' = 36524" using that assms(2) by (cases "d' = 365") (auto simp: era_day_def)
  have c: "c = c' \<and> 1461 * b + 365 * a + d = 1461 * b' + 365 * a' + d'"
    by (rule century_unique) (use assms y full full' in \<open>auto simp: era_day_def\<close>)
  then have b: "b = b'" using y by linarith
  then have ad: "365 * a + d = 365 * a' + d'" using c by linarith
  then have "a = a'" using assms(1,2) by (cases "d = 365"; cases "d' = 365"; simp add: era_day_def)
  with c b ad show ?thesis by simp
qed

lemma civil_of_era:
  assumes "era_day c b a d" and "days + 719468 = 146097 * era + (36524 * c + 1461 * b + 365 * a + d)"
    and "mp = (5 * d + 2) div 153"
  shows "civil_from_days days =
       (100 * c + 4 * b + a + era * 400 + (if mp < 10 then 0 else 1), if mp < 10 then mp + 3 else mp - 9, d - (153 * mp + 2) div 5 + 1)"
proof -
  obtain era' c' b' a' d' mp' where r: "0 \<le> c'" "c' \<le> 3" "0 \<le> b'" "b' \<le> 24" "0 \<le> a'" "a' \<le> 3" "0 \<le> d'" "d' \<le> 365"
    "d' = 365 \<Longrightarrow> a' = 3 \<and> (b' = 24 \<longrightarrow> c' = 3)" "mp' = (5 * d' + 2) div 153"
    "days + 719468 = 146097 * era' + (36524 * c' + 1461 * b' + 365 * a' + d')"
    "civil_from_days days =
       (100 * c' + 4 * b' + a' + era' * 400 + (if mp' < 10 then 0 else 1), if mp' < 10 then mp' + 3 else mp' - 9, d' - (153 * mp' + 2) div 5 + 1)"
    by (rule civil_from_days_cases) blast
  have e': "era_day c' b' a' d'" using r by (simp add: era_day_def)
  have bound: "0 \<le> 36524 * k + 1461 * l + 365 * m + n \<and> 36524 * k + 1461 * l + 365 * m + n < 146097" if "era_day k l m n" for k l m n
    using that by (cases "n = 365") (auto simp: era_day_def)
  have "era = era'" using assms(2) r(11) bound [OF assms(1)] bound [OF e'] by linarith
  then have "36524 * c + 1461 * b + 365 * a + d = 36524 * c' + 1461 * b' + 365 * a' + d'" using assms(2) r(11) by linarith
  from era_day_unique [OF assms(1) e' this] \<open>era = era'\<close> r(10,12) assms(3) show ?thesis by simp
qed

text \<open>The Gregorian calendar: month lengths, leap years and the day after.\<close>

definition leap_year :: "int \<Rightarrow> bool" where
  "leap_year y \<longleftrightarrow> 4 dvd y \<and> (100 dvd y \<longrightarrow> 400 dvd y)"

definition month_length :: "int \<Rightarrow> int \<Rightarrow> int" where
  "month_length y m =
     (if m = 2 then if leap_year y then 29 else 28 else if m = 4 \<or> m = 6 \<or> m = 9 \<or> m = 11 then 30 else 31)"

fun valid_date :: "int \<times> int \<times> int \<Rightarrow> bool" where
  "valid_date (y, m, d) \<longleftrightarrow> 1 \<le> m \<and> m \<le> 12 \<and> 1 \<le> d \<and> d \<le> month_length y m"

fun next_day :: "int \<times> int \<times> int \<Rightarrow> int \<times> int \<times> int" where
  "next_day (y, m, d) =
     (if d < month_length y m then (y, m, d + 1) else if m < 12 then (y, m + 1, 1) else (y + 1, 1, 1))"

definition month_start :: "int \<Rightarrow> int" where
  "month_start k = (153 * k + 2) div 5"

lemma month_start_le: "month_start k \<le> d \<longleftrightarrow> 153 * k \<le> 5 * d + 2"
  using div_between [of 5 "153 * k + 2"] unfolding month_start_def by linarith

lemma month_of_day: "(5 * d + 2) div 153 = k \<longleftrightarrow> month_start k \<le> d \<and> d < month_start (k + 1)"
proof -
  have "d < month_start (k + 1) \<longleftrightarrow> \<not> 153 * (k + 1) \<le> 5 * d + 2" using month_start_le [of "k + 1" d] by linarith
  moreover have "(5 * d + 2) div 153 = k \<longleftrightarrow> 153 * k \<le> 5 * d + 2 \<and> 5 * d + 2 < 153 * (k + 1)"
    using div_between [of 153 "5 * d + 2"] by (auto intro: int_div_pos_eq [of _ _ _ "5 * d + 2 - 153 * k"])
  ultimately show ?thesis unfolding month_start_le by auto
qed

definition month_name :: "int \<Rightarrow> int" where
  "month_name k = (if k < 10 then k + 3 else k - 9)"

lemma twelve: "0 \<le> k \<Longrightarrow> k \<le> 11 \<Longrightarrow> k = 0 \<or> k = 1 \<or> k = 2 \<or> k = 3 \<or> k = 4 \<or> k = 5 \<or> k = 6 \<or> k = 7 \<or> k = 8 \<or> k = 9 \<or> k = 10 \<or> k = (11 :: int)"
  by presburger

lemma month_lengths:
  assumes "0 \<le> k" and "k \<le> 10" shows "month_start (k + 1) - month_start k = month_length y (month_name k)"
  using twelve [of k] assms by (auto simp: month_start_def month_length_def month_name_def)

lemma leap_era:
  assumes "era_day c b a d"
  shows "leap_year (100 * c + 4 * b + a + era * 400 + 1) \<longleftrightarrow> a = 3 \<and> (b = 24 \<longrightarrow> c = 3)"
proof -
  let ?y = "100 * c + 4 * b + a + era * 400 + 1"
  have r: "0 \<le> c" "c \<le> 3" "0 \<le> b" "b \<le> 24" "0 \<le> a" "a \<le> 3" using assms by (simp_all add: era_day_def)
  have four: "4 dvd ?y \<longleftrightarrow> 4 dvd (a + 1)"
  proof -
    have "?y = (a + 1) + 4 * (25 * c + b + 100 * era)" by simp
    then show ?thesis by (simp only: dvd_add_times_triv_right_iff mult.commute [of 4])
  qed
  then have "4 dvd ?y \<longleftrightarrow> a = 3" using r by presburger
  moreover have "100 dvd ?y \<longleftrightarrow> b = 24" if "a = 3"
  proof -
    have "?y = (4 * (b + 1)) + (c + 4 * era) * 100" using that by simp
    then have "100 dvd ?y \<longleftrightarrow> 100 dvd (4 * (b + 1))" by (simp only: dvd_add_times_triv_right_iff)
    also have "\<dots> \<longleftrightarrow> 25 dvd (b + 1)" using dvd_mult_cancel_left [of 4 25 "b + 1"] by simp
    also have "\<dots> \<longleftrightarrow> b = 24" using r(3,4) by presburger
    finally show ?thesis .
  qed
  moreover have "400 dvd ?y \<longleftrightarrow> c = 3" if "a = 3" "b = 24"
  proof -
    have "?y = (100 * (c + 1)) + era * 400" using that by simp
    then have "400 dvd ?y \<longleftrightarrow> 400 dvd (100 * (c + 1))" by (simp only: dvd_add_times_triv_right_iff)
    also have "\<dots> \<longleftrightarrow> 4 dvd (c + 1)" using dvd_mult_cancel_left [of 100 4 "c + 1"] by simp
    also have "\<dots> \<longleftrightarrow> c = 3" using r(1,2) by presburger
    finally show ?thesis .
  qed
  ultimately show ?thesis unfolding leap_year_def by blast
qed

text \<open>One day further in the era, or the first day of the next year.\<close>

lemma days_shape:
  obtains era c b a d where "era_day c b a d" "days + 719468 = 146097 * era + (36524 * c + 1461 * b + 365 * a + d)"
proof (rule civil_from_days_cases [of days])
  fix era c b a d mp
  assume r: "0 \<le> c" "c \<le> 3" "0 \<le> b" "b \<le> 24" "0 \<le> a" "a \<le> 3" "0 \<le> d" "d \<le> 365"
    "d = 365 \<Longrightarrow> a = 3 \<and> (b = 24 \<longrightarrow> c = 3)"
    "days + 719468 = 146097 * era + (36524 * c + 1461 * b + 365 * a + d)"
  then have "era_day c b a d" by (simp add: era_day_def)
  with r(10) show ?thesis by (rule that [rotated])
qed

lemma civil_shape:
  assumes "era_day c b a d" and "days + 719468 = 146097 * era + (36524 * c + 1461 * b + 365 * a + d)"
    and "month_start k \<le> d" "d < month_start (k + 1)"
  shows "civil_from_days days = (100 * c + 4 * b + a + era * 400 + (if k < 10 then 0 else 1), month_name k, d - month_start k + 1)"
  using civil_of_era [OF assms(1,2), of k] assms(3,4) month_of_day [of d k] by (simp add: month_name_def month_start_def)

lemma month_range:
  assumes "0 \<le> d" and "d \<le> 365"
  obtains k where "0 \<le> k" "k \<le> 11" "month_start k \<le> d" "d < month_start (k + 1)"
  using month_split [OF assms refl] month_of_day [of d "(5 * d + 2) div 153"] by blast

definition last_day :: "int \<Rightarrow> int \<Rightarrow> int \<Rightarrow> int" where
  "last_day c b a = (if a = 3 \<and> (b = 24 \<longrightarrow> c = 3) then 365 else 364)"

lemma february:
  assumes "era_day c b a d"
  shows "month_length (100 * c + 4 * b + a + era * 400 + 1) (month_name 11) = last_day c b a - month_start 11 + 1"
  using leap_era [OF assms, of era] by (simp add: month_length_def month_name_def last_day_def month_start_def)

lemma year_after:
  assumes "era_day c b a d" and "d = last_day c b a"
  obtains c' b' a' era' where "era_day c' b' a' 0" "100 * c' + 4 * b' + a' + era' * 400 = 100 * c + 4 * b + a + era * 400 + 1"
    "146097 * era' + (36524 * c' + 1461 * b' + 365 * a') = 146097 * era + (36524 * c + 1461 * b + 365 * a + d) + 1"
proof -
  consider "a < 3" | "a = 3" "b < 24" | "a = 3" "b = 24" "c < 3" | "a = 3" "b = 24" "c = 3"
    using assms(1) by (fastforce simp: era_day_def)
  then show ?thesis
  proof cases
    case 1
    then show ?thesis using assms by (intro that [of c b "a + 1" era]) (auto simp: era_day_def last_day_def)
  next
    case 2
    then show ?thesis using assms by (intro that [of c "b + 1" 0 era]) (auto simp: era_day_def last_day_def)
  next
    case 3
    then show ?thesis using assms by (intro that [of "c + 1" 0 0 era]) (auto simp: era_day_def last_day_def)
  next
    case 4
    then show ?thesis using assms by (intro that [of 0 0 0 "era + 1"]) (auto simp: era_day_def last_day_def)
  qed
qed

lemma civil_next:
  assumes e: "era_day c b a d" and days: "days + 719468 = 146097 * era + (36524 * c + 1461 * b + 365 * a + d)"
  shows "valid_date (civil_from_days days) \<and> civil_from_days (days + 1) = next_day (civil_from_days days)"
proof -
  let ?y = "100 * c + 4 * b + a + era * 400"
  have d: "0 \<le> d" "d \<le> 365" "d \<le> last_day c b a" using e by (auto simp: era_day_def last_day_def)
  obtain k where k: "0 \<le> k" "k \<le> 11" "month_start k \<le> d" "d < month_start (k + 1)"
    by (rule month_range [OF d(1,2)])
  have now: "civil_from_days days = (?y + (if k < 10 then 0 else 1), month_name k, d - month_start k + 1)"
    by (rule civil_shape [OF e days k(3,4)])
  have name: "1 \<le> month_name k" "month_name k \<le> 12" using k by (auto simp: month_name_def)
  show ?thesis
  proof (cases "k = 11")
    case False
    then have len: "month_start (k + 1) - month_start k = month_length y (month_name k)" for y
      using month_lengths k by simp
    have v: "valid_date (civil_from_days days)" unfolding now using name k len by simp
    have "d < last_day c b a"
    proof -
      have "month_start (k + 1) \<le> 337" using False twelve [OF k(1,2)] by (auto simp: month_start_def)
      then show ?thesis using k(4) by (simp add: last_day_def)
    qed
    then have e1: "era_day c b a (d + 1)" using e by (auto simp: era_day_def last_day_def split: if_splits)
    have days1: "days + 1 + 719468 = 146097 * era + (36524 * c + 1461 * b + 365 * a + (d + 1))" using days by simp
    show ?thesis
    proof (cases "d + 1 < month_start (k + 1)")
      case True
      have "civil_from_days (days + 1) = (?y + (if k < 10 then 0 else 1), month_name k, d + 1 - month_start k + 1)"
        by (rule civil_shape [OF e1 days1]) (use k True in simp_all)
      with True v show ?thesis unfolding now using len by simp
    next
      case end_of_month: False
      then have eq: "d + 1 = month_start (k + 1)" using k by simp
      have "month_start (k + 1) < month_start (k + 1 + 1)" using False twelve [OF k(1,2)] by (auto simp: month_start_def)
      then have "civil_from_days (days + 1) = (?y + (if k + 1 < 10 then 0 else 1), month_name (k + 1), d + 1 - month_start (k + 1) + 1)"
        by (intro civil_shape [OF e1 days1]) (use eq in simp_all)
      then have "civil_from_days (days + 1) = (?y + (if k < 9 then 0 else 1), month_name (k + 1), 1)" using eq by auto
      moreover have "\<not> d - month_start k + 1 < month_length y (month_name k)" for y using len [of y] eq by simp
      moreover have "k \<le> 10" using k False by simp
      ultimately show ?thesis using v unfolding now by (auto simp: month_name_def)
    qed
  next
    case True
    have len: "month_length (?y + 1) (month_name k) = last_day c b a - month_start k + 1"
      using february [OF e, of era] True by simp
    have v: "valid_date (civil_from_days days)" unfolding now using name k(3) len d True by simp
    show ?thesis
    proof (cases "d < last_day c b a")
      case not_last: True
      then have e1: "era_day c b a (d + 1)" using e by (auto simp: era_day_def last_day_def split: if_splits)
      have days1: "days + 1 + 719468 = 146097 * era + (36524 * c + 1461 * b + 365 * a + (d + 1))" using days by simp
      have "d + 1 < month_start (k + 1)" using not_last True by (simp add: month_start_def last_day_def split: if_splits)
      then have "civil_from_days (days + 1) = (?y + (if k < 10 then 0 else 1), month_name k, d + 1 - month_start k + 1)"
        by (intro civil_shape [OF e1 days1]) (use k in simp_all)
      then show ?thesis using v not_last len True unfolding now by simp
    next
      case last: False
      then have eq: "d = last_day c b a" using d by simp
      obtain c' b' a' era' where nxt: "era_day c' b' a' 0" "100 * c' + 4 * b' + a' + era' * 400 = ?y + 1"
        "146097 * era' + (36524 * c' + 1461 * b' + 365 * a') = 146097 * era + (36524 * c + 1461 * b + 365 * a + d) + 1"
        by (rule year_after [OF e eq])
      have days1: "days + 1 + 719468 = 146097 * era' + (36524 * c' + 1461 * b' + 365 * a' + 0)" using days nxt(3) by simp
      have "civil_from_days (days + 1) = (100 * c' + 4 * b' + a' + era' * 400 + (if (0 :: int) < 10 then 0 else 1), month_name 0, 0 - month_start 0 + 1)"
        by (rule civil_shape [OF nxt(1) days1]) (simp_all add: month_start_def)
      then have "civil_from_days (days + 1) = (?y + 1, 3, 1)" by (simp add: nxt(2) month_name_def month_start_def)
      moreover have "next_day (civil_from_days days) = (?y + 1, 3, 1)" unfolding now using True len eq by (simp add: month_name_def)
      ultimately show ?thesis using v by simp
    qed
  qed
qed

lemma civil_valid: "valid_date (civil_from_days days)"
proof (rule days_shape [of days])
  fix era c b a d
  assume "era_day c b a d" "days + 719468 = 146097 * era + (36524 * c + 1461 * b + 365 * a + d)"
  from civil_next [OF this] show ?thesis ..
qed

text \<open>
  C27: dates follow the Gregorian calendar.  The day numbered zero is the first of January 1970, every day is a date of the calendar, and
  the next day is the next date, with months of their lengths and leap years by the rule of 4, 100 and 400.
\<close>

theorem civil_is_gregorian:
  "civil_from_days 0 = (1970, 1, 1) \<and> valid_date (civil_from_days days) \<and>
   civil_from_days (days + 1) = next_day (civil_from_days days)"
proof -
  have "civil_from_days 0 = (1970, 1, 1)"
    using civil_shape [of 3 17 1 306 0 4 10] by (simp add: era_day_def month_start_def month_name_def)
  moreover obtain era c b a d where "era_day c b a d" "days + 719468 = 146097 * era + (36524 * c + 1461 * b + 365 * a + d)"
    by (rule days_shape)
  from civil_next [OF this] have "valid_date (civil_from_days days) \<and> civil_from_days (days + 1) = next_day (civil_from_days days)" .
  ultimately show ?thesis by blast
qed

subsection \<open>A printed date is read back\<close>

lemma days_from_civil_inverse:
  assumes "civil_from_days days = (y, m, d)" and "- (2 ^ 62) \<le> days" "days < 2 ^ 62"
  shows "days_from_civil y m d = days"
proof -
  obtain era c b a n where e: "era_day c b a n" and n: "days + 719468 = 146097 * era + (36524 * c + 1461 * b + 365 * a + n)"
    by (rule days_shape)
  have r: "0 \<le> n" "n \<le> 365" using e by (simp_all add: era_day_def)
  obtain k where k: "0 \<le> k" "k \<le> 11" "month_start k \<le> n" "n < month_start (k + 1)" by (rule month_range [OF r])
  let ?y = "100 * c + 4 * b + a"
  have eq: "y = ?y + era * 400 + (if k < 10 then 0 else 1)" "m = month_name k" "d = n - month_start k + 1"
    using civil_shape [OF e n k(3,4)] assms(1) by simp_all
  have y: "0 \<le> ?y" "?y < 400" using e by (auto simp: era_day_def)
  have ym: "(if m \<le> 2 then wrap_i64 (y - 1) else y) = ?y + era * 400"
  proof (cases "k < 10")
    case False
    have "- (2 ^ 63) \<le> ?y + era * 400" "?y + era * 400 < 2 ^ 63" using n e assms(2,3) y by (auto simp: era_day_def)
    with False k show ?thesis by (simp add: eq month_name_def wrap_i64_id)
  qed (use k in \<open>simp add: eq month_name_def\<close>)
  have mm: "(if m > 2 then m - 3 else m + 9) = k" using k by (auto simp: eq month_name_def)
  have ed: "(?y + era * 400) div 400 = era" "(?y + era * 400) mod 400 = ?y" using y by simp_all
  have "era * 146097 + (?y * 365 + ?y div 4 - ?y div 100 + ((153 * k + 2) div 5 + d - 1)) - 719468 = days"
    using n era_years [of c b a] e by (simp add: eq era_day_def month_start_def)
  moreover have "wrap_i64 days = days" using assms(2,3) by (intro wrap_i64_id) simp_all
  ultimately show ?thesis by (simp only: days_from_civil_def Let_def ym mm ed)
qed

lemma civil_year_bounds:
  assumes "civil_from_days days = (y, m, d)" and "- (2 ^ 62) \<le> days" "days < 2 ^ 62"
  shows "- (2 ^ 63) \<le> y" "y < 2 ^ 63"
proof -
  obtain era c b a n where e: "era_day c b a n" and n: "days + 719468 = 146097 * era + (36524 * c + 1461 * b + 365 * a + n)"
    by (rule days_shape)
  have r: "0 \<le> c" "c \<le> 3" "0 \<le> b" "b \<le> 24" "0 \<le> a" "a \<le> 3" "0 \<le> n" "n \<le> 365" using e by (simp_all add: era_day_def)
  obtain k where k: "0 \<le> k" "k \<le> 11" "month_start k \<le> n" "n < month_start (k + 1)" by (rule month_range [OF r(7,8)])
  have eq: "y = 100 * c + 4 * b + a + era * 400 + (if k < 10 then 0 else 1)"
    using civil_shape [OF e n k(3,4)] assms(1) by simp
  show "- (2 ^ 63) \<le> y" "y < 2 ^ 63" using n r assms(2,3) by (cases "k < 10"; simp add: eq)+
qed

subsection \<open>Reading numbers and words\<close>

lemma digit_bounds: "c \<in> set (show_nat n) \<Longrightarrow> 48 \<le> (of_char c :: nat) \<and> (of_char c :: nat) \<le> 57"
  using show_nat_digits [of n] by (auto simp: of_digit_char)

lemma show_nat_not_Nil [simp]: "show_nat n \<noteq> []"
  by (subst show_nat.simps) simp

lemma foldl_int_digits:
  "\<forall>c\<in>set s. 48 \<le> (of_char c :: nat) \<Longrightarrow>
   foldl (\<lambda>a c. a * 10 + (of_char c - 48)) (int k) s = int (foldl (\<lambda>a c. a * 10 + (of_char c - 48)) k s)"
proof (induction s arbitrary: k)
  case (Cons c s)
  have step: "int k * 10 + (of_char c - 48) = int (k * 10 + (of_char c - 48))" using Cons.prems by (simp add: of_nat_of_char)
  have "\<forall>c\<in>set s. 48 \<le> (of_char c :: nat)" using Cons.prems by simp
  from Cons.IH [OF this] show ?case unfolding foldl.simps step .
qed simp

lemma parse_digits_show: "parse_digits (show_nat n) = Some (int n)"
  using foldl_int_digits [of "show_nat n" 0] digit_bounds [of _ n] by (simp add: parse_digits_def show_nat_val)

lemma parse_digits_pad: "parse_digits (CHR ''0'' # show_nat n) = Some (int n)"
  using foldl_int_digits [of "show_nat n" 0] digit_bounds [of _ n] by (simp add: parse_digits_def show_nat_val)

lemma show_nat_hd: "\<exists>c t. show_nat n = c # t \<and> c \<noteq> CHR ''-'' \<and> c \<noteq> CHR ''+''"
proof -
  obtain c t where ct: "show_nat n = c # t" by (cases "show_nat n") simp_all
  then have "48 \<le> (of_char c :: nat)" using digit_bounds [of c n] by simp
  with ct show ?thesis by auto
qed

lemma parse_i64_show: "- (2 ^ 63) \<le> n \<Longrightarrow> n < 2 ^ 63 \<Longrightarrow> parse_i64 (show_int n) = Some n"
proof (cases "n < 0")
  case True
  assume "- (2 ^ 63) \<le> n"
  with True show ?thesis by (simp add: parse_i64_def show_int_def parse_digits_show)
next
  case False
  assume "n < 2 ^ 63"
  moreover obtain c t where "show_nat (nat n) = c # t" "c \<noteq> CHR ''-''" "c \<noteq> CHR ''+''" using show_nat_hd by blast
  ultimately show ?thesis using False parse_digits_show [of "nat n"] by (simp add: parse_i64_def show_int_def)
qed

lemma pad2_nat: "0 \<le> n \<Longrightarrow> pad2 n = (if n < 10 then CHR ''0'' # show_nat (nat n) else show_nat (nat n))"
  by (simp add: pad2_def show_int_def)

lemma parse_pad2:
  assumes "0 \<le> n" and "n < 100" shows "parse_u32 (pad2 n) = Some n" "parse_i64 (pad2 n) = Some n"
proof -
  obtain c t where ct: "show_nat (nat n) = c # t" "c \<noteq> CHR ''-''" "c \<noteq> CHR ''+''" using show_nat_hd by blast
  note d = parse_digits_show [of "nat n"] parse_digits_pad [of "nat n"]
  show "parse_u32 (pad2 n) = Some n" using assms ct d by (simp add: pad2_nat parse_u32_def)
  show "parse_i64 (pad2 n) = Some n" using assms ct d by (simp add: pad2_nat parse_i64_def)
qed

text \<open>Printable ASCII characters other than the space are not the start, nor the end, of white space.\<close>

definition printable :: "char \<Rightarrow> bool" where
  "printable c \<longleftrightarrow> 33 \<le> (of_char c :: nat) \<and> (of_char c :: nat) \<le> 126"

lemma not_a_prefix:
  assumes "printable c" and "\<forall>w\<in>set ws. w \<noteq> [] \<longrightarrow> \<not> printable (hd w)"
  shows "find (\<lambda>w. w \<noteq> [] \<and> take (length w) (c # t) = w) ws = None"
proof -
  have "take (length w) (c # t) \<noteq> w" if "w \<in> set ws" "w \<noteq> []" for w
  proof
    assume "take (length w) (c # t) = w"
    then have "hd w = c" using that(2) by (cases w) simp_all
    with assms that show False by blast
  qed
  then show ?thesis by (auto simp: find_None_iff)
qed

lemma no_space: "printable c \<Longrightarrow> find (\<lambda>w. w \<noteq> [] \<and> take (length w) (c # t) = w) white_space = None"
  by (erule not_a_prefix) (simp add: white_space_def printable_def)

lemma no_space_rev: "printable c \<Longrightarrow> find (\<lambda>w. w \<noteq> [] \<and> take (length w) (c # t) = w) (map rev white_space) = None"
  by (erule not_a_prefix) (simp add: white_space_def printable_def)

lemma a_space: "find (\<lambda>w. w \<noteq> [] \<and> take (length w) (CHR '' '' # t) = w) white_space = Some '' ''"
  by (simp add: white_space_def)

lemma str_trim_id: "printable c \<Longrightarrow> printable e \<Longrightarrow> str_trim (c # m @ [e]) = c # m @ [e]"
  by (simp add: str_trim_def strip_any.simps no_space no_space_rev)

lemma split_space_word: "\<forall>c\<in>set w. printable c \<Longrightarrow> split_space cur (w @ s) = split_space (cur @ w) s"
proof (induction w arbitrary: cur)
  case (Cons c w)
  have "split_space cur ((c # w) @ s) = split_space (cur @ [c]) (w @ s)"
    using Cons.prems no_space [of c "w @ s"] by (subst split_space.simps) simp
  with Cons show ?case by simp
qed simp

lemma split_space_space: "split_space cur (CHR '' '' # s) = (if cur = [] then [] else [cur]) @ split_space [] s"
  by (subst split_space.simps) (simp add: a_space)

lemma split_space_end: "split_space cur [] = (if cur = [] then [] else [cur])"
  by (subst split_space.simps) (simp add: white_space_def)

lemma split_whitespace_words:
  "ws \<noteq> [] \<Longrightarrow> \<forall>w\<in>set ws. w \<noteq> [] \<and> (\<forall>c\<in>set w. printable c) \<Longrightarrow> split_whitespace (join_with '' '' ws) = ws"
  unfolding split_whitespace_def
proof (induction "'' ''" ws rule: join_with.induct)
  case (2 x)
  then show ?case using split_space_word [of x "[]" "[]"] by (simp add: split_space_end)
next
  case (3 x y ys)
  then show ?case using split_space_word [of x "[]" "CHR '' '' # join_with '' '' (y # ys)"]
    by (simp add: split_space_space)
qed simp

subsection \<open>Round trip\<close>

lemma printable_show: "c \<in> set (show_int n) \<Longrightarrow> printable c"
  by (auto simp: show_int_def printable_def dest: digit_bounds split: if_splits)

lemma printable_pad2: "c \<in> set (pad2 n) \<Longrightarrow> printable c"
  using printable_show [of c n] by (auto simp: pad2_def printable_def split: if_splits)

lemma printable_words:
  "pad2 n \<noteq> [] \<and> (\<forall>c\<in>set (pad2 n). printable c)" "show_int n \<noteq> [] \<and> (\<forall>c\<in>set (show_int n). printable c)"
  by (simp_all add: printable_pad2 printable_show) (simp_all add: pad2_def show_int_def)

lemma colon_pad2: "0 \<le> n \<Longrightarrow> CHR '':'' \<notin> set (pad2 n)"
  using digit_bounds [of "CHR '':''" "nat n"] by (auto simp: pad2_nat)

lemma month_names:
  assumes "1 \<le> m" and "m \<le> 12"
  shows "month_number (MONTH_NAMES ! nat (m - 1)) = Some m \<and> MONTH_NAMES ! nat (m - 1) \<noteq> [] \<and>
    (\<forall>c\<in>set (MONTH_NAMES ! nat (m - 1)). printable c)"
proof -
  have "nat (m - 1) \<in> set [0..<12]" using assms by auto
  moreover have "\<forall>i\<in>set [0..<12]. month_number (MONTH_NAMES ! i) = Some (int i + 1) \<and> MONTH_NAMES ! i \<noteq> [] \<and>
      (\<forall>c\<in>set (MONTH_NAMES ! i). printable c)"
    by (simp add: upt_rec MONTH_NAMES_def month_number_def ascii_lowercase_def lower_char_def printable_def char_of_def bit_0)
  ultimately show ?thesis using assms(1) by force
qed

lemma day_names:
  "\<exists>a b c. DAY_NAMES ! nat (k mod 7) = [a, b, c] \<and> printable a \<and> printable b \<and> printable c"
proof -
  have "nat (k mod 7) \<in> set [0..<7]" by (simp add: nat_less_iff)
  moreover have "\<forall>i\<in>set [0..<7]. \<exists>a b c. DAY_NAMES ! i = [a, b, c] \<and> printable a \<and> printable b \<and> printable c"
    by (simp add: upt_rec DAY_NAMES_def printable_def)
  ultimately show ?thesis by blast
qed

lemma clock_parts:
  assumes "0 \<le> s" and "s < (86400 :: int)"
  shows "0 \<le> s div 3600" "s div 3600 \<le> 23" "0 \<le> s mod 3600 div 60" "s mod 3600 div 60 \<le> 59" "0 \<le> s mod 60" "s mod 60 \<le> 59"
    "s div 3600 * 3600 + s mod 3600 div 60 * 60 + s mod 60 = s"
proof -
  show "0 \<le> s div 3600" "s div 3600 \<le> 23" using assms div_between [of 3600 s] by linarith+
  show "0 \<le> s mod 3600 div 60" "s mod 3600 div 60 \<le> 59"
    using div_between [of 60 "s mod 3600"] pos_mod_sign [of 3600 s] pos_mod_bound [of 3600 s] by linarith+
  show "0 \<le> s mod 60" "s mod 60 \<le> 59" using pos_mod_sign [of 60 s] pos_mod_bound [of 60 s] by linarith+
  have "s mod 60 = s mod 3600 mod 60" by (rule mod_mod_cancel [symmetric]) simp
  then show "s div 3600 * 3600 + s mod 3600 div 60 * 60 + s mod 60 = s"
    using mult_div_mod_eq [of 60 "s mod 3600"] mult_div_mod_eq [of 3600 s] by linarith
qed

lemma clock_seconds_pad:
  assumes "0 \<le> h" "h \<le> 23" "0 \<le> m" "m \<le> 59" "0 \<le> s" "s \<le> 59"
  shows "clock_seconds (pad2 h @ '':'' @ pad2 m @ '':'' @ pad2 s) = Some (h * 3600 + m * 60 + s)"
proof -
  have "split_on CHR '':'' (pad2 h @ '':'' @ pad2 m @ '':'' @ pad2 s) = [pad2 h, pad2 m, pad2 s]"
    using assms by (simp add: split_on_append split_on_plain colon_pad2)
  then show ?thesis using assms by (simp add: clock_seconds_def parse_pad2)
qed

text \<open>
  C28: a printed date is read back.  Every \<open>i64\<close> of seconds, before the epoch and beyond four-digit years too, is recovered exactly from
  its HTTP date.
\<close>

theorem http_date_roundtrip:
  assumes "- (2 ^ 63) \<le> unix" and "unix < 2 ^ 63"
  shows "parse_http_date (http_date unix) = Some unix"
proof -
  let ?days = "unix div 86400" and ?sec = "unix mod 86400"
  obtain y m d where ymd: "civil_from_days ?days = (y, m, d)" by (cases "civil_from_days ?days") blast
  obtain a b c where day: "DAY_NAMES ! nat (?days mod 7) = [a, b, c]" "printable a" "printable b" "printable c"
    using day_names by blast
  have days: "- (2 ^ 62) \<le> ?days" "?days < 2 ^ 62" using assms by simp_all
  have v: "1 \<le> m" "m \<le> 12" "1 \<le> d" "d \<le> 31"
  proof -
    have "valid_date (y, m, d)" using civil_valid [of ?days] by (simp only: ymd)
    then show "1 \<le> m" "m \<le> 12" "1 \<le> d" "d \<le> 31" by (auto simp: month_length_def split: if_splits)
  qed
  have y: "- (2 ^ 63) \<le> y" "y < 2 ^ 63" by (rule civil_year_bounds [OF ymd days])+
  let ?h = "?sec div 3600" and ?m = "?sec mod 3600 div 60" and ?s = "?sec mod 60"
  have hms: "0 \<le> ?h" "?h \<le> 23" "0 \<le> ?m" "?m \<le> 59" "0 \<le> ?s" "?s \<le> 59" "?h * 3600 + ?m * 60 + ?s = ?sec"
    by (rule clock_parts [of ?sec]; simp)+
  let ?clock = "pad2 ?h @ '':'' @ pad2 ?m @ '':'' @ pad2 ?s" and ?month = "MONTH_NAMES ! nat (m - 1)"
  let ?words = "[[a, b, c, CHR '','']  , pad2 d, ?month, show_int y, ?clock, ''GMT'']"
  have mn: "month_number ?month = Some m" "?month \<noteq> []" "\<forall>c\<in>set ?month. printable c"
    using month_names [OF v(1,2)] by simp_all
  have printed: "http_date unix = join_with '' '' ?words" by (simp add: http_date_def Let_def ymd day(1))
  have trim: "str_trim (http_date unix) = http_date unix"
  proof -
    have "http_date unix = a # (b # c # '', '' @ pad2 d @ '' '' @ ?month @ '' '' @ show_int y @ '' '' @ ?clock @ '' GM'') @ ''T''"
      by (simp add: printed)
    moreover have "printable (CHR ''T'')" by (simp add: printable_def)
    ultimately show ?thesis using str_trim_id [OF day(2)] by (simp only:)
  qed
  have words: "split_whitespace (str_trim (http_date unix)) = ?words"
    unfolding trim
    unfolding printed
  proof (rule split_whitespace_words)
    have p: "printable (CHR '','')" "\<forall>c\<in>set ''GMT''. printable c" "printable (CHR '':'')" by (simp_all add: printable_def)
    have "\<forall>c\<in>set ?clock. printable c" using p(3) by (auto dest: printable_pad2)
    then show "\<forall>w\<in>set ?words. w \<noteq> [] \<and> (\<forall>c\<in>set w. printable c)"
      using day(2-4) mn(2,3) p(1,2) printable_words [of d] printable_words [of y] by simp
  qed simp
  have "date_fields ?words = Some (d, m, y, ?clock)"
    using v mn(1) y by (simp add: date_fields_def ends_with_comma_def parse_pad2 parse_i64_show)
  moreover have "clock_seconds ?clock = Some ?sec" using clock_seconds_pad [OF hms(1-6)] hms(7) by simp
  moreover have "days_from_civil y m d = ?days" by (rule days_from_civil_inverse [OF ymd days])
  moreover have "wrap_i64 (?days * 86400 + ?sec) = unix" using assms by (simp add: wrap_i64_id)
  ultimately show ?thesis unfolding parse_http_date_def words using v(3,4) by simp
qed

theorem http_date_roundtrip_witness: "parse_http_date (http_date 784111777) = Some 784111777"
  by (rule http_date_roundtrip) simp_all

text \<open>The fields of the clock are bounded above only.\<close>

lemma clock_accepts_negative: "clock_seconds ''-5:00:00'' = Some (- 18000)"
  by (simp add: clock_seconds_def parse_i64_def parse_digits_def)

end
