(* ===== verification/HttpMessage.thy ===== *)
theory HttpMessage
  imports Json
begin

section \<open>Headers and responses\<close>

text \<open>
  \<open>rustlavel-http\<close>: header storage (\<open>headers.rs\<close>), statuses (\<open>status.rs\<close>) and the response with its wire form (\<open>response.rs\<close>).
  The map of headers is the sorted association list of a \<open>BTreeMap\<close>; a body is the string of its bytes.  A response
  that takes the connection over is marked as such, and the code that then owns the socket is left out.
\<close>

subsection \<open>Headers\<close>

type_synonym Headers = "(string \<times> string list) list"

text \<open>
  \<open>char::is_control\<close>: the C0 controls, delete, and the C1 controls, whose encodings are two bytes.
\<close>

definition control_byte :: "char \<Rightarrow> bool" where
  "control_byte c \<longleftrightarrow> (of_char c :: nat) < 32 \<or> (of_char c :: nat) = 127"

fun sanitise :: "string \<Rightarrow> string" where
  "sanitise [] = []"
| "sanitise (c # s) =
     (if c = CHR 0xC2 \<and> s \<noteq> [] \<and> 0x80 \<le> (of_char (hd s) :: nat) \<and> (of_char (hd s) :: nat) \<le> 0x9F then sanitise (tl s)
      else if c \<noteq> CHR 0x09 \<and> control_byte c then sanitise s
      else c # sanitise s)"

definition no_headers :: Headers where "no_headers = []"

definition headers_set :: "string \<Rightarrow> string \<Rightarrow> Headers \<Rightarrow> Headers" where
  "headers_set name val h = btree_insert (ascii_lowercase (sanitise name)) [sanitise val] h"

definition headers_append :: "string \<Rightarrow> string \<Rightarrow> Headers \<Rightarrow> Headers" where
  "headers_append name val h =
     (let key = ascii_lowercase (sanitise name);
          old = (case map_of h key of Some vs \<Rightarrow> vs | None \<Rightarrow> [])
      in btree_insert key (old @ [sanitise val]) h)"

definition headers_get :: "string \<Rightarrow> Headers \<Rightarrow> string option" where
  "headers_get name h =
     (case map_of h (ascii_lowercase name) of
        Some vs \<Rightarrow> (case vs of v # _ \<Rightarrow> Some v | [] \<Rightarrow> None)
      | None \<Rightarrow> None)"

definition headers_get_all :: "string \<Rightarrow> Headers \<Rightarrow> string list" where
  "headers_get_all name h = (case map_of h (ascii_lowercase name) of Some vs \<Rightarrow> vs | None \<Rightarrow> [])"

definition headers_contains :: "string \<Rightarrow> Headers \<Rightarrow> bool" where
  "headers_contains name h \<longleftrightarrow> map_of h (ascii_lowercase name) \<noteq> None"

definition headers_remove :: "string \<Rightarrow> Headers \<Rightarrow> Headers" where
  "headers_remove name h = filter (\<lambda>(k, _). k \<noteq> ascii_lowercase name) h"

definition headers_iter :: "Headers \<Rightarrow> (string \<times> string) list" where
  "headers_iter h = concat (map (\<lambda>(name, vs). map (\<lambda>v. (name, v)) vs) h)"

definition content_length :: "Headers \<Rightarrow> nat option" where
  "content_length h = Option.bind (headers_get ''content-length'' h) (\<lambda>v. parse_usize (str_trim v))"

definition content_type :: "Headers \<Rightarrow> string option" where
  "content_type h = map_option (\<lambda>v. str_trim (hd (split_on CHR '';'' v))) (headers_get ''content-type'' h)"

subsection \<open>Statuses\<close>

type_synonym Status = nat

definition is_bodyless :: "Status \<Rightarrow> bool" where
  "is_bodyless s \<longleftrightarrow> s = 204 \<or> s = 304 \<or> (100 \<le> s \<and> s < 200)"

definition reasons :: "(nat \<times> string) list" where
  "reasons =
     [(100, ''Continue''), (101, ''Switching Protocols''), (200, ''OK''), (201, ''Created''), (202, ''Accepted''),
      (204, ''No Content''), (301, ''Moved Permanently''), (302, ''Found''), (303, ''See Other''),
      (304, ''Not Modified''), (307, ''Temporary Redirect''), (308, ''Permanent Redirect''), (400, ''Bad Request''),
      (401, ''Unauthorized''), (403, ''Forbidden''), (404, ''Not Found''), (405, ''Method Not Allowed''),
      (408, ''Request Timeout''), (409, ''Conflict''), (413, ''Payload Too Large''), (415, ''Unsupported Media Type''),
      (419, ''Page Expired''), (422, ''Unprocessable Content''), (429, ''Too Many Requests''),
      (500, ''Internal Server Error''), (501, ''Not Implemented''), (502, ''Bad Gateway''),
      (503, ''Service Unavailable''), (504, ''Gateway Timeout'')]"

definition reason :: "Status \<Rightarrow> string" where
  "reason s = (case map_of reasons s of Some r \<Rightarrow> r | None \<Rightarrow> ''Unknown'')"

subsection \<open>Responses\<close>

record Response =
  status :: Status
  headers :: Headers
  body :: string
  upgrades :: bool

definition new_response :: "Status \<Rightarrow> Response" where
  "new_response s = \<lparr>status = s, headers = no_headers, body = [], upgrades = False\<rparr>"

definition with_header :: "string \<Rightarrow> string \<Rightarrow> Response \<Rightarrow> Response" where
  "with_header name val r = r\<lparr>headers := headers_set name val (headers r)\<rparr>"

definition with_body :: "string \<Rightarrow> Response \<Rightarrow> Response" where
  "with_body b r = r\<lparr>body := b\<rparr>"

definition with_html :: "string \<Rightarrow> Response \<Rightarrow> Response" where
  "with_html b r = with_body b (with_header ''content-type'' ''text/html; charset=utf-8'' r)"

definition with_text :: "string \<Rightarrow> Response \<Rightarrow> Response" where
  "with_text b r = with_body b (with_header ''content-type'' ''text/plain; charset=utf-8'' r)"

definition not_found :: Response where
  "not_found = with_html ''<h1>404 Not Found</h1>'' (new_response 404)"

definition redirect :: "string \<Rightarrow> Response" where
  "redirect location = with_header ''location'' location (new_response 302)"

definition see_other :: "string \<Rightarrow> Response" where
  "see_other location = with_header ''location'' location (new_response 303)"

definition upgrading :: "Response \<Rightarrow> Response" where
  "upgrading r = r\<lparr>status := 101, upgrades := True\<rparr>"

definition streaming :: "Response \<Rightarrow> Response" where
  "streaming r = r\<lparr>upgrades := True\<rparr>"

definition CRLF :: string where "CRLF = [CHR 0x0D, CHR 0x0A]"

definition to_bytes :: "bool \<Rightarrow> Response \<Rightarrow> string" where
  "to_bytes include_body r =
     (let bodyless = is_bodyless (status r);
          content = (if bodyless then [] else body r);
          start = ''HTTP/1.1 '' @ show_nat (status r) @ '' '' @ reason (status r) @ CRLF;
          fields = concat (map (\<lambda>(name, val). name @ '': '' @ val @ CRLF)
                     (filter (\<lambda>(name, _). name \<noteq> ''content-length'') (headers_iter (headers r))));
          len = (if \<not> bodyless \<and> \<not> upgrades r then ''content-length: '' @ show_nat (length content) @ CRLF else [])
      in start @ fields @ len @ CRLF @ (if include_body \<and> \<not> bodyless then content else []))"

subsection \<open>What a client reads\<close>

text \<open>
  A recipient: it splits at the pairs of carriage return and line feed, up to the first empty line, and the rest is the body.
\<close>

fun take_line :: "string \<Rightarrow> (string \<times> string) option" where
  "take_line [] = None"
| "take_line (c # s) =
     (if c = CHR 0x0D \<and> s \<noteq> [] \<and> hd s = CHR 0x0A then Some ([], tl s)
      else map_option (\<lambda>(l, r). (c # l, r)) (take_line s))"

lemma take_line_shorter: "take_line s = Some (l, r) \<Longrightarrow> length r < length s"
  by (induction s arbitrary: l r) (auto simp: map_option_case split: if_splits option.splits)

function read_head :: "string \<Rightarrow> (string list \<times> string) option" where
  "read_head s =
     (case take_line s of
        None \<Rightarrow> None
      | Some (l, r) \<Rightarrow> if l = [] then Some ([], r) else map_option (\<lambda>(ls, b). (l # ls, b)) (read_head r))"
  by pat_completeness auto
termination
  by (relation "measure length") (auto dest: take_line_shorter)

declare read_head.simps [simp del]

definition one_line :: "string \<Rightarrow> bool" where
  "one_line s \<longleftrightarrow> CHR 0x0D \<notin> set s \<and> CHR 0x0A \<notin> set s"

lemma one_line_simps [simp]:
  "one_line []" "one_line (s @ t) \<longleftrightarrow> one_line s \<and> one_line t"
  "one_line (c # s) \<longleftrightarrow> c \<noteq> CHR 0x0D \<and> c \<noteq> CHR 0x0A \<and> one_line s"
  by (auto simp: one_line_def)

lemma take_line_line: "CHR 0x0D \<notin> set l \<Longrightarrow> take_line (l @ CRLF @ r) = Some (l, r)"
  by (induction l) (auto simp: CRLF_def)

lemma read_head_lines:
  assumes "\<forall>l\<in>set ls. one_line l \<and> l \<noteq> []"
  shows "read_head (concat (map (\<lambda>l. l @ CRLF) ls) @ CRLF @ b) = Some (ls, b)"
  using assms
proof (induction ls)
  case Nil
  show ?case using take_line_line [of "[]" b] by (subst read_head.simps) simp
next
  case (Cons l ls)
  have "take_line (l @ CRLF @ (concat (map (\<lambda>l. l @ CRLF) ls) @ CRLF @ b)) = Some (l, concat (map (\<lambda>l. l @ CRLF) ls) @ CRLF @ b)"
    using Cons.prems by (intro take_line_line) (simp add: one_line_def)
  with Cons show ?case by (subst read_head.simps) simp
qed

subsection \<open>Headers cannot carry line ends\<close>

lemma sanitise_one_line: "one_line (sanitise s)"
proof -
  have "CHR 0x0D \<notin> set (sanitise s) \<and> CHR 0x0A \<notin> set (sanitise s)"
    by (induction s rule: sanitise.induct) (auto simp: control_byte_def)
  then show ?thesis by (simp add: one_line_def)
qed

lemma lower_char_below: "(of_char (lower_char c) :: nat) < 97 \<Longrightarrow> lower_char c = c"
  by (auto simp: lower_char_def Let_def)

lemma lowercase_one_line: "one_line s \<Longrightarrow> one_line (ascii_lowercase s)"
proof -
  assume s: "one_line s"
  have "lower_char c \<noteq> e" if "c \<in> set s" "e = CHR 0x0D \<or> e = CHR 0x0A" for c e
  proof
    assume "lower_char c = e"
    then have "(of_char (lower_char c) :: nat) < 97" using that(2) by auto
    from lower_char_below [OF this] \<open>lower_char c = e\<close> that s show False by (auto simp: one_line_def)
  qed
  then show ?thesis by (fastforce simp: one_line_def ascii_lowercase_def)
qed

text \<open>The maps of headers that can be made: every way to put something in goes through \<open>set\<close> or \<open>append\<close>.\<close>

inductive built :: "Headers \<Rightarrow> bool" where
  empty: "built no_headers"
| set: "built h \<Longrightarrow> built (headers_set name val h)"
| append: "built h \<Longrightarrow> built (headers_append name val h)"
| remove: "built h \<Longrightarrow> built (headers_remove name h)"

definition clean_headers :: "Headers \<Rightarrow> bool" where
  "clean_headers h \<longleftrightarrow> (\<forall>(name, vs)\<in>set h. one_line name \<and> (\<forall>v\<in>set vs. one_line v))"

lemma btree_insert_set: "set (btree_insert k v m) \<subseteq> insert (k, v) (set m)"
  by (induction m) (auto split: if_splits)

lemma clean_insert:
  "clean_headers h \<Longrightarrow> one_line k \<Longrightarrow> \<forall>v\<in>set vs. one_line v \<Longrightarrow> clean_headers (btree_insert k vs h)"
  using btree_insert_set [of k vs h] by (fastforce simp: clean_headers_def)

lemma built_clean: "built h \<Longrightarrow> clean_headers h"
proof (induction rule: built.induct)
  case (append h name val)
  let ?k = "ascii_lowercase (sanitise name)"
  have old: "\<forall>v\<in>set (case map_of h ?k of Some vs \<Rightarrow> vs | None \<Rightarrow> []). one_line v"
  proof (cases "map_of h ?k")
    case (Some vs)
    from append.IH map_of_SomeD [OF Some] Some show ?thesis by (auto simp: clean_headers_def)
  qed simp
  show ?case unfolding headers_append_def Let_def
    by (intro clean_insert append.IH lowercase_one_line sanitise_one_line) (use old sanitise_one_line in simp)
next
  case (set h name val)
  show ?case unfolding headers_set_def
    by (intro clean_insert set.IH lowercase_one_line sanitise_one_line) (simp add: sanitise_one_line)
qed (auto simp: no_headers_def headers_remove_def clean_headers_def)

lemma iter_one_line:
  "clean_headers h \<Longrightarrow> (name, v) \<in> set (headers_iter h) \<Longrightarrow> one_line name \<and> one_line v"
  by (fastforce simp: clean_headers_def headers_iter_def)

lemma digits_one_line: "one_line (show_nat n)"
proof -
  have "48 \<le> (of_char c :: nat)" if "c \<in> set (show_nat n)" for c
    using that show_nat_digits [of n] by (auto simp: of_digit_char)
  then show ?thesis by (force simp: one_line_def)
qed

lemma reason_one_line: "one_line (reason s)"
proof -
  have "list_all (\<lambda>(_, r). one_line r) reasons" by (simp add: reasons_def one_line_def)
  then show ?thesis unfolding reason_def
    by (auto simp: list_all_iff split: option.split dest: map_of_SomeD)
qed

text \<open>The lines of the head: the status line, each header, and the length of the body unless the connection is taken over.\<close>

definition status_line :: "Response \<Rightarrow> string" where
  "status_line r = ''HTTP/1.1 '' @ show_nat (status r) @ '' '' @ reason (status r)"

definition header_lines :: "Response \<Rightarrow> string list" where
  "header_lines r =
     map (\<lambda>(name, v). name @ '': '' @ v) (filter (\<lambda>(name, _). name \<noteq> ''content-length'') (headers_iter (headers r))) @
     (if is_bodyless (status r) \<or> upgrades r then [] else [''content-length: '' @ show_nat (length (body r))])"

lemma to_bytes_lines:
  "to_bytes inc r = concat (map (\<lambda>l. l @ CRLF) (status_line r # header_lines r)) @ CRLF @
     (if inc \<and> \<not> is_bodyless (status r) then body r else [])"
  by (simp add: to_bytes_def status_line_def header_lines_def Let_def comp_def case_prod_unfold)

text \<open>
  C31: no header value can split a response.  Whatever names and values are put into the headers, line ends and attacks included, a client
  that splits the bytes at line ends reads the status line, exactly one line per header, one \<open>content-length\<close> that is the
  length of the body, and then the body: nothing in a header ends the head or adds a header.
\<close>

theorem response_not_split:
  assumes "built (headers r)"
  shows "read_head (to_bytes inc r) =
    Some (status_line r # header_lines r, if inc \<and> \<not> is_bodyless (status r) then body r else [])"
proof -
  have "one_line l \<and> l \<noteq> []" if "l \<in> set (status_line r # header_lines r)" for l
    using that iter_one_line [OF built_clean [OF assms]]
    by (auto simp: status_line_def header_lines_def digits_one_line reason_one_line split: if_splits)
  then show ?thesis unfolding to_bytes_lines by (intro read_head_lines) blast
qed

theorem response_not_split_witness:
  "read_head (to_bytes True (see_other ([CHR ''/'', CHR 0x0D, CHR 0x0A] @ ''set-cookie: a=b''))) =
     Some ([''HTTP/1.1 '' @ show_nat 303 @ '' See Other'', ''location: /set-cookie: a=b'', ''content-length: '' @ show_nat 0], [])"
proof -
  let ?r = "see_other ([CHR ''/'', CHR 0x0D, CHR 0x0A] @ ''set-cookie: a=b'')"
  have "built (headers ?r)" by (simp add: see_other_def with_header_def new_response_def built.intros)
  from response_not_split [OF this, of True] show ?thesis
    by (simp add: see_other_def with_header_def new_response_def status_line_def header_lines_def headers_set_def no_headers_def
        headers_iter_def is_bodyless_def reason_def reasons_def ascii_lowercase_def lower_char_def control_byte_def)
qed

end
