(* ===== verification/Router.thy ===== *)
theory Router
  imports HttpMessage Url Dates "HOL-Library.Product_Lexorder"
begin

section \<open>The router\<close>

text \<open>
  \<open>rustlavel-http\<close>: methods (\<open>method.rs\<close>), patterns, registration and dispatch (\<open>router.rs\<close>), the pipeline of middleware
  (\<open>middleware.rs\<close>) and the lifecycle headers of a route (\<open>versioning.rs\<close>).  A handler is a function from a request to a
  response, or to the message of the panic it raised; a middleware also gets the rest of the pipeline.  What the error page shows for a
  panic is an argument.  Of a request the parts that dispatch reads or writes are kept; the events it reports are left out.
\<close>

subsection \<open>Methods\<close>

datatype Method = Get | Head | Post | Put | Patch | Delete | Options

fun method_rank :: "Method \<Rightarrow> nat" where
  "method_rank Get = 0" | "method_rank Head = 1" | "method_rank Post = 2" | "method_rank Put = 3"
| "method_rank Patch = 4" | "method_rank Delete = 5" | "method_rank Options = 6"

instantiation Method :: linorder
begin

definition less_eq_Method :: "Method \<Rightarrow> Method \<Rightarrow> bool" where
  "less_eq_Method a b \<longleftrightarrow> method_rank a \<le> method_rank b"

definition less_Method :: "Method \<Rightarrow> Method \<Rightarrow> bool" where
  "less_Method a b \<longleftrightarrow> method_rank a < method_rank b"

instance
proof
  fix a b :: Method
  assume "a \<le> b" "b \<le> a"
  then show "a = b" by (cases a; cases b) (simp_all add: less_eq_Method_def)
qed (auto simp: less_eq_Method_def less_Method_def)

end

fun as_str :: "Method \<Rightarrow> string" where
  "as_str Get = ''GET''" | "as_str Head = ''HEAD''" | "as_str Post = ''POST''" | "as_str Put = ''PUT''"
| "as_str Patch = ''PATCH''" | "as_str Delete = ''DELETE''" | "as_str Options = ''OPTIONS''"

definition method_parse :: "string \<Rightarrow> Method option" where
  "method_parse s = find (\<lambda>m. as_str m = s) [Get, Head, Post, Put, Patch, Delete, Options]"

subsection \<open>Patterns\<close>

datatype Segment = Static string | Param string | Wildcard string

definition split_path :: "string \<Rightarrow> string list" where
  "split_path path = filter (\<lambda>part. part \<noteq> []) (split_on CHR ''/'' path)"

definition parse_segment :: "string \<Rightarrow> Segment" where
  "parse_segment part =
     (case (case part of c # p \<Rightarrow> if c = CHR ''{'' then strip_suffix ''}'' p else None | [] \<Rightarrow> None) of
        Some name \<Rightarrow>
          (case strip_suffix '':*'' name of
             Some n \<Rightarrow> Wildcard n
           | None \<Rightarrow> Param name)
      | None \<Rightarrow> Static part)"

definition parse_pattern :: "string \<Rightarrow> Segment list" where
  "parse_pattern pattern = map parse_segment (split_path pattern)"

fun match_segments :: "Segment list \<Rightarrow> string list \<Rightarrow> (string \<times> string) list \<Rightarrow> (string \<times> string) list option" where
  "match_segments [] parts params = (if parts = [] then Some params else None)"
| "match_segments (Wildcard name # segs) parts params =
     Some (btree_insert name (url_decode (join_with ''/'' parts)) params)"
| "match_segments (Static expected # segs) parts params =
     (case parts of
        [] \<Rightarrow> None
      | p # ps \<Rightarrow> if p \<noteq> expected then None else match_segments segs ps params)"
| "match_segments (Param name # segs) parts params =
     (case parts of
        [] \<Rightarrow> None
      | p # ps \<Rightarrow> if p = [] then None else match_segments segs ps (btree_insert name (url_decode p) params))"

fun fill_loop :: "(string \<times> string) list \<Rightarrow> Segment list \<Rightarrow> string \<Rightarrow> string option" where
  "fill_loop params [] out = Some out"
| "fill_loop params (Static v # segs) out = fill_loop params segs (out @ ''/'' @ v)"
| "fill_loop params (Param name # segs) out =
     (case map_of params name of
        Some v \<Rightarrow> fill_loop params segs (out @ ''/'' @ url_encode v)
      | None \<Rightarrow> None)"
| "fill_loop params (Wildcard name # segs) out =
     (case map_of params name of
        Some v \<Rightarrow> fill_loop params segs (out @ ''/'' @ v)
      | None \<Rightarrow> None)"

definition fill :: "Segment list \<Rightarrow> (string \<times> string) list \<Rightarrow> string option" where
  "fill segs params =
     (case fill_loop params segs [] of
        None \<Rightarrow> None
      | Some out \<Rightarrow> Some (if out = [] then ''/'' else out))"

text \<open>\<open>trim_matches('/')\<close>, \<open>trim_end_matches('/')\<close>, and \<open>replace("//", "/")\<close>, which does not look again at what it wrote.\<close>

definition trim_slashes :: "string \<Rightarrow> string" where
  "trim_slashes s = rev (dropWhile (\<lambda>c. c = CHR ''/'') (rev (dropWhile (\<lambda>c. c = CHR ''/'') s)))"

definition trim_end_slashes :: "string \<Rightarrow> string" where
  "trim_end_slashes s = rev (dropWhile (\<lambda>c. c = CHR ''/'') (rev s))"

fun single_slashes :: "string \<Rightarrow> string" where
  "single_slashes (a # b # s) =
     (if a = CHR ''/'' \<and> b = CHR ''/'' then CHR ''/'' # single_slashes s else a # single_slashes (b # s))"
| "single_slashes s = s"

definition join_paths :: "string \<Rightarrow> string \<Rightarrow> string" where
  "join_paths prefix path =
     (let joined = ''/'' @ trim_slashes prefix @ ''/'' @ trim_slashes path;
          cleaned = single_slashes joined
      in if length cleaned > 1 then trim_end_slashes cleaned else ''/'')"

subsection \<open>Requests, handlers and routes\<close>

record Request =
  req_method :: Method
  req_target :: string
  req_path :: string
  req_query :: "(string \<times> string) list"
  req_headers :: Headers
  req_params :: "(string \<times> string) list"
  req_route :: "string option"
  req_version :: "string option"

definition new_request :: "Method \<Rightarrow> string \<Rightarrow> Request" where
  "new_request m target =
     (case split_target target of
        (path, query) \<Rightarrow>
          \<lparr>req_method = m, req_target = target, req_path = path, req_query = parse_query query,
           req_headers = no_headers, req_params = [], req_route = None, req_version = None\<rparr>)"

type_synonym handler = "Request \<Rightarrow> string + Response"
type_synonym middleware = "Request \<Rightarrow> handler \<Rightarrow> string + Response"

fun run_next :: "middleware list \<Rightarrow> handler \<Rightarrow> handler" where
  "run_next [] endpoint req = endpoint req"
| "run_next (m # stack) endpoint req = m req (run_next stack endpoint)"

record Route =
  rt_method :: Method
  rt_pattern :: string
  rt_name :: "string option"
  rt_summary :: "string option"
  rt_tag :: "string option"
  rt_responses :: "(nat \<times> string) list"
  rt_parameters :: "(string \<times> string) list"
  rt_deprecated :: bool
  rt_version :: "string option"
  rt_deprecated_at :: "int option"
  rt_sunset :: "int option"
  rt_segments :: "Segment list"
  rt_handler :: handler
  rt_middleware :: "middleware list"

definition parameter_names :: "Route \<Rightarrow> string list" where
  "parameter_names r =
     List.map_filter (\<lambda>s. case s of Param n \<Rightarrow> Some n | Wildcard n \<Rightarrow> Some n | Static _ \<Rightarrow> None) (rt_segments r)"

definition specificity :: "Route \<Rightarrow> nat \<times> nat" where
  "specificity r =
     (let statics = length (filter (\<lambda>s. case s of Static _ \<Rightarrow> True | _ \<Rightarrow> False) (rt_segments r));
          wildcards = length (filter (\<lambda>s. case s of Wildcard _ \<Rightarrow> True | _ \<Rightarrow> False) (rt_segments r))
      in (wildcards, (2 ^ 64 - 1) - statics))"

definition match_path :: "Route \<Rightarrow> string \<Rightarrow> (string \<times> string) list option" where
  "match_path r path = match_segments (rt_segments r) (split_path path) []"

definition stamp_lifecycle :: "Route \<Rightarrow> Response \<Rightarrow> Response" where
  "stamp_lifecycle r resp =
     (let resp1 = (case rt_deprecated_at r of
                     Some t \<Rightarrow> resp\<lparr>headers := headers_set ''deprecation'' (CHR ''@'' # show_int t) (headers resp)\<rparr>
                   | None \<Rightarrow> resp)
      in case rt_sunset r of
           Some t \<Rightarrow> resp1\<lparr>headers := headers_set ''sunset'' (http_date t) (headers resp1)\<rparr>
         | None \<Rightarrow> resp1)"

subsection \<open>Registration\<close>

record Router =
  routes :: "Route list"
  scope_prefix :: string
  scope_version :: "string option"
  scope_middleware :: "middleware list"
  global_middleware :: "middleware list"
  fallback :: "handler option"

definition new_router :: Router where
  "new_router = \<lparr>routes = [], scope_prefix = [], scope_version = None, scope_middleware = [], global_middleware = [], fallback = None\<rparr>"

definition router_middleware :: "middleware \<Rightarrow> Router \<Rightarrow> Router" where
  "router_middleware m r =
     (if scope_prefix r = [] \<and> scope_middleware r = [] then r\<lparr>global_middleware := global_middleware r @ [m]\<rparr>
      else r\<lparr>scope_middleware := scope_middleware r @ [m]\<rparr>)"

definition router_group :: "string \<Rightarrow> (Router \<Rightarrow> Router) \<Rightarrow> Router \<Rightarrow> Router" where
  "router_group prefix define_routes r =
     (let child = define_routes (new_router\<lparr>scope_prefix := join_paths (scope_prefix r) prefix,
                    scope_middleware := scope_middleware r, scope_version := scope_version r\<rparr>)
      in r\<lparr>routes := routes r @ routes child\<rparr>)"

definition router_version :: "string \<Rightarrow> (Router \<Rightarrow> Router) \<Rightarrow> Router \<Rightarrow> Router" where
  "router_version version define_routes r =
     (let v = dropWhile (\<lambda>c. c = CHR ''/'') version;
          child = define_routes (new_router\<lparr>scope_prefix := join_paths (scope_prefix r) (CHR ''/'' # v),
                    scope_middleware := scope_middleware r, scope_version := Some v\<rparr>)
      in r\<lparr>routes := routes r @ routes child\<rparr>)"

definition set_fallback :: "handler \<Rightarrow> Router \<Rightarrow> Router" where
  "set_fallback h r = r\<lparr>fallback := Some h\<rparr>"

definition add_route :: "Method \<Rightarrow> string \<Rightarrow> handler \<Rightarrow> Router \<Rightarrow> nat \<times> Router" where
  "add_route m pattern h r =
     (let full = join_paths (scope_prefix r) pattern;
          route = \<lparr>rt_method = m, rt_pattern = full, rt_name = None, rt_summary = None, rt_tag = None, rt_responses = [],
                   rt_parameters = [], rt_deprecated = False, rt_version = scope_version r, rt_deprecated_at = None, rt_sunset = None,
                   rt_segments = parse_pattern full, rt_handler = h, rt_middleware = scope_middleware r\<rparr>
      in (length (routes r), r\<lparr>routes := routes r @ [route]\<rparr>))"

text \<open>\<open>RouteHandle\<close>: the index of a route, through which it is changed.  A date that cannot be read panics at start-up: no router.\<close>

definition update_route :: "nat \<Rightarrow> (Route \<Rightarrow> Route) \<Rightarrow> Router \<Rightarrow> Router" where
  "update_route i f r = r\<lparr>routes := (routes r)[i := f (routes r ! i)]\<rparr>"

definition route_name :: "string \<Rightarrow> nat \<Rightarrow> Router \<Rightarrow> Router" where
  "route_name n i = update_route i (\<lambda>x. x\<lparr>rt_name := Some n\<rparr>)"

definition route_describe :: "string \<Rightarrow> nat \<Rightarrow> Router \<Rightarrow> Router" where
  "route_describe s i = update_route i (\<lambda>x. x\<lparr>rt_summary := Some s\<rparr>)"

definition route_tag :: "string \<Rightarrow> nat \<Rightarrow> Router \<Rightarrow> Router" where
  "route_tag t i = update_route i (\<lambda>x. x\<lparr>rt_tag := Some t\<rparr>)"

definition route_responds :: "nat \<Rightarrow> string \<Rightarrow> nat \<Rightarrow> Router \<Rightarrow> Router" where
  "route_responds s d i = update_route i (\<lambda>x. x\<lparr>rt_responses := rt_responses x @ [(s, d)]\<rparr>)"

definition route_param :: "string \<Rightarrow> string \<Rightarrow> nat \<Rightarrow> Router \<Rightarrow> Router" where
  "route_param n d i = update_route i (\<lambda>x. x\<lparr>rt_parameters := rt_parameters x @ [(n, d)]\<rparr>)"

definition route_middleware :: "middleware \<Rightarrow> nat \<Rightarrow> Router \<Rightarrow> Router" where
  "route_middleware m i = update_route i (\<lambda>x. x\<lparr>rt_middleware := rt_middleware x @ [m]\<rparr>)"

definition route_deprecated :: "nat \<Rightarrow> Router \<Rightarrow> Router" where
  "route_deprecated i = update_route i (\<lambda>x. x\<lparr>rt_deprecated := True\<rparr>)"

definition route_deprecated_at :: "string \<Rightarrow> nat \<Rightarrow> Router \<Rightarrow> Router option" where
  "route_deprecated_at date i r =
     (case parse_ymd date of
        None \<Rightarrow> None
      | Some t \<Rightarrow> Some (update_route i (\<lambda>x. x\<lparr>rt_deprecated := True, rt_deprecated_at := Some t\<rparr>) r))"

definition route_sunset :: "string \<Rightarrow> nat \<Rightarrow> Router \<Rightarrow> Router option" where
  "route_sunset date i r =
     (case parse_ymd date of
        None \<Rightarrow> None
      | Some t \<Rightarrow> Some (update_route i (\<lambda>x. x\<lparr>rt_deprecated := True, rt_sunset := Some t\<rparr>) r))"

text \<open>\<open>Resource\<close>: the routes of a resource, each with its name.\<close>

definition resource_base :: "string \<Rightarrow> string" where
  "resource_base base = trim_end_slashes base"

definition resource_name :: "string \<Rightarrow> string" where
  "resource_name base = map (\<lambda>c. if c = CHR ''/'' then CHR ''.'' else c) (trim_slashes base)"

definition resource_route :: "Method \<Rightarrow> string \<Rightarrow> string \<Rightarrow> string \<Rightarrow> handler \<Rightarrow> Router \<Rightarrow> Router" where
  "resource_route m tail verb base h r =
     (case add_route m (base @ tail) h r of (i, r1) \<Rightarrow> route_name (resource_name base @ ''.'' @ verb) i r1)"

definition resource_index :: "string \<Rightarrow> handler \<Rightarrow> Router \<Rightarrow> Router" where
  "resource_index = resource_route Get [] ''index''"
definition resource_store :: "string \<Rightarrow> handler \<Rightarrow> Router \<Rightarrow> Router" where
  "resource_store = resource_route Post [] ''store''"
definition resource_show :: "string \<Rightarrow> handler \<Rightarrow> Router \<Rightarrow> Router" where
  "resource_show = resource_route Get ''/{id}'' ''show''"
definition resource_update :: "string \<Rightarrow> handler \<Rightarrow> Router \<Rightarrow> Router" where
  "resource_update = resource_route Put ''/{id}'' ''update''"
definition resource_destroy :: "string \<Rightarrow> handler \<Rightarrow> Router \<Rightarrow> Router" where
  "resource_destroy = resource_route Delete ''/{id}'' ''destroy''"

definition finalize :: "Router \<Rightarrow> Router" where
  "finalize r = r\<lparr>routes := sort_key specificity (routes r)\<rparr>"

definition named_routes :: "Router \<Rightarrow> (string \<times> Segment list) list" where
  "named_routes r = List.map_filter (\<lambda>x. map_option (\<lambda>n. (n, rt_segments x)) (rt_name x)) (routes r)"

definition named_url_for :: "(string \<times> Segment list) list \<Rightarrow> string \<Rightarrow> (string \<times> string) list \<Rightarrow> string option" where
  "named_url_for named name params =
     (case find (\<lambda>(known, _). known = name) named of Some (_, segs) \<Rightarrow> fill segs params | None \<Rightarrow> None)"

definition url_for :: "Router \<Rightarrow> string \<Rightarrow> (string \<times> string) list \<Rightarrow> string option" where
  "url_for r name params =
     (case find (\<lambda>x. rt_name x = Some name) (routes r) of Some x \<Rightarrow> fill (rt_segments x) params | None \<Rightarrow> None)"

subsection \<open>Dispatch\<close>

definition usable :: "Method \<Rightarrow> Route \<Rightarrow> bool" where
  "usable m r \<longleftrightarrow> rt_method r = m \<or> m = Head \<and> rt_method r = Get"

text \<open>The loop over the routes: the route to run with its captures, or whether any matched the path and the methods those allow.\<close>

fun find_route :: "Method \<Rightarrow> string \<Rightarrow> Route list \<Rightarrow> bool \<Rightarrow> Method list \<Rightarrow> (Route \<times> (string \<times> string) list) + (bool \<times> Method list)" where
  "find_route m path [] matched allowed = Inr (matched, allowed)"
| "find_route m path (r # rs) matched allowed =
     (case match_path r path of
        None \<Rightarrow> find_route m path rs matched allowed
      | Some params \<Rightarrow>
          if usable m r then Inl (r, params) else find_route m path rs True (allowed @ [rt_method r]))"

definition prepare :: "Route \<Rightarrow> (string \<times> string) list \<Rightarrow> Request \<Rightarrow> Request" where
  "prepare r params req =
     (let req1 = req\<lparr>req_params := params, req_route := Some (rt_pattern r)\<rparr>
      in case rt_version r of Some v \<Rightarrow> req1\<lparr>req_version := Some v\<rparr> | None \<Rightarrow> req1)"

definition run_guarded :: "(string \<Rightarrow> Request \<Rightarrow> Response) \<Rightarrow> handler \<Rightarrow> Request \<Rightarrow> Response" where
  "run_guarded error_page pipeline req =
     (case pipeline req of
        Inr resp \<Rightarrow> resp
      | Inl message \<Rightarrow>
          error_page message ((new_request (req_method req) (req_target req))\<lparr>req_headers :=
            headers_set ''accept'' (case headers_get ''accept'' (req_headers req) of Some a \<Rightarrow> a | None \<Rightarrow> ''text/html'') no_headers\<rparr>))"

definition not_allowed :: "Method list \<Rightarrow> Request \<Rightarrow> Response" where
  "not_allowed allowed req =
     with_text (as_str (req_method req) @ '' is not allowed on '' @ req_path req)
       (with_header ''allow'' (join_with '', '' (map as_str (remdups_adj (sort allowed)))) (new_response 405))"

definition dispatch :: "(string \<Rightarrow> Request \<Rightarrow> Response) \<Rightarrow> Router \<Rightarrow> Request \<Rightarrow> string + Response" where
  "dispatch error_page r req =
     (case find_route (req_method req) (req_path req) (routes r) False [] of
        Inl (route, params) \<Rightarrow>
          Inr (stamp_lifecycle route
            (run_guarded error_page (run_next (global_middleware r @ rt_middleware route) (rt_handler route)) (prepare route params req)))
      | Inr (True, allowed) \<Rightarrow> run_next (global_middleware r) (\<lambda>_. Inr (not_allowed allowed req)) req
      | Inr (False, _) \<Rightarrow>
          (case fallback r of
             Some h \<Rightarrow> run_next (global_middleware r) h req
           | None \<Rightarrow> run_next (global_middleware r) (\<lambda>_. Inr not_found) req))"

subsection \<open>Which route answers\<close>

definition serves :: "Request \<Rightarrow> Route \<Rightarrow> bool" where
  "serves req x \<longleftrightarrow> match_path x (req_path req) \<noteq> None \<and> usable (req_method req) x"

lemma find_route_Inl:
  "find_route m path rs b al = Inl (r, params) \<Longrightarrow>
   \<exists>pre post. rs = pre @ r # post \<and> match_path r path = Some params \<and> usable m r \<and>
     (\<forall>x\<in>set pre. \<not> (match_path x path \<noteq> None \<and> usable m x))"
proof (induction rs arbitrary: b al)
  case (Cons x rs)
  show ?case
  proof (cases "match_path x path \<noteq> None \<and> usable m x")
    case True
    then have "r = x" "match_path x path = Some params" using Cons.prems by auto
    with True show ?thesis by (intro exI [of _ "[]"] exI [of _ rs]) simp
  next
    case False
    then obtain b' al' where "find_route m path rs b' al' = Inl (r, params)"
      using Cons.prems by (auto split: option.splits if_splits)
    from Cons.IH [OF this] obtain pre post where "rs = pre @ r # post" "match_path r path = Some params" "usable m r"
      "\<forall>x\<in>set pre. \<not> (match_path x path \<noteq> None \<and> usable m x)" by blast
    with False show ?thesis by (intro exI [of _ "x # pre"] exI [of _ post]) simp
  qed
qed simp

lemma find_route_Inr:
  "find_route m path rs b al = Inr (b', al') \<Longrightarrow>
   (\<forall>x\<in>set rs. \<not> (match_path x path \<noteq> None \<and> usable m x)) \<and>
   b' = (b \<or> (\<exists>x\<in>set rs. match_path x path \<noteq> None)) \<and>
   set al' = set al \<union> rt_method ` {x \<in> set rs. match_path x path \<noteq> None}"
proof (induction rs arbitrary: b al)
  case (Cons x rs)
  show ?case
  proof (cases "match_path x path")
    case None
    with Cons show ?thesis by auto
  next
    case (Some ps)
    then have u: "\<not> usable m x" "find_route m path rs True (al @ [rt_method x]) = Inr (b', al')"
      using Cons.prems by (auto split: if_splits)
    from Cons.IH [OF u(2)] u(1) Some show ?thesis by auto
  qed
qed simp

lemma sorted_remdups_adj_distinct: "sorted xs \<Longrightarrow> distinct (remdups_adj xs)"
  by (induction xs rule: remdups_adj.induct) (auto simp: less_le_not_le)

lemma allowed_list: "remdups_adj (sort al) = sorted_list_of_set (set al)" for al :: "Method list"
  by (rule sorted_distinct_set_unique) (simp_all add: sorted_remdups_adj_distinct)

text \<open>The answer depends only on which methods are allowed.\<close>

lemma not_allowed_set: "not_allowed allowed req = not_allowed (sorted_list_of_set (set allowed)) req"
  by (simp add: not_allowed_def allowed_list)

lemma find_stable:
  "find (\<lambda>x. p x \<and> f x = k) (sort_key f xs) = find (\<lambda>x. p x \<and> f x = k) xs"
proof -
  have g: "find (\<lambda>x. p x \<and> f x = k) ys = find p (filter (\<lambda>x. f x = k) ys)" for ys by (induction ys) auto
  show ?thesis unfolding g by (simp add: sort_key_stable)
qed

lemma find_append_first: "\<forall>x\<in>set pre. \<not> p x \<Longrightarrow> p r \<Longrightarrow> find p (pre @ r # post) = Some r"
  by (induction pre) auto

text \<open>
  C29: the most specific route answers.  In a finalized router, a request that some route can serve runs the route that serves
  it with the least specificity key: fewer wildcards, then more literal segments, and among equals the one that was registered first.  When
  routes match the path but none the method the answer is a 405 that allows exactly the methods of those routes, in order and each once;
  and when none matches, the fallback or a 404.
\<close>

theorem router_most_specific:
  "(\<exists>route params. find (\<lambda>x. serves req x \<and> specificity x = specificity route) (routes r) = Some route \<and>
      (\<forall>x\<in>set (routes r). serves req x \<longrightarrow> specificity route \<le> specificity x) \<and>
      match_path route (req_path req) = Some params \<and>
      dispatch error_page (finalize r) req =
        Inr (stamp_lifecycle route (run_guarded error_page
          (run_next (global_middleware r @ rt_middleware route) (rt_handler route)) (prepare route params req)))) \<or>
   (\<forall>x\<in>set (routes r). \<not> serves req x) \<and> (\<exists>x\<in>set (routes r). match_path x (req_path req) \<noteq> None) \<and>
     dispatch error_page (finalize r) req = run_next (global_middleware r) (\<lambda>_. Inr (not_allowed
       (sorted_list_of_set (rt_method ` {x \<in> set (routes r). match_path x (req_path req) \<noteq> None})) req)) req \<or>
   (\<forall>x\<in>set (routes r). match_path x (req_path req) = None) \<and>
     dispatch error_page (finalize r) req =
       run_next (global_middleware r) (case fallback r of Some h \<Rightarrow> h | None \<Rightarrow> (\<lambda>_. Inr not_found)) req"
proof (cases "find_route (req_method req) (req_path req) (routes (finalize r)) False []")
  case (Inl a)
  obtain route params where a: "a = (route, params)" by (cases a)
  obtain pre post where s: "sort_key specificity (routes r) = pre @ route # post" "match_path route (req_path req) = Some params"
    "usable (req_method req) route" "\<forall>x\<in>set pre. \<not> serves req x"
    using find_route_Inl [OF Inl [unfolded a]] by (auto simp: finalize_def serves_def)
  have first: "find (\<lambda>x. serves req x \<and> specificity x = specificity route) (routes r) = Some route"
  proof -
    have "find (\<lambda>x. serves req x \<and> specificity x = specificity route) (sort_key specificity (routes r)) = Some route"
      unfolding s(1) using s by (intro find_append_first) (auto simp: serves_def)
    then show ?thesis by (simp only: find_stable)
  qed
  have least: "specificity route \<le> specificity x" if "x \<in> set (routes r)" "serves req x" for x
  proof -
    have "x \<in> set (pre @ route # post)" using that(1) s(1) by (metis set_sort)
    then have "x = route \<or> x \<in> set post" using s(4) that(2) by auto
    moreover have "sorted (map specificity (pre @ route # post))" unfolding s(1) [symmetric] by simp
    ultimately show ?thesis by (auto simp: sorted_append)
  qed
  have "dispatch error_page (finalize r) req = Inr (stamp_lifecycle route (run_guarded error_page
          (run_next (global_middleware r @ rt_middleware route) (rt_handler route)) (prepare route params req)))"
    unfolding dispatch_def Inl a by (simp add: finalize_def)
  with first least s(2) show ?thesis by blast
next
  case (Inr a)
  obtain b allowed where a: "a = (b, allowed)" by (cases a)
  have n: "\<forall>x\<in>set (routes r). \<not> serves req x" "b = (\<exists>x\<in>set (routes r). match_path x (req_path req) \<noteq> None)"
    "set allowed = rt_method ` {x \<in> set (routes r). match_path x (req_path req) \<noteq> None}"
    using find_route_Inr [OF Inr [unfolded a]] by (auto simp: finalize_def serves_def)
  show ?thesis
  proof (cases b)
    case True
    then have "dispatch error_page (finalize r) req = run_next (global_middleware r) (\<lambda>_. Inr (not_allowed allowed req)) req"
      unfolding dispatch_def Inr a by (simp add: finalize_def)
    then have "dispatch error_page (finalize r) req = run_next (global_middleware r) (\<lambda>_. Inr (not_allowed
       (sorted_list_of_set (rt_method ` {x \<in> set (routes r). match_path x (req_path req) \<noteq> None})) req)) req"
      unfolding not_allowed_set [of allowed] n(3) .
    then show ?thesis using n(1,2) True by simp
  next
    case False
    then have "dispatch error_page (finalize r) req =
       run_next (global_middleware r) (case fallback r of Some h \<Rightarrow> h | None \<Rightarrow> (\<lambda>_. Inr not_found)) req"
      unfolding dispatch_def Inr a by (simp add: finalize_def split: option.split)
    with n False show ?thesis by auto
  qed
qed

text \<open>A literal route registered after a parameter that also matches.\<close>

definition two_routes :: Router where
  "two_routes = snd (add_route Get ''/users/new'' (\<lambda>_. Inr (new_response 201))
     (snd (add_route Get ''/users/{id}'' (\<lambda>_. Inr (new_response 200)) new_router)))"

theorem router_most_specific_witness:
  "dispatch (\<lambda>_ _. not_found) (finalize two_routes) (new_request Get ''/users/new'') = Inr (new_response 201)"
proof -
  let ?req = "new_request Get ''/users/new''"
  have j: "join_paths [] ''/users/{id}'' = ''/users/{id}''" "join_paths [] ''/users/new'' = ''/users/new''"
    by (simp_all add: join_paths_def trim_slashes_def trim_end_slashes_def)
  have p: "parse_pattern ''/users/{id}'' = [Static ''users'', Param ''id'']"
    "parse_pattern ''/users/new'' = [Static ''users'', Static ''new'']"
    by (simp_all add: parse_pattern_def split_path_def parse_segment_def strip_suffix_def)
  obtain x y where xy: "routes two_routes = [x, y]" "rt_segments x = [Static ''users'', Param ''id'']"
    "rt_segments y = [Static ''users'', Static ''new'']" "rt_method y = Get" "rt_middleware y = []"
    "rt_handler y = (\<lambda>_. Inr (new_response 201))" "rt_deprecated_at y = None" "rt_sunset y = None"
    by (simp add: two_routes_def add_route_def new_router_def Let_def j p)
  have req: "req_path ?req = ''/users/new''" "req_method ?req = Get"
    by (simp_all add: new_request_def split_target_def split_once_def)
  have sy: "serves ?req y"
    by (simp add: serves_def req match_path_def xy split_path_def usable_def)
  have sp: "specificity y < specificity x" by (simp add: specificity_def xy)
  have gm: "global_middleware two_routes = []" by (simp add: two_routes_def add_route_def new_router_def Let_def)
  from router_most_specific [of ?req two_routes "\<lambda>_ _. not_found"] sy
  obtain route params where r: "find (\<lambda>z. serves ?req z \<and> specificity z = specificity route) [x, y] = Some route"
      "specificity route \<le> specificity y"
      "dispatch (\<lambda>_ _. not_found) (finalize two_routes) ?req =
        Inr (stamp_lifecycle route (run_guarded (\<lambda>_ _. not_found)
          (run_next (global_middleware two_routes @ rt_middleware route) (rt_handler route)) (prepare route params ?req)))"
    unfolding xy(1) by (auto simp: serves_def)
  have "route = y" using r(1,2) sp by (auto split: if_splits)
  then show ?thesis unfolding r(3) by (simp add: gm xy run_guarded_def stamp_lifecycle_def)
qed

subsection \<open>Links lead back to their route\<close>

lemma split_path_slash: "split_path (CHR ''/'' # s) = split_path s"
  by (simp add: split_path_def)

lemma split_path_part:
  assumes "t \<noteq> []" and "CHR ''/'' \<notin> set t" and "p = [] \<or> (\<exists>q. p = CHR ''/'' # q)"
  shows "split_path (CHR ''/'' # t @ p) = t # split_path p"
proof (cases p)
  case Nil
  then show ?thesis using assms(1,2) by (simp add: split_path_def split_on_plain)
next
  case (Cons c q)
  with assms(3) have "c = CHR ''/''" by simp
  then show ?thesis using assms(1,2) Cons by (simp add: split_path_def split_on_append)
qed

definition segment_text :: "(string \<times> string) list \<Rightarrow> Segment \<Rightarrow> string option" where
  "segment_text params s =
     (case s of
        Static v \<Rightarrow> Some v
      | Param n \<Rightarrow> map_option url_encode (map_of params n)
      | Wildcard n \<Rightarrow> map_of params n)"

lemma fill_loop_Cons:
  "fill_loop params (s # segs) out =
     (case segment_text params s of None \<Rightarrow> None | Some t \<Rightarrow> fill_loop params segs (out @ ''/'' @ t))"
  by (cases s) (auto simp: segment_text_def split: option.split)

lemma fill_loop_out: "fill_loop params segs out = map_option (\<lambda>p. out @ p) (fill_loop params segs [])"
proof (induction segs arbitrary: out)
  case (Cons s segs)
  show ?case
  proof (cases "segment_text params s")
    case (Some t)
    show ?thesis unfolding fill_loop_Cons Some option.case Cons.IH [of "out @ ''/'' @ t"] Cons.IH [of "[] @ ''/'' @ t"]
      by (cases "fill_loop params segs []") simp_all
  qed (simp add: fill_loop_Cons)
qed simp

lemma fill_loop_start:
  assumes "fill_loop params segs [] = Some p" shows "p = [] \<or> (\<exists>q. p = CHR ''/'' # q)"
proof (cases segs)
  case (Cons s rest)
  then show ?thesis using assms fill_loop_out [of params rest "CHR ''/'' # _"]
    by (auto simp: fill_loop_Cons split: option.splits)
qed (use assms in simp)

lemma url_encode_plain: "CHR ''/'' \<notin> set (url_encode v)"
proof (induction v)
  case (Cons c v)
  have "(of_char c :: nat) div 16 < 16" using nat_of_char_less_256 [of c] by linarith
  then show ?case using Cons upper_hex_plain [of "of_char c div 16"] upper_hex_plain [of "of_char c mod 16"] unreserved_plain [of c]
    by (auto simp: url_encode_Cons)
qed (simp add: url_encode_def)

lemma url_encode_empty: "url_encode v = [] \<longleftrightarrow> v = []"
  by (cases v) (simp_all add: url_encode_Cons, simp add: url_encode_def)

text \<open>
  Values that a link can carry: a parameter is not empty, and the value of a wildcard, which is written as it is, is a path without
  empty parts and without escapes.  A wildcard comes last.
\<close>

fun fillable :: "(string \<times> string) list \<Rightarrow> Segment list \<Rightarrow> bool" where
  "fillable params [] \<longleftrightarrow> True"
| "fillable params (Static v # segs) \<longleftrightarrow> fillable params segs"
| "fillable params (Param n # segs) \<longleftrightarrow>
     (case map_of params n of Some v \<Rightarrow> v \<noteq> [] \<and> utf8_valid (utf8 v) | None \<Rightarrow> False) \<and> fillable params segs"
| "fillable params (Wildcard n # segs) \<longleftrightarrow>
     (case map_of params n of
        Some v \<Rightarrow> CHR ''%'' \<notin> set v \<and> CHR ''+'' \<notin> set v \<and> join_with ''/'' (split_path v) = v
      | None \<Rightarrow> False) \<and> segs = []"

definition captures :: "Segment list \<Rightarrow> string set" where
  "captures segs = {n. Param n \<in> set segs \<or> Wildcard n \<in> set segs}"

definition literal_ok :: "Segment \<Rightarrow> bool" where
  "literal_ok s \<longleftrightarrow> (case s of Static v \<Rightarrow> v \<noteq> [] \<and> CHR ''/'' \<notin> set v | _ \<Rightarrow> True)"

lemma parse_pattern_literals: "\<forall>s\<in>set (parse_pattern pattern). literal_ok s"
proof -
  have "literal_ok (parse_segment part)" if "part \<noteq> []" "CHR ''/'' \<notin> set part" for part
    using that by (auto simp: literal_ok_def parse_segment_def split: option.split list.split)
  then show ?thesis by (auto simp: parse_pattern_def split_path_def dest: split_on_parts)
qed

lemma match_filled:
  assumes "fillable params segs" and "\<forall>s\<in>set segs. literal_ok s"
  shows "\<exists>p m. fill_loop params segs [] = Some p \<and> match_segments segs (split_path p) acc = Some m \<and>
    (\<forall>n. map_of m n = (if n \<in> captures segs then map_of params n else map_of acc n))"
  using assms
proof (induction segs arbitrary: acc)
  case Nil
  then show ?case by (simp add: split_path_def captures_def)
next
  case (Cons s segs)
  show ?case
  proof (cases s)
    case (Static v)
    then have v: "v \<noteq> []" "CHR ''/'' \<notin> set v" using Cons.prems(2) by (auto simp: literal_ok_def)
    obtain p m where p: "fill_loop params segs [] = Some p" "match_segments segs (split_path p) acc = Some m"
      "\<forall>n. map_of m n = (if n \<in> captures segs then map_of params n else map_of acc n)"
      using Cons Static by fastforce
    have "fill_loop params (s # segs) [] = Some (CHR ''/'' # v @ p)"
      using p(1) fill_loop_out [of params segs "CHR ''/'' # v"] Static by simp
    moreover have "match_segments (s # segs) (split_path (CHR ''/'' # v @ p)) acc = Some m"
      using p(2) Static split_path_part [OF v fill_loop_start [OF p(1)]] by simp
    moreover have "captures (s # segs) = captures segs" using Static by (simp add: captures_def)
    ultimately show ?thesis using p(3) by auto
  next
    case (Param n)
    then obtain v where v: "map_of params n = Some v" "v \<noteq> []" "utf8_valid (utf8 v)"
      using Cons.prems(1) by (auto split: option.splits)
    obtain p m where p: "fill_loop params segs [] = Some p"
      "match_segments segs (split_path p) (btree_insert n v acc) = Some m"
      "\<forall>k. map_of m k = (if k \<in> captures segs then map_of params k else map_of (btree_insert n v acc) k)"
      using Cons Param by fastforce
    have e: "url_encode v \<noteq> []" "CHR ''/'' \<notin> set (url_encode v)" using v(2) by (simp_all add: url_encode_empty url_encode_plain)
    have "fill_loop params (s # segs) [] = Some (CHR ''/'' # url_encode v @ p)"
      using p(1) fill_loop_out [of params segs "CHR ''/'' # url_encode v"] Param v(1) by simp
    moreover have "match_segments (s # segs) (split_path (CHR ''/'' # url_encode v @ p)) acc = Some m"
      using p(2) Param split_path_part [OF e fill_loop_start [OF p(1)]] e(1) url_decode_encode [OF v(3)] by simp
    moreover have "map_of m k = (if k \<in> captures (s # segs) then map_of params k else map_of acc k)" for k
      using p(3) Param v(1) by (auto simp: captures_def map_of_btree_insert)
    ultimately show ?thesis by blast
  next
    case (Wildcard n)
    then obtain v where v: "map_of params n = Some v" "CHR ''%'' \<notin> set v" "CHR ''+'' \<notin> set v"
      "join_with ''/'' (split_path v) = v" "segs = []"
      using Cons.prems(1) by (auto split: option.splits)
    have "fill_loop params (s # segs) [] = Some (CHR ''/'' # v)" using Wildcard v(1,5) by simp
    moreover have "match_segments (s # segs) (split_path (CHR ''/'' # v)) acc = Some (btree_insert n v acc)"
      using Wildcard v by (simp add: split_path_slash url_decode_def)
    moreover have "map_of (btree_insert n v acc) k = (if k \<in> captures (s # segs) then map_of params k else map_of acc k)" for k
      using Wildcard v(1,5) by (auto simp: captures_def map_of_btree_insert)
    ultimately show ?thesis by blast
  qed
qed



text \<open>A wildcard is written as it is but decoded when it is matched: a value with an escape does not come back.\<close>

lemma wildcard_not_encoded:
  "fill [Wildcard ''path''] [(''path'', ''a+b'')] = Some ''/a+b'' \<and>
   match_segments [Wildcard ''path''] (split_path ''/a+b'') [] = Some [(''path'', ''a b'')]"
  by (simp add: fill_def split_path_def url_decode_def from_utf8_lossy_valid utf8_valid.simps utf8_def)

text \<open>A panic in a route becomes the error page; one in the fallback, or in middleware around a 404 or 405, escapes.\<close>

lemma route_panic_contained:
  "find_route (req_method req) (req_path req) (routes r) False [] = Inl a \<Longrightarrow> \<exists>resp. dispatch error_page r req = Inr resp"
  by (cases a) (simp add: dispatch_def)

lemma fallback_panic_escapes:
  "dispatch error_page (set_fallback (\<lambda>_. Inl ''boom'') new_router) req = Inl ''boom''"
  by (simp add: dispatch_def set_fallback_def new_router_def)

text \<open>The prefix of a group is never empty, so middleware added inside a group stays with the group.\<close>

lemma set_single_slashes: "set (single_slashes s) = set s"
  by (induction s rule: single_slashes.induct) auto

lemma trim_slashes_only:
  assumes "set (trim_slashes s) \<subseteq> {CHR ''/''}" shows "trim_slashes s = []"
proof (rule ccontr)
  let ?d = "dropWhile (\<lambda>c. c = CHR ''/'') (rev (dropWhile (\<lambda>c. c = CHR ''/'') s))"
  assume "trim_slashes s \<noteq> []"
  then have d: "?d \<noteq> []" unfolding trim_slashes_def by simp
  then have "hd ?d \<in> set (trim_slashes s)" unfolding trim_slashes_def set_rev by (rule hd_in_set)
  with assms have "hd ?d = CHR ''/''" by blast
  with hd_dropWhile [OF d] show False by blast
qed

lemma join_paths_not_empty: "join_paths prefix path \<noteq> []"
proof -
  let ?j = "''/'' @ trim_slashes prefix @ ''/'' @ trim_slashes path"
  show ?thesis
  proof (cases "length (single_slashes ?j) > 1")
    case True
    have "\<not> set (single_slashes ?j) \<subseteq> {CHR ''/''}"
    proof
      assume "set (single_slashes ?j) \<subseteq> {CHR ''/''}"
      then have "set (trim_slashes prefix) \<subseteq> {CHR ''/''}" "set (trim_slashes path) \<subseteq> {CHR ''/''}"
        by (simp_all add: set_single_slashes)
      then have "?j = ''//''" by (simp add: trim_slashes_only)
      with True show False by simp
    qed
    then have "trim_end_slashes (single_slashes ?j) \<noteq> []" by (auto simp: trim_end_slashes_def dropWhile_eq_Nil_conv)
    with True show ?thesis by (simp add: join_paths_def Let_def)
  next
    case False
    then show ?thesis by (simp add: join_paths_def Let_def)
  qed
qed

lemma group_middleware_scoped:
  "scope_prefix r = join_paths outer prefix \<Longrightarrow> global_middleware (router_middleware m r) = global_middleware r"
  by (simp add: router_middleware_def join_paths_not_empty)

end
