(* ===== verification/Dialect.thy ===== *)
theory Dialect
  imports Prelude
begin

section \<open>SQL dialects\<close>

text \<open>
  \<open>rustlavel-db/src/dialect.rs\<close>: what differs between the databases.  The trait is a record of
  its methods, an implementation is a value of the record, and the methods with a default body are
  functions of the methods that body calls.  The second half is the lexical specification the
  query and schema builders are held to: how each database cuts a statement into tokens.
\<close>

subsection \<open>The trait\<close>

datatype ColumnType =
    IdType
  | UuidId
  | SmallInteger
  | IntegerType
  | BigInteger
  | FloatType
  | Decimal nat nat
  | BooleanType
  | StringType nat
  | TextType
  | JsonType
  | UuidType
  | DateType
  | TimeType
  | Timestamp
  | Binary
  | Raw string

datatype ReturningStyle = Suffix | OutputClause | SeparateQuery string

record Dialect =
  dialect_name :: string
  quote :: "string \<Rightarrow> string"
  placeholder :: "nat \<Rightarrow> string"
  column_type :: "ColumnType \<Rightarrow> string"
  now_expression :: string
  uuid_default :: "string option"
  returning :: ReturningStyle
  limit_offset :: "int option \<Rightarrow> int option \<Rightarrow> bool \<Rightarrow> string"
  supports_if_not_exists_table :: bool
  supports_if_not_exists_index :: bool
  booleans_are_integers :: bool
  max_identifier_length :: nat
  migrations_table_sql :: "string \<Rightarrow> string"
  add_column_clause :: string
  begin_sql :: string
  commit_sql :: string
  rollback_sql :: string
  savepoint_sql :: "string \<Rightarrow> string"
  rollback_to_savepoint_sql :: "string \<Rightarrow> string"
  skip_locked :: "string \<times> string"
  current_schema_expression :: string
  list_tables_sql :: string
  disable_foreign_keys_sql :: "string option"
  enable_foreign_keys_sql :: "string option"
  drop_table_sql :: "string \<Rightarrow> string"

text \<open>The bodies the trait gives.\<close>

definition default_migrations_table_sql ::
  "(string \<Rightarrow> string) \<Rightarrow> (ColumnType \<Rightarrow> string) \<Rightarrow> string \<Rightarrow> string \<Rightarrow> string" where
  "default_migrations_table_sql q ty now_sql table =
     ''create table if not exists '' @ q table @ '' ('' @ [CHR 0x0A] @
     ''  id '' @ ty IdType @ '' primary key,'' @ [CHR 0x0A] @
     ''  name '' @ ty (StringType 255) @ '' not null unique,'' @ [CHR 0x0A] @
     ''  batch '' @ ty IntegerType @ '' not null,'' @ [CHR 0x0A] @
     ''  ran_at '' @ ty Timestamp @ '' not null default '' @ now_sql @ [CHR 0x0A] @ '')''"

definition default_savepoint_sql :: "string \<Rightarrow> string" where
  "default_savepoint_sql name = ''savepoint '' @ name"

definition default_rollback_to_savepoint_sql :: "string \<Rightarrow> string" where
  "default_rollback_to_savepoint_sql name = ''rollback to savepoint '' @ name"

definition default_drop_table_sql :: "(string \<Rightarrow> string) \<Rightarrow> string \<Rightarrow> string" where
  "default_drop_table_sql q table = ''drop table if exists '' @ q table"

subsection \<open>Identifiers\<close>

definition ascii_alphabetic :: "char \<Rightarrow> bool" where
  "ascii_alphabetic c \<longleftrightarrow> (let n = of_char c :: nat in 65 \<le> n \<and> n \<le> 90 \<or> 97 \<le> n \<and> n \<le> 122)"

definition ascii_digit :: "char \<Rightarrow> bool" where
  "ascii_digit c \<longleftrightarrow> (let n = of_char c :: nat in 48 \<le> n \<and> n \<le> 57)"

definition word_char :: "char \<Rightarrow> bool" where
  "word_char c \<longleftrightarrow> ascii_alphabetic c \<or> ascii_digit c \<or> c = CHR ''_''"

definition word_start :: "char \<Rightarrow> bool" where
  "word_start c \<longleftrightarrow> ascii_alphabetic c \<or> c = CHR ''_''"

definition valid_identifier :: "string \<Rightarrow> nat \<Rightarrow> bool" where
  "valid_identifier name max_length \<longleftrightarrow>
     name \<noteq> [] \<and> length name \<le> max_length \<and> word_start (hd name) \<and> list_all word_char name"

definition validate_identifier :: "string \<Rightarrow> nat \<Rightarrow> string + unit" where
  "validate_identifier name max_length =
     (if valid_identifier name max_length then Inr ()
      else Inl (''`'' @ name @ ''` is not a valid SQL identifier. Identifiers may contain letters, digits and '' @
                ''underscores, must not start with a digit, and must be at most '' @ show_nat max_length @ '' characters.''))"

text \<open>\<open>validate_identifier(part, ..).map(|_| dialect.quote(part))\<close>.\<close>

definition quote_checked :: "Dialect \<Rightarrow> string \<Rightarrow> string + string" where
  "quote_checked d part =
     and_then (validate_identifier part (max_identifier_length d)) (\<lambda>_. Inr (quote d part))"

definition quote_qualified :: "Dialect \<Rightarrow> string \<Rightarrow> string + string" where
  "quote_qualified d name =
     and_then (try_map (quote_checked d) (split_on CHR ''.'' name)) (\<lambda>parts. Inr (join_with ''.'' parts))"

subsection \<open>PostgreSQL\<close>

fun postgres_column_type :: "ColumnType \<Rightarrow> string" where
  "postgres_column_type IdType = ''bigserial''"
| "postgres_column_type UuidId = ''uuid''"
| "postgres_column_type UuidType = ''uuid''"
| "postgres_column_type SmallInteger = ''smallint''"
| "postgres_column_type IntegerType = ''integer''"
| "postgres_column_type BigInteger = ''bigint''"
| "postgres_column_type FloatType = ''double precision''"
| "postgres_column_type (Decimal precision scale) = ''numeric('' @ show_nat precision @ '', '' @ show_nat scale @ '')''"
| "postgres_column_type BooleanType = ''boolean''"
| "postgres_column_type (StringType n) = ''varchar('' @ show_nat n @ '')''"
| "postgres_column_type TextType = ''text''"
| "postgres_column_type JsonType = ''jsonb''"
| "postgres_column_type DateType = ''date''"
| "postgres_column_type TimeType = ''time''"
| "postgres_column_type Timestamp = ''timestamptz''"
| "postgres_column_type Binary = ''bytea''"
| "postgres_column_type (Raw sql) = sql"

definition postgres_limit_offset :: "int option \<Rightarrow> int option \<Rightarrow> bool \<Rightarrow> string" where
  "postgres_limit_offset limit offset ordered =
     (case limit of Some n \<Rightarrow> '' limit '' @ show_int (max n 0) | None \<Rightarrow> []) @
     (case offset of Some n \<Rightarrow> '' offset '' @ show_int (max n 0) | None \<Rightarrow> [])"

definition postgres_quote :: "string \<Rightarrow> string" where
  "postgres_quote identifier = [CHR 0x22] @ identifier @ [CHR 0x22]"

definition Postgres :: Dialect where
  "Postgres = \<lparr>
     dialect_name = ''postgres'',
     quote = postgres_quote,
     placeholder = (\<lambda>position. ''$'' @ show_nat position),
     column_type = postgres_column_type,
     now_expression = ''now()'',
     uuid_default = Some ''gen_random_uuid()'',
     returning = Suffix,
     limit_offset = postgres_limit_offset,
     supports_if_not_exists_table = True,
     supports_if_not_exists_index = True,
     booleans_are_integers = False,
     max_identifier_length = 63,
     migrations_table_sql = default_migrations_table_sql postgres_quote postgres_column_type ''now()'',
     add_column_clause = ''add column'',
     begin_sql = ''begin'',
     commit_sql = ''commit'',
     rollback_sql = ''rollback'',
     savepoint_sql = default_savepoint_sql,
     rollback_to_savepoint_sql = default_rollback_to_savepoint_sql,
     skip_locked = ([], '' for update skip locked''),
     current_schema_expression = ''current_schema()'',
     list_tables_sql = ''select tablename from pg_tables where schemaname = current_schema()'',
     disable_foreign_keys_sql = None,
     enable_foreign_keys_sql = None,
     drop_table_sql = (\<lambda>table. ''drop table if exists '' @ postgres_quote table @ '' cascade'')\<rparr>"

subsection \<open>SQLite\<close>

fun sqlite_column_type :: "ColumnType \<Rightarrow> string" where
  "sqlite_column_type IdType = ''integer''"
| "sqlite_column_type SmallInteger = ''integer''"
| "sqlite_column_type IntegerType = ''integer''"
| "sqlite_column_type BigInteger = ''integer''"
| "sqlite_column_type FloatType = ''real''"
| "sqlite_column_type (Decimal precision scale) = ''numeric('' @ show_nat precision @ '', '' @ show_nat scale @ '')''"
| "sqlite_column_type BooleanType = ''integer''"
| "sqlite_column_type (StringType n) = ''varchar('' @ show_nat n @ '')''"
| "sqlite_column_type TextType = ''text''"
| "sqlite_column_type JsonType = ''text''"
| "sqlite_column_type UuidId = ''text''"
| "sqlite_column_type UuidType = ''text''"
| "sqlite_column_type DateType = ''text''"
| "sqlite_column_type TimeType = ''text''"
| "sqlite_column_type Timestamp = ''text''"
| "sqlite_column_type Binary = ''blob''"
| "sqlite_column_type (Raw sql) = sql"

definition sqlite_limit_offset :: "int option \<Rightarrow> int option \<Rightarrow> bool \<Rightarrow> string" where
  "sqlite_limit_offset limit offset ordered =
     (case limit of Some n \<Rightarrow> '' limit '' @ show_int (max n 0) | None \<Rightarrow> []) @
     (case offset of
        Some n \<Rightarrow> (if limit = None then '' limit -1'' else []) @ '' offset '' @ show_int (max n 0)
      | None \<Rightarrow> [])"

definition sqlite_quote :: "string \<Rightarrow> string" where
  "sqlite_quote identifier = [CHR 0x22] @ identifier @ [CHR 0x22]"

definition Sqlite :: Dialect where
  "Sqlite = \<lparr>
     dialect_name = ''sqlite'',
     quote = sqlite_quote,
     placeholder = (\<lambda>position. ''?''),
     column_type = sqlite_column_type,
     now_expression = ''current_timestamp'',
     uuid_default = None,
     returning = SeparateQuery ''select last_insert_rowid()'',
     limit_offset = sqlite_limit_offset,
     supports_if_not_exists_table = True,
     supports_if_not_exists_index = True,
     booleans_are_integers = True,
     max_identifier_length = 63,
     migrations_table_sql = default_migrations_table_sql sqlite_quote sqlite_column_type ''current_timestamp'',
     add_column_clause = ''add column'',
     begin_sql = ''begin immediate'',
     commit_sql = ''commit'',
     rollback_sql = ''rollback'',
     savepoint_sql = default_savepoint_sql,
     rollback_to_savepoint_sql = default_rollback_to_savepoint_sql,
     skip_locked = ([], []),
     current_schema_expression = [CHR 0x27] @ ''main'' @ [CHR 0x27],
     list_tables_sql = ''select name from sqlite_master where type = '' @ [CHR 0x27] @ ''table'' @ [CHR 0x27] @
                       '' and name not like '' @ [CHR 0x27] @ ''sqlite_%'' @ [CHR 0x27],
     disable_foreign_keys_sql = Some ''pragma foreign_keys = off'',
     enable_foreign_keys_sql = Some ''pragma foreign_keys = on'',
     drop_table_sql = default_drop_table_sql sqlite_quote\<rparr>"

subsection \<open>MySQL\<close>

fun mysql_column_type :: "ColumnType \<Rightarrow> string" where
  "mysql_column_type IdType = ''bigint not null auto_increment''"
| "mysql_column_type UuidId = ''char(36)''"
| "mysql_column_type UuidType = ''char(36)''"
| "mysql_column_type SmallInteger = ''smallint''"
| "mysql_column_type IntegerType = ''int''"
| "mysql_column_type BigInteger = ''bigint''"
| "mysql_column_type FloatType = ''double''"
| "mysql_column_type (Decimal precision scale) = ''decimal('' @ show_nat precision @ '', '' @ show_nat scale @ '')''"
| "mysql_column_type BooleanType = ''tinyint(1)''"
| "mysql_column_type (StringType n) = ''varchar('' @ show_nat n @ '')''"
| "mysql_column_type TextType = ''text''"
| "mysql_column_type JsonType = ''json''"
| "mysql_column_type DateType = ''date''"
| "mysql_column_type TimeType = ''time''"
| "mysql_column_type Timestamp = ''datetime(6)''"
| "mysql_column_type Binary = ''longblob''"
| "mysql_column_type (Raw sql) = sql"

definition mysql_limit_offset :: "int option \<Rightarrow> int option \<Rightarrow> bool \<Rightarrow> string" where
  "mysql_limit_offset limit offset ordered =
     (case (limit, offset) of
        (None, Some n) \<Rightarrow> '' limit 18446744073709551615 offset '' @ show_int (max n 0)
      | (Some m, off) \<Rightarrow>
          '' limit '' @ show_int (max m 0) @
          (case off of Some n \<Rightarrow> '' offset '' @ show_int (max n 0) | None \<Rightarrow> [])
      | (None, None) \<Rightarrow> [])"

definition mysql_quote :: "string \<Rightarrow> string" where
  "mysql_quote identifier = [CHR 0x60] @ identifier @ [CHR 0x60]"

definition MySql :: Dialect where
  "MySql = \<lparr>
     dialect_name = ''mysql'',
     quote = mysql_quote,
     placeholder = (\<lambda>position. ''?''),
     column_type = mysql_column_type,
     now_expression = ''current_timestamp(6)'',
     uuid_default = None,
     returning = SeparateQuery ''select last_insert_id()'',
     limit_offset = mysql_limit_offset,
     supports_if_not_exists_table = True,
     supports_if_not_exists_index = False,
     booleans_are_integers = True,
     max_identifier_length = 64,
     migrations_table_sql = default_migrations_table_sql mysql_quote mysql_column_type ''current_timestamp(6)'',
     add_column_clause = ''add column'',
     begin_sql = ''begin'',
     commit_sql = ''commit'',
     rollback_sql = ''rollback'',
     savepoint_sql = default_savepoint_sql,
     rollback_to_savepoint_sql = default_rollback_to_savepoint_sql,
     skip_locked = ([], '' for update skip locked''),
     current_schema_expression = ''database()'',
     list_tables_sql = ''select table_name from information_schema.tables '' @
                       ''where table_schema = database() and table_type = '' @ [CHR 0x27] @ ''BASE TABLE'' @ [CHR 0x27],
     disable_foreign_keys_sql = Some ''set foreign_key_checks = 0'',
     enable_foreign_keys_sql = Some ''set foreign_key_checks = 1'',
     drop_table_sql = default_drop_table_sql mysql_quote\<rparr>"

subsection \<open>SQL Server\<close>

fun sqlserver_column_type :: "ColumnType \<Rightarrow> string" where
  "sqlserver_column_type IdType = ''bigint identity(1,1)''"
| "sqlserver_column_type UuidId = ''uniqueidentifier''"
| "sqlserver_column_type UuidType = ''uniqueidentifier''"
| "sqlserver_column_type SmallInteger = ''smallint''"
| "sqlserver_column_type IntegerType = ''int''"
| "sqlserver_column_type BigInteger = ''bigint''"
| "sqlserver_column_type FloatType = ''float''"
| "sqlserver_column_type (Decimal precision scale) = ''decimal('' @ show_nat precision @ '', '' @ show_nat scale @ '')''"
| "sqlserver_column_type BooleanType = ''bit''"
| "sqlserver_column_type (StringType n) = ''nvarchar('' @ show_nat n @ '')''"
| "sqlserver_column_type TextType = ''nvarchar(max)''"
| "sqlserver_column_type JsonType = ''nvarchar(max)''"
| "sqlserver_column_type DateType = ''date''"
| "sqlserver_column_type TimeType = ''time''"
| "sqlserver_column_type Timestamp = ''datetime2''"
| "sqlserver_column_type Binary = ''varbinary(max)''"
| "sqlserver_column_type (Raw sql) = sql"

definition sqlserver_limit_offset :: "int option \<Rightarrow> int option \<Rightarrow> bool \<Rightarrow> string" where
  "sqlserver_limit_offset limit offset ordered =
     (if limit = None \<and> offset = None then []
      else (if ordered then [] else '' order by (select null)'') @
           '' offset '' @ show_int (max (case offset of Some n \<Rightarrow> n | None \<Rightarrow> 0) 0) @ '' rows'' @
           (case limit of Some n \<Rightarrow> '' fetch next '' @ show_int (max n 0) @ '' rows only'' | None \<Rightarrow> []))"

definition sqlserver_quote :: "string \<Rightarrow> string" where
  "sqlserver_quote identifier = ''['' @ identifier @ '']''"

definition sqlserver_migrations_table_sql :: "string \<Rightarrow> string" where
  "sqlserver_migrations_table_sql table =
     ''if object_id('' @ [CHR 0x27] @ table @ [CHR 0x27] @ '', '' @ [CHR 0x27] @ ''U'' @ [CHR 0x27] @
     '') is null create table '' @ sqlserver_quote table @ '' ('' @ [CHR 0x0A] @
     ''  [id] bigint identity(1,1) primary key,'' @ [CHR 0x0A] @
     ''  [name] nvarchar(255) not null unique,'' @ [CHR 0x0A] @
     ''  [batch] int not null,'' @ [CHR 0x0A] @
     ''  [ran_at] datetime2 not null default sysutcdatetime()'' @ [CHR 0x0A] @ '')''"

definition SqlServer :: Dialect where
  "SqlServer = \<lparr>
     dialect_name = ''sqlserver'',
     quote = sqlserver_quote,
     placeholder = (\<lambda>position. ''@P'' @ show_nat position),
     column_type = sqlserver_column_type,
     now_expression = ''sysutcdatetime()'',
     uuid_default = Some ''newid()'',
     returning = OutputClause,
     limit_offset = sqlserver_limit_offset,
     supports_if_not_exists_table = False,
     supports_if_not_exists_index = False,
     booleans_are_integers = True,
     max_identifier_length = 128,
     migrations_table_sql = sqlserver_migrations_table_sql,
     add_column_clause = ''add'',
     begin_sql = ''begin transaction'',
     commit_sql = ''commit transaction'',
     rollback_sql = ''rollback transaction'',
     savepoint_sql = (\<lambda>name. ''save transaction '' @ name),
     rollback_to_savepoint_sql = (\<lambda>name. ''rollback transaction '' @ name),
     skip_locked = ('' with (updlock, readpast, rowlock)'', []),
     current_schema_expression = ''schema_name()'',
     list_tables_sql = ''select t.name from sys.tables t '' @
                       ''where t.is_ms_shipped = 0 and schema_name(t.schema_id) = schema_name()'',
     disable_foreign_keys_sql = Some (''exec sp_MSforeachtable '' @ [CHR 0x27] @ ''alter table ? nocheck constraint all'' @ [CHR 0x27]),
     enable_foreign_keys_sql = Some (''exec sp_MSforeachtable '' @ [CHR 0x27] @ ''alter table ? with check check constraint all'' @ [CHR 0x27]),
     drop_table_sql = default_drop_table_sql sqlserver_quote\<rparr>"

definition by_name :: "string \<Rightarrow> string + Dialect" where
  "by_name name =
     (let other = ascii_lowercase name in
      if other \<in> {''postgres'', ''postgresql'', ''pgsql''} then Inr Postgres
      else if other \<in> {''mysql'', ''mariadb''} then Inr MySql
      else if other \<in> {''sqlserver'', ''mssql''} then Inr SqlServer
      else Inl (''`'' @ other @ ''` is not a database this framework speaks. Available: postgres, mysql, sqlserver.''))"

end
