(* ===== verification/SqlLex.thy ===== *)
theory SqlLex
  imports Dialect
begin

section \<open>How a database reads a statement\<close>

text \<open>
  The specification that the builders are held to: a lexer for SQL text, with the three points in
  which the databases differ as its parameter, namely the brackets of a quoted name and the form of
  a parameter marker.  It refuses what could start a literal, a comment or a second statement.  The
  locale \<open>sql_dialect\<close> states what a builder needs from a dialect: that its quoting, markers and paging
  clause are read as such.  All four dialects are interpretations.
\<close>

subsection \<open>Tokens\<close>

datatype token =
    TWord string
  | TName string
  | TSlot nat
  | TMark
  | TNumber string
  | TOp string
  | TPunct char

datatype markers = Numbered string | Positional

record lexicon =
  open_quote :: char
  close_quote :: char
  marker_style :: markers

definition slot :: "lexicon \<Rightarrow> nat \<Rightarrow> token" where
  "slot L n = (case marker_style L of Numbered p \<Rightarrow> TSlot n | Positional \<Rightarrow> TMark)"

definition marks :: "token list \<Rightarrow> token list" where
  "marks ts = filter (\<lambda>t. case t of TMark \<Rightarrow> True | TSlot n \<Rightarrow> True | _ \<Rightarrow> False) ts"

definition op_char :: "lexicon \<Rightarrow> char \<Rightarrow> bool" where
  "op_char L c \<longleftrightarrow> c \<in> {CHR ''='', CHR ''!'', CHR ''<'', CHR ''>'', CHR ''@''} \<or> c = CHR ''?'' \<and> marker_style L \<noteq> Positional"

definition digits_value :: "string \<Rightarrow> nat" where
  "digits_value s = foldl (\<lambda>a c. a * 10 + (of_char c - 48)) 0 s"

text \<open>The token at the front, if the character starts one, and what is left.\<close>

definition lex_name :: "lexicon \<Rightarrow> string \<Rightarrow> (token option \<times> string) option" where
  "lex_name L s =
     (case dropWhile (\<lambda>c. c \<noteq> close_quote L) s of
        [] \<Rightarrow> None
      | _ # r \<Rightarrow>
          if r \<noteq> [] \<and> hd r = close_quote L then None
          else Some (Some (TName (takeWhile (\<lambda>c. c \<noteq> close_quote L) s)), r))"

definition lex_marker :: "lexicon \<Rightarrow> char \<Rightarrow> string \<Rightarrow> (token option \<times> string) option" where
  "lex_marker L c s =
     (case marker_style L of
        Positional \<Rightarrow> if c = CHR ''?'' then Some (Some TMark, s) else None
      | Numbered p \<Rightarrow>
          (case strip_prefix p (c # s) of
             Some r \<Rightarrow>
               if r \<noteq> [] \<and> ascii_digit (hd r)
               then Some (Some (TSlot (digits_value (takeWhile ascii_digit r))), dropWhile ascii_digit r)
               else None
           | None \<Rightarrow> None))"

definition lex_op :: "lexicon \<Rightarrow> char \<Rightarrow> string \<Rightarrow> token option \<times> string" where
  "lex_op L c s = (Some (TOp (c # takeWhile (op_char L) s)), dropWhile (op_char L) s)"

definition lex_step :: "lexicon \<Rightarrow> char \<Rightarrow> string \<Rightarrow> (token option \<times> string) option" where
  "lex_step L c s =
     (if c = CHR '' '' \<or> c = CHR 0x0A then Some (None, s)
      else if word_start c then Some (Some (TWord (c # takeWhile word_char s)), dropWhile word_char s)
      else if ascii_digit c then Some (Some (TNumber (c # takeWhile ascii_digit s)), dropWhile ascii_digit s)
      else if c \<in> {CHR ''('', CHR '')'', CHR '','', CHR ''.'', CHR ''*''} then Some (Some (TPunct c), s)
      else if c \<in> {CHR ''='', CHR ''!'', CHR ''<'', CHR ''>''} then Some (lex_op L c s)
      else if c = CHR ''-'' then (if s \<noteq> [] \<and> hd s = CHR ''-'' then None else Some (Some (TOp ''-''), s))
      else if c = open_quote L then lex_name L s
      else case lex_marker L c s of
        Some m \<Rightarrow> Some m
      | None \<Rightarrow> if op_char L c then Some (lex_op L c s) else None)"

lemma lex_step_shorter: "lex_step L c s = Some (t, r) \<Longrightarrow> length r \<le> length s"
proof -
  have dw: "length (dropWhile p x) \<le> length x" for p and x :: string by (rule length_dropWhile_le)
  have nm: "lex_name L s = Some (t, r) \<Longrightarrow> length r \<le> length s"
    using dw [of "\<lambda>c. c \<noteq> close_quote L" s] by (auto simp: lex_name_def split: list.splits if_splits)
  have mk: "lex_marker L c s = Some (t, r) \<Longrightarrow> length r \<le> length s"
  proof (cases "marker_style L")
    case (Numbered p)
    assume "lex_marker L c s = Some (t, r)"
    with Numbered obtain u where u: "strip_prefix p (c # s) = Some u" "u \<noteq> []" "ascii_digit (hd u)" "r = dropWhile ascii_digit u"
      by (auto simp: lex_marker_def split: option.splits if_splits)
    from u(2,3,4) have "length r < length u"
      using dw [of ascii_digit "tl u"] by (cases u) auto
    moreover have "length u \<le> Suc (length s)"
      using u(1) by (auto simp: strip_prefix_Some) (metis length_Cons length_append le_add2)
    ultimately show ?thesis by simp
  qed (auto simp: lex_marker_def split: if_splits)
  assume "lex_step L c s = Some (t, r)"
  then show ?thesis
    using dw [of word_char s] dw [of ascii_digit s] dw [of "op_char L" s] nm mk
    by (auto simp: lex_step_def lex_op_def split: if_splits option.splits)
qed

function lex_sql :: "lexicon \<Rightarrow> string \<Rightarrow> token list option" where
  "lex_sql L [] = Some []"
| "lex_sql L (c # s) =
     (case lex_step L c s of
        None \<Rightarrow> None
      | Some (t, r) \<Rightarrow> map_option (\<lambda>ts. case t of None \<Rightarrow> ts | Some x \<Rightarrow> x # ts) (lex_sql L r))"
  by pat_completeness auto
termination
  by (relation "measure (\<lambda>(L, s). length s)") (auto dest: lex_step_shorter)

subsection \<open>Pieces of text\<close>

text \<open>
  A piece lexes to its tokens when whatever comes after it, if it starts with a space, a comma, a
  closing parenthesis, a point or a line end, is lexed on its own.
\<close>

definition boundary :: "string \<Rightarrow> bool" where
  "boundary r \<longleftrightarrow> r = [] \<or> hd r \<in> {CHR '' '', CHR '','', CHR '')'', CHR ''.'', CHR 0x0A}"

lemma boundary_simps [simp]:
  "boundary []" "boundary (CHR '' '' # r)" "boundary (CHR '','' # r)" "boundary (CHR '')'' # r)"
  "boundary (CHR ''.'' # r)" "boundary (CHR 0x0A # r)"
  by (simp_all add: boundary_def)

definition lexes :: "lexicon \<Rightarrow> string \<Rightarrow> token list \<Rightarrow> bool" where
  "lexes L x ts \<longleftrightarrow> (\<forall>r. boundary r \<longrightarrow> lex_sql L (x @ r) = map_option (\<lambda>us. ts @ us) (lex_sql L r))"

lemma lexesD: "lexes L x ts \<Longrightarrow> boundary r \<Longrightarrow> lex_sql L (x @ r) = map_option (\<lambda>us. ts @ us) (lex_sql L r)"
  by (simp add: lexes_def)

lemma lexes_all: "lexes L x ts \<Longrightarrow> lex_sql L x = Some ts"
  using lexesD [of L x ts "[]"] by simp

lemma lexes_Nil [simp]: "lexes L [] []"
  by (simp add: lexes_def option.map_id0 id_def [symmetric])

lemma lexes_append:
  assumes "lexes L x ts" and "lexes L y us" and "boundary y"
  shows "lexes L (x @ y) (ts @ us)"
proof -
  have "lex_sql L ((x @ y) @ r) = map_option (\<lambda>vs. (ts @ us) @ vs) (lex_sql L r)" if "boundary r" for r
  proof -
    have "boundary (y @ r)" using assms(3) that by (cases y) (auto simp: boundary_def)
    then show ?thesis
      using lexesD [OF assms(1), of "y @ r"] lexesD [OF assms(2) that] by (simp add: option.map_comp o_def)
  qed
  then show ?thesis by (simp add: lexes_def)
qed

lemma boundary_append: "boundary x \<Longrightarrow> x \<noteq> [] \<or> boundary y \<Longrightarrow> boundary (x @ y)"
  by (cases x) (auto simp: boundary_def)

text \<open>Evaluating the lexer on the characters of a literal.\<close>

lemmas lex_char = lex_step_def lex_op_def op_char_def word_char_def word_start_def ascii_alphabetic_def ascii_digit_def

lemma word_char_stop [simp]:
  "boundary r \<Longrightarrow> takeWhile word_char r = []" "boundary r \<Longrightarrow> dropWhile word_char r = r"
  by (cases r; auto simp: boundary_def word_char_def ascii_alphabetic_def ascii_digit_def)+

lemma digit_stop [simp]:
  "boundary r \<Longrightarrow> takeWhile ascii_digit r = []" "boundary r \<Longrightarrow> dropWhile ascii_digit r = r"
  by (cases r; auto simp: boundary_def ascii_digit_def)+

lemma op_stop [simp]:
  "boundary r \<Longrightarrow> takeWhile (op_char L) r = []" "boundary r \<Longrightarrow> dropWhile (op_char L) r = r"
  by (cases r; auto simp: boundary_def op_char_def)+

lemma takeWhile_all_append: "list_all p x \<Longrightarrow> takeWhile p (x @ r) = x @ takeWhile p r \<and> dropWhile p (x @ r) = dropWhile p r"
  by (induction x) auto

lemma lexes_word:
  assumes "word_start c" and "list_all word_char x"
  shows "lexes L (c # x) [TWord (c # x)]"
proof -
  have "c \<noteq> CHR '' ''" "c \<noteq> CHR 0x0A" using assms(1) by (auto simp: word_start_def ascii_alphabetic_def)
  then show ?thesis using assms takeWhile_all_append [OF assms(2)] by (auto simp: lexes_def lex_step_def)
qed

lemma digit_not_word: "ascii_digit c \<Longrightarrow> \<not> word_start c \<and> c \<noteq> CHR '' '' \<and> c \<noteq> CHR 0x0A"
  by (auto simp: word_start_def ascii_alphabetic_def ascii_digit_def Let_def)

lemma show_nat_ascii: "list_all ascii_digit (show_nat n)"
proof (induction n rule: show_nat.induct)
  case (1 n)
  have d: "m < 10 \<Longrightarrow> ascii_digit (digit_char m)" for m by (simp add: ascii_digit_def of_digit_char)
  show ?case
  proof (cases "n < 10")
    case True
    with d show ?thesis by (simp add: show_nat.simps [of n])
  next
    case False
    with 1 d show ?thesis by (simp add: show_nat.simps [of n])
  qed
qed

lemma show_nat_Cons: "\<exists>c x. show_nat n = c # x"
  by (cases "show_nat n") (simp_all add: show_nat.simps [of n] split: if_splits)

lemma lexes_number: "lexes L (show_nat n) [TNumber (show_nat n)]"
proof -
  obtain c x where x: "show_nat n = c # x" using show_nat_Cons by blast
  then have "ascii_digit c" "list_all ascii_digit x" using show_nat_ascii [of n] by simp_all
  then show ?thesis using digit_not_word [of c] takeWhile_all_append [of ascii_digit x] by (auto simp: lexes_def lex_step_def x)
qed

text \<open>Lists with a separator, as text and as tokens.\<close>

fun sep_tokens :: "token list \<Rightarrow> token list list \<Rightarrow> token list" where
  "sep_tokens sep [] = []"
| "sep_tokens sep [x] = x"
| "sep_tokens sep (x # y # ys) = x @ sep @ sep_tokens sep (y # ys)"

lemma lexes_join:
  assumes "list_all2 (lexes L) xs tss"
  shows "lexes L (join_with '', '' xs) (sep_tokens [TPunct CHR '',''] tss)"
  using assms
proof (induction "'', '' :: string" xs arbitrary: tss rule: join_with.induct)
  case (3 x y ys)
  then obtain t u us where tss: "tss = t # u # us" "lexes L x t" "list_all2 (lexes L) (y # ys) (u # us)"
    by (auto simp: list_all2_Cons1)
  have "lexes L ('', '' @ join_with '', '' (y # ys)) (TPunct CHR '','' # sep_tokens [TPunct CHR '',''] (u # us))"
    using "3.hyps" [OF tss(3)] by (auto simp: lexes_def lex_char option.map_comp o_def)
  with tss(2) show ?case using lexes_append by (fastforce simp: tss(1))
qed (auto simp: list_all2_Cons1)

lemma lexes_concat:
  assumes "list_all2 (lexes L) xs tss" and "\<forall>x\<in>set xs. boundary x"
  shows "lexes L (concat xs) (concat tss) \<and> boundary (concat xs)"
  using assms
proof (induction rule: list_all2_induct)
  case (Cons x xs ts tss)
  then show ?case using lexes_append [of L x ts "concat xs" "concat tss"] boundary_append [of x "concat xs"] by auto
qed simp

subsection \<open>What a builder needs from a dialect\<close>

definition name_tokens :: "string \<Rightarrow> token list" where
  "name_tokens x = sep_tokens [TPunct CHR ''.''] (map (\<lambda>p. [TName p]) (split_on CHR ''.'' x))"

lemma lexes_join_point:
  assumes "list_all2 (lexes L) xs tss"
  shows "lexes L (join_with ''.'' xs) (sep_tokens [TPunct CHR ''.''] tss)"
  using assms
proof (induction "''.'' :: string" xs arbitrary: tss rule: join_with.induct)
  case (3 x y ys)
  then obtain t u us where tss: "tss = t # u # us" "lexes L x t" "list_all2 (lexes L) (y # ys) (u # us)"
    by (auto simp: list_all2_Cons1)
  have "lexes L (''.'' @ join_with ''.'' (y # ys)) (TPunct CHR ''.'' # sep_tokens [TPunct CHR ''.''] (u # us))"
    using "3.hyps" [OF tss(3)] by (auto simp: lexes_def lex_char option.map_comp o_def)
  with tss(2) show ?case using lexes_append by (fastforce simp: tss(1))
qed (auto simp: list_all2_Cons1)

locale sql_dialect =
  fixes d :: Dialect
    and L :: lexicon
    and paging :: "int option \<Rightarrow> int option \<Rightarrow> bool \<Rightarrow> token list"
  assumes bracket: "open_quote L \<notin> {CHR ''@'', CHR ''?''}"
    and marker: "marker_style L \<in> {Positional, Numbered ''$'', Numbered ''@P''}"
    and quoting: "valid_identifier x n \<Longrightarrow> lexes L (quote d x) [TName x]"
    and marking: "lexes L (placeholder d n) [slot L n]"
    and paged: "lexes L (limit_offset d l off ordered) (paging l off ordered)"
    and paged_boundary: "boundary (limit_offset d l off ordered)"
    and paged_unmarked: "marks (paging l off ordered) = []"
begin

lemma checked_lexes: "quote_checked d x = Inr t \<Longrightarrow> lexes L t [TName x]"
  by (auto simp: quote_checked_def validate_identifier_def and_then_Inr_iff split: if_splits intro: quoting)

lemma qualified_lexes:
  assumes "quote_qualified d x = Inr t"
  shows "lexes L t (name_tokens x)"
proof -
  obtain parts where p: "list_all2 (\<lambda>a b. quote_checked d a = Inr b) (split_on CHR ''.'' x) parts" "t = join_with ''.'' parts"
    using assms by (auto simp: quote_qualified_def and_then_Inr_iff try_map_Inr)
  have "list_all2 (lexes L) parts (map (\<lambda>p. [TName p]) (split_on CHR ''.'' x))"
    using p(1) by (auto simp: list_all2_conv_all_nth intro: checked_lexes)
  then show ?thesis unfolding name_tokens_def p(2) by (rule lexes_join_point)
qed

end

text \<open>A quoted name and a marker, in the forms the dialects use.\<close>

lemma lexes_quoted:
  assumes "close_quote L \<notin> set x" and "\<not> word_char (close_quote L)" and "\<not> boundary [close_quote L]"
    and "open_quote L \<in> {CHR 0x22, CHR 0x60, CHR ''[''}"
  shows "lexes L (open_quote L # x @ [close_quote L]) [TName x]"
proof -
  have step: "lex_step L (open_quote L) s = lex_name L s" for s
    using assms(4) by (auto simp: lex_char)
  have "takeWhile (\<lambda>c. c \<noteq> close_quote L) (x @ close_quote L # r) = x" "dropWhile (\<lambda>c. c \<noteq> close_quote L) (x @ close_quote L # r) = close_quote L # r" for r
    using assms(1) by (induction x) auto
  moreover have "r \<noteq> [] \<Longrightarrow> boundary r \<Longrightarrow> hd r \<noteq> close_quote L" for r
    using assms(3) by (cases r) (auto simp: boundary_def)
  ultimately show ?thesis by (auto simp: lexes_def step lex_name_def)
qed

lemma lexes_slot:
  assumes "marker_style L = Numbered p" and "p \<in> {''$'', ''@P''}" and "open_quote L \<notin> set p"
  shows "lexes L (p @ show_nat n) [TSlot n]"
proof -
  obtain c x where x: "show_nat n = c # x" using show_nat_Cons by blast
  have dig: "ascii_digit c" "list_all ascii_digit x" using show_nat_ascii [of n] x by simp_all
  have v: "digits_value (c # x) = n" using show_nat_val [of n] x by (simp add: digits_value_def)
  have r: "boundary r \<Longrightarrow> takeWhile ascii_digit (c # x @ r) = c # x \<and> dropWhile ascii_digit (c # x @ r) = r" for r
    using dig takeWhile_all_append [of ascii_digit "c # x" r] by simp
  have "boundary r \<Longrightarrow> lex_sql L (p @ show_nat n @ r) = map_option (\<lambda>us. TSlot n # us) (lex_sql L r)" for r
    using assms dig(1) r [of r] v by (auto simp: x lex_step_def lex_marker_def strip_prefix_def word_start_def ascii_alphabetic_def ascii_digit_def)
  then show ?thesis by (simp add: lexes_def)
qed

lemma lexes_mark:
  assumes "marker_style L = Positional" and "open_quote L \<noteq> CHR ''?''"
  shows "lexes L ''?'' [TMark]"
  using assms by (auto simp: lexes_def lex_step_def lex_marker_def word_start_def ascii_alphabetic_def ascii_digit_def)

subsection \<open>The four dialects\<close>

abbreviation "counted n \<equiv> TNumber (show_nat (nat n))"

definition limit_tokens :: "int option \<Rightarrow> token list" where
  "limit_tokens l = (case l of Some n \<Rightarrow> [TWord ''limit'', counted n] | None \<Rightarrow> [])"

definition offset_tokens :: "int option \<Rightarrow> token list" where
  "offset_tokens off = (case off of Some n \<Rightarrow> [TWord ''offset'', counted n] | None \<Rightarrow> [])"

definition postgres_paging :: "int option \<Rightarrow> int option \<Rightarrow> bool \<Rightarrow> token list" where
  "postgres_paging l off ordered = limit_tokens l @ offset_tokens off"

definition sqlite_paging :: "int option \<Rightarrow> int option \<Rightarrow> bool \<Rightarrow> token list" where
  "sqlite_paging l off ordered =
     (if l = None \<and> off \<noteq> None then [TWord ''limit'', TOp ''-'', TNumber ''1''] else limit_tokens l) @ offset_tokens off"

definition mysql_paging :: "int option \<Rightarrow> int option \<Rightarrow> bool \<Rightarrow> token list" where
  "mysql_paging l off ordered =
     (if l = None \<and> off \<noteq> None then [TWord ''limit'', TNumber ''18446744073709551615''] else limit_tokens l) @ offset_tokens off"

definition sqlserver_paging :: "int option \<Rightarrow> int option \<Rightarrow> bool \<Rightarrow> token list" where
  "sqlserver_paging l off ordered =
     (if l = None \<and> off = None then []
      else (if ordered then []
            else [TWord ''order'', TWord ''by'', TPunct CHR ''('', TWord ''select'', TWord ''null'', TPunct CHR '')'']) @
           [TWord ''offset'', counted (case off of Some n \<Rightarrow> n | None \<Rightarrow> 0), TWord ''rows''] @
           (case l of Some n \<Rightarrow> [TWord ''fetch'', TWord ''next'', counted n, TWord ''rows'', TWord ''only''] | None \<Rightarrow> []))"

definition postgres_lexicon :: lexicon where
  "postgres_lexicon = \<lparr>open_quote = CHR 0x22, close_quote = CHR 0x22, marker_style = Numbered ''$''\<rparr>"

definition sqlite_lexicon :: lexicon where
  "sqlite_lexicon = \<lparr>open_quote = CHR 0x22, close_quote = CHR 0x22, marker_style = Positional\<rparr>"

definition mysql_lexicon :: lexicon where
  "mysql_lexicon = \<lparr>open_quote = CHR 0x60, close_quote = CHR 0x60, marker_style = Positional\<rparr>"

definition sqlserver_lexicon :: lexicon where
  "sqlserver_lexicon = \<lparr>open_quote = CHR ''['', close_quote = CHR '']'', marker_style = Numbered ''@P''\<rparr>"

lemmas lexicon_defs = postgres_lexicon_def sqlite_lexicon_def mysql_lexicon_def sqlserver_lexicon_def

lemmas quote_defs = postgres_quote_def sqlite_quote_def mysql_quote_def sqlserver_quote_def

lemmas paging_defs = postgres_paging_def sqlite_paging_def mysql_paging_def sqlserver_paging_def
  limit_tokens_def offset_tokens_def

lemmas limit_offset_defs = postgres_limit_offset_def sqlite_limit_offset_def mysql_limit_offset_def sqlserver_limit_offset_def

lemma show_int_max: "show_int (max n 0) = show_nat (nat n)"
  by (cases "0 \<le> n") (simp_all add: show_int_def max_def)

lemma valid_no_quote: "valid_identifier x n \<Longrightarrow> \<not> word_char c \<Longrightarrow> c \<notin> set x"
  by (auto simp: valid_identifier_def list_all_iff)

lemma not_word_quotes: "\<not> word_char CHR 0x22" "\<not> word_char CHR 0x60" "\<not> word_char CHR '']''"
  by (simp_all add: word_char_def ascii_alphabetic_def ascii_digit_def)

lemma lexes_literals:
  "lexes L ('' limit '' @ show_nat n) [TWord ''limit'', TNumber (show_nat n)]"
  "lexes L ('' offset '' @ show_nat n) [TWord ''offset'', TNumber (show_nat n)]"
  "lexes L '' limit -1'' [TWord ''limit'', TOp ''-'', TNumber ''1'']"
  "lexes L '' limit 18446744073709551615'' [TWord ''limit'', TNumber ''18446744073709551615'']"
  using lexesD [OF lexes_number, of _ L n] by (auto simp: lexes_def lex_char option.map_comp o_def)

lemma lexes_limit:
  "lexes L (case l of Some n \<Rightarrow> '' limit '' @ show_int (max n 0) | None \<Rightarrow> []) (limit_tokens l)"
  "lexes L (case off of Some n \<Rightarrow> '' offset '' @ show_int (max n 0) | None \<Rightarrow> []) (offset_tokens off)"
  by (auto simp: limit_tokens_def offset_tokens_def show_int_max lexes_literals simp del: append_Cons split: option.splits)

lemma boundary_limit:
  "boundary (case l of Some n \<Rightarrow> '' limit '' @ show_int (max n 0) | None \<Rightarrow> [])"
  "boundary (case off of Some n \<Rightarrow> '' offset '' @ show_int (max n 0) | None \<Rightarrow> [])"
  by (auto split: option.splits)

lemma postgres_paged: "lexes L (postgres_limit_offset l off ordered) (postgres_paging l off ordered)"
  unfolding postgres_limit_offset_def postgres_paging_def by (intro lexes_append lexes_limit boundary_limit)

lemma sqlite_paged: "lexes L (sqlite_limit_offset l off ordered) (sqlite_paging l off ordered)"
proof (cases "l = None \<and> off \<noteq> None")
  case True
  then obtain n where "l = None" "off = Some n" by auto
  then show ?thesis
    using lexes_append [OF lexes_literals(3) [of L] lexes_literals(2) [of L "nat n"]]
    by (simp add: sqlite_limit_offset_def sqlite_paging_def offset_tokens_def show_int_max)
next
  case False
  then have "sqlite_limit_offset l off ordered = postgres_limit_offset l off ordered"
    by (auto simp: limit_offset_defs split: option.splits)
  then show ?thesis using postgres_paged [of L l off ordered] False by (auto simp: sqlite_paging_def postgres_paging_def)
qed

lemma mysql_paged: "lexes L (mysql_limit_offset l off ordered) (mysql_paging l off ordered)"
proof (cases "l = None \<and> off \<noteq> None")
  case True
  then obtain n where "l = None" "off = Some n" by auto
  then show ?thesis
    using lexes_append [OF lexes_literals(4) [of L] lexes_literals(2) [of L "nat n"]]
    by (simp add: mysql_limit_offset_def mysql_paging_def offset_tokens_def show_int_max)
next
  case False
  then have "mysql_limit_offset l off ordered = postgres_limit_offset l off ordered"
    by (cases l; cases off) (auto simp: limit_offset_defs)
  then show ?thesis using postgres_paged [of L l off ordered] False by (auto simp: mysql_paging_def postgres_paging_def)
qed

lemma sqlserver_pieces:
  "lexes L ('' offset '' @ show_nat n @ '' rows'') [TWord ''offset'', TNumber (show_nat n), TWord ''rows'']"
  "lexes L ('' fetch next '' @ show_nat n @ '' rows only'') [TWord ''fetch'', TWord ''next'', TNumber (show_nat n), TWord ''rows'', TWord ''only'']"
  "lexes L '' order by (select null)'' [TWord ''order'', TWord ''by'', TPunct CHR ''('', TWord ''select'', TWord ''null'', TPunct CHR '')'']"
  using lexesD [OF lexes_number, of _ L n] by (auto simp: lexes_def lex_char option.map_comp o_def)

lemma sqlserver_paged: "lexes L (sqlserver_limit_offset l off ordered) (sqlserver_paging l off ordered)"
proof (cases "l = None \<and> off = None")
  case False
  define n where "n = nat (case off of Some n \<Rightarrow> n | None \<Rightarrow> 0)"
  have fetch: "lexes L (case l of Some n \<Rightarrow> '' fetch next '' @ show_int (max n 0) @ '' rows only'' | None \<Rightarrow> [])
      (case l of Some n \<Rightarrow> [TWord ''fetch'', TWord ''next'', counted n, TWord ''rows'', TWord ''only''] | None \<Rightarrow> [])"
    by (auto simp: show_int_max sqlserver_pieces simp del: append_Cons split: option.splits)
  have b: "boundary (case l of Some n \<Rightarrow> '' fetch next '' @ show_int (max n 0) @ '' rows only'' | None \<Rightarrow> [])"
    by (auto split: option.splits)
  have "lexes L (if ordered then [] else '' order by (select null)'')
      (if ordered then [] else [TWord ''order'', TWord ''by'', TPunct CHR ''('', TWord ''select'', TWord ''null'', TPunct CHR '')''])"
    by (simp add: sqlserver_pieces)
  from lexes_append [OF this lexes_append [OF sqlserver_pieces(1) fetch b, of n]] show ?thesis
    unfolding sqlserver_limit_offset_def sqlserver_paging_def if_not_P [OF False]
    by (simp add: show_int_max n_def)
qed (auto simp: sqlserver_limit_offset_def sqlserver_paging_def)

lemma paged_boundaries:
  "boundary (postgres_limit_offset l off ordered)" "boundary (sqlite_limit_offset l off ordered)"
  "boundary (mysql_limit_offset l off ordered)" "boundary (sqlserver_limit_offset l off ordered)"
  by (cases l; cases off; simp add: limit_offset_defs)+

lemma paging_unmarked:
  "marks (postgres_paging l off ordered) = []" "marks (sqlite_paging l off ordered) = []"
  "marks (mysql_paging l off ordered) = []" "marks (sqlserver_paging l off ordered) = []"
  by (cases l; cases off; simp add: paging_defs marks_def)+

interpretation postgres: sql_dialect Postgres postgres_lexicon postgres_paging
proof unfold_locales
  fix x n assume "valid_identifier x n"
  then show "lexes postgres_lexicon (quote Postgres x) [TName x]"
    using lexes_quoted [of postgres_lexicon x] valid_no_quote [of x n] not_word_quotes
    by (simp add: lexicon_defs Postgres_def quote_defs boundary_def)
next
  fix n show "lexes postgres_lexicon (placeholder Postgres n) [slot postgres_lexicon n]"
    using lexes_slot [of postgres_lexicon "''$''" n] by (simp add: lexicon_defs Postgres_def slot_def)
qed (simp_all add: Postgres_def postgres_lexicon_def postgres_paged paged_boundaries paging_unmarked)

interpretation sqlite: sql_dialect Sqlite sqlite_lexicon sqlite_paging
proof unfold_locales
  fix x n assume "valid_identifier x n"
  then show "lexes sqlite_lexicon (quote Sqlite x) [TName x]"
    using lexes_quoted [of sqlite_lexicon x] valid_no_quote [of x n] not_word_quotes
    by (simp add: lexicon_defs Sqlite_def quote_defs boundary_def)
next
  fix n show "lexes sqlite_lexicon (placeholder Sqlite n) [slot sqlite_lexicon n]"
    using lexes_mark [of sqlite_lexicon] by (simp add: lexicon_defs Sqlite_def slot_def)
qed (simp_all add: Sqlite_def sqlite_lexicon_def sqlite_paged paged_boundaries paging_unmarked)

interpretation mysql: sql_dialect MySql mysql_lexicon mysql_paging
proof unfold_locales
  fix x n assume "valid_identifier x n"
  then show "lexes mysql_lexicon (quote MySql x) [TName x]"
    using lexes_quoted [of mysql_lexicon x] valid_no_quote [of x n] not_word_quotes
    by (simp add: lexicon_defs MySql_def quote_defs boundary_def)
next
  fix n show "lexes mysql_lexicon (placeholder MySql n) [slot mysql_lexicon n]"
    using lexes_mark [of mysql_lexicon] by (simp add: lexicon_defs MySql_def slot_def)
qed (simp_all add: MySql_def mysql_lexicon_def mysql_paged paged_boundaries paging_unmarked)

interpretation sqlserver: sql_dialect SqlServer sqlserver_lexicon sqlserver_paging
proof unfold_locales
  fix x n assume "valid_identifier x n"
  then show "lexes sqlserver_lexicon (quote SqlServer x) [TName x]"
    using lexes_quoted [of sqlserver_lexicon x] valid_no_quote [of x n] not_word_quotes
    by (simp add: lexicon_defs SqlServer_def quote_defs boundary_def)
next
  fix n show "lexes sqlserver_lexicon (placeholder SqlServer n) [slot sqlserver_lexicon n]"
    using lexes_slot [of sqlserver_lexicon "''@P''" n] by (simp add: lexicon_defs SqlServer_def slot_def)
qed (simp_all add: SqlServer_def sqlserver_lexicon_def sqlserver_paged paged_boundaries paging_unmarked)

end
