(* ===== verification/QueryBuilder.thy ===== *)
theory QueryBuilder
  imports Dialect Json
begin

section \<open>The query builder\<close>

text \<open>
  \<open>rustlavel-db/src/builder.rs\<close>: a statement under construction, and the text and the bound values
  it becomes in one dialect.  An error is the message the code gives.  The execution half of the
  file hands these texts to a connection and is not modelled.
\<close>

subsection \<open>Statements under construction\<close>

datatype Value =
    VNull
  | VBool bool
  | VInt int
  | VFloat F64
  | VText string
  | VBytes "byte list"
  | VJson Json

datatype Direction = Asc | Desc

fun direction_sql :: "Direction \<Rightarrow> string" where
  "direction_sql Asc = ''asc''"
| "direction_sql Desc = ''desc''"

text \<open>The fields \<open>negated\<close> and \<open>or\<close> come last, in this order.\<close>

datatype Condition =
    Comparison string string Value bool
  | InList string "Value list" bool bool
  | IsNull string bool bool
  | Between string Value Value bool
  | Group "Condition list" bool

fun is_or :: "Condition \<Rightarrow> bool" where
  "is_or (Comparison column operator v alt) = alt"
| "is_or (InList column vs negated alt) = alt"
| "is_or (IsNull column negated alt) = alt"
| "is_or (Between column low high alt) = alt"
| "is_or (Group cs alt) = alt"

record Join =
  join_kind :: string
  join_table :: string
  join_left :: string
  join_operator :: string
  join_right :: string

record QueryBuilder =
  qb_table :: string
  qb_columns :: "string list"
  qb_conditions :: "Condition list"
  qb_joins :: "Join list"
  qb_order :: "(string \<times> Direction) list"
  qb_group :: "string list"
  qb_limit :: "int option"
  qb_offset :: "int option"
  qb_distinct :: bool

definition new_query :: "string \<Rightarrow> QueryBuilder" where
  "new_query table = \<lparr>qb_table = table, qb_columns = [], qb_conditions = [], qb_joins = [], qb_order = [],
     qb_group = [], qb_limit = None, qb_offset = None, qb_distinct = False\<rparr>"

definition qb_select :: "string list \<Rightarrow> QueryBuilder \<Rightarrow> QueryBuilder" where
  "qb_select columns q = q\<lparr>qb_columns := columns\<rparr>"

definition set_distinct :: "QueryBuilder \<Rightarrow> QueryBuilder" where
  "set_distinct q = q\<lparr>qb_distinct := True\<rparr>"

abbreviation push_condition :: "Condition \<Rightarrow> QueryBuilder \<Rightarrow> QueryBuilder" where
  "push_condition c q \<equiv> q\<lparr>qb_conditions := qb_conditions q @ [c]\<rparr>"

definition filter_op :: "string \<Rightarrow> string \<Rightarrow> Value \<Rightarrow> QueryBuilder \<Rightarrow> QueryBuilder" where
  "filter_op column operator v q = push_condition (Comparison column operator v False) q"

definition qb_filter :: "string \<Rightarrow> Value \<Rightarrow> QueryBuilder \<Rightarrow> QueryBuilder" where
  "qb_filter column v q = filter_op column ''='' v q"

definition or_filter :: "string \<Rightarrow> Value \<Rightarrow> QueryBuilder \<Rightarrow> QueryBuilder" where
  "or_filter column v q = push_condition (Comparison column ''='' v True) q"

definition or_filter_op :: "string \<Rightarrow> string \<Rightarrow> Value \<Rightarrow> QueryBuilder \<Rightarrow> QueryBuilder" where
  "or_filter_op column operator v q = push_condition (Comparison column operator v True) q"

definition or_filter_like :: "string \<Rightarrow> Value \<Rightarrow> QueryBuilder \<Rightarrow> QueryBuilder" where
  "or_filter_like column pat q = or_filter_op column ''like'' pat q"

definition filter_in :: "string \<Rightarrow> Value list \<Rightarrow> QueryBuilder \<Rightarrow> QueryBuilder" where
  "filter_in column vs q = push_condition (InList column vs False False) q"

definition filter_not_in :: "string \<Rightarrow> Value list \<Rightarrow> QueryBuilder \<Rightarrow> QueryBuilder" where
  "filter_not_in column vs q = push_condition (InList column vs True False) q"

definition filter_null :: "string \<Rightarrow> QueryBuilder \<Rightarrow> QueryBuilder" where
  "filter_null column q = push_condition (IsNull column False False) q"

definition filter_not_null :: "string \<Rightarrow> QueryBuilder \<Rightarrow> QueryBuilder" where
  "filter_not_null column q = push_condition (IsNull column True False) q"

definition filter_between :: "string \<Rightarrow> Value \<Rightarrow> Value \<Rightarrow> QueryBuilder \<Rightarrow> QueryBuilder" where
  "filter_between column low high q = push_condition (Between column low high False) q"

definition filter_like :: "string \<Rightarrow> Value \<Rightarrow> QueryBuilder \<Rightarrow> QueryBuilder" where
  "filter_like column pat q = filter_op column ''like'' pat q"

definition group_filter :: "(QueryBuilder \<Rightarrow> QueryBuilder) \<Rightarrow> QueryBuilder \<Rightarrow> QueryBuilder" where
  "group_filter build q =
     (let nested = build (new_query (qb_table q)) in
      if qb_conditions nested = [] then q else push_condition (Group (qb_conditions nested) False) q)"

definition or_group_filter :: "(QueryBuilder \<Rightarrow> QueryBuilder) \<Rightarrow> QueryBuilder \<Rightarrow> QueryBuilder" where
  "or_group_filter build q =
     (let nested = build (new_query (qb_table q)) in
      if qb_conditions nested = [] then q else push_condition (Group (qb_conditions nested) True) q)"

definition add_join :: "string \<Rightarrow> string \<Rightarrow> string \<Rightarrow> string \<Rightarrow> string \<Rightarrow> QueryBuilder \<Rightarrow> QueryBuilder" where
  "add_join kind table left operator right q =
     q\<lparr>qb_joins := qb_joins q @ [\<lparr>join_kind = kind, join_table = table, join_left = left,
                                 join_operator = operator, join_right = right\<rparr>]\<rparr>"

definition inner_join :: "string \<Rightarrow> string \<Rightarrow> string \<Rightarrow> string \<Rightarrow> QueryBuilder \<Rightarrow> QueryBuilder" where
  "inner_join table left operator right q = add_join ''inner join'' table left operator right q"

definition left_join :: "string \<Rightarrow> string \<Rightarrow> string \<Rightarrow> string \<Rightarrow> QueryBuilder \<Rightarrow> QueryBuilder" where
  "left_join table left operator right q = add_join ''left join'' table left operator right q"

definition order_by :: "string \<Rightarrow> Direction \<Rightarrow> QueryBuilder \<Rightarrow> QueryBuilder" where
  "order_by column direction q = q\<lparr>qb_order := qb_order q @ [(column, direction)]\<rparr>"

definition latest :: "string \<Rightarrow> QueryBuilder \<Rightarrow> QueryBuilder" where
  "latest column q = order_by column Desc q"

definition group_by :: "string list \<Rightarrow> QueryBuilder \<Rightarrow> QueryBuilder" where
  "group_by columns q = q\<lparr>qb_group := columns\<rparr>"

definition set_limit :: "int \<Rightarrow> QueryBuilder \<Rightarrow> QueryBuilder" where
  "set_limit n q = q\<lparr>qb_limit := Some n\<rparr>"

definition set_offset :: "int \<Rightarrow> QueryBuilder \<Rightarrow> QueryBuilder" where
  "set_offset n q = q\<lparr>qb_offset := Some n\<rparr>"

text \<open>\<open>page\<close> multiplies two \<open>i64\<close>; the product wraps in a release build.\<close>

definition qb_page :: "int \<Rightarrow> int \<Rightarrow> QueryBuilder \<Rightarrow> QueryBuilder" where
  "qb_page page per_page q =
     set_offset (wrap_i64 ((max page 1 - 1) * per_page)) (set_limit per_page q)"

subsection \<open>Names and operators\<close>

definition ALLOWED :: "string list" where
  "ALLOWED = [''='', ''!='', ''<>'', ''<'', ''<='', ''>'', ''>='', ''like'', ''not like'', ''ilike'', ''not ilike'', ''@>'',
     ''<@'', ''?'', ''is distinct from'']"

definition check_operator :: "string \<Rightarrow> string + unit" where
  "check_operator operator =
     (if ascii_lowercase operator \<in> set ALLOWED then Inr ()
      else Inl (''`'' @ operator @ ''` is not an allowed comparison operator. Allowed: '' @ join_with '', '' ALLOWED))"

text \<open>The first of the prefixes that the column is an application of, and the text between the parentheses.\<close>

fun aggregate_of :: "string list \<Rightarrow> string \<Rightarrow> (string \<times> string) option" where
  "aggregate_of [] column = None"
| "aggregate_of (pre # prefixes) column =
     (case Option.bind (strip_prefix (pre @ ''('') column) (strip_suffix '')'') of
        Some inner \<Rightarrow> Some (pre, inner)
      | None \<Rightarrow> aggregate_of prefixes column)"

definition AGGREGATES :: "string list" where
  "AGGREGATES = [''count'', ''sum'', ''avg'', ''min'', ''max'']"

definition column_ref :: "Dialect \<Rightarrow> string \<Rightarrow> string + string" where
  "column_ref d column =
     (if column = ''*'' then Inr ''*''
      else case strip_prefix ''count(*) as '' column of
        Some rest \<Rightarrow> and_then (quote_checked d rest) (\<lambda>r. Inr (''count(*) as '' @ r))
      | None \<Rightarrow>
          (case aggregate_of AGGREGATES column of
             Some (pre, inner) \<Rightarrow>
               and_then (if inner = ''*'' then Inr ''*'' else quote_qualified d inner)
                 (\<lambda>rendered. Inr (pre @ ''('' @ rendered @ '')''))
           | None \<Rightarrow> quote_qualified d column))"

subsection \<open>Conditions\<close>

text \<open>Pushing values one by one, and the slots they get.\<close>

fun push_all :: "Dialect \<Rightarrow> Value list \<Rightarrow> Value list \<Rightarrow> string list \<times> Value list" where
  "push_all d [] params = ([], params)"
| "push_all d (v # vs) params =
     (let params1 = params @ [v];
          (slots, params2) = push_all d vs params1
      in (placeholder d (length params1) # slots, params2))"

text \<open>
  The loop of \<open>render_conditions\<close> appends to the text so far; here each round gives what it appends,
  and \<open>first\<close> says that its index is 0.
\<close>

fun render_condition :: "Dialect \<Rightarrow> Condition \<Rightarrow> Value list \<Rightarrow> string + (string \<times> Value list)"
  and render_rest :: "Dialect \<Rightarrow> bool \<Rightarrow> Condition list \<Rightarrow> Value list \<Rightarrow> string + (string \<times> Value list)" where
  "render_condition d (Comparison column operator v alt) params =
     and_then (check_operator operator) (\<lambda>_.
     let params1 = params @ [v] in
     and_then (column_ref d column) (\<lambda>c.
     Inr (c @ '' '' @ operator @ '' '' @ placeholder d (length params1), params1)))"
| "render_condition d (InList column vs negated alt) params =
     (if vs = [] then Inr (if negated then ''true'' else ''false'', params)
      else let (slots, params1) = push_all d vs params in
           and_then (column_ref d column) (\<lambda>c.
           Inr (c @ '' '' @ (if negated then ''not '' else []) @ ''in ('' @ join_with '', '' slots @ '')'', params1)))"
| "render_condition d (IsNull column negated alt) params =
     and_then (column_ref d column) (\<lambda>c.
     Inr (c @ '' is '' @ (if negated then ''not '' else []) @ ''null'', params))"
| "render_condition d (Between column low high alt) params =
     (let params1 = params @ [low];
          low_slot = placeholder d (length params1);
          params2 = params1 @ [high]
      in and_then (column_ref d column) (\<lambda>c.
         Inr (c @ '' between '' @ low_slot @ '' and '' @ placeholder d (length params2), params2)))"
| "render_condition d (Group conditions alt) params =
     and_then (render_rest d True conditions params) (\<lambda>(t, params1). Inr (''('' @ t @ '')'', params1))"
| "render_rest d first [] params = Inr ([], params)"
| "render_rest d first (c # cs) params =
     and_then (render_condition d c params) (\<lambda>(t, params1).
     and_then (render_rest d False cs params1) (\<lambda>(u, params2).
     Inr ((if first then [] else if is_or c then '' or '' else '' and '') @ t @ u, params2)))"

definition render_conditions :: "Dialect \<Rightarrow> Condition list \<Rightarrow> Value list \<Rightarrow> string + (string \<times> Value list)" where
  "render_conditions d conditions params = render_rest d True conditions params"

subsection \<open>Select\<close>

definition render_columns :: "Dialect \<Rightarrow> string list \<Rightarrow> string + string" where
  "render_columns d columns =
     (if columns = [] then Inr ''*''
      else and_then (try_map (column_ref d) columns) (\<lambda>rendered. Inr (join_with '', '' rendered)))"

definition render_join :: "Dialect \<Rightarrow> Join \<Rightarrow> string + string" where
  "render_join d j =
     and_then (check_operator (join_operator j)) (\<lambda>_.
     and_then (quote_qualified d (join_table j)) (\<lambda>t.
     and_then (column_ref d (join_left j)) (\<lambda>l.
     and_then (column_ref d (join_right j)) (\<lambda>r.
     Inr ('' '' @ join_kind j @ '' '' @ t @ '' on '' @ l @ '' '' @ join_operator j @ '' '' @ r)))))"

definition render_order :: "Dialect \<Rightarrow> string \<times> Direction \<Rightarrow> string + string" where
  "render_order d co = and_then (column_ref d (fst co)) (\<lambda>c. Inr (c @ '' '' @ direction_sql (snd co)))"

definition to_sql :: "Dialect \<Rightarrow> QueryBuilder \<Rightarrow> string + (string \<times> Value list)" where
  "to_sql d q =
     and_then (render_columns d (qb_columns q)) (\<lambda>columns.
     and_then (quote_qualified d (qb_table q)) (\<lambda>table.
     and_then (try_map (render_join d) (qb_joins q)) (\<lambda>joins.
     and_then (if qb_conditions q = [] then Inr ([], [])
               else and_then (render_conditions d (qb_conditions q) []) (\<lambda>(t, params). Inr ('' where '' @ t, params)))
       (\<lambda>(conditions, params).
     and_then (if qb_group q = [] then Inr []
               else and_then (try_map (column_ref d) (qb_group q)) (\<lambda>rendered. Inr ('' group by '' @ join_with '', '' rendered)))
       (\<lambda>group.
     and_then (if qb_order q = [] then Inr []
               else and_then (try_map (render_order d) (qb_order q)) (\<lambda>rendered. Inr ('' order by '' @ join_with '', '' rendered)))
       (\<lambda>order.
     Inr (''select '' @ (if qb_distinct q then ''distinct '' else []) @ columns @ '' from '' @ table @ concat joins @
          conditions @ group @ order @ limit_offset d (qb_limit q) (qb_offset q) (qb_order q \<noteq> []),
          params)))))))"

definition to_count_sql :: "Dialect \<Rightarrow> QueryBuilder \<Rightarrow> string + (string \<times> Value list)" where
  "to_count_sql d q =
     to_sql d (q\<lparr>qb_columns := [''count(*) as aggregate''], qb_order := [], qb_limit := None, qb_offset := None\<rparr>)"

subsection \<open>Insert, update and delete\<close>

text \<open>One row of an insert: its slots and the values pushed so far.\<close>

fun insert_row :: "Dialect \<Rightarrow> string list \<Rightarrow> (string \<times> Value) list \<Rightarrow> Value list \<Rightarrow> string + (string list \<times> Value list)" where
  "insert_row d columns [] params = Inr ([], params)"
| "insert_row d columns ((name, v) # row) params =
     (if name \<notin> set columns
      then Inl (''column `'' @ name @ ''` is missing from the first row of this insert'')
      else let params1 = params @ [v] in
           and_then (insert_row d columns row params1) (\<lambda>(slots, params2).
           Inr (placeholder d (length params1) # slots, params2)))"

fun insert_rows :: "Dialect \<Rightarrow> string list \<Rightarrow> (string \<times> Value) list list \<Rightarrow> Value list \<Rightarrow> string + (string list \<times> Value list)" where
  "insert_rows d columns [] params = Inr ([], params)"
| "insert_rows d columns (row # rows) params =
     (if length row \<noteq> length columns
      then Inl ''every row in a bulk insert must have the same columns''
      else and_then (insert_row d columns row params) (\<lambda>(slots, params1).
           and_then (insert_rows d columns rows params1) (\<lambda>(placeholders, params2).
           Inr ((''('' @ join_with '', '' slots @ '')'') # placeholders, params2))))"

definition to_insert_sql ::
  "Dialect \<Rightarrow> (string \<times> Value) list list \<Rightarrow> string option \<Rightarrow> QueryBuilder \<Rightarrow> string + (string \<times> Value list)" where
  "to_insert_sql d rows ret q =
     (case rows of
        [] \<Rightarrow> Inl ''insert needs at least one row''
      | row1 # _ \<Rightarrow>
          let columns = map fst row1;
              rendered = try_map (quote_checked d) columns
          in and_then (insert_rows d columns rows []) (\<lambda>(placeholders, params).
             and_then (quote_qualified d (qb_table q)) (\<lambda>table.
             and_then rendered (\<lambda>quoted.
             let columns_sql = join_with '', '' quoted;
                 values_sql = join_with '', '' placeholders
             in and_then
                  (case (ret, returning d) of
                     (Some column, Suffix) \<Rightarrow>
                       and_then (quote_checked d column) (\<lambda>c.
                       Inr (''insert into '' @ table @ '' ('' @ columns_sql @ '') values '' @ values_sql @ '' returning '' @ c))
                   | (Some column, OutputClause) \<Rightarrow>
                       and_then (quote_checked d column) (\<lambda>c.
                       Inr (''insert into '' @ table @ '' ('' @ columns_sql @ '') output inserted.'' @ c @ '' values '' @ values_sql))
                   | _ \<Rightarrow> Inr (''insert into '' @ table @ '' ('' @ columns_sql @ '') values '' @ values_sql))
                  (\<lambda>sql. Inr (sql, params))))))"

fun update_assignments :: "Dialect \<Rightarrow> (string \<times> Value) list \<Rightarrow> Value list \<Rightarrow> string + (string list \<times> Value list)" where
  "update_assignments d [] params = Inr ([], params)"
| "update_assignments d ((column, v) # vs) params =
     and_then (validate_identifier column (max_identifier_length d)) (\<lambda>_.
     let params1 = params @ [v] in
     and_then (update_assignments d vs params1) (\<lambda>(rest, params2).
     Inr ((quote d column @ '' = '' @ placeholder d (length params1)) # rest, params2)))"

definition to_update_sql :: "Dialect \<Rightarrow> (string \<times> Value) list \<Rightarrow> QueryBuilder \<Rightarrow> string + (string \<times> Value list)" where
  "to_update_sql d vs q =
     (if vs = [] then Inl ''update needs at least one column''
      else and_then (update_assignments d vs []) (\<lambda>(assignments, params).
           and_then (quote_qualified d (qb_table q)) (\<lambda>table.
           if qb_conditions q = []
           then Inl ''refusing to update every row: add a filter, or call `update_all` if that is really intended''
           else and_then (render_conditions d (qb_conditions q) params) (\<lambda>(t, params1).
                Inr (''update '' @ table @ '' set '' @ join_with '', '' assignments @ '' where '' @ t, params1)))))"

definition to_delete_sql :: "Dialect \<Rightarrow> bool \<Rightarrow> QueryBuilder \<Rightarrow> string + (string \<times> Value list)" where
  "to_delete_sql d allow_all q =
     and_then (quote_qualified d (qb_table q)) (\<lambda>table.
     if qb_conditions q = [] then
       if allow_all then Inr (''delete from '' @ table, [])
       else Inl ''refusing to delete every row: add a filter, or call `delete_all` if that is really intended''
     else and_then (render_conditions d (qb_conditions q) []) (\<lambda>(t, params).
          Inr (''delete from '' @ table @ '' where '' @ t, params)))"

subsection \<open>Pages\<close>

text \<open>
  \<open>pagination.rs\<close>: the query that fetches one page by number, the query that fetches the page after a
  cursor, and the cursor's value.
\<close>

definition clamp_per_page :: "int \<Rightarrow> int" where
  "clamp_per_page n = min (max n 1) 1000"

definition page_query :: "int \<Rightarrow> int \<Rightarrow> QueryBuilder \<Rightarrow> QueryBuilder" where
  "page_query page per_page q = qb_page (max page 1) (clamp_per_page per_page) q"

definition decode_cursor :: "string \<Rightarrow> Value" where
  "decode_cursor cursor = (case parse_i64 cursor of Some n \<Rightarrow> VInt n | None \<Rightarrow> VText cursor)"

definition cursor_query :: "string \<Rightarrow> string option \<Rightarrow> int \<Rightarrow> QueryBuilder \<Rightarrow> QueryBuilder" where
  "cursor_query column after per_page q =
     (let query = set_limit (clamp_per_page per_page + 1) (order_by column Asc q) in
      case after of Some cursor \<Rightarrow> filter_op column ''>'' (decode_cursor cursor) query | None \<Rightarrow> query)"

end
