(* ===== verification/QueryProof.thy ===== *)
theory QueryProof
  imports QueryBuilder SqlLex
begin

section \<open>What the statements say\<close>

text \<open>
  The token sequence each statement is meant to be, written over the parts of the builder, and the
  proof that the text the builder renders is read as exactly that sequence: a name from the caller
  is one quoted name, a value is one parameter marker, and there is nothing else.
\<close>

subsection \<open>The intended tokens\<close>

abbreviation comma :: "token list" where
  "comma \<equiv> [TPunct CHR '','']"

abbreviation parens :: "token list \<Rightarrow> token list" where
  "parens ts \<equiv> TPunct CHR ''('' # ts @ [TPunct CHR '')'']"

definition operator_tokens :: "lexicon \<Rightarrow> string \<Rightarrow> token list" where
  "operator_tokens L operator =
     (if operator \<noteq> [] \<and> word_start (hd operator) then map TWord (split_on CHR '' '' operator)
      else if operator = ''?'' \<and> marker_style L = Positional then [TMark]
      else [TOp operator])"

definition column_tokens :: "string \<Rightarrow> token list" where
  "column_tokens column =
     (if column = ''*'' then [TPunct CHR ''*'']
      else case strip_prefix ''count(*) as '' column of
        Some rest \<Rightarrow> [TWord ''count''] @ parens [TPunct CHR ''*''] @ [TWord ''as'', TName rest]
      | None \<Rightarrow>
          (case aggregate_of AGGREGATES column of
             Some (pre, inner) \<Rightarrow> [TWord pre] @ parens (if inner = ''*'' then [TPunct CHR ''*''] else name_tokens inner)
           | None \<Rightarrow> name_tokens column))"

fun cond_values :: "Condition \<Rightarrow> Value list"
  and conds_values :: "Condition list \<Rightarrow> Value list" where
  "cond_values (Comparison column operator v alt) = [v]"
| "cond_values (InList column vs negated alt) = vs"
| "cond_values (IsNull column negated alt) = []"
| "cond_values (Between column low high alt) = [low, high]"
| "cond_values (Group cs alt) = conds_values cs"
| "conds_values [] = []"
| "conds_values (c # cs) = cond_values c @ conds_values cs"

definition slots_from :: "lexicon \<Rightarrow> nat \<Rightarrow> nat \<Rightarrow> token list list" where
  "slots_from L n k = map (\<lambda>i. [slot L i]) [n + 1..<n + 1 + k]"

abbreviation negation :: "bool \<Rightarrow> token list" where
  "negation negated \<equiv> (if negated then [TWord ''not''] else [])"

fun cond_tokens :: "lexicon \<Rightarrow> nat \<Rightarrow> Condition \<Rightarrow> token list"
  and conds_tokens :: "lexicon \<Rightarrow> nat \<Rightarrow> bool \<Rightarrow> Condition list \<Rightarrow> token list" where
  "cond_tokens L n (Comparison column operator v alt) = column_tokens column @ operator_tokens L operator @ [slot L (n + 1)]"
| "cond_tokens L n (InList column vs negated alt) =
     (if vs = [] then [TWord (if negated then ''true'' else ''false'')]
      else column_tokens column @ negation negated @ [TWord ''in''] @ parens (sep_tokens comma (slots_from L n (length vs))))"
| "cond_tokens L n (IsNull column negated alt) = column_tokens column @ [TWord ''is''] @ negation negated @ [TWord ''null'']"
| "cond_tokens L n (Between column low high alt) =
     column_tokens column @ [TWord ''between'', slot L (n + 1), TWord ''and'', slot L (n + 2)]"
| "cond_tokens L n (Group cs alt) = parens (conds_tokens L n True cs)"
| "conds_tokens L n first [] = []"
| "conds_tokens L n first (c # cs) =
     (if first then [] else [TWord (if is_or c then ''or'' else ''and'')]) @ cond_tokens L n c @
     conds_tokens L (n + length (cond_values c)) False cs"

definition join_tokens :: "lexicon \<Rightarrow> Join \<Rightarrow> token list" where
  "join_tokens L j =
     map TWord (split_on CHR '' '' (join_kind j)) @ name_tokens (join_table j) @ [TWord ''on''] @ column_tokens (join_left j) @
     operator_tokens L (join_operator j) @ column_tokens (join_right j)"

abbreviation clause :: "string list \<Rightarrow> token list list \<Rightarrow> token list" where
  "clause ws tss \<equiv> (if tss = [] then [] else map TWord ws @ sep_tokens comma tss)"

definition select_tokens ::
  "lexicon \<Rightarrow> (int option \<Rightarrow> int option \<Rightarrow> bool \<Rightarrow> token list) \<Rightarrow> QueryBuilder \<Rightarrow> token list" where
  "select_tokens L paging q =
     [TWord ''select''] @ (if qb_distinct q then [TWord ''distinct''] else []) @
     (if qb_columns q = [] then [TPunct CHR ''*''] else sep_tokens comma (map column_tokens (qb_columns q))) @
     [TWord ''from''] @ name_tokens (qb_table q) @ concat (map (join_tokens L) (qb_joins q)) @
     (if qb_conditions q = [] then [] else TWord ''where'' # conds_tokens L 0 True (qb_conditions q)) @
     clause [''group'', ''by''] (map column_tokens (qb_group q)) @
     clause [''order'', ''by''] (map (\<lambda>(c, dir). column_tokens c @ [TWord (direction_sql dir)]) (qb_order q)) @
     paging (qb_limit q) (qb_offset q) (qb_order q \<noteq> [])"

fun rows_tokens :: "lexicon \<Rightarrow> nat \<Rightarrow> nat \<Rightarrow> nat \<Rightarrow> token list list" where
  "rows_tokens L n k 0 = []"
| "rows_tokens L n k (Suc m) = parens (sep_tokens comma (slots_from L n k)) # rows_tokens L (n + k) k m"

definition insert_tokens :: "lexicon \<Rightarrow> ReturningStyle \<Rightarrow> string option \<Rightarrow> string \<Rightarrow> string list \<Rightarrow> nat \<Rightarrow> token list" where
  "insert_tokens L style ret table columns m =
     [TWord ''insert'', TWord ''into''] @ name_tokens table @ parens (sep_tokens comma (map (\<lambda>c. [TName c]) columns)) @
     (case (ret, style) of
        (Some c, OutputClause) \<Rightarrow> [TWord ''output'', TWord ''inserted'', TPunct CHR ''.'', TName c]
      | _ \<Rightarrow> []) @
     [TWord ''values''] @ sep_tokens comma (rows_tokens L 0 (length columns) m) @
     (case (ret, style) of (Some c, Suffix) \<Rightarrow> [TWord ''returning'', TName c] | _ \<Rightarrow> [])"

fun assign_tokens :: "lexicon \<Rightarrow> nat \<Rightarrow> string list \<Rightarrow> token list list" where
  "assign_tokens L n [] = []"
| "assign_tokens L n (c # cs) = [TName c, TOp ''='', slot L (n + 1)] # assign_tokens L (n + 1) cs"

definition update_tokens :: "lexicon \<Rightarrow> string list \<Rightarrow> QueryBuilder \<Rightarrow> token list" where
  "update_tokens L columns q =
     [TWord ''update''] @ name_tokens (qb_table q) @ [TWord ''set''] @ sep_tokens comma (assign_tokens L 0 columns) @
     [TWord ''where''] @ conds_tokens L (length columns) True (qb_conditions q)"

definition delete_tokens :: "lexicon \<Rightarrow> QueryBuilder \<Rightarrow> token list" where
  "delete_tokens L q =
     [TWord ''delete'', TWord ''from''] @ name_tokens (qb_table q) @
     (if qb_conditions q = [] then [] else TWord ''where'' # conds_tokens L 0 True (qb_conditions q))"

lemma slots_from_Suc: "slots_from L n (Suc k) = [slot L (n + 1)] # slots_from L (n + 1) k"
proof -
  have "[n + 1..<n + 1 + Suc k] = (n + 1) # [n + 1 + 1..<n + 1 + 1 + k]" by (subst upt_conv_Cons) simp_all
  then show ?thesis by (simp add: slots_from_def)
qed

subsection \<open>Operators\<close>

lemma lower_space: "lower_char c = CHR '' '' \<longleftrightarrow> c = CHR '' ''"
proof
  assume l: "lower_char c = CHR '' ''"
  then have "(of_char (lower_char c) :: nat) = 32" by simp
  then have "\<not> (65 \<le> (of_char c :: nat) \<and> (of_char c :: nat) \<le> 90)"
    by (auto simp: lower_char_def Let_def split: if_splits)
  with l show "c = CHR '' ''" unfolding lower_char_def Let_def by (simp only: if_False)
qed (simp add: lower_char_def)

lemma lower_symbol:
  assumes "ascii_lowercase s = x" and "list_all (\<lambda>c. \<not> ascii_alphabetic c) x"
  shows "s = x"
proof -
  have one: "lower_char c = c" if "\<not> ascii_alphabetic (lower_char c)" for c
    using that by (auto simp: lower_char_def ascii_alphabetic_def Let_def split: if_splits)
  have "map lower_char s = s" using assms by (auto simp: ascii_lowercase_def list_all_iff intro!: map_idI one)
  with assms(1) show ?thesis by (simp add: ascii_lowercase_def)
qed

lemma lower_letter: "ascii_alphabetic (lower_char c) \<Longrightarrow> word_start c \<and> word_char c"
  by (auto simp: lower_char_def ascii_alphabetic_def word_start_def word_char_def Let_def split: if_splits)

lemma lower_split: "map ascii_lowercase (split_on CHR '' '' s) = split_on CHR '' '' (ascii_lowercase s)"
  by (induction s) (auto simp: ascii_lowercase_def lower_space split: list.splits)

lemma join_split: "join_with [c] (split_on c s) = s"
proof (induction s)
  case (Cons x s)
  obtain y ys where y: "split_on c s = y # ys" by (cases "split_on c s") auto
  with Cons show ?case by (cases ys) auto
qed simp

lemma lexes_words:
  assumes "\<forall>w\<in>set ws. w \<noteq> [] \<and> list_all (\<lambda>c. word_start c \<and> word_char c) w"
  shows "lexes L (join_with '' '' ws) (map TWord ws)"
  using assms
proof (induction "'' '' :: string" ws rule: join_with.induct)
  case (2 w)
  then show ?case by (cases w) (auto simp: list_all_iff intro: lexes_word)
next
  case (3 w x xs)
  have "lexes L w [TWord w]" using "3.prems" by (cases w) (auto simp: list_all_iff intro: lexes_word)
  moreover have "lexes L ('' '' @ join_with '' '' (x # xs)) (map TWord (x # xs))"
    using "3.hyps" "3.prems" by (auto simp: lexes_def lex_step_def option.map_id0 id_def [symmetric])
  ultimately show ?case using lexes_append [of L w] by fastforce
qed simp

lemma lexes_word_operator:
  assumes "ascii_lowercase s = x" and "\<forall>w\<in>set (split_on CHR '' '' x). w \<noteq> [] \<and> list_all ascii_alphabetic w"
  shows "lexes L s (map TWord (split_on CHR '' '' s)) \<and> s \<noteq> [] \<and> word_start (hd s)"
proof -
  let ?ws = "split_on CHR '' '' s"
  have "w \<noteq> [] \<and> list_all (\<lambda>c. word_start c \<and> word_char c) w" if "w \<in> set ?ws" for w
  proof -
    have "ascii_lowercase w \<in> set (split_on CHR '' '' x)" using that lower_split [of s] assms(1) by (metis imageI set_map)
    with assms(2) have "ascii_lowercase w \<noteq> []" "list_all ascii_alphabetic (ascii_lowercase w)" by auto
    then show ?thesis using lower_letter by (auto simp: ascii_lowercase_def list_all_iff)
  qed
  then have ws: "\<forall>w\<in>set ?ws. w \<noteq> [] \<and> list_all (\<lambda>c. word_start c \<and> word_char c) w" by blast
  obtain y ys where y: "?ws = y # ys" by (cases ?ws) auto
  then obtain c t where ct: "y = c # t" "word_start c" using ws by (cases y) auto
  have "s = join_with '' '' ?ws" by (simp add: join_split)
  then have "hd s = c \<and> s \<noteq> []" using y ct(1) by (cases ys) auto
  then show ?thesis using lexes_words [OF ws, of L] ct(2) by (simp add: join_split)
qed

lemma lexes_symbol:
  assumes "c \<in> {CHR ''='', CHR ''!'', CHR ''<'', CHR ''>''}" and "list_all (op_char L) x"
  shows "lexes L (c # x) [TOp (c # x)]"
proof -
  have "lex_step L c s = Some (lex_op L c s)" for s
    using assms(1) by (elim insertE emptyE) (simp_all add: lex_step_def word_start_def ascii_alphabetic_def ascii_digit_def)
  then show ?thesis using takeWhile_all_append [OF assms(2)] by (simp add: lexes_def lex_op_def)
qed

context sql_dialect
begin

lemma marker_symbols:
  "lexes L ''@>'' [TOp ''@>'']"
  "lexes L ''?'' [if marker_style L = Positional then TMark else TOp ''?'']"
proof -
  have o: "open_quote L \<noteq> CHR ''@''" "open_quote L \<noteq> CHR ''?''" using bracket by auto
  have "lex_marker L CHR ''@'' (CHR ''>'' # r) = None" for r
    using marker by (auto simp: lex_marker_def strip_prefix_def)
  then have "lex_step L CHR ''@'' (CHR ''>'' # r) = Some (lex_op L CHR ''@'' (CHR ''>'' # r))" for r
    using o by (simp add: lex_step_def word_start_def ascii_alphabetic_def ascii_digit_def op_char_def)
  then show "lexes L ''@>'' [TOp ''@>'']" by (simp add: lexes_def lex_op_def op_char_def)
  have "lex_marker L CHR ''?'' r = (if marker_style L = Positional then Some (Some TMark, r) else None)" for r
    using marker by (auto simp: lex_marker_def strip_prefix_def)
  then have "lex_step L CHR ''?'' r = Some (if marker_style L = Positional then (Some TMark, r) else lex_op L CHR ''?'' r)" for r
    using o by (simp add: lex_step_def word_start_def ascii_alphabetic_def ascii_digit_def op_char_def)
  then show "lexes L ''?'' [if marker_style L = Positional then TMark else TOp ''?'']"
    by (simp add: lexes_def lex_op_def)
qed

lemma operator_lexes:
  assumes "check_operator operator = Inr u"
  shows "lexes L operator (operator_tokens L operator)"
proof -
  have "ascii_lowercase operator \<in> set ALLOWED" using assms by (simp add: check_operator_def split: if_splits)
  then consider
      "ascii_lowercase operator \<in> {''like'', ''not like'', ''ilike'', ''not ilike'', ''is distinct from''}"
    | "ascii_lowercase operator \<in> {''='', ''!='', ''<>'', ''<'', ''<='', ''>'', ''>='', ''@>'', ''<@'', ''?''}"
    by (auto simp: ALLOWED_def)
  then show ?thesis
  proof cases
    case 1
    then have "\<forall>w\<in>set (split_on CHR '' '' (ascii_lowercase operator)). w \<noteq> [] \<and> list_all ascii_alphabetic w"
      by (auto simp: ascii_alphabetic_def)
    from lexes_word_operator [OF refl this, of L] show ?thesis by (simp add: operator_tokens_def)
  next
    case 2
    then have "operator = ascii_lowercase operator"
      by (intro lower_symbol [OF refl]) (auto simp: ascii_alphabetic_def)
    with 2 have "operator \<in> {''='', ''!='', ''<>'', ''<'', ''<='', ''>'', ''>='', ''@>'', ''<@'', ''?''}" by simp
    then consider "operator = ''@>''" | "operator = ''?''"
      | c x where "operator = c # x" "c \<in> {CHR ''='', CHR ''!'', CHR ''<'', CHR ''>''}" "x \<in> {[], ''='', ''>'', ''@''}"
      by auto
    then show ?thesis
    proof cases
      case 3
      then have "\<not> word_start c" "list_all (op_char L) x" "c # x \<noteq> ''?''"
        by (auto simp: word_start_def ascii_alphabetic_def op_char_def)
      with lexes_symbol [OF 3(2), of L x] 3(1) show ?thesis by (auto simp: operator_tokens_def)
    qed (use marker_symbols in \<open>simp_all add: operator_tokens_def word_start_def ascii_alphabetic_def split: if_splits\<close>)
  qed
qed

lemma column_lexes:
  assumes "column_ref d column = Inr t"
  shows "lexes L t (column_tokens column)"
proof -
  have star: "lexes L ''*'' [TPunct CHR ''*'']" by (simp add: lexes_def lex_char)
  have count: "lexes L (''count(*) as '' @ x) (TWord ''count'' # parens [TPunct CHR ''*''] @ TWord ''as'' # ts)" if "lexes L x ts" for x ts
    using lexesD [OF that] by (auto simp: lexes_def lex_char option.map_comp o_def)
  have call: "lexes L (pre @ ''('' @ x @ '')'') (TWord pre # parens ts)" if "lexes L x ts" "pre \<in> set AGGREGATES" for pre x ts
    using that(2) lexesD [OF that(1)] by (auto simp: AGGREGATES_def lexes_def lex_char option.map_comp o_def)
  have agg: "aggregate_of ps c = Some (pre, inner) \<Longrightarrow> pre \<in> set ps" for ps c pre inner
    by (induction ps) (auto split: option.splits)
  show ?thesis
    using assms star count [OF checked_lexes] call [OF qualified_lexes agg] call [OF star agg]
    by (auto simp: column_ref_def column_tokens_def and_then_Inr_iff qualified_lexes split: if_splits option.splits prod.splits)
qed

lemma pushed:
  "push_all d vs params = (ss, params1) \<Longrightarrow>
     params1 = params @ vs \<and> list_all2 (lexes L) ss (slots_from L (length params) (length vs))"
proof (induction vs arbitrary: params ss params1)
  case (Cons v vs)
  obtain ss1 params2 where r: "push_all d vs (params @ [v]) = (ss1, params2)" by fastforce
  have "[length params + 1..<length params + 1 + Suc (length vs)] =
      (length params + 1) # [length (params @ [v]) + 1..<length (params @ [v]) + 1 + length vs]"
    by (subst upt_conv_Cons) simp_all
  then show ?case using Cons.prems Cons.IH [OF r] r marking by (auto simp: slots_from_def)
qed (simp add: slots_from_def)

lemma comparison_lexes:
  assumes "lexes L c cs" and "lexes L x xs" and "lexes L y ys"
  shows "lexes L (c @ '' '' @ x @ '' '' @ y) (cs @ xs @ ys)"
  using lexesD [OF assms(1)] lexesD [OF assms(2)] lexesD [OF assms(3)]
  by (simp add: lexes_def lex_step_def option.map_comp o_def)

lemma in_lexes:
  assumes "lexes L c cs" and "lexes L x xs"
  shows "lexes L (c @ '' '' @ (if negated then ''not '' else []) @ ''in ('' @ x @ '')'')
           (cs @ negation negated @ [TWord ''in''] @ parens xs)"
  using lexesD [OF assms(1)] lexesD [OF assms(2)] by (simp add: lexes_def lex_char option.map_comp o_def)

lemma null_lexes:
  assumes "lexes L c cs"
  shows "lexes L (c @ '' is '' @ (if negated then ''not '' else []) @ ''null'') (cs @ [TWord ''is''] @ negation negated @ [TWord ''null''])"
  using lexesD [OF assms] by (simp add: lexes_def lex_char option.map_comp o_def)

lemma between_lexes:
  assumes "lexes L c cs" and "lexes L x [a]" and "lexes L y [b]"
  shows "lexes L (c @ '' between '' @ x @ '' and '' @ y) (cs @ [TWord ''between'', a, TWord ''and'', b])"
  using lexesD [OF assms(1)] lexesD [OF assms(2)] lexesD [OF assms(3)] by (simp add: lexes_def lex_char option.map_comp o_def)

lemma group_lexes: "lexes L x xs \<Longrightarrow> lexes L (''('' @ x @ '')'') (parens xs)"
  using lexesD [of L x xs] by (simp add: lexes_def lex_char option.map_comp o_def)

lemma literal_lexes: "lexes L (if negated then ''true'' else ''false'') [TWord (if negated then ''true'' else ''false'')]"
  by (simp add: lexes_def lex_char)

abbreviation reads_as :: "Condition \<Rightarrow> Value list \<Rightarrow> string \<times> Value list \<Rightarrow> bool" where
  "reads_as c params r \<equiv> lexes L (fst r) (cond_tokens L (length params) c) \<and> snd r = params @ cond_values c"

lemma rendered_rest:
  assumes "\<And>c params r. c \<in> set cs \<Longrightarrow> render_condition d c params = Inr r \<Longrightarrow> reads_as c params r"
    and "render_rest d first cs params = Inr (t, params1)"
  shows "lexes L t (conds_tokens L (length params) first cs) \<and> params1 = params @ conds_values cs \<and> (first \<or> boundary t)"
  using assms
proof (induction cs arbitrary: first params t params1)
  case (Cons c cs)
  from Cons.prems(2) obtain x p1 y where
    x: "render_condition d c params = Inr (x, p1)" and y: "render_rest d False cs p1 = Inr (y, params1)"
    and t: "t = (if first then [] else if is_or c then '' or '' else '' and '') @ x @ y"
    by (auto simp: and_then_Inr_iff)
  have c: "lexes L x (cond_tokens L (length params) c)" "p1 = params @ cond_values c" using Cons.prems(1) [OF _ x] by auto
  have cs: "lexes L y (conds_tokens L (length p1) False cs)" "params1 = p1 @ conds_values cs" "boundary y"
    using Cons.IH [OF Cons.prems(1) y] by auto
  have xy: "lexes L (x @ y) (cond_tokens L (length params) c @ conds_tokens L (length p1) False cs)"
    by (rule lexes_append [OF c(1) cs(1,3)])
  have "lexes L ('' or '' @ x @ y) (TWord ''or'' # cond_tokens L (length params) c @ conds_tokens L (length p1) False cs)"
    "lexes L ('' and '' @ x @ y) (TWord ''and'' # cond_tokens L (length params) c @ conds_tokens L (length p1) False cs)"
    using lexesD [OF xy] by (simp_all add: lexes_def lex_char option.map_comp o_def)
  with xy c(2) cs(2) show ?case by (simp add: t)
qed simp

lemma rendered: "render_condition d c params = Inr r \<Longrightarrow> reads_as c params r"
proof (induction c arbitrary: params r)
  case (Comparison column operator v alt)
  then show ?case
    using comparison_lexes [OF column_lexes operator_lexes marking] by (auto simp: and_then_Inr_iff Let_def)
next
  case (InList column vs negated alt)
  show ?case
  proof (cases "vs = []")
    case True
    with InList literal_lexes [of negated] show ?thesis by (cases negated) auto
  next
    case False
    obtain ss p1 where ss: "push_all d vs params = (ss, p1)" by fastforce
    with InList False obtain c where c: "column_ref d column = Inr c"
      and r: "r = (c @ '' '' @ (if negated then ''not '' else []) @ ''in ('' @ join_with '', '' ss @ '')'', p1)"
      by (auto simp: and_then_Inr_iff Let_def)
    have "list_all2 (lexes L) ss (slots_from L (length params) (length vs))" "p1 = params @ vs" using pushed [OF ss] by auto
    with in_lexes [OF column_lexes [OF c] lexes_join, of ss _ negated] False show ?thesis
      by (simp only: r fst_conv snd_conv cond_tokens.simps cond_values.simps if_False)
  qed
next
  case (IsNull column negated alt)
  then show ?case
    using null_lexes [OF column_lexes, of column _ negated] by (cases negated) (auto simp: and_then_Inr_iff)
next
  case (Between column low high alt)
  then show ?case
    using between_lexes [OF column_lexes marking marking] by (auto simp: and_then_Inr_iff Let_def)
next
  case (Group cs alt)
  then obtain t params1 where t: "render_rest d True cs params = Inr (t, params1)" "r = (''('' @ t @ '')'', params1)"
    by (auto simp: and_then_Inr_iff)
  with rendered_rest [OF Group.IH t(1)] group_lexes show ?case by (simp only: fst_conv snd_conv cond_tokens.simps cond_values.simps)
qed

lemma conditions_lex:
  "render_conditions d cs params = Inr (t, params1) \<Longrightarrow>
     lexes L t (conds_tokens L (length params) True cs) \<and> params1 = params @ conds_values cs"
  using rendered_rest [OF rendered, of cs True params t params1] by (simp add: render_conditions_def)

lemma kind_lexes:
  assumes "kind \<in> {''inner join'', ''left join''}"
  shows "lexes L kind (map TWord (split_on CHR '' '' kind))"
  using assms by (auto simp: lexes_def lex_char option.map_comp o_def)

lemma join_lexes:
  assumes "render_join d j = Inr t" and "join_kind j \<in> {''inner join'', ''left join''}"
  shows "lexes L t (join_tokens L j) \<and> boundary t"
proof -
  from assms(1) obtain u x l r where p: "check_operator (join_operator j) = Inr u" "quote_qualified d (join_table j) = Inr x"
      "column_ref d (join_left j) = Inr l" "column_ref d (join_right j) = Inr r"
    and t: "t = '' '' @ join_kind j @ '' '' @ x @ '' on '' @ l @ '' '' @ join_operator j @ '' '' @ r"
    by (auto simp: render_join_def and_then_Inr_iff)
  have "lexes L t (join_tokens L j)"
    using lexesD [OF kind_lexes [OF assms(2)]] lexesD [OF qualified_lexes [OF p(2)]] lexesD [OF column_lexes [OF p(3)]]
      lexesD [OF operator_lexes [OF p(1)]] lexesD [OF column_lexes [OF p(4)]]
    by (simp add: t join_tokens_def lexes_def lex_char option.map_comp o_def)
  then show ?thesis by (simp add: t)
qed

lemma columns_lex: "try_map (column_ref d) cs = Inr ts \<Longrightarrow> list_all2 (lexes L) ts (map column_tokens cs)"
  by (auto simp: try_map_Inr list_all2_conv_all_nth intro: column_lexes)

lemma order_lexes: "render_order d co = Inr t \<Longrightarrow> lexes L t (column_tokens (fst co) @ [TWord (direction_sql (snd co))])"
proof -
  assume "render_order d co = Inr t"
  then obtain c where c: "column_ref d (fst co) = Inr c" "t = c @ '' '' @ direction_sql (snd co)"
    by (auto simp: render_order_def and_then_Inr_iff)
  then show ?thesis using lexesD [OF column_lexes [OF c(1)]]
    by (cases "snd co") (simp_all add: lexes_def lex_char option.map_comp o_def)
qed

lemma clause_lexes:
  assumes "list_all2 (lexes L) ts tss" and "ts \<noteq> []" and "\<And>x xs. lexes L x xs \<Longrightarrow> lexes L (pre @ x) (map TWord ws @ xs)"
  shows "lexes L (pre @ join_with '', '' ts) (clause ws tss)"
proof -
  have "tss \<noteq> []" using assms(1,2) by auto
  then show ?thesis using assms(3) [OF lexes_join [OF assms(1)]] by simp
qed

lemma word_clauses:
  "lexes L x xs \<Longrightarrow> lexes L ('' group by '' @ x) (map TWord [''group'', ''by''] @ xs)"
  "lexes L x xs \<Longrightarrow> lexes L ('' order by '' @ x) (map TWord [''order'', ''by''] @ xs)"
  "lexes L x xs \<Longrightarrow> lexes L ('' where '' @ x) (TWord ''where'' # xs)"
  using lexesD [of L x xs] by (simp_all add: lexes_def lex_char option.map_comp o_def)

text \<open>The optional clauses: each is empty or starts at a boundary.\<close>

lemma where_clause:
  assumes "(if cs = [] then Inr ([], [])
      else and_then (render_conditions d cs []) (\<lambda>(t, params). Inr ('' where '' @ t, params))) = Inr (t, params)"
  shows "lexes L t (if cs = [] then [] else TWord ''where'' # conds_tokens L 0 True cs) \<and> boundary t \<and> params = conds_values cs"
  using assms conditions_lex [of cs "[]"] word_clauses(3) by (auto simp: and_then_Inr_iff split: if_splits)

lemma group_clause:
  assumes "(if g = [] then Inr [] else and_then (try_map (column_ref d) g) (\<lambda>r. Inr ('' group by '' @ join_with '', '' r))) = Inr t"
  shows "lexes L t (clause [''group'', ''by''] (map column_tokens g)) \<and> boundary t"
proof (cases "g = []")
  case False
  with assms obtain ts where ts: "try_map (column_ref d) g = Inr ts" "t = '' group by '' @ join_with '', '' ts"
    by (auto simp: and_then_Inr_iff)
  have l: "list_all2 (lexes L) ts (map column_tokens g)" by (rule columns_lex [OF ts(1)])
  with False have "ts \<noteq> []" by auto
  from clause_lexes [OF l this word_clauses(1)] show ?thesis by (simp only: ts(2)) simp
qed (use assms in simp)

lemma order_clause:
  assumes "(if g = [] then Inr [] else and_then (try_map (render_order d) g) (\<lambda>r. Inr ('' order by '' @ join_with '', '' r))) = Inr t"
  shows "lexes L t (clause [''order'', ''by''] (map (\<lambda>(c, dir). column_tokens c @ [TWord (direction_sql dir)]) g)) \<and> boundary t"
proof (cases "g = []")
  case False
  with assms obtain ts where ts: "try_map (render_order d) g = Inr ts" "t = '' order by '' @ join_with '', '' ts"
    by (auto simp: and_then_Inr_iff)
  have l: "list_all2 (lexes L) ts (map (\<lambda>(c, dir). column_tokens c @ [TWord (direction_sql dir)]) g)"
    using ts(1) order_lexes by (auto simp: try_map_Inr list_all2_conv_all_nth split_beta)
  with False have "ts \<noteq> []" by auto
  from clause_lexes [OF l this word_clauses(2)] show ?thesis by (simp only: ts(2)) simp
qed (use assms in simp)

lemma joins_lex:
  assumes "try_map (render_join d) js = Inr ts" and "\<forall>j\<in>set js. join_kind j \<in> {''inner join'', ''left join''}"
  shows "lexes L (concat ts) (concat (map (join_tokens L) js)) \<and> boundary (concat ts)"
proof (rule lexes_concat)
  have "list_all2 (\<lambda>j t. render_join d j = Inr t) js ts" using assms(1) by (simp add: try_map_Inr)
  then have "list_all2 (\<lambda>j t. lexes L t (join_tokens L j) \<and> boundary t) js ts"
    unfolding list_all2_conv_all_nth using assms(2) join_lexes by (metis nth_mem)
  then show "list_all2 (lexes L) ts (map (join_tokens L) js)" "\<forall>x\<in>set ts. boundary x"
    by (auto simp: list_all2_conv_all_nth in_set_conv_nth)
qed

lemma columns_clause:
  "render_columns d cs = Inr t \<Longrightarrow>
     lexes L t (if cs = [] then [TPunct CHR ''*''] else sep_tokens comma (map column_tokens cs))"
  using lexes_join [OF columns_lex] by (auto simp: render_columns_def and_then_Inr_iff lexes_def lex_char split: if_splits)

lemma select_lexes:
  assumes "to_sql d q = Inr (sql, params)" and "\<forall>j\<in>set (qb_joins q). join_kind j \<in> {''inner join'', ''left join''}"
  shows "lex_sql L sql = Some (select_tokens L paging q) \<and> params = conds_values (qb_conditions q)"
proof -
  from assms(1) obtain cols table joins conds group order where
      cols: "render_columns d (qb_columns q) = Inr cols" and table: "quote_qualified d (qb_table q) = Inr table"
    and joins: "try_map (render_join d) (qb_joins q) = Inr joins"
    and conds: "(if qb_conditions q = [] then Inr ([], [])
      else and_then (render_conditions d (qb_conditions q) []) (\<lambda>(t, params). Inr ('' where '' @ t, params))) = Inr (conds, params)"
    and group: "(if qb_group q = [] then Inr [] else and_then (try_map (column_ref d) (qb_group q)) (\<lambda>r. Inr ('' group by '' @ join_with '', '' r))) = Inr group"
    and order: "(if qb_order q = [] then Inr [] else and_then (try_map (render_order d) (qb_order q)) (\<lambda>r. Inr ('' order by '' @ join_with '', '' r))) = Inr order"
    and sql: "sql = ''select '' @ (if qb_distinct q then ''distinct '' else []) @ cols @ '' from '' @ table @ concat joins @
          conds @ group @ order @ limit_offset d (qb_limit q) (qb_offset q) (qb_order q \<noteq> [])"
    unfolding to_sql_def and_then_Inr_iff by (auto simp only: and_then_Inr_iff prod.case sum.inject prod.inject)
  define tail where "tail = table @ concat joins @ conds @ group @ order @ limit_offset d (qb_limit q) (qb_offset q) (qb_order q \<noteq> [])"
  note w = where_clause [OF conds] and g = group_clause [OF group] and o = order_clause [OF order]
    and js = joins_lex [OF joins assms(2)]
  have "lexes L tail (name_tokens (qb_table q) @ concat (map (join_tokens L) (qb_joins q)) @
     (if qb_conditions q = [] then [] else TWord ''where'' # conds_tokens L 0 True (qb_conditions q)) @
     clause [''group'', ''by''] (map column_tokens (qb_group q)) @
     clause [''order'', ''by''] (map (\<lambda>(c, dir). column_tokens c @ [TWord (direction_sql dir)]) (qb_order q)) @
     paging (qb_limit q) (qb_offset q) (qb_order q \<noteq> []))"
    unfolding tail_def
    by (intro lexes_append boundary_append qualified_lexes [OF table] js [THEN conjunct1] js [THEN conjunct2]
        w [THEN conjunct1] w [THEN conjunct2, THEN conjunct1] g [THEN conjunct1] g [THEN conjunct2]
        o [THEN conjunct1] o [THEN conjunct2] paged paged_boundary disjI2)
  note tl = lexes_all [OF this]
  have "lex_sql L sql = Some (select_tokens L paging q)"
    using lexesD [OF columns_clause [OF cols], of "'' from '' @ tail"]
    unfolding sql tail_def [symmetric] select_tokens_def
    by (simp add: lex_char option.map_comp o_def tl)
  then show ?thesis using w by simp
qed

subsection \<open>Writes\<close>

lemma row_lexes:
  "insert_row d columns row params = Inr (ss, params1) \<Longrightarrow>
     params1 = params @ map snd row \<and> list_all2 (lexes L) ss (slots_from L (length params) (length row))"
proof (induction row arbitrary: params ss)
  case (Cons cv row)
  obtain c v where cv: "cv = (c, v)" by (cases cv)
  from Cons.prems obtain rest where r: "insert_row d columns row (params @ [v]) = Inr (rest, params1)"
    "ss = placeholder d (length (params @ [v])) # rest"
    by (auto simp: cv Let_def and_then_Inr_iff split: if_splits)
  with Cons.IH [OF r(1)] marking show ?case by (simp add: cv slots_from_Suc)
qed (simp add: slots_from_def)

lemma rows_lex:
  "insert_rows d columns rows params = Inr (ps, params1) \<Longrightarrow>
     params1 = params @ concat (map (map snd) rows) \<and> length (concat (map (map snd) rows)) = length columns * length rows \<and>
     list_all2 (lexes L) ps (rows_tokens L (length params) (length columns) (length rows))"
proof (induction rows arbitrary: params ps)
  case (Cons row rows)
  from Cons.prems obtain ss p1 rest where r: "length row = length columns" "insert_row d columns row params = Inr (ss, p1)"
    "insert_rows d columns rows p1 = Inr (rest, params1)" "ps = (''('' @ join_with '', '' ss @ '')'') # rest"
    by (auto simp: and_then_Inr_iff split: if_splits)
  with row_lexes [OF r(2)] Cons.IH [OF r(3)] group_lexes [OF lexes_join] show ?case by simp
qed simp

lemma checked_columns: "try_map (quote_checked d) cs = Inr ts \<Longrightarrow> list_all2 (lexes L) ts (map (\<lambda>c. [TName c]) cs)"
  by (auto simp: try_map_Inr list_all2_conv_all_nth intro: checked_lexes)

lemma insert_lexes:
  assumes "to_insert_sql d rows ret q = Inr (sql, params)"
  shows "lex_sql L sql = Some (insert_tokens L (returning d) ret (qb_table q) (map fst (hd rows)) (length rows)) \<and>
    params = concat (map (map snd) rows) \<and> length (concat (map (map snd) rows)) = length (hd rows) * length rows"
proof -
  obtain row1 more where rows: "rows = row1 # more" using assms by (cases rows) (auto simp: to_insert_sql_def)
  from assms obtain ps table qs where
      ps: "insert_rows d (map fst row1) rows [] = Inr (ps, params)" and table: "quote_qualified d (qb_table q) = Inr table"
    and qs: "try_map (quote_checked d) (map fst row1) = Inr qs"
    and sql: "(case (ret, returning d) of
       (Some column, Suffix) \<Rightarrow> and_then (quote_checked d column) (\<lambda>c.
          Inr (''insert into '' @ table @ '' ('' @ join_with '', '' qs @ '') values '' @ join_with '', '' ps @ '' returning '' @ c))
     | (Some column, OutputClause) \<Rightarrow> and_then (quote_checked d column) (\<lambda>c.
          Inr (''insert into '' @ table @ '' ('' @ join_with '', '' qs @ '') output inserted.'' @ c @ '' values '' @ join_with '', '' ps))
     | _ \<Rightarrow> Inr (''insert into '' @ table @ '' ('' @ join_with '', '' qs @ '') values '' @ join_with '', '' ps)) = Inr sql"
    unfolding to_insert_sql_def rows list.case Let_def by (auto simp only: and_then_Inr_iff prod.case sum.inject prod.inject)
  note t = lexesD [OF qualified_lexes [OF table]] and c = lexesD [OF lexes_join [OF checked_columns [OF qs]]]
    and v = lexesD [OF lexes_join [OF rows_lex [OF ps, THEN conjunct2, THEN conjunct2]]]
    and v0 = lexes_all [OF lexes_join [OF rows_lex [OF ps, THEN conjunct2, THEN conjunct2]]]
  have plain: "lex_sql L (''insert into '' @ table @ '' ('' @ join_with '', '' qs @ '') values '' @ join_with '', '' ps) =
      Some (insert_tokens L (SeparateQuery x) r (qb_table q) (map fst (hd rows)) (length rows))" for x r
    using t c v0 by (cases r) (simp_all add: insert_tokens_def lex_char option.map_comp o_def rows)
  have "lex_sql L sql = Some (insert_tokens L (returning d) ret (qb_table q) (map fst (hd rows)) (length rows))"
  proof (cases ret)
    case None
    with sql plain [of _ None] show ?thesis by (cases "returning d") (auto simp: insert_tokens_def)
  next
    case (Some column)
    show ?thesis
    proof (cases "returning d")
      case Suffix
      with sql Some obtain x where "quote_checked d column = Inr x"
        "sql = ''insert into '' @ table @ '' ('' @ join_with '', '' qs @ '') values '' @ join_with '', '' ps @ '' returning '' @ x"
        by (auto simp: and_then_Inr_iff)
      with t c v lexes_all [OF checked_lexes] Some Suffix show ?thesis
        by (simp add: insert_tokens_def lex_char option.map_comp o_def rows)
    next
      case OutputClause
      with sql Some obtain x where "quote_checked d column = Inr x"
        "sql = ''insert into '' @ table @ '' ('' @ join_with '', '' qs @ '') output inserted.'' @ x @ '' values '' @ join_with '', '' ps"
        by (auto simp: and_then_Inr_iff)
      with t c v0 lexesD [OF checked_lexes] Some OutputClause show ?thesis
        by (simp add: insert_tokens_def lex_char option.map_comp o_def rows)
    next
      case (SeparateQuery y)
      with sql Some plain [of y ret] show ?thesis by simp
    qed
  qed
  then show ?thesis using rows_lex [OF ps] by (simp add: rows)
qed

lemma assignments_lex:
  "update_assignments d vs params = Inr (as, params1) \<Longrightarrow>
     params1 = params @ map snd vs \<and> list_all2 (lexes L) as (assign_tokens L (length params) (map fst vs))"
proof (induction vs arbitrary: params as)
  case (Cons cv vs)
  obtain c v where cv: "cv = (c, v)" by (cases cv)
  from Cons.prems obtain u rest where r: "validate_identifier c (max_identifier_length d) = Inr u"
    "update_assignments d vs (params @ [v]) = Inr (rest, params1)"
    "as = (quote d c @ '' = '' @ placeholder d (length (params @ [v]))) # rest"
    by (auto simp: cv Let_def and_then_Inr_iff)
  have "quote_checked d c = Inr (quote d c)" using r(1) by (simp add: quote_checked_def)
  then have "lexes L (quote d c @ '' = '' @ placeholder d (length (params @ [v]))) [TName c, TOp ''='', slot L (length params + 1)]"
    using lexesD [OF checked_lexes] lexesD [OF marking] by (simp add: lexes_def lex_char option.map_comp o_def)
  with r(3) Cons.IH [OF r(2)] show ?case by (simp add: cv)
qed simp

lemma update_lexes:
  assumes "to_update_sql d vs q = Inr (sql, params)"
  shows "lex_sql L sql = Some (update_tokens L (map fst vs) q) \<and> params = map snd vs @ conds_values (qb_conditions q) \<and>
    qb_conditions q \<noteq> []"
proof -
  from assms obtain as p1 table t where a: "update_assignments d vs [] = Inr (as, p1)" "quote_qualified d (qb_table q) = Inr table"
      "qb_conditions q \<noteq> []" "render_conditions d (qb_conditions q) p1 = Inr (t, params)"
      "sql = ''update '' @ table @ '' set '' @ join_with '', '' as @ '' where '' @ t"
    by (auto simp: to_update_sql_def and_then_Inr_iff split: if_splits)
  have p1: "p1 = map snd vs" "list_all2 (lexes L) as (assign_tokens L 0 (map fst vs))" using assignments_lex [OF a(1)] by auto
  have c: "lexes L t (conds_tokens L (length vs) True (qb_conditions q))" "params = p1 @ conds_values (qb_conditions q)"
    using conditions_lex [OF a(4)] p1(1) by auto
  have "lex_sql L sql = Some (update_tokens L (map fst vs) q)"
    using lexesD [OF qualified_lexes [OF a(2)]] lexesD [OF lexes_join [OF p1(2)]] lexes_all [OF c(1)]
    by (simp add: a(5) update_tokens_def lex_char option.map_comp o_def)
  with c(2) p1(1) a(3) show ?thesis by simp
qed

lemma delete_lexes:
  assumes "to_delete_sql d allow_all q = Inr (sql, params)"
  shows "lex_sql L sql = Some (delete_tokens L q) \<and> params = conds_values (qb_conditions q) \<and> (qb_conditions q = [] \<longrightarrow> allow_all)"
proof -
  from assms obtain table where table: "quote_qualified d (qb_table q) = Inr table" by (auto simp: to_delete_sql_def and_then_Inr_iff)
  note n = lexesD [OF qualified_lexes [OF table]] and n0 = lexes_all [OF qualified_lexes [OF table]]
  show ?thesis
  proof (cases "qb_conditions q = []")
    case True
    with assms table n0 show ?thesis
      by (auto simp: to_delete_sql_def delete_tokens_def lex_char option.map_comp o_def split: if_splits)
  next
    case False
    with assms table obtain t where t: "render_conditions d (qb_conditions q) [] = Inr (t, params)" "sql = ''delete from '' @ table @ '' where '' @ t"
      by (auto simp: to_delete_sql_def and_then_Inr_iff)
    with conditions_lex [OF t(1)] n lexes_all False show ?thesis
      by (auto simp: delete_tokens_def lex_char option.map_comp o_def)
  qed
qed

end

subsection \<open>Markers\<close>

text \<open>The operators of a query; on MySQL and SQLite one of the allowed operators is a marker itself.\<close>

fun cond_operators :: "Condition \<Rightarrow> string list"
  and conds_operators :: "Condition list \<Rightarrow> string list" where
  "cond_operators (Comparison column operator v alt) = [operator]"
| "cond_operators (InList column vs negated alt) = []"
| "cond_operators (IsNull column negated alt) = []"
| "cond_operators (Between column low high alt) = []"
| "cond_operators (Group cs alt) = conds_operators cs"
| "conds_operators [] = []"
| "conds_operators (c # cs) = cond_operators c @ conds_operators cs"

definition marks_free :: "lexicon \<Rightarrow> string list \<Rightarrow> bool" where
  "marks_free L operators \<longleftrightarrow> marker_style L = Positional \<longrightarrow> ''?'' \<notin> set operators"

lemma marks_simps [simp]:
  "marks [] = []" "marks (TWord w # ts) = marks ts" "marks (TName w # ts) = marks ts" "marks (TNumber w # ts) = marks ts"
  "marks (TOp w # ts) = marks ts" "marks (TPunct p # ts) = marks ts" "marks (TMark # ts) = TMark # marks ts" "marks (slot L n # ts) = slot L n # marks ts"
  "marks (ts @ us) = marks ts @ marks us"
  by (simp_all add: marks_def slot_def split: markers.splits)

lemma marks_words [simp]: "marks (map TWord ws) = []"
  by (induction ws) simp_all

lemma marks_sep: "marks sep = [] \<Longrightarrow> marks (sep_tokens sep tss) = concat (map marks tss)"
  by (induction sep tss rule: sep_tokens.induct) simp_all

lemma marks_names [simp]: "marks (name_tokens x) = []" "marks (column_tokens c) = []"
proof -
  show n: "marks (name_tokens x) = []" for x by (simp add: name_tokens_def marks_sep)
  show "marks (column_tokens c) = []" by (auto simp: column_tokens_def n split: option.splits)
qed

lemma marks_operator: "marks_free L [operator] \<Longrightarrow> marks (operator_tokens L operator) = []"
  by (auto simp: operator_tokens_def marks_free_def)

definition numbered :: "lexicon \<Rightarrow> nat \<Rightarrow> nat \<Rightarrow> token list" where
  "numbered L n k = map (slot L) [n + 1..<n + 1 + k]"

lemma numbered_0 [simp]: "numbered L n 0 = []"
  by (simp add: numbered_def)

lemma numbered_Suc: "numbered L n (Suc k) = slot L (n + 1) # numbered L (n + 1) k"
  unfolding numbered_def by (subst upt_conv_Cons) simp_all

lemma marks_slots: "concat (map marks (slots_from L n k)) = numbered L n k"
  by (simp add: slots_from_def numbered_def o_def del: upt_Suc)

lemma numbered_join: "numbered L n i @ numbered L (n + i) j = numbered L n (i + j)"
proof (induction i arbitrary: n)
  case (Suc i)
  from Suc [of "n + 1"] show ?case by (simp add: numbered_Suc)
qed simp

lemma concat_Nils [simp]: "concat (map (\<lambda>x. []) xs) = []"
  by simp

lemma marks_conds:
  "marks_free L (cond_operators c) \<Longrightarrow> marks (cond_tokens L n c) = numbered L n (length (cond_values c))"
  "marks_free L (conds_operators cs) \<Longrightarrow> marks (conds_tokens L n first cs) = numbered L n (length (conds_values cs))"
proof (induction L n c and L n first cs rule: cond_tokens_conds_tokens.induct)
  case (7 L n first c cs)
  then have "marks_free L (cond_operators c)" "marks_free L (conds_operators cs)" by (auto simp: marks_free_def)
  with 7 show ?case using numbered_join [of L n "length (cond_values c)" "length (conds_values cs)"] by simp
qed (simp_all add: marks_operator marks_sep marks_slots numbered_Suc)

lemma marks_rows: "marks (sep_tokens comma (rows_tokens L n k m)) = numbered L n (k * m)"
proof -
  have "concat (map marks (rows_tokens L n k m)) = numbered L n (k * m)"
  proof (induction m arbitrary: n)
    case (Suc m)
    then show ?case using numbered_join [of L n k "k * m"] by (simp add: marks_sep marks_slots)
  qed simp
  then show ?thesis by (simp add: marks_sep)
qed

lemma marks_assign: "concat (map marks (assign_tokens L n cs)) = numbered L n (length cs)"
proof (induction cs arbitrary: n)
  case (Cons c cs)
  then show ?case by (simp add: numbered_Suc)
qed simp

definition query_operators :: "QueryBuilder \<Rightarrow> string list" where
  "query_operators q = map join_operator (qb_joins q) @ conds_operators (qb_conditions q)"

lemma marks_select:
  assumes "marks_free L (query_operators q)" and "\<And>l off ordered. marks (paging l off ordered) = []"
  shows "marks (select_tokens L paging q) = numbered L 0 (length (conds_values (qb_conditions q)))"
proof -
  have j: "marks (join_tokens L j) = []" if "j \<in> set (qb_joins q)" for j
    using that assms(1) by (auto simp: join_tokens_def marks_free_def query_operators_def intro!: marks_operator)
  have m: "marks (concat tss) = concat (map marks tss)" for tss by (induction tss) simp_all
  have "marks (concat (map (join_tokens L) (qb_joins q))) = []" using j by (simp add: m)
  moreover have "marks_free L (conds_operators (qb_conditions q))" using assms(1) by (simp add: marks_free_def query_operators_def)
  ultimately show ?thesis
    using marks_conds(2) [of L "qb_conditions q" 0 True] assms(2)
    by (cases "qb_conditions q = []") (simp_all add: select_tokens_def marks_sep o_def split_beta)
qed

subsection \<open>Every query that can be built\<close>

inductive built :: "QueryBuilder \<Rightarrow> bool" where
  "built (new_query table)"
| "built q \<Longrightarrow> built (qb_select columns q)"
| "built q \<Longrightarrow> built (set_distinct q)"
| "built q \<Longrightarrow> built (filter_op column operator v q)"
| "built q \<Longrightarrow> built (or_filter_op column operator v q)"
| "built q \<Longrightarrow> built (filter_in column vs q)"
| "built q \<Longrightarrow> built (filter_not_in column vs q)"
| "built q \<Longrightarrow> built (filter_null column q)"
| "built q \<Longrightarrow> built (filter_not_null column q)"
| "built q \<Longrightarrow> built (filter_between column low high q)"
| "built q \<Longrightarrow> built (group_filter build q)"
| "built q \<Longrightarrow> built (or_group_filter build q)"
| "built q \<Longrightarrow> built (inner_join table left operator right q)"
| "built q \<Longrightarrow> built (left_join table left operator right q)"
| "built q \<Longrightarrow> built (order_by column direction q)"
| "built q \<Longrightarrow> built (group_by columns q)"
| "built q \<Longrightarrow> built (set_limit n q)"
| "built q \<Longrightarrow> built (set_offset n q)"

lemma built_more:
  assumes "built q"
  shows "built (qb_filter column v q)" "built (or_filter column v q)" "built (filter_like column v q)"
    "built (or_filter_like column v q)" "built (latest column q)" "built (qb_page page per_page q)"
proof -
  have "or_filter column v q = or_filter_op column ''='' v q" by (simp add: or_filter_def or_filter_op_def)
  with assms show "built (qb_filter column v q)" "built (or_filter column v q)" "built (filter_like column v q)"
    "built (or_filter_like column v q)" "built (latest column q)" "built (qb_page page per_page q)"
    by (simp_all add: qb_filter_def filter_like_def or_filter_like_def latest_def qb_page_def built.intros)
qed

lemma built_kinds: "built q \<Longrightarrow> \<forall>j\<in>set (qb_joins q). join_kind j \<in> {''inner join'', ''left join''}"
proof (induction rule: built.induct)
qed (auto simp: new_query_def qb_select_def set_distinct_def filter_op_def or_filter_op_def filter_in_def filter_not_in_def
    filter_null_def filter_not_null_def filter_between_def group_filter_def or_group_filter_def inner_join_def left_join_def
    add_join_def order_by_def group_by_def set_limit_def set_offset_def Let_def)

definition databases :: "(Dialect \<times> lexicon \<times> (int option \<Rightarrow> int option \<Rightarrow> bool \<Rightarrow> token list)) list" where
  "databases =
     [(Postgres, postgres_lexicon, postgres_paging), (Sqlite, sqlite_lexicon, sqlite_paging),
      (MySql, mysql_lexicon, mysql_paging), (SqlServer, sqlserver_lexicon, sqlserver_paging)]"

lemma databases_dialects: "(d, L, paging) \<in> set databases \<Longrightarrow> sql_dialect d L paging"
  unfolding databases_def
  using postgres.sql_dialect_axioms sqlite.sql_dialect_axioms mysql.sql_dialect_axioms sqlserver.sql_dialect_axioms by auto

subsection \<open>Theorems\<close>


lemmas builder_defs = new_query_def qb_select_def set_distinct_def filter_op_def qb_filter_def or_filter_def or_filter_op_def
  filter_in_def filter_not_in_def filter_null_def filter_between_def order_by_def set_limit_def set_offset_def qb_page_def

lemmas name_checks = quote_checked_def validate_identifier_def valid_identifier_def word_char_def word_start_def
  ascii_alphabetic_def ascii_digit_def quote_qualified_def quote_defs

lemmas column_checks = column_ref_def AGGREGATES_def strip_prefix_def name_checks

lemma equals_operator: "check_operator ''='' = Inr ()"
  by (simp add: check_operator_def ascii_lowercase_def lower_char_def ALLOWED_def)

lemma postgres_fields:
  "placeholder Postgres n = ''$'' @ show_nat n" "limit_offset Postgres = postgres_limit_offset" "returning Postgres = Suffix"
  by (simp_all add: Postgres_def)




text \<open>
  The values of a bulk insert are bound in the order of their own row: a second row that names the same columns in
  another order puts each value into the other column, and nothing is refused.
\<close>

theorem bulk_insert_swaps:
  "\<exists>sql. to_insert_sql Postgres [[(''a'', VInt 1), (''b'', VInt 2)], [(''b'', VInt 3), (''a'', VInt 4)]] None (new_query ''t'') =
       Inr (sql, [VInt 1, VInt 2, VInt 3, VInt 4]) \<and>
     lex_sql postgres_lexicon sql = Some (
       [TWord ''insert'', TWord ''into'', TName ''t''] @ parens [TName ''a'', TPunct CHR '','', TName ''b''] @ [TWord ''values''] @
       parens [TSlot 1, TPunct CHR '','', TSlot 2] @ comma @ parens [TSlot 3, TPunct CHR '','', TSlot 4])"
proof -
  have q: "quote_qualified Postgres ''t'' = Inr ([CHR 0x22] @ ''t'' @ [CHR 0x22])"
    "quote_checked Postgres ''a'' = Inr ([CHR 0x22] @ ''a'' @ [CHR 0x22])"
    "quote_checked Postgres ''b'' = Inr ([CHR 0x22] @ ''b'' @ [CHR 0x22])"
    by (simp_all add: name_checks Postgres_def)
  let ?rows = "[[(''a'', VInt 1), (''b'', VInt 2)], [(''b'', VInt 3), (''a'', VInt 4)]]"
  obtain sql where sql: "to_insert_sql Postgres ?rows None (new_query ''t'') = Inr (sql, [VInt 1, VInt 2, VInt 3, VInt 4])"
    by (simp add: to_insert_sql_def new_query_def postgres_fields q)
  have "insert_tokens postgres_lexicon Suffix None ''t'' [''a'', ''b''] 2 =
      [TWord ''insert'', TWord ''into'', TName ''t''] @ parens [TName ''a'', TPunct CHR '','', TName ''b''] @ [TWord ''values''] @
      parens [TSlot 1, TPunct CHR '','', TSlot 2] @ comma @ parens [TSlot 3, TPunct CHR '','', TSlot 4]"
    by (simp add: insert_tokens_def name_tokens_def slots_from_def slot_def postgres_lexicon_def upt_rec eval_nat_numeral)
  with postgres.insert_lexes [OF sql] sql show ?thesis by (auto simp: postgres_fields new_query_def eval_nat_numeral)
qed

text \<open>
  The operator \<open>?\<close> is on the list of allowed operators and is a parameter marker on MySQL and SQLite: one condition with
  it has two markers and one value.
\<close>

theorem question_operator_shifts:
  "\<exists>sql ts. to_sql MySql (filter_op ''tags'' ''?'' v (new_query ''users'')) = Inr (sql, [v]) \<and>
     lex_sql mysql_lexicon sql = Some ts \<and> marks ts = [TMark, TMark]"
proof -
  let ?q = "filter_op ''tags'' ''?'' v (new_query ''users'')"
  have "quote_qualified MySql ''users'' = Inr ([CHR 0x60] @ ''users'' @ [CHR 0x60])"
    "column_ref MySql ''tags'' = Inr ([CHR 0x60] @ ''tags'' @ [CHR 0x60])" "check_operator ''?'' = Inr ()"
    by (simp_all add: column_checks MySql_def check_operator_def ascii_lowercase_def lower_char_def ALLOWED_def)
  then obtain sql where sql: "to_sql MySql ?q = Inr (sql, [v])"
    by (simp add: to_sql_def render_columns_def render_conditions_def builder_defs)
  have "built ?q" by (intro built.intros)
  from mysql.select_lexes [OF sql built_kinds [OF this]] have "lex_sql mysql_lexicon sql = Some (select_tokens mysql_lexicon mysql_paging ?q)"
    by simp
  moreover have "marks (select_tokens mysql_lexicon mysql_paging ?q) = [TMark, TMark]"
    by (simp add: select_tokens_def builder_defs operator_tokens_def word_start_def ascii_alphabetic_def slot_def mysql_lexicon_def
        mysql_paging_def limit_tokens_def offset_tokens_def)
  ultimately show ?thesis using sql by blast
qed

text \<open>
  The condition of a cursor is added behind the conditions of the query without parentheses: behind an alternative it
  binds to the last alternative only, so rows before the cursor come back.
\<close>

theorem cursor_binds_to_last_alternative:
  "\<exists>sql. to_sql Postgres (cursor_query ''id'' (Some ''5'') 10 (or_filter ''b'' (VInt 2) (qb_filter ''a'' (VInt 1) (new_query ''t'')))) =
       Inr (sql, [VInt 1, VInt 2, VInt 5]) \<and>
     lex_sql postgres_lexicon sql = Some (
       [TWord ''select'', TPunct CHR ''*'', TWord ''from'', TName ''t'', TWord ''where'',
        TName ''a'', TOp ''='', TSlot 1, TWord ''or'', TName ''b'', TOp ''='', TSlot 2, TWord ''and'', TName ''id'', TOp ''>'', TSlot 3,
        TWord ''order'', TWord ''by'', TName ''id'', TWord ''asc'', TWord ''limit'', TNumber ''11''])"
proof -
  let ?q = "cursor_query ''id'' (Some ''5'') 10 (or_filter ''b'' (VInt 2) (qb_filter ''a'' (VInt 1) (new_query ''t'')))"
  have c: "decode_cursor ''5'' = VInt 5" by (simp add: decode_cursor_def parse_i64_def parse_digits_def)
  have "quote_qualified Postgres ''t'' = Inr ([CHR 0x22] @ ''t'' @ [CHR 0x22])"
    "column_ref Postgres ''a'' = Inr ([CHR 0x22] @ ''a'' @ [CHR 0x22])" "column_ref Postgres ''b'' = Inr ([CHR 0x22] @ ''b'' @ [CHR 0x22])"
    "column_ref Postgres ''id'' = Inr ([CHR 0x22] @ ''id'' @ [CHR 0x22])"
    by (simp_all add: column_checks Postgres_def)
  moreover have "check_operator ''>'' = Inr ()"
    by (simp add: check_operator_def ascii_lowercase_def lower_char_def ALLOWED_def)
  ultimately obtain sql where sql: "to_sql Postgres ?q = Inr (sql, [VInt 1, VInt 2, VInt 5])"
    by (simp add: to_sql_def render_columns_def render_conditions_def render_order_def builder_defs cursor_query_def clamp_per_page_def c equals_operator)
  have "built ?q" unfolding cursor_query_def Let_def option.case by (intro built.intros built_more)
  from postgres.select_lexes [OF sql built_kinds [OF this]]
  have "lex_sql postgres_lexicon sql = Some (select_tokens postgres_lexicon postgres_paging ?q)" by simp
  moreover have "select_tokens postgres_lexicon postgres_paging ?q =
      [TWord ''select'', TPunct CHR ''*'', TWord ''from'', TName ''t'', TWord ''where'',
       TName ''a'', TOp ''='', TSlot 1, TWord ''or'', TName ''b'', TOp ''='', TSlot 2, TWord ''and'', TName ''id'', TOp ''>'', TSlot 3,
       TWord ''order'', TWord ''by'', TName ''id'', TWord ''asc'', TWord ''limit'', TNumber ''11'']"
    by (simp add: select_tokens_def builder_defs cursor_query_def clamp_per_page_def c column_tokens_def name_tokens_def operator_tokens_def
        strip_prefix_def AGGREGATES_def word_start_def ascii_alphabetic_def slot_def postgres_lexicon_def postgres_paging_def
        limit_tokens_def offset_tokens_def show_nat.simps digit_char_def char_of_def bit_0)
  ultimately show ?thesis using sql by simp
qed

end
