(* ===== verification/ViewLexer.thy ===== *)
theory ViewLexer
  imports JsonText
begin

section \<open>Views: splitting a template\<close>

text \<open>
  \<open>rustlavel-view/src/source.rs\<close> and \<open>lexer.rs\<close>: positions of errors, and the lexer that cuts a
  template into literal text, echoes and directives.  Offsets are byte offsets into the source, as
  in the code; the loops are recursive functions over them.
\<close>

text \<open>
  An error with a position, any other error, a panic of the thread, and (in the functions that
  recurse over tokens) fuel that ran out.
\<close>

datatype ViewError = TemplateError string nat nat string | OtherError string | Panicked | NoFuel

definition em_dash :: string where
  "em_dash = [CHR 0xE2, CHR 0x80, CHR 0x94]"

subsection \<open>Positions\<close>

definition line_column :: "string \<Rightarrow> nat \<Rightarrow> nat \<times> nat" where
  "line_column source offset =
     (let offset1 = min offset (length source);
          consumed = take offset1 source;
          line = length (filter (\<lambda>c. c = CHR 0x0A) consumed) + 1;
          column = length (takeWhile (\<lambda>c. c \<noteq> CHR 0x0A) (rev consumed)) + 1
      in (line, column))"

definition syntax_error :: "string \<Rightarrow> string \<Rightarrow> nat \<Rightarrow> string \<Rightarrow> ViewError" where
  "syntax_error file source offset msg =
     (case line_column source offset of (l, c) \<Rightarrow> TemplateError file l c msg)"

record Span =
  span_file :: string
  span_source :: string
  span_offset :: nat
  span_text :: string

definition new_span :: "string \<Rightarrow> string \<Rightarrow> nat \<Rightarrow> nat \<Rightarrow> Span" where
  "new_span file source offset len =
     \<lparr>span_file = file, span_source = source, span_offset = offset, span_text = take len (drop offset source)\<rparr>"

definition span_error :: "Span \<Rightarrow> nat \<Rightarrow> string \<Rightarrow> ViewError" where
  "span_error sp at_offset msg = syntax_error (span_file sp) (span_source sp) (span_offset sp + at_offset) msg"

subsection \<open>Tokens\<close>

definition WITH_ARGUMENTS :: "string list" where
  "WITH_ARGUMENTS = [''if'', ''elseif'', ''foreach'', ''extends'', ''section'', ''yield'', ''include'', ''lang'', ''route'']"

definition WITHOUT_ARGUMENTS :: "string list" where
  "WITHOUT_ARGUMENTS = [''else'', ''endif'', ''endforeach'', ''endsection'']"

definition STRUCTURAL :: "string list" where
  "STRUCTURAL = [''if'', ''elseif'', ''else'', ''endif'', ''foreach'', ''endforeach'', ''section'', ''endsection'', ''extends'']"

datatype ViewToken =
    TextTok string
  | EchoTok string nat bool
  | DirectiveTok string string nat nat

record ViewLexer =
  lx_pos :: nat
  lx_text :: string
  lx_tokens :: "ViewToken list"

definition flush :: "ViewLexer \<Rightarrow> ViewLexer" where
  "flush st = (if lx_text st = [] then st else st\<lparr>lx_text := [], lx_tokens := lx_tokens st @ [TextTok (lx_text st)]\<rparr>)"

text \<open>The bytes at and after an offset start with a text.\<close>

definition starts_at :: "string \<Rightarrow> nat \<Rightarrow> string \<Rightarrow> bool" where
  "starts_at source i pre \<longleftrightarrow> take (length pre) (drop i source) = pre"

function skip_from :: "string \<Rightarrow> char \<Rightarrow> nat \<Rightarrow> nat" where
  "skip_from source q i =
     (if i < length source then
        if source ! i = CHR 0x5C then skip_from source q (i + 2)
        else if source ! i = q then i + 1
        else skip_from source q (i + 1)
      else i)"
  by pat_completeness auto
termination
  by (relation "measure (\<lambda>(source, q, i). length source - i)") auto

declare skip_from.simps [simp del]

definition skip_string :: "string \<Rightarrow> nat \<Rightarrow> nat" where
  "skip_string source start = skip_from source (source ! start) (start + 1)"

lemma skip_from_ge: "i \<le> skip_from source q i"
proof (induction source q i rule: skip_from.induct)
  case (1 source q i)
  then show ?case by (subst skip_from.simps) (cases "i < length source"; cases "source ! i = CHR 0x5C"; cases "source ! i = q"; simp)
qed

lemma skip_string_gt: "start < skip_string source start"
  using skip_from_ge [of "start + 1" source "source ! start"] by (simp add: skip_string_def)

definition is_quote :: "char \<Rightarrow> bool" where
  "is_quote c \<longleftrightarrow> c = CHR 0x22 \<or> c = CHR 0x27"

function close_from :: "string \<Rightarrow> string \<Rightarrow> bool \<Rightarrow> nat \<Rightarrow> nat option" where
  "close_from source close quoted i =
     (if i < length source then
        if quoted \<and> is_quote (source ! i) then close_from source close quoted (skip_string source i)
        else if starts_at source i close then Some i
        else close_from source close quoted (i + 1)
      else None)"
  by pat_completeness auto
termination
  by (relation "measure (\<lambda>(source, close, quoted, i). length source - i)") (use skip_string_gt diff_less_mono2 in auto)

declare close_from.simps [simp del]

definition find_close :: "string \<Rightarrow> string \<Rightarrow> string \<Rightarrow> nat \<Rightarrow> bool \<Rightarrow> string \<Rightarrow> ViewError + nat" where
  "find_close file source close start quoted opener =
     (case close_from source close quoted start of
        Some i \<Rightarrow> Inr i
      | None \<Rightarrow> Inl (syntax_error file source (start - length opener)
          (''`'' @ opener @ ''` is never closed '' @ em_dash @ '' add a matching `'' @ close @ ''`'')))"

text \<open>\<open>matching_paren\<close> starts at an opening parenthesis, so the depth is positive at every closing one.\<close>

function paren_from :: "string \<Rightarrow> nat \<Rightarrow> nat \<Rightarrow> nat option" where
  "paren_from source depth i =
     (if i < length source then
        if is_quote (source ! i) then paren_from source depth (skip_string source i)
        else if source ! i = CHR ''('' then paren_from source (depth + 1) (i + 1)
        else if source ! i = CHR '')'' then
          (if depth - 1 = 0 then Some i else paren_from source (depth - 1) (i + 1))
        else paren_from source depth (i + 1)
      else None)"
  by pat_completeness auto
termination
  by (relation "measure (\<lambda>(source, depth, i). length source - i)") (use skip_string_gt diff_less_mono2 in auto)

declare paren_from.simps [simp del]

definition matching_paren :: "string \<Rightarrow> string \<Rightarrow> nat \<Rightarrow> ViewError + nat" where
  "matching_paren file source at_paren =
     (case paren_from source 0 at_paren of
        Some i \<Rightarrow> Inr i
      | None \<Rightarrow> Inl (syntax_error file source at_paren ''`(` is never closed''))"

definition blank :: "char \<Rightarrow> bool" where
  "blank c \<longleftrightarrow> c = CHR '' '' \<or> c = CHR 0x09"

definition at_line_start :: "string \<Rightarrow> nat \<Rightarrow> bool" where
  "at_line_start source offset =
     (case find (\<lambda>c. \<not> blank c) (rev (take offset source)) of None \<Rightarrow> True | Some c \<Rightarrow> c = CHR 0x0A)"

definition line_end :: "string \<Rightarrow> nat \<Rightarrow> nat option" where
  "line_end source offset =
     (let i = offset + length (takeWhile blank (drop offset source)) in
      case drop i source of
        [] \<Rightarrow> Some i
      | c # r \<Rightarrow>
          if c = CHR 0x0A then Some (i + 1)
          else if c = CHR 0x0D \<and> r \<noteq> [] \<and> hd r = CHR 0x0A then Some (i + 2)
          else None)"

subsection \<open>The lexer\<close>

definition lex_echo :: "string \<Rightarrow> string \<Rightarrow> nat \<Rightarrow> string \<Rightarrow> bool \<Rightarrow> ViewLexer \<Rightarrow> ViewError + ViewLexer" where
  "lex_echo file source opening close escaped st =
     (let start = lx_pos st + opening in
      and_then (find_close file source close start True (take opening (drop (lx_pos st) source))) (\<lambda>stop.
      let st1 = flush st in
      Inr (st1\<lparr>lx_tokens := lx_tokens st1 @ [EchoTok (take (stop - start) (drop start source)) start escaped],
               lx_pos := stop + length close\<rparr>)))"

definition ascii_letter :: "char \<Rightarrow> bool" where
  "ascii_letter c \<longleftrightarrow> (let n = of_char c :: nat in 65 \<le> n \<and> n \<le> 90 \<or> 97 \<le> n \<and> n \<le> 122)"

definition trim_blanks :: "string \<Rightarrow> string" where
  "trim_blanks s = rev (dropWhile blank (rev s))"

text \<open>The arguments of a directive: their text, their offset, and the offset after them.\<close>

definition directive_arguments :: "string \<Rightarrow> string \<Rightarrow> string \<Rightarrow> nat \<Rightarrow> ViewError + (string \<times> nat \<times> nat)" where
  "directive_arguments file source name stop =
     (if name \<in> set WITH_ARGUMENTS then
        if take 1 (drop stop source) \<noteq> ''('' then Inl (syntax_error file source stop (''expected `(` after `@'' @ name @ ''`''))
        else and_then (matching_paren file source stop) (\<lambda>close.
             Inr (take (close - (stop + 1)) (drop (stop + 1) source), stop + 1, close + 1))
      else Inr ([], stop, stop))"

text \<open>The end of \<open>directive\<close>: the line is swallowed when the directive owns it by itself.\<close>

definition finish_directive :: "string \<Rightarrow> string \<Rightarrow> string \<Rightarrow> nat \<Rightarrow> nat \<Rightarrow> ViewLexer \<Rightarrow> ViewLexer" where
  "finish_directive source name arguments arguments_offset after st =
     (let start = lx_pos st;
          swallow = (if name \<in> set STRUCTURAL \<and> at_line_start source start then line_end source after else None);
          st1 = flush (case swallow of Some _ \<Rightarrow> st\<lparr>lx_text := trim_blanks (lx_text st)\<rparr> | None \<Rightarrow> st)
      in st1\<lparr>lx_tokens := lx_tokens st1 @ [DirectiveTok name arguments arguments_offset start],
             lx_pos := (case swallow of Some next_line \<Rightarrow> next_line | None \<Rightarrow> after)\<rparr>)"

text \<open>\<open>directive\<close>: \<open>None\<close> is its \<open>false\<close>.\<close>

definition lex_directive :: "string \<Rightarrow> string \<Rightarrow> ViewLexer \<Rightarrow> ViewError + ViewLexer option" where
  "lex_directive file source st =
     (let start = lx_pos st;
          name = takeWhile ascii_letter (drop (start + 1) source);
          stop = start + 1 + length name
      in if name = ''php'' \<or> name = ''endphp'' then
           Inl (syntax_error file source start
             (''`@php` is not supported '' @ em_dash @ '' compute the value in Rust and pass it to the view''))
         else if name \<notin> set WITH_ARGUMENTS \<and> name \<notin> set WITHOUT_ARGUMENTS then Inr None
         else and_then (directive_arguments file source name stop) (\<lambda>(arguments, arguments_offset, after).
           Inr (Some (finish_directive source name arguments arguments_offset after st))))"

definition opens :: "char \<Rightarrow> bool" where
  "opens c \<longleftrightarrow> c = CHR ''{'' \<or> c = CHR ''@''"

text \<open>One round of \<open>run\<close>.\<close>

definition view_lex_step :: "string \<Rightarrow> string \<Rightarrow> ViewLexer \<Rightarrow> ViewError + ViewLexer" where
  "view_lex_step file source st =
     (let pos = lx_pos st;
          plain = takeWhile (\<lambda>c. \<not> opens c) (drop pos source)
      in if plain \<noteq> [] then Inr (st\<lparr>lx_text := lx_text st @ plain, lx_pos := pos + length plain\<rparr>)
         else if starts_at source pos ''{{--'' then
           and_then (find_close file source ''--}}'' (pos + 4) False ''{{--'') (\<lambda>stop. Inr (st\<lparr>lx_pos := stop + 4\<rparr>))
         else if starts_at source pos ''{!!'' then lex_echo file source 3 ''!!}'' False st
         else if starts_at source pos ''{{'' then lex_echo file source 2 ''}}'' True st
         else if starts_at source pos ''@@'' then Inr (st\<lparr>lx_text := lx_text st @ ''@'', lx_pos := pos + 2\<rparr>)
         else if starts_at source pos (CHR 0x40 # ''{{'') then Inr (st\<lparr>lx_text := lx_text st @ ''{{'', lx_pos := pos + 3\<rparr>)
         else
           let other = st\<lparr>lx_text := lx_text st @ [source ! pos], lx_pos := pos + 1\<rparr> in
           if starts_at source pos ''@'' then
             and_then (lex_directive file source st) (\<lambda>r. case r of Some st1 \<Rightarrow> Inr st1 | None \<Rightarrow> Inr other)
           else Inr other)"

lemma close_from_bounds: "close_from source close quoted i = Some j \<Longrightarrow> i \<le> j \<and> starts_at source j close"
proof (induction source close quoted i rule: close_from.induct)
  case (1 source close quoted i)
  show ?case
  proof (cases "i < length source")
    case True
    with 1 skip_string_gt [of i source] show ?thesis
      by (simp add: close_from.simps [of source close quoted i] split: if_splits)
  next
    case False
    with "1.prems" show ?thesis by (simp add: close_from.simps [of source close quoted i])
  qed
qed

lemma paren_from_ge: "paren_from source depth i = Some j \<Longrightarrow> i \<le> j"
proof (induction source depth i rule: paren_from.induct)
  case (1 source depth i)
  show ?case
  proof (cases "i < length source")
    case True
    with 1 skip_string_gt [of i source] show ?thesis
      by (simp add: paren_from.simps [of source depth i] split: if_splits)
  next
    case False
    with "1.prems" show ?thesis by (simp add: paren_from.simps [of source depth i])
  qed
qed

lemma flush_simps [simp]: "lx_pos (flush st) = lx_pos st" "lx_text (flush st) = []"
  by (simp_all add: flush_def)

lemma find_close_ge: "find_close file source close start quoted opener = Inr i \<Longrightarrow> start \<le> i"
  using close_from_bounds by (auto simp: find_close_def split: option.splits)

lemma line_end_ge: "line_end source offset = Some i \<Longrightarrow> offset \<le> i"
  by (auto simp: line_end_def Let_def split: list.splits if_splits)

lemma finish_directive_ge: "after \<le> lx_pos (finish_directive source name arguments off after st)"
  by (auto simp: finish_directive_def Let_def dest: line_end_ge split: option.splits)

lemma directive_arguments_ge:
  "directive_arguments file source name stop = Inr (arguments, off, after) \<Longrightarrow> stop \<le> after"
  by (auto simp: directive_arguments_def matching_paren_def and_then_Inr_iff dest: paren_from_ge split: if_splits option.splits)

lemma directive_progress:
  assumes "lex_directive file source st = Inr (Some st1)"
  shows "lx_pos st < lx_pos st1"
proof -
  obtain name arguments off after where
    a: "directive_arguments file source name (lx_pos st + 1 + length name) = Inr (arguments, off, after)"
    and st1: "st1 = finish_directive source name arguments off after st"
    using assms unfolding lex_directive_def Let_def by (auto simp: and_then_Inr_iff split: if_splits)
  show ?thesis using directive_arguments_ge [OF a] finish_directive_ge [of after source name arguments off st] by (simp add: st1)
qed

lemma view_lex_progress:
  assumes "view_lex_step file source st = Inr st1"
  shows "lx_pos st < lx_pos st1"
  using assms directive_progress find_close_ge unfolding view_lex_step_def Let_def lex_echo_def
  by (fastforce simp: and_then_Inr_iff split: if_splits option.splits)

function view_lex_run :: "string \<Rightarrow> string \<Rightarrow> ViewLexer \<Rightarrow> ViewError + ViewLexer" where
  "view_lex_run file source st =
     (if lx_pos st < length source then
        case view_lex_step file source st of
          Inl e \<Rightarrow> Inl e
        | Inr st1 \<Rightarrow> view_lex_run file source st1
      else Inr (flush st))"
  by pat_completeness auto
termination
  by (relation "measure (\<lambda>(file, source, st). length source - lx_pos st)") (use view_lex_progress diff_less_mono2 in auto)

declare view_lex_run.simps [simp del]

definition view_tokenize :: "string \<Rightarrow> string \<Rightarrow> ViewError + ViewToken list" where
  "view_tokenize file source =
     and_then (view_lex_run file source \<lparr>lx_pos = 0, lx_text = [], lx_tokens = []\<rparr>) (\<lambda>st. Inr (lx_tokens st))"

end
