(* ===== verification/ViewExpr.thy ===== *)
theory ViewExpr
  imports ViewLexer
begin

section \<open>Views: values and expressions\<close>

text \<open>
  \<open>rustlavel-view/src/value.rs\<close>, \<open>context.rs\<close>, \<open>escape.rs\<close> and \<open>expr.rs\<close>: how a template reads a
  value, the scope of a render, HTML escaping, and the expression language with its tokenizer and
  its recursive-descent parser.
\<close>

subsection \<open>Values\<close>

fun truthy :: "Json \<Rightarrow> bool" where
  "truthy Null = False"
| "truthy (Bool b) = b"
| "truthy (Number n) = (n \<noteq> Finite 0 \<and> n \<noteq> NaN)"
| "truthy (String s) = (s \<noteq> [])"
| "truthy (Array items) = (items \<noteq> [])"
| "truthy (Object m) = (m \<noteq> [])"

datatype Ordering = Less | Equal | Greater

text \<open>\<open>f64::partial_cmp\<close> and \<open>str::cmp\<close>.\<close>

definition ordering_of :: "'a::linorder \<Rightarrow> 'a \<Rightarrow> Ordering" where
  "ordering_of a b = (if a < b then Less else if a = b then Equal else Greater)"

fun f64_rank :: "F64 \<Rightarrow> int \<times> rat" where
  "f64_rank (Finite r) = (0, r)"
| "f64_rank (Infinite neg) = (if neg then - 1 else 1, 0)"
| "f64_rank NaN = (0, 0)"

definition f64_partial_cmp :: "F64 \<Rightarrow> F64 \<Rightarrow> Ordering option" where
  "f64_partial_cmp a b =
     (if a = NaN \<or> b = NaN then None
      else let (i, r) = f64_rank a; (j, s) = f64_rank b in Some (if i = j then ordering_of r s else ordering_of i j))"

definition compare_values :: "Json \<Rightarrow> Json \<Rightarrow> Ordering option" where
  "compare_values l r =
     (case (l, r) of
        (Number a, Number b) \<Rightarrow> f64_partial_cmp a b
      | (String a, String b) \<Rightarrow> Some (ordering_of a b)
      | _ \<Rightarrow> None)"

definition show_f64_value :: "F64 \<Rightarrow> string" where
  "show_f64_value n =
     (case n of
        Finite x \<Rightarrow> show_f64 x
      | Infinite neg \<Rightarrow> if neg then ''-inf'' else ''inf''
      | NaN \<Rightarrow> ''NaN'')"

definition to_text :: "Json \<Rightarrow> string" where
  "to_text v =
     (case v of
        Null \<Rightarrow> []
      | Bool b \<Rightarrow> if b then ''true'' else ''false''
      | String s \<Rightarrow> s
      | Number n \<Rightarrow>
          (case n of
             Finite x \<Rightarrow> if x = of_int \<lfloor>x\<rfloor> \<and> \<bar>x\<bar> < 10 ^ 15 then show_int (i64_of_f64 x) else show_f64_value n
           | _ \<Rightarrow> show_f64_value n)
      | _ \<Rightarrow> json_to_string v)"

text \<open>The derived \<open>PartialEq\<close>: \<open>NaN\<close> is not equal to itself, wherever it is.\<close>

fun json_eq :: "Json \<Rightarrow> Json \<Rightarrow> bool"
  and json_list_eq :: "Json list \<Rightarrow> Json list \<Rightarrow> bool"
  and json_map_eq :: "(string \<times> Json) list \<Rightarrow> (string \<times> Json) list \<Rightarrow> bool" where
  "json_eq Null b = (b = Null)"
| "json_eq (Bool x) b = (b = Bool x)"
| "json_eq (Number x) b = (b = Number x \<and> x \<noteq> NaN)"
| "json_eq (String x) b = (b = String x)"
| "json_eq (Array xs) b = (case b of Array ys \<Rightarrow> json_list_eq xs ys | _ \<Rightarrow> False)"
| "json_eq (Object xs) b = (case b of Object ys \<Rightarrow> json_map_eq xs ys | _ \<Rightarrow> False)"
| "json_list_eq [] ys = (ys = [])"
| "json_list_eq (x # xs) ys = (case ys of [] \<Rightarrow> False | y # ys1 \<Rightarrow> json_eq x y \<and> json_list_eq xs ys1)"
| "json_map_eq [] ys = (ys = [])"
| "json_map_eq ((k, x) # xs) ys = (case ys of [] \<Rightarrow> False | (l, y) # ys1 \<Rightarrow> k = l \<and> json_eq x y \<and> json_map_eq xs ys1)"

subsection \<open>Escaping\<close>

definition escape_char :: "char \<Rightarrow> string" where
  "escape_char c =
     (if c = CHR ''&'' then ''&amp;''
      else if c = CHR ''<'' then ''&lt;''
      else if c = CHR ''>'' then ''&gt;''
      else if c = CHR 0x22 then ''&quot;''
      else if c = CHR 0x27 then ''&#39;''
      else [c])"

definition escape :: "string \<Rightarrow> string" where
  "escape s =
     (if \<exists>c\<in>set s. c \<in> {CHR ''&'', CHR ''<'', CHR ''>'', CHR 0x22, CHR 0x27} then concat (map escape_char s) else s)"

subsection \<open>Scopes\<close>

type_synonym ViewContext = "(string \<times> Json) list"

definition context_insert :: "string \<Rightarrow> Json \<Rightarrow> ViewContext \<Rightarrow> ViewContext" where
  "context_insert key v ctx = btree_insert key v ctx"

definition context_from_json :: "Json \<Rightarrow> ViewContext" where
  "context_from_json v = (case v of Object m \<Rightarrow> m | _ \<Rightarrow> [])"

record Scope =
  scope_context :: ViewContext
  scope_locals :: "(string \<times> Json) list"

definition new_scope :: "ViewContext \<Rightarrow> Scope" where
  "new_scope ctx = \<lparr>scope_context = ctx, scope_locals = []\<rparr>"

definition scope_push :: "string \<Rightarrow> Json \<Rightarrow> Scope \<Rightarrow> Scope" where
  "scope_push name v sc = sc\<lparr>scope_locals := scope_locals sc @ [(name, v)]\<rparr>"

definition scope_pop :: "Scope \<Rightarrow> Scope" where
  "scope_pop sc = sc\<lparr>scope_locals := butlast (scope_locals sc)\<rparr>"

definition scope_lookup :: "Scope \<Rightarrow> string \<Rightarrow> Json option" where
  "scope_lookup sc path =
     (let root = takeWhile (\<lambda>c. c \<noteq> CHR ''.'') path;
          rest = dropWhile (\<lambda>c. c \<noteq> CHR ''.'') path;
          v = (case find (\<lambda>(name, _). name = root) (rev (scope_locals sc)) of
                 Some (_, v) \<Rightarrow> Some v
               | None \<Rightarrow> map_of (scope_context sc) root)
      in case v of
           None \<Rightarrow> None
         | Some v \<Rightarrow> (case rest of [] \<Rightarrow> Some v | _ # path1 \<Rightarrow> json_get v path1))"

subsection \<open>Expressions\<close>

datatype BinaryOp = OpOr | OpAnd | OpEq | OpNe | OpLt | OpLe | OpGt | OpGe

datatype Expr =
    EPath string
  | EStr string
  | ENumber F64
  | EBool bool
  | ENull
  | ENot Expr
  | EBinary BinaryOp Expr Expr

fun expr_eval :: "Scope \<Rightarrow> Expr \<Rightarrow> Json" where
  "expr_eval sc (EPath path) = (case scope_lookup sc path of Some v \<Rightarrow> v | None \<Rightarrow> Null)"
| "expr_eval sc (EStr s) = String s"
| "expr_eval sc (ENumber n) = Number n"
| "expr_eval sc (EBool b) = Bool b"
| "expr_eval sc ENull = Null"
| "expr_eval sc (ENot e) = Bool (\<not> truthy (expr_eval sc e))"
| "expr_eval sc (EBinary op l r) =
     Bool (case op of
       OpAnd \<Rightarrow> truthy (expr_eval sc l) \<and> truthy (expr_eval sc r)
     | OpOr \<Rightarrow> truthy (expr_eval sc l) \<or> truthy (expr_eval sc r)
     | OpEq \<Rightarrow> json_eq (expr_eval sc l) (expr_eval sc r)
     | OpNe \<Rightarrow> \<not> json_eq (expr_eval sc l) (expr_eval sc r)
     | OpLt \<Rightarrow> compare_values (expr_eval sc l) (expr_eval sc r) = Some Less
     | OpLe \<Rightarrow> compare_values (expr_eval sc l) (expr_eval sc r) \<in> {Some Less, Some Equal}
     | OpGt \<Rightarrow> compare_values (expr_eval sc l) (expr_eval sc r) = Some Greater
     | OpGe \<Rightarrow> compare_values (expr_eval sc l) (expr_eval sc r) \<in> {Some Greater, Some Equal})"

subsection \<open>Tokens of an expression\<close>

datatype ExprTok =
    XPath string
  | XStr string
  | XNumber F64
  | XTrue
  | XFalse
  | XNull
  | XNot
  | XAnd
  | XOr
  | XEq
  | XNe
  | XLt
  | XLe
  | XGt
  | XGe
  | XOpen
  | XClose
  | XComma

fun describe :: "ExprTok \<Rightarrow> string" where
  "describe (XPath name) = ''`'' @ name @ ''`''"
| "describe (XStr s) = ''a string''"
| "describe (XNumber n) = ''a number''"
| "describe XTrue = ''`true`''"
| "describe XFalse = ''`false`''"
| "describe XNull = ''`null`''"
| "describe XNot = ''`!`''"
| "describe XAnd = ''`&&`''"
| "describe XOr = ''`||`''"
| "describe XEq = ''`==`''"
| "describe XNe = ''`!=`''"
| "describe XLt = ''`<`''"
| "describe XLe = ''`<=`''"
| "describe XGt = ''`>`''"
| "describe XGe = ''`>=`''"
| "describe XOpen = ''`(`''"
| "describe XClose = ''`)`''"
| "describe XComma = ''`,`''"

text \<open>\<open>byte as char\<close>, pushed onto a string.\<close>

definition latin1_utf8 :: "char \<Rightarrow> string" where
  "latin1_utf8 c =
     (let n = of_char c :: nat in if n < 128 then [c] else [char_of (192 + n div 64), char_of (128 + n mod 64)])"

definition escape_of :: "char \<Rightarrow> string" where
  "escape_of c =
     (if c = CHR ''n'' then [CHR 0x0A] else if c = CHR ''t'' then [CHR 0x09] else if c = CHR ''r'' then [CHR 0x0D]
      else latin1_utf8 c)"

text \<open>
  A run of plain bytes is copied as a slice of the text, which panics when it starts inside a
  character: that is at a continuation byte.
\<close>

definition continuation :: "char \<Rightarrow> bool" where
  "continuation c \<longleftrightarrow> (let n = of_char c :: nat in 128 \<le> n \<and> n < 192)"

function literal_from :: "Span \<Rightarrow> nat \<Rightarrow> char \<Rightarrow> string \<Rightarrow> nat \<Rightarrow> ViewError + (string \<times> nat)" where
  "literal_from sp start q acc i =
     (let bytes = span_text sp in
      if i < length bytes then
        if bytes ! i = CHR 0x5C then
          (if i + 1 < length bytes then literal_from sp start q (acc @ escape_of (bytes ! (i + 1))) (i + 2)
           else Inl (span_error sp start ''unterminated string''))
        else if bytes ! i = q then Inr (acc, i + 1)
        else if continuation (bytes ! i) then Inl Panicked
        else
          let plain = takeWhile (\<lambda>c. c \<noteq> q \<and> c \<noteq> CHR 0x5C) (drop i bytes)
          in literal_from sp start q (acc @ plain) (i + length plain)
      else Inl (span_error sp start ''unterminated string''))"
  by pat_completeness auto
termination
proof (relation "measure (\<lambda>(sp, start, q, acc, i). length (span_text sp) - i)", goal_cases)
  case (3 sp start q acc i bytes plain)
  then have "drop i bytes = bytes ! i # drop (i + 1) bytes" by (simp add: Cons_nth_drop_Suc)
  with 3 have "0 < length plain" by simp
  then have "i < i + length plain" by linarith
  with 3 have "length (span_text sp) - (i + length plain) < length (span_text sp) - i" by (intro diff_less_mono2) auto
  then show ?case by simp
qed auto

declare literal_from.simps [simp del]

definition string_literal :: "Span \<Rightarrow> nat \<Rightarrow> ViewError + (string \<times> nat)" where
  "string_literal sp start = literal_from sp start (span_text sp ! start) [] (start + 1)"

definition number_literal :: "Span \<Rightarrow> nat \<Rightarrow> ViewError + (F64 \<times> nat)" where
  "number_literal sp start =
     (let bytes = span_text sp;
          first = start + (if bytes ! start = CHR ''-'' then 1 else 0);
          i = first + length (takeWhile (\<lambda>c. is_digit c \<or> c = CHR ''.'') (drop first bytes))
      in case parse_f64 (take (i - start) (drop start bytes)) of
           Some n \<Rightarrow> Inr (n, i)
         | None \<Rightarrow> Inl (span_error sp start ''invalid number''))"

definition path_char :: "char \<Rightarrow> bool" where
  "path_char c \<longleftrightarrow> ascii_letter c \<or> is_digit c \<or> c = CHR ''_'' \<or> c = CHR ''.''"

fun has_double_point :: "string \<Rightarrow> bool" where
  "has_double_point (a # b # s) = (a = CHR ''.'' \<and> b = CHR ''.'' \<or> has_double_point (b # s))"
| "has_double_point _ = False"

definition word_token :: "string \<Rightarrow> ExprTok" where
  "word_token w =
     (if w = ''true'' then XTrue else if w = ''false'' then XFalse else if w = ''null'' \<or> w = ''nil'' then XNull else XPath w)"

text \<open>One round of the loop of \<open>tokenize\<close>: the token that starts at an offset, if any, and the offset after it.\<close>

definition expr_token :: "Span \<Rightarrow> nat \<Rightarrow> ViewError + (ExprTok option \<times> nat)" where
  "expr_token sp i =
     (let bytes = span_text sp; c = bytes ! i; two = (take 1 (drop (i + 1) bytes) = ''='') in
      if c \<in> {CHR '' '', CHR 0x09, CHR 0x0A, CHR 0x0D} then Inr (None, i + 1)
      else if is_quote c then and_then (string_literal sp i) (\<lambda>(v, next). Inr (Some (XStr v), next))
      else if is_digit c \<or> c = CHR ''-'' \<and> i + 1 < length bytes \<and> is_digit (bytes ! (i + 1)) then
        and_then (number_literal sp i) (\<lambda>(v, next). Inr (Some (XNumber v), next))
      else if ascii_letter c \<or> c = CHR ''_'' then
        (let w = takeWhile path_char (drop i bytes) in
         if last w = CHR ''.'' \<or> has_double_point w then Inl (span_error sp i ''a path segment is missing after `.`'')
         else Inr (Some (word_token w), i + length w))
      else if c = CHR ''('' then Inr (Some XOpen, i + 1)
      else if c = CHR '')'' then Inr (Some XClose, i + 1)
      else if c = CHR '','' then Inr (Some XComma, i + 1)
      else if c = CHR ''&'' then
        (if starts_at bytes i ''&&'' then Inr (Some XAnd, i + 2) else Inl (span_error sp i ''expected `&&`''))
      else if c = CHR ''|'' then
        (if starts_at bytes i ''||'' then Inr (Some XOr, i + 2) else Inl (span_error sp i ''expected `||`''))
      else if c = CHR ''='' then
        (if two then Inr (Some XEq, i + 2)
         else Inl (span_error sp i ''use `==` to compare; there is no assignment in a template''))
      else if c = CHR ''!'' then Inr (if two then (Some XNe, i + 2) else (Some XNot, i + 1))
      else if c = CHR ''<'' then Inr (if two then (Some XLe, i + 2) else (Some XLt, i + 1))
      else if c = CHR ''>'' then Inr (if two then (Some XGe, i + 2) else (Some XGt, i + 1))
      else Inl (span_error sp i (''unexpected character `'' @ latin1_utf8 c @ ''`'')))"

lemma literal_from_gt: "literal_from sp start q acc i = Inr (v, j) \<Longrightarrow> i < j"
proof (induction sp start q acc i rule: literal_from.induct)
  case (1 sp start q acc i)
  from "1.prems" show ?case
    apply (subst (asm) literal_from.simps)
    using "1.IH" by (fastforce simp: Let_def split: if_splits)
qed

lemma expr_token_progress:
  assumes "i < length (span_text sp)" and "expr_token sp i = Inr (t, j)"
  shows "i < j"
proof -
  have d: "drop i (span_text sp) = span_text sp ! i # drop (i + 1) (span_text sp)"
    using assms(1) by (simp add: Cons_nth_drop_Suc)
  have "string_literal sp i = Inr (v, k) \<Longrightarrow> i < k" for v k
    using literal_from_gt [of sp i "span_text sp ! i" "[]" "i + 1" v k] by (simp add: string_literal_def)
  moreover have "number_literal sp i = Inr (v, k) \<Longrightarrow> is_digit (span_text sp ! i) \<or> span_text sp ! i = CHR ''-'' \<Longrightarrow> i < k" for v k
    using d by (auto simp: number_literal_def Let_def split: option.splits if_splits)
  moreover have "ascii_letter (span_text sp ! i) \<or> span_text sp ! i = CHR ''_'' \<Longrightarrow> 0 < length (takeWhile path_char (drop i (span_text sp)))"
    using d by (auto simp: path_char_def)
  ultimately show ?thesis
    using assms(2) unfolding expr_token_def Let_def by (fastforce simp: and_then_Inr_iff split: if_splits)
qed

function expr_tokens :: "Span \<Rightarrow> nat \<Rightarrow> ViewError + (ExprTok \<times> nat) list" where
  "expr_tokens sp i =
     (if i < length (span_text sp) then
        case expr_token sp i of
          Inl e \<Rightarrow> Inl e
        | Inr (t, j) \<Rightarrow>
            and_then (expr_tokens sp j) (\<lambda>ts. Inr (case t of Some x \<Rightarrow> (x, i) # ts | None \<Rightarrow> ts))
      else Inr [])"
  by pat_completeness auto
termination
  by (relation "measure (\<lambda>(sp, i). length (span_text sp) - i)") (use expr_token_progress diff_less_mono2 in auto)

declare expr_tokens.simps [simp del]

subsection \<open>Parsing\<close>

text \<open>
  The cursor is the list of the tokens that are left.  The ladder of precedences is one function of
  its rung, from 4 for alternatives to 1 for comparisons, and 0 for negation; every call takes one
  unit of fuel.
\<close>

type_synonym cursor = "(ExprTok \<times> nat) list"

definition error_here :: "Span \<Rightarrow> cursor \<Rightarrow> string \<Rightarrow> ViewError" where
  "error_here sp ts msg = span_error sp (case ts of (_, offset) # _ \<Rightarrow> offset | [] \<Rightarrow> length (span_text sp)) msg"

text \<open>\<open>eat\<close>: whether the next token is this one.\<close>

definition eats :: "ExprTok \<Rightarrow> cursor \<Rightarrow> bool" where
  "eats t ts \<longleftrightarrow> (case ts of [] \<Rightarrow> False | (u, _) # _ \<Rightarrow> u = t)"

definition expect_end :: "Span \<Rightarrow> cursor \<Rightarrow> ViewError + unit" where
  "expect_end sp ts = (case ts of [] \<Rightarrow> Inr () | (t, _) # _ \<Rightarrow> Inl (error_here sp ts (''unexpected '' @ describe t)))"

definition rung :: "nat \<Rightarrow> (ExprTok \<times> BinaryOp) list" where
  "rung k =
     (if k = 4 then [(XOr, OpOr)]
      else if k = 3 then [(XAnd, OpAnd)]
      else if k = 2 then [(XEq, OpEq), (XNe, OpNe)]
      else if k = 1 then [(XLe, OpLe), (XGe, OpGe), (XLt, OpLt), (XGt, OpGt)]
      else [])"

fun expr_level :: "nat \<Rightarrow> nat \<Rightarrow> Span \<Rightarrow> cursor \<Rightarrow> ViewError + (Expr \<times> cursor)"
  and expr_chain :: "nat \<Rightarrow> nat \<Rightarrow> Span \<Rightarrow> Expr \<Rightarrow> cursor \<Rightarrow> ViewError + (Expr \<times> cursor)"
  and expr_primary :: "nat \<Rightarrow> Span \<Rightarrow> cursor \<Rightarrow> ViewError + (Expr \<times> cursor)" where
  "expr_level 0 k sp ts = Inl NoFuel"
| "expr_level (Suc n) 0 sp ts =
     (if eats XNot ts then and_then (expr_level n 0 sp (tl ts)) (\<lambda>(e, r1). Inr (ENot e, r1))
      else expr_primary n sp ts)"
| "expr_level (Suc n) (Suc k) sp ts = and_then (expr_level n k sp ts) (\<lambda>(left, r). expr_chain n (Suc k) sp left r)"
| "expr_chain 0 k sp left ts = Inl NoFuel"
| "expr_chain (Suc n) k sp left ts =
     (case ts of
        [] \<Rightarrow> Inr (left, ts)
      | (t, _) # r \<Rightarrow>
          (case map_of (rung k) t of
             Some op \<Rightarrow> and_then (expr_level n (k - 1) sp r) (\<lambda>(right, r1). expr_chain n k sp (EBinary op left right) r1)
           | None \<Rightarrow> Inr (left, ts)))"
| "expr_primary 0 sp ts = Inl NoFuel"
| "expr_primary (Suc n) sp ts =
     (case ts of
        [] \<Rightarrow> Inl (error_here sp ts ''unexpected end of expression'')
      | (t, _) # r \<Rightarrow>
          (case t of
             XOpen \<Rightarrow>
               and_then (expr_level n 4 sp r) (\<lambda>(inner, r1).
               if eats XClose r1 then Inr (inner, tl r1) else Inl (error_here sp r1 ''expected `)`''))
           | XPath name \<Rightarrow> Inr (EPath name, r)
           | XStr s \<Rightarrow> Inr (EStr s, r)
           | XNumber x \<Rightarrow> Inr (ENumber x, r)
           | XTrue \<Rightarrow> Inr (EBool True, r)
           | XFalse \<Rightarrow> Inr (EBool False, r)
           | XNull \<Rightarrow> Inr (ENull, r)
           | other \<Rightarrow> Inl (error_here sp ts (''unexpected '' @ describe other))))"

definition expression :: "Span \<Rightarrow> cursor \<Rightarrow> ViewError + (Expr \<times> cursor)" where
  "expression sp ts = expr_level (8 * length ts + 8) 4 sp ts"

definition expr_parse :: "Span \<Rightarrow> ViewError + Expr" where
  "expr_parse sp =
     and_then (expr_tokens sp 0) (\<lambda>ts.
     and_then (expression sp ts) (\<lambda>(e, r).
     and_then (expect_end sp r) (\<lambda>_. Inr e)))"

text \<open>The loop of \<open>parse_arguments\<close>.\<close>

fun expr_arguments :: "nat \<Rightarrow> Span \<Rightarrow> cursor \<Rightarrow> ViewError + (Expr list \<times> cursor)" where
  "expr_arguments 0 sp ts = Inl NoFuel"
| "expr_arguments (Suc n) sp ts =
     and_then (expression sp ts) (\<lambda>(e, r).
     if eats XComma r then and_then (expr_arguments n sp (tl r)) (\<lambda>(es, r2). Inr (e # es, r2))
     else Inr ([e], r))"

definition parse_arguments :: "Span \<Rightarrow> ViewError + Expr list" where
  "parse_arguments sp =
     and_then (expr_tokens sp 0) (\<lambda>ts.
     and_then (if ts = [] then Inr ([], ts) else expr_arguments (length ts + 1) sp ts) (\<lambda>(es, r).
     and_then (expect_end sp r) (\<lambda>_. Inr es)))"

definition path_of_head :: "cursor \<Rightarrow> string option" where
  "path_of_head ts = (case ts of [] \<Rightarrow> None | (t, _) # _ \<Rightarrow> (case t of XPath name \<Rightarrow> Some name | _ \<Rightarrow> None))"

definition parse_foreach :: "Span \<Rightarrow> ViewError + (Expr \<times> string)" where
  "parse_foreach sp =
     and_then (expr_tokens sp 0) (\<lambda>ts.
     and_then (expression sp ts) (\<lambda>(subject, r).
     if \<not> eats (XPath ''as'') r then Inl (error_here sp r ''expected `as`, like `@foreach(users as user)`'')
     else
       case path_of_head (tl r) of
         Some name \<Rightarrow>
           if CHR ''.'' \<in> set name then Inl (error_here sp (tl r) ''expected a variable name after `as`'')
           else and_then (expect_end sp (tl (tl r))) (\<lambda>_. Inr (subject, name))
       | None \<Rightarrow> Inl (error_here sp (tl r) ''expected a variable name after `as`'')))"

end
