(* ===== verification/ViewParser.thy ===== *)
theory ViewParser
  imports ViewExpr
begin

section \<open>Views: parsing a template\<close>

text \<open>
  \<open>rustlavel-view/src/ast.rs\<close> and \<open>parser.rs\<close>: the tree of a template, and the parser that builds
  it from the tokens.  The parser is a record of the tokens left, the layout and the sections; a
  block takes one unit of fuel for every token and every nested block, and
  the theorems show that the fuel given is enough.
\<close>

subsection \<open>The tree\<close>

record TemplateRef =
  ref_name :: string
  ref_file :: string
  ref_line :: nat
  ref_column :: nat

definition ref_error :: "TemplateRef \<Rightarrow> string \<Rightarrow> ViewError" where
  "ref_error r msg = TemplateError (ref_file r) (ref_line r) (ref_column r) msg"

datatype Node =
    NText string
  | NEcho Expr bool
  | NIf "(Expr \<times> Node list) list" "Node list option"
  | NForeach Expr string "Node list"
  | NYield string "Expr option"
  | NInclude TemplateRef
  | NLang string "(string \<times> Expr) list"
  | NRoute string "(string \<times> Expr) list"

record Template =
  tpl_name :: string
  tpl_nodes :: "Node list"
  tpl_extends :: "TemplateRef option"
  tpl_sections :: "(string \<times> Node list) list"

subsection \<open>The parser\<close>

record ViewParser =
  vp_tokens :: "ViewToken list"
  vp_file :: string
  vp_source :: string
  vp_extends :: "TemplateRef option"
  vp_sections :: "(string \<times> Node list) list"

abbreviation advance :: "ViewParser \<Rightarrow> ViewParser" where
  "advance p \<equiv> p\<lparr>vp_tokens := tl (vp_tokens p)\<rparr>"

definition vp_span :: "ViewParser \<Rightarrow> nat \<Rightarrow> nat \<Rightarrow> Span" where
  "vp_span p offset len = new_span (vp_file p) (vp_source p) offset len"

definition reference :: "ViewParser \<Rightarrow> string \<Rightarrow> nat \<Rightarrow> TemplateRef" where
  "reference p name offset =
     (case line_column (vp_source p) offset of
        (l, c) \<Rightarrow> \<lparr>ref_name = name, ref_file = vp_file p, ref_line = l, ref_column = c\<rparr>)"

definition vp_here :: "ViewParser \<Rightarrow> string \<Rightarrow> ViewError" where
  "vp_here p msg =
     syntax_error (vp_file p) (vp_source p)
       (case vp_tokens p of
          DirectiveTok _ _ _ offset # _ \<Rightarrow> offset
        | EchoTok _ offset _ # _ \<Rightarrow> offset
        | _ \<Rightarrow> length (vp_source p)) msg"

definition unexpected :: "ViewParser \<Rightarrow> string \<Rightarrow> nat \<Rightarrow> ViewError" where
  "unexpected p name offset =
     syntax_error (vp_file p) (vp_source p) offset
       (''`@'' @ name @ ''` has no matching `'' @
        (if name \<in> {''endif'', ''elseif'', ''else''} then ''@if''
         else if name = ''endforeach'' then ''@foreach''
         else if name = ''endsection'' then ''@section''
         else ''a block'') @ ''`'')"

text \<open>The name of the directive at the front, if there is one.\<close>

definition head_directive :: "ViewParser \<Rightarrow> string option" where
  "head_directive p = (case vp_tokens p of DirectiveTok name _ _ _ # _ \<Rightarrow> Some name | _ \<Rightarrow> None)"

definition close_block :: "string \<Rightarrow> string \<Rightarrow> nat \<Rightarrow> ViewParser \<Rightarrow> ViewError + ViewParser" where
  "close_block opener closer offset p =
     (if head_directive p = Some closer then Inr (advance p)
      else Inl (syntax_error (vp_file p) (vp_source p) offset
        (''`@'' @ opener @ ''` is never closed '' @ em_dash @ '' add `@'' @ closer @ ''`'')))"

definition literal_name :: "Expr list \<Rightarrow> Span \<Rightarrow> string \<Rightarrow> ViewError + string" where
  "literal_name es sp directive =
     (case es of
        EStr s # _ \<Rightarrow> Inr s
      | _ \<Rightarrow> Inl (span_error sp 0 (''`@'' @ directive @ ''` needs a quoted name, like `@'' @ directive @ ''('' @ [CHR 0x22] @
               ''layouts.app'' @ [CHR 0x22] @ '')`'')))"

definition template_name :: "Span \<Rightarrow> string \<Rightarrow> ViewError + string" where
  "template_name sp directive =
     and_then (parse_arguments sp) (\<lambda>arguments.
     if length arguments \<noteq> 1 then Inl (span_error sp 0 (''`@'' @ directive @ ''` takes exactly one view name''))
     else literal_name arguments sp directive)"

definition parse_extends :: "Span \<Rightarrow> nat \<Rightarrow> ViewParser \<Rightarrow> ViewError + ViewParser" where
  "parse_extends sp offset p =
     and_then (template_name sp ''extends'') (\<lambda>name.
     if vp_extends p \<noteq> None then Inl (span_error sp 0 ''a template can only `@extends` one layout'')
     else Inr (p\<lparr>vp_extends := Some (reference p name offset)\<rparr>))"

definition yield_section :: "Span \<Rightarrow> ViewError + Node" where
  "yield_section sp =
     and_then (parse_arguments sp) (\<lambda>arguments.
     if length arguments > 2 then Inl (span_error sp 0 ''`@yield` takes a name and an optional fallback'')
     else and_then (literal_name arguments sp ''yield'') (\<lambda>name.
          Inr (NYield name (if 1 < length arguments then Some (arguments ! 1) else None))))"

text \<open>The pairs of name and value behind the first argument of \<open>@lang\<close> and \<open>@route\<close>.\<close>

fun named_pairs :: "Span \<Rightarrow> Expr list \<Rightarrow> ViewError + (string \<times> Expr) list" where
  "named_pairs sp (name # v # rest) =
     (case name of
        EStr s \<Rightarrow> and_then (named_pairs sp rest) (\<lambda>ps. Inr ((s, v) # ps))
      | _ \<Rightarrow> Inl (span_error sp 0 (''a `@lang` placeholder name has to be quoted, like `@lang('' @ [CHR 0x22] @ ''mail.greeting'' @
               [CHR 0x22] @ '', '' @ [CHR 0x22] @ ''name'' @ [CHR 0x22] @ '', user.name)`'')))"
| "named_pairs sp _ = Inr []"

definition parse_lang :: "Span \<Rightarrow> ViewError + Node" where
  "parse_lang sp =
     and_then (parse_arguments sp) (\<lambda>arguments.
     and_then (literal_name arguments sp ''lang'') (\<lambda>key.
     if odd (length (tl arguments)) then
       Inl (span_error sp 0 (''`@lang` takes a key and then pairs of name and value, like `@lang('' @ [CHR 0x22] @ ''mail.greeting'' @
         [CHR 0x22] @ '', '' @ [CHR 0x22] @ ''name'' @ [CHR 0x22] @ '', user.name)` '' @ em_dash @ '' one name here has no value''))
     else and_then (named_pairs sp (tl arguments)) (\<lambda>replacements. Inr (NLang key replacements))))"

definition parse_route :: "Span \<Rightarrow> ViewError + Node" where
  "parse_route sp =
     and_then (parse_arguments sp) (\<lambda>arguments.
     and_then (literal_name arguments sp ''route'') (\<lambda>name.
     if odd (length (tl arguments)) then
       Inl (span_error sp 0 (''`@route` takes a route name and then pairs of parameter and value, like `@route('' @ [CHR 0x22] @
         ''users.show'' @ [CHR 0x22] @ '', '' @ [CHR 0x22] @ ''id'' @ [CHR 0x22] @ '', user.id)` '' @ em_dash @ '' one parameter here has no value''))
     else and_then (named_pairs sp (tl arguments)) (\<lambda>params. Inr (NRoute name params))))"

definition STOP :: "string list" where
  "STOP = [''elseif'', ''else'', ''endif'']"

text \<open>The insertion of a section, which must be the first of its name.\<close>

definition add_section :: "string \<Rightarrow> Node list \<Rightarrow> nat \<Rightarrow> ViewParser \<Rightarrow> ViewError + ViewParser" where
  "add_section name body offset p =
     (if map_of (vp_sections p) name \<noteq> None then
        Inl (syntax_error (vp_file p) (vp_source p) offset (''`'' @ name @ ''` is defined by two `@section` blocks in this template''))
      else Inr (p\<lparr>vp_sections := btree_insert name body (vp_sections p)\<rparr>))"

fun parse_block :: "nat \<Rightarrow> string list \<Rightarrow> ViewParser \<Rightarrow> ViewError + (Node list \<times> ViewParser)"
  and parse_directive :: "nat \<Rightarrow> string \<Rightarrow> Span \<Rightarrow> nat \<Rightarrow> ViewParser \<Rightarrow> ViewError + (Node list \<times> ViewParser)"
  and parse_branches :: "nat \<Rightarrow> (Expr \<times> Node list) list \<Rightarrow> Node list option \<Rightarrow> ViewParser \<Rightarrow> ViewError + (Node \<times> ViewParser)" where
  "parse_block 0 stop p = Inl NoFuel"
| "parse_block (Suc n) stop p =
     (case vp_tokens p of
        [] \<Rightarrow> Inr ([], p)
      | TextTok s # _ \<Rightarrow>
          and_then (parse_block n stop (advance p)) (\<lambda>(nodes, p1). Inr (NText s # nodes, p1))
      | EchoTok s offset escaped # _ \<Rightarrow>
          and_then (expr_parse (vp_span p offset (length s))) (\<lambda>e.
          and_then (parse_block n stop (advance p)) (\<lambda>(nodes, p1). Inr (NEcho e escaped # nodes, p1)))
      | DirectiveTok name arguments arguments_offset offset # _ \<Rightarrow>
          if name \<in> set stop then Inr ([], p)
          else
            and_then (parse_directive n name (vp_span p arguments_offset (length arguments)) offset (advance p)) (\<lambda>(here, p1).
            and_then (parse_block n stop p1) (\<lambda>(nodes, p2). Inr (here @ nodes, p2))))"
| "parse_directive 0 name sp offset p = Inl NoFuel"
| "parse_directive (Suc n) name sp offset p =
     (if name = ''if'' then
        and_then (expr_parse sp) (\<lambda>cond.
        and_then (parse_block n STOP p) (\<lambda>(body, p1).
        and_then (parse_branches n [(cond, body)] None p1) (\<lambda>(node, p2).
        and_then (close_block ''if'' ''endif'' offset p2) (\<lambda>p3. Inr ([node], p3)))))
      else if name = ''foreach'' then
        and_then (parse_foreach sp) (\<lambda>(subject, binding).
        and_then (parse_block n [''endforeach''] p) (\<lambda>(body, p1).
        and_then (close_block ''foreach'' ''endforeach'' offset p1) (\<lambda>p2. Inr ([NForeach subject binding body], p2))))
      else if name = ''section'' then
        and_then (parse_arguments sp) (\<lambda>arguments.
        and_then (literal_name arguments sp ''section'') (\<lambda>sname.
        and_then
          (if length arguments = 1 then
             and_then (parse_block n [''endsection''] p) (\<lambda>(body, p1).
             and_then (close_block ''section'' ''endsection'' offset p1) (\<lambda>p2. Inr (body, p2)))
           else if length arguments = 2 then Inr ([NEcho (arguments ! 1) True], p)
           else Inl (span_error sp 0 ''`@section` takes a name and an optional value'')) (\<lambda>(body, p1).
        and_then (add_section sname body offset p1) (\<lambda>p2. Inr ([], p2)))))
      else if name = ''extends'' then and_then (parse_extends sp offset p) (\<lambda>p1. Inr ([], p1))
      else if name = ''yield'' then and_then (yield_section sp) (\<lambda>node. Inr ([node], p))
      else if name = ''lang'' then and_then (parse_lang sp) (\<lambda>node. Inr ([node], p))
      else if name = ''route'' then and_then (parse_route sp) (\<lambda>node. Inr ([node], p))
      else if name = ''include'' then
        and_then (template_name sp ''include'') (\<lambda>vname. Inr ([NInclude (reference p vname offset)], p))
      else Inl (unexpected p name offset))"
| "parse_branches 0 branches otherwise p = Inl NoFuel"
| "parse_branches (Suc n) branches otherwise p =
     (case vp_tokens p of
        DirectiveTok name arguments arguments_offset offset # _ \<Rightarrow>
          if name = ''elseif'' then
            if otherwise \<noteq> None then Inl (vp_here p ''`@elseif` cannot follow `@else`'')
            else
              and_then (expr_parse (vp_span p arguments_offset (length arguments))) (\<lambda>cond.
              and_then (parse_block n STOP (advance p)) (\<lambda>(body, p1).
              parse_branches n (branches @ [(cond, body)]) otherwise p1))
          else if name = ''else'' then
            if otherwise \<noteq> None then Inl (vp_here p ''`@else` appears twice in one `@if`'')
            else
              and_then (parse_block n STOP (advance p)) (\<lambda>(body, p1).
              parse_branches n branches (Some body) p1)
          else Inr (NIf branches otherwise, p)
      | _ \<Rightarrow> Inr (NIf branches otherwise, p))"

definition view_parse :: "string \<Rightarrow> string \<Rightarrow> ViewError + Template" where
  "view_parse name source =
     and_then (view_tokenize name source) (\<lambda>tokens.
     and_then (parse_block (3 * length tokens + 3) []
       \<lparr>vp_tokens = tokens, vp_file = name, vp_source = source, vp_extends = None, vp_sections = []\<rparr>) (\<lambda>(nodes, p).
     Inr \<lparr>tpl_name = name, tpl_nodes = nodes, tpl_extends = vp_extends p, tpl_sections = vp_sections p\<rparr>))"

end
