(* ===== verification/ViewRender.thy ===== *)
theory ViewRender
  imports ViewParser
begin

section \<open>Views: rendering\<close>

text \<open>
  \<open>rustlavel-view/src/render.rs\<close> and \<open>engine.rs\<close>.  The files, the translator and the table of
  routes are not part of the crate: the files are a function from paths to what reading them gives,
  the other two are optional functions of the engine.  Rendering follows \<open>@yield\<close> and \<open>@include\<close> into
  other nodes; each such jump takes one unit of fuel, and \<open>NoFuel\<close> stands for a render that has not
  returned yet.
\<close>

subsection \<open>The engine\<close>

datatype ReadResult = ReadOk string | ReadMissing | ReadFailed string

record Engine =
  eng_root :: string
  eng_reload :: bool
  eng_cache :: "string \<rightharpoonup> Template"
  eng_translator :: "(string \<Rightarrow> string \<Rightarrow> (string \<times> string) list \<Rightarrow> string) option"
  eng_routes :: "(string \<Rightarrow> (string \<times> string) list \<Rightarrow> string option) option"

definition EXTENSION :: string where "EXTENSION = ''rl.html''"

definition MAX_LAYOUT_DEPTH :: nat where "MAX_LAYOUT_DEPTH = 16"

definition MAX_INCLUDE_DEPTH :: nat where "MAX_INCLUDE_DEPTH = 64"

definition new_engine :: "string \<Rightarrow> Engine" where
  "new_engine dir = \<lparr>eng_root = dir, eng_reload = False, eng_cache = Map.empty, eng_translator = None, eng_routes = None\<rparr>"

definition with_reload :: "bool \<Rightarrow> Engine \<Rightarrow> Engine" where
  "with_reload reload eng = eng\<lparr>eng_reload := reload\<rparr>"

definition with_translator :: "(string \<Rightarrow> string \<Rightarrow> (string \<times> string) list \<Rightarrow> string) \<Rightarrow> Engine \<Rightarrow> Engine" where
  "with_translator translator eng = eng\<lparr>eng_translator := Some translator\<rparr>"

definition clear_cache :: "Engine \<Rightarrow> Engine" where
  "clear_cache eng = eng\<lparr>eng_cache := Map.empty\<rparr>"

text \<open>\<open>name.split(['.', '/'])\<close>.\<close>

definition name_segments :: "string \<Rightarrow> string list" where
  "name_segments name = split_on CHR ''/'' (map (\<lambda>c. if c = CHR ''.'' then CHR ''/'' else c) name)"

text \<open>\<open>PathBuf::join\<close> with a relative path.\<close>

definition path_join :: "string \<Rightarrow> string \<Rightarrow> string" where
  "path_join dir path = (if dir = [] \<or> last dir = CHR ''/'' then dir @ path else dir @ ''/'' @ path)"

definition path_of :: "Engine \<Rightarrow> string \<Rightarrow> ViewError + string" where
  "path_of eng name =
     (if name = [] \<or> CHR 0x5C \<in> set name \<or> (\<exists>seg\<in>set (name_segments name). seg = [] \<or> seg = ''..'') then
        Inl (OtherError (''`'' @ name @ ''` is not a valid view name '' @ em_dash @ '' use dots or slashes, like `pages.home`''))
      else Inr (path_join (eng_root eng) (map (\<lambda>c. if c = CHR ''.'' then CHR ''/'' else c) name @ ''.'' @ EXTENSION)))"

text \<open>The half of \<open>load\<close> behind the cache: read the file and parse it.\<close>

definition load_file :: "(string \<Rightarrow> ReadResult) \<Rightarrow> Engine \<Rightarrow> string \<Rightarrow> ViewError + Template" where
  "load_file files eng name =
     and_then (path_of eng name) (\<lambda>path.
     case files path of
       ReadMissing \<Rightarrow> Inl (OtherError (''view `'' @ name @ ''` not found '' @ em_dash @ '' expected `'' @ path @ ''`''))
     | ReadFailed msg \<Rightarrow> Inl (OtherError msg)
     | ReadOk source \<Rightarrow> view_parse name source)"

definition engine_load :: "(string \<Rightarrow> ReadResult) \<Rightarrow> string \<Rightarrow> Engine \<Rightarrow> (ViewError + Template) \<times> Engine" where
  "engine_load files name eng =
     (case (if eng_reload eng then None else eng_cache eng name) of
        Some t \<Rightarrow> (Inr t, eng)
      | None \<Rightarrow>
          (case load_file files eng name of
             Inl e \<Rightarrow> (Inl e, eng)
           | Inr t \<Rightarrow> (Inr t, if eng_reload eng then eng else eng\<lparr>eng_cache := (eng_cache eng)(name \<mapsto> t)\<rparr>)))"

text \<open>A failure to load, blamed on the reference unless it has a position of its own.\<close>

definition blame :: "TemplateRef \<Rightarrow> ViewError \<Rightarrow> ViewError" where
  "blame r e = (case e of OtherError msg \<Rightarrow> ref_error r msg | _ \<Rightarrow> e)"

subsection \<open>The renderer\<close>

definition loop_variable :: "nat \<Rightarrow> nat \<Rightarrow> Json" where
  "loop_variable index cnt =
     json_object [(''index'', json_of_int (int index)), (''iteration'', json_of_int (int (index + 1))),
       (''first'', Bool (index = 0)), (''last'', Bool (index + 1 = cnt)), (''count'', json_of_int (int cnt))]"

definition fill_pairs :: "Scope \<Rightarrow> (string \<times> Expr) list \<Rightarrow> (string \<times> string) list" where
  "fill_pairs sc ps = map (\<lambda>(name, e). (name, to_text (expr_eval sc e))) ps"

definition render_route :: "Engine \<Rightarrow> Scope \<Rightarrow> string \<Rightarrow> (string \<times> Expr) list \<Rightarrow> ViewError + string" where
  "render_route eng sc name params =
     (case eng_routes eng of
        Some table \<Rightarrow>
          (case table name (fill_pairs sc params) of
             Some path \<Rightarrow> Inr (escape path)
           | None \<Rightarrow> Inl (OtherError (''`@route('' @ [CHR 0x22] @ name @ [CHR 0x22] @
               '')` names no route this application registered, or was not given every parameter the route'' @ [CHR 0x27] @
               ''s path needs. `rustlavel route:list` shows the names.'')))
      | None \<Rightarrow> Inl (OtherError (''`@route('' @ [CHR 0x22] @ name @ [CHR 0x22] @
          '')` was rendered by an engine with no route table. `App` fills it in when it finishes the router; '' @
          ''an engine built by hand and used outside one has to be given it.'')))"

definition render_lang :: "Engine \<Rightarrow> Scope \<Rightarrow> string \<Rightarrow> (string \<times> Expr) list \<Rightarrow> string" where
  "render_lang eng sc key replacements =
     (let locale = to_text (case scope_lookup sc ''app_locale'' of Some v \<Rightarrow> v | None \<Rightarrow> Null);
          text = (case eng_translator eng of Some translator \<Rightarrow> translator locale key (fill_pairs sc replacements) | None \<Rightarrow> key)
      in escape text)"

text \<open>The template of an \<open>@include\<close>, or why it cannot be rendered in place.\<close>

definition include_nodes :: "(string \<Rightarrow> ViewError + Template) \<Rightarrow> TemplateRef \<Rightarrow> nat \<Rightarrow> ViewError + Node list" where
  "include_nodes load r depth =
     (if depth \<ge> MAX_INCLUDE_DEPTH then
        Inl (ref_error r (''`@include` is nested too deeply '' @ em_dash @ '' does a partial include itself?''))
      else case load (ref_name r) of
        Inl e \<Rightarrow> Inl (blame r e)
      | Inr t \<Rightarrow>
          if tpl_extends t \<noteq> None then
            Inl (ref_error r (''`'' @ ref_name r @
              ''` uses `@extends`; an included partial is rendered in place and cannot extend a layout''))
          else Inr (tpl_nodes t))"

function render_nodes :: "nat \<Rightarrow> Engine \<Rightarrow> (string \<Rightarrow> ViewError + Template) \<Rightarrow> (string \<Rightarrow> Node list option) \<Rightarrow> nat \<Rightarrow> Scope \<Rightarrow> Node list \<Rightarrow> ViewError + string"
  and render_node :: "nat \<Rightarrow> Engine \<Rightarrow> (string \<Rightarrow> ViewError + Template) \<Rightarrow> (string \<Rightarrow> Node list option) \<Rightarrow> nat \<Rightarrow> Scope \<Rightarrow> Node \<Rightarrow> ViewError + string"
  and render_if :: "nat \<Rightarrow> Engine \<Rightarrow> (string \<Rightarrow> ViewError + Template) \<Rightarrow> (string \<Rightarrow> Node list option) \<Rightarrow> nat \<Rightarrow> Scope \<Rightarrow> (Expr \<times> Node list) list \<Rightarrow> Node list option \<Rightarrow> ViewError + string"
  and render_items :: "nat \<Rightarrow> Engine \<Rightarrow> (string \<Rightarrow> ViewError + Template) \<Rightarrow> (string \<Rightarrow> Node list option) \<Rightarrow> nat \<Rightarrow> Scope \<Rightarrow> string \<Rightarrow> Node list \<Rightarrow> nat \<Rightarrow> nat \<Rightarrow> Json list \<Rightarrow> ViewError + string" where
  "render_nodes n eng load sections depth sc [] = Inr []"
| "render_nodes n eng load sections depth sc (node # nodes) =
     and_then (render_node n eng load sections depth sc node) (\<lambda>a.
     and_then (render_nodes n eng load sections depth sc nodes) (\<lambda>b. Inr (a @ b)))"
| "render_node n eng load sections depth sc (NText s) = Inr s"
| "render_node n eng load sections depth sc (NEcho e escaped) =
     (let text = to_text (expr_eval sc e) in Inr (if escaped then escape text else text))"
| "render_node n eng load sections depth sc (NIf branches otherwise) = render_if n eng load sections depth sc branches otherwise"
| "render_node n eng load sections depth sc (NForeach subject binding body) =
     (case json_as_array (expr_eval sc subject) of
        None \<Rightarrow> Inr []
      | Some items \<Rightarrow> render_items n eng load sections depth sc binding body 0 (length items) items)"
| "render_node n eng load sections depth sc (NYield name def) =
     (case sections name of
        Some nodes \<Rightarrow> (case n of 0 \<Rightarrow> Inl NoFuel | Suc m \<Rightarrow> render_nodes m eng load sections depth sc nodes)
      | None \<Rightarrow> Inr (case def of Some e \<Rightarrow> escape (to_text (expr_eval sc e)) | None \<Rightarrow> []))"
| "render_node n eng load sections depth sc (NInclude r) =
     and_then (include_nodes load r depth) (\<lambda>nodes.
     case n of 0 \<Rightarrow> Inl NoFuel | Suc m \<Rightarrow> render_nodes m eng load sections (depth + 1) sc nodes)"
| "render_node n eng load sections depth sc (NLang key replacements) = Inr (render_lang eng sc key replacements)"
| "render_node n eng load sections depth sc (NRoute name params) = render_route eng sc name params"
| "render_if n eng load sections depth sc [] otherwise =
     (case otherwise of Some body \<Rightarrow> render_nodes n eng load sections depth sc body | None \<Rightarrow> Inr [])"
| "render_if n eng load sections depth sc ((cond, body) # branches) otherwise =
     (if truthy (expr_eval sc cond) then render_nodes n eng load sections depth sc body
      else render_if n eng load sections depth sc branches otherwise)"
| "render_items n eng load sections depth sc binding body index cnt [] = Inr []"
| "render_items n eng load sections depth sc binding body index cnt (item # items) =
     and_then (render_nodes n eng load sections depth
                 (scope_push ''loop'' (loop_variable index cnt) (scope_push binding item sc)) body) (\<lambda>a.
     and_then (render_items n eng load sections depth sc binding body (index + 1) cnt items) (\<lambda>b. Inr (a @ b)))"
  by pat_completeness auto
termination
proof (relation "inv_image (less_than <*lex*> less_than <*lex*> less_than)
    (case_sum (case_sum (\<lambda>(n, eng, load, sections, depth, sc, nodes). (n, 2 * size_list size nodes, 0))
                        (\<lambda>(n, eng, load, sections, depth, sc, node). (n, 2 * size node + 1, 0)))
              (case_sum (\<lambda>(n, eng, load, sections, depth, sc, branches, otherwise).
                           (n, 2 * (size_list (size_prod (\<lambda>_. 0) (size_list size)) branches + size_option (size_list size) otherwise), 0))
                        (\<lambda>(n, eng, load, sections, depth, sc, binding, body, index, cnt, items). (n, 2 * size_list size body + 1, length items))))", goal_cases)
qed auto

subsection \<open>Layouts\<close>

function layout_chain :: "(string \<Rightarrow> ViewError + Template) \<Rightarrow> Template list \<Rightarrow> ViewError + Template list" where
  "layout_chain load chain =
     (case tpl_extends (last chain) of
        None \<Rightarrow> Inr chain
      | Some parent \<Rightarrow>
          if \<exists>t\<in>set chain. tpl_name t = ref_name parent then
            Inl (ref_error parent (''`'' @ ref_name parent @ ''` is already in this `@extends` chain '' @ em_dash @ '' layouts cannot loop''))
          else if length chain \<ge> MAX_LAYOUT_DEPTH then
            Inl (ref_error parent (''layouts are stacked more than '' @ show_nat MAX_LAYOUT_DEPTH @ '' deep '' @ em_dash @ '' flatten them''))
          else case load (ref_name parent) of
            Inl e \<Rightarrow> Inl (blame parent e)
          | Inr layout \<Rightarrow> layout_chain load (chain @ [layout]))"
  by pat_completeness auto
termination
  by (relation "measure (\<lambda>(load, chain). MAX_LAYOUT_DEPTH - length chain)") auto

declare layout_chain.simps [simp del]

text \<open>The sections of the chain: the first template that defines one wins.\<close>

definition chain_sections :: "Template list \<Rightarrow> string \<Rightarrow> Node list option" where
  "chain_sections chain = map_of (concat (map tpl_sections chain))"

definition render_template ::
  "nat \<Rightarrow> Engine \<Rightarrow> (string \<Rightarrow> ViewError + Template) \<Rightarrow> Template \<Rightarrow> ViewContext \<Rightarrow> ViewError + string" where
  "render_template n eng load t ctx =
     and_then (layout_chain load [t]) (\<lambda>chain.
     render_nodes n eng load (chain_sections chain) 0 (new_scope ctx) (tpl_nodes (last chain)))"

text \<open>
  During one render the files do not change, so a template that one load puts into the cache is the
  one that a later load would parse (\<open>engine_load_again\<close>): every load of a render is a load from
  the engine as it was at the start.
\<close>

definition engine_loader :: "(string \<Rightarrow> ReadResult) \<Rightarrow> Engine \<Rightarrow> string \<Rightarrow> ViewError + Template" where
  "engine_loader files eng name = fst (engine_load files name eng)"

definition engine_render :: "nat \<Rightarrow> (string \<Rightarrow> ReadResult) \<Rightarrow> Engine \<Rightarrow> string \<Rightarrow> ViewContext \<Rightarrow> ViewError + string" where
  "engine_render n files eng name ctx =
     and_then (engine_loader files eng name) (\<lambda>t. render_template n eng (engine_loader files eng) t ctx)"

definition render_source :: "nat \<Rightarrow> (string \<Rightarrow> ReadResult) \<Rightarrow> Engine \<Rightarrow> string \<Rightarrow> string \<Rightarrow> ViewContext \<Rightarrow> ViewError + string" where
  "render_source n files eng name source ctx =
     and_then (view_parse name source) (\<lambda>t. render_template n eng (engine_loader files eng) t ctx)"

lemma load_file_root: "eng_root eng1 = eng_root eng \<Longrightarrow> load_file files eng1 name = load_file files eng name"
  by (simp add: load_file_def path_of_def)

lemma engine_load_again:
  assumes "engine_load files a eng = (r, eng1)"
  shows "fst (engine_load files b eng1) = fst (engine_load files b eng)"
proof (cases "eng1 = eng")
  case False
  with assms obtain t where t: "load_file files eng a = Inr t" "\<not> eng_reload eng" "eng_cache eng a = None"
      "eng1 = eng\<lparr>eng_cache := (eng_cache eng)(a \<mapsto> t)\<rparr>"
    by (auto simp: engine_load_def split: option.splits sum.splits if_splits)
  then show ?thesis using load_file_root [of eng1 eng files b] by (auto simp: engine_load_def split: option.splits sum.splits)
qed simp

end
