(* ===== verification/ViewProof.thy ===== *)
theory ViewProof
  imports ViewRender
begin

section \<open>Views: what the engine guarantees\<close>

text \<open>
  Parsing always ends with a template or an error; whatever the data, a page made from templates
  without \<open>{!!\<close> is their literal text and escaped data; and rendering ends when no section or
  partial contains a \<open>@yield\<close>, while a section that yields itself never ends.
\<close>

subsection \<open>Fuel\<close>

text \<open>A result that is not out of fuel and leaves fewer tokens than a bound.\<close>

definition returns :: "nat \<Rightarrow> ViewError + ('a \<times> 'b list) \<Rightarrow> bool" where
  "returns m r \<longleftrightarrow> r \<noteq> Inl NoFuel \<and> (\<forall>e t. r = Inr (e, t) \<longrightarrow> length t < m)"

lemma returns_and_then:
  assumes "returns m r" and "\<And>e t. r = Inr (e, t) \<Longrightarrow> length t < m \<Longrightarrow> returns m' (f (e, t))"
  shows "returns m' (and_then r f)"
  using assms by (cases r) (auto simp: returns_def)

lemma returns_simps [simp]:
  "returns m (Inr (e, t)) \<longleftrightarrow> length t < m" "returns m (Inl x) \<longleftrightarrow> x \<noteq> NoFuel"
  by (simp_all add: returns_def)

lemma returns_mono: "returns m r \<Longrightarrow> m \<le> m' \<Longrightarrow> returns m' r"
  by (fastforce simp: returns_def)

lemma span_error_fuel [simp]: "span_error sp i m \<noteq> NoFuel" "syntax_error f s i m \<noteq> NoFuel" "error_here sp ts m \<noteq> NoFuel"
  by (auto simp: error_here_def span_error_def syntax_error_def split: prod.splits)

lemma eats_length: "eats t ts \<Longrightarrow> length (tl ts) < length ts"
  by (cases ts) (auto simp: eats_def)

lemma expr_fuel:
  "8 * length ts + 2 + k \<le> n \<Longrightarrow> k \<le> 4 \<Longrightarrow> returns (length ts) (expr_level n k sp ts)"
  "8 * length ts + 1 \<le> n \<Longrightarrow> k \<le> 4 \<Longrightarrow> returns (Suc (length ts)) (expr_chain n k sp left ts)"
  "8 * length ts + 1 \<le> n \<Longrightarrow> returns (length ts) (expr_primary n sp ts)"
proof (induction n arbitrary: ts k left)
  case (Suc n)
  {
    case 1
    show ?case
    proof (cases k)
      case 0
      show ?thesis
      proof (cases "eats XNot ts")
        case True
        then have l: "length (tl ts) < length ts" by (rule eats_length)
        have "returns (length (tl ts)) (expr_level n 0 sp (tl ts))" using Suc.IH(1) [of "tl ts" 0] 1 l by simp
        then have "returns (length ts) (and_then (expr_level n 0 sp (tl ts)) (\<lambda>(e, r1). Inr (ENot e, r1)))"
          by (rule returns_and_then) (use l in auto)
        then show ?thesis using 0 True by simp
      next
        case False
        then show ?thesis using Suc.IH(3) [of ts] 1 0 by simp
      qed
    next
      case (Suc j)
      have a: "returns (length ts) (expr_level n j sp ts)" using Suc.IH(1) [of ts j] 1 Suc by simp
      have b: "returns (length ts) (expr_chain n k sp e r)" if "length r < length ts" for e r
        using Suc.IH(2) [of r k e] 1 that by (auto intro: returns_mono)
      have "returns (length ts) (and_then (expr_level n j sp ts) (\<lambda>(left, r). expr_chain n k sp left r))"
        by (rule returns_and_then [OF a]) (simp add: b)
      then show ?thesis using Suc by simp
    qed
  next
    case 2
    show ?case
    proof (cases "ts = [] \<or> map_of (rung k) (fst (hd ts)) = None")
      case True
      then show ?thesis by (cases ts) (auto split: option.splits)
    next
      case False
      then obtain t off r op where ts: "ts = (t, off) # r" "map_of (rung k) t = Some op" by (cases ts) auto
      have a: "returns (length r) (expr_level n (k - 1) sp r)" using Suc.IH(1) [of r "k - 1"] 2 ts(1) by simp
      have b: "returns (Suc (length ts)) (expr_chain n k sp e r1)" if "length r1 < length r" for e r1
        using Suc.IH(2) [of r1 k e] 2 that ts(1) by (auto intro: returns_mono)
      have "returns (Suc (length ts)) (and_then (expr_level n (k - 1) sp r) (\<lambda>(right, r1). expr_chain n k sp (EBinary op left right) r1))"
        by (rule returns_and_then [OF a]) (simp add: b)
      then show ?thesis using ts by simp
    qed
  next
    case 3
    show ?case
    proof (cases ts)
      case (Cons x r)
      obtain t off where x: "x = (t, off)" by (cases x)
      have "returns (length r) (expr_level n 4 sp r)" using Suc.IH(1) [of r 4] 3 Cons by simp
      then have "returns (length ts) (and_then (expr_level n 4 sp r) (\<lambda>(inner, r1).
          if eats XClose r1 then Inr (inner, tl r1) else Inl (error_here sp r1 ''expected `)`'')))"
        by (rule returns_and_then) (use Cons in \<open>auto dest!: eats_length\<close>)
      then show ?thesis using Cons x by (cases t) auto
    qed simp
  }
qed simp_all

lemma expression_fuel: "returns (length ts) (expression sp ts)"
  unfolding expression_def by (rule expr_fuel(1)) simp_all

lemma literal_from_fuel: "literal_from sp start q acc i \<noteq> Inl NoFuel"
proof (induction sp start q acc i rule: literal_from.induct)
  case (1 sp start q acc i)
  then show ?case by (subst literal_from.simps) (auto simp: Let_def)
qed

lemma expr_token_fuel: "expr_token sp i \<noteq> Inl NoFuel"
proof -
  have "string_literal sp i \<noteq> Inl NoFuel" by (simp add: string_literal_def literal_from_fuel)
  moreover have "number_literal sp i \<noteq> Inl NoFuel" by (auto simp: number_literal_def Let_def split: option.splits)
  ultimately show ?thesis by (auto simp: expr_token_def Let_def and_then_Inl_iff)
qed

lemma expr_tokens_fuel: "expr_tokens sp i \<noteq> Inl NoFuel"
proof (induction sp i rule: expr_tokens.induct)
  case (1 sp i)
  then show ?case
    using expr_token_fuel [of sp i] by (subst expr_tokens.simps) (auto simp: and_then_Inl_iff split: sum.splits)
qed

lemma expect_end_fuel: "expect_end sp ts \<noteq> Inl NoFuel"
  by (auto simp: expect_end_def split: list.splits)

lemma expr_parse_fuel: "expr_parse sp \<noteq> Inl NoFuel"
  using expr_tokens_fuel expression_fuel expect_end_fuel
  by (fastforce simp: expr_parse_def and_then_Inl_iff returns_def split: prod.splits)

lemma expr_arguments_fuel: "length ts < n \<Longrightarrow> expr_arguments n sp ts \<noteq> Inl NoFuel"
proof (induction n arbitrary: ts)
  case (Suc n)
  have "expression sp ts \<noteq> Inl NoFuel" using expression_fuel [of ts sp] by (simp add: returns_def)
  moreover have "expr_arguments n sp (tl r) \<noteq> Inl NoFuel" if "expression sp ts = Inr (e, r)" "eats XComma r" for e r
    using Suc.IH [of "tl r"] Suc.prems that expression_fuel [of ts sp] eats_length [of XComma r] by (simp add: returns_def)
  ultimately show ?case by (fastforce simp: and_then_Inl_iff split: if_splits prod.splits)
qed simp

lemma parse_arguments_fuel: "parse_arguments sp \<noteq> Inl NoFuel"
proof -
  have "(if ts = [] then Inr ([], ts) else expr_arguments (length ts + 1) sp ts) \<noteq> Inl NoFuel" for ts
    using expr_arguments_fuel [of ts "length ts + 1" sp] by simp
  then show ?thesis
    using expr_tokens_fuel expect_end_fuel by (fastforce simp: parse_arguments_def and_then_Inl_iff split: prod.splits if_splits)
qed

lemma parse_foreach_fuel: "parse_foreach sp \<noteq> Inl NoFuel"
  using expr_tokens_fuel expression_fuel expect_end_fuel
  by (fastforce simp: parse_foreach_def and_then_Inl_iff returns_def split: prod.splits if_splits option.splits)

lemma find_close_fuel: "find_close f s c i q opener \<noteq> Inl NoFuel"
  by (simp add: find_close_def split: option.splits)

lemma view_lex_step_fuel: "view_lex_step f s st \<noteq> Inl NoFuel"
proof -
  have "lex_directive f s st \<noteq> Inl NoFuel"
    by (auto simp: lex_directive_def directive_arguments_def matching_paren_def Let_def and_then_Inl_iff split: option.splits)
  then show ?thesis
    using find_close_fuel by (auto simp: view_lex_step_def lex_echo_def Let_def and_then_Inl_iff split: option.splits)
qed

lemma view_tokenize_fuel: "view_tokenize f s \<noteq> Inl NoFuel"
proof -
  have "view_lex_run f s st \<noteq> Inl NoFuel" for st
  proof (induction f s st rule: view_lex_run.induct)
    case (1 f s st)
    then show ?case using view_lex_step_fuel [of f s st] by (subst view_lex_run.simps) (auto split: sum.splits)
  qed
  then show ?thesis by (simp add: view_tokenize_def and_then_Inl_iff)
qed

text \<open>The same for results that leave a parser.\<close>

definition leaves :: "nat \<Rightarrow> ViewError + ('a \<times> ViewParser) \<Rightarrow> bool" where
  "leaves m r \<longleftrightarrow> r \<noteq> Inl NoFuel \<and> (\<forall>x p. r = Inr (x, p) \<longrightarrow> length (vp_tokens p) \<le> m)"

lemma leaves_and_then:
  assumes "leaves m r" and "\<And>x p. r = Inr (x, p) \<Longrightarrow> length (vp_tokens p) \<le> m \<Longrightarrow> leaves m' (f (x, p))"
  shows "leaves m' (and_then r f)"
  using assms by (cases r) (auto simp: leaves_def)

lemma leaves_bind:
  assumes "r \<noteq> Inl NoFuel" and "\<And>x. r = Inr x \<Longrightarrow> leaves m (f x)"
  shows "leaves m (and_then r f)"
  using assms by (cases r) (auto simp: leaves_def)

lemma leaves_simps [simp]:
  "leaves m (Inr (x, p)) \<longleftrightarrow> length (vp_tokens p) \<le> m" "leaves m (Inl e) \<longleftrightarrow> e \<noteq> NoFuel"
  by (simp_all add: leaves_def)

lemma leaves_mono: "leaves m r \<Longrightarrow> m \<le> m' \<Longrightarrow> leaves m' r"
  by (fastforce simp: leaves_def)

lemma close_block_fuel: "close_block opener closer offset p \<noteq> Inl NoFuel"
  by (simp add: close_block_def)

lemma close_block_length: "close_block opener closer offset p = Inr p1 \<Longrightarrow> length (vp_tokens p1) \<le> length (vp_tokens p)"
  by (auto simp: close_block_def split: if_splits)

lemma literal_name_fuel: "literal_name es sp directive \<noteq> Inl NoFuel"
  by (simp add: literal_name_def split: list.splits Expr.splits)

lemma add_section_fuel: "add_section name body offset p \<noteq> Inl NoFuel"
  by (simp add: add_section_def)

lemma add_section_length: "add_section name body offset p = Inr p1 \<Longrightarrow> vp_tokens p1 = vp_tokens p"
  by (auto simp: add_section_def split: if_splits)

lemma template_name_fuel: "template_name sp directive \<noteq> Inl NoFuel"
  using parse_arguments_fuel literal_name_fuel by (auto simp: template_name_def and_then_Inl_iff split: if_splits)

lemma parse_extends_fuel: "parse_extends sp offset p \<noteq> Inl NoFuel"
  using template_name_fuel by (auto simp: parse_extends_def and_then_Inl_iff split: if_splits)

lemma parse_extends_length: "parse_extends sp offset p = Inr p1 \<Longrightarrow> vp_tokens p1 = vp_tokens p"
  by (auto simp: parse_extends_def and_then_Inr_iff split: if_splits)

lemma named_pairs_fuel: "named_pairs sp es \<noteq> Inl NoFuel"
  by (induction sp es rule: named_pairs.induct) (auto simp: and_then_Inl_iff split: Expr.splits)

lemma emitters_fuel: "yield_section sp \<noteq> Inl NoFuel" "parse_lang sp \<noteq> Inl NoFuel" "parse_route sp \<noteq> Inl NoFuel"
  using parse_arguments_fuel literal_name_fuel named_pairs_fuel
  by (auto simp: yield_section_def parse_lang_def parse_route_def and_then_Inl_iff split: if_splits)

lemma vp_here_fuel [simp]: "vp_here p m \<noteq> NoFuel" "unexpected p name offset \<noteq> NoFuel"
  by (simp_all add: vp_here_def unexpected_def)

lemma parse_fuel:
  "3 * length (vp_tokens p) + 1 \<le> n \<Longrightarrow> leaves (length (vp_tokens p)) (parse_block n stop p)"
  "3 * length (vp_tokens p) + 2 \<le> n \<Longrightarrow> leaves (length (vp_tokens p)) (parse_directive n name sp offset p)"
  "3 * length (vp_tokens p) + 1 \<le> n \<Longrightarrow> leaves (length (vp_tokens p)) (parse_branches n branches otherwise p)"
proof (induction n arbitrary: p stop name sp offset branches otherwise)
  case (Suc n)
  {
    case 1
    show ?case
    proof (cases "vp_tokens p")
      case (Cons t r)
      have rest: "leaves (length r) (parse_block n stop (advance p))" using Suc.IH(1) [of "advance p"] 1 Cons by simp
      show ?thesis
      proof (cases t)
        case (TextTok s)
        have "leaves (length (vp_tokens p)) (and_then (parse_block n stop (advance p)) (\<lambda>(nodes, p1). Inr (NText s # nodes, p1)))"
          by (rule leaves_and_then [OF rest]) (simp add: Cons)
        then show ?thesis using Cons TextTok by simp
      next
        case (EchoTok s off escaped)
        have "leaves (length (vp_tokens p)) (and_then (expr_parse (vp_span p off (length s))) (\<lambda>e.
            and_then (parse_block n stop (advance p)) (\<lambda>(nodes, p1). Inr (NEcho e escaped # nodes, p1))))"
          by (rule leaves_bind [OF expr_parse_fuel], rule leaves_and_then [OF rest]) (simp add: Cons)
        then show ?thesis using Cons EchoTok by simp
      next
        case (DirectiveTok dname args aoff off)
        have d: "leaves (length r) (parse_directive n dname s o' (advance p))" for s o'
          using Suc.IH(2) [of "advance p"] 1 Cons by simp
        have b: "leaves (length r) (parse_block n stop p1)" if "length (vp_tokens p1) \<le> length r" for p1
          using Suc.IH(1) [of p1 stop] 1 Cons that by (auto intro: leaves_mono)
        have "leaves (length (vp_tokens p)) (and_then (parse_directive n dname (vp_span p aoff (length args)) off (advance p)) (\<lambda>(here, p1).
            and_then (parse_block n stop p1) (\<lambda>(nodes, p2). Inr (here @ nodes, p2))))"
          by (rule leaves_and_then [OF d], unfold prod.case, rule leaves_and_then [OF b]) (simp_all add: Cons)
        then show ?thesis using Cons DirectiveTok by simp
      qed
    qed simp
  next
    case 2
    let ?m = "length (vp_tokens p)"
    have b: "leaves ?m (parse_block n st p)" for st using Suc.IH(1) [of p st] 2 by simp
    have br: "leaves ?m (parse_branches n bs None p1)" if "length (vp_tokens p1) \<le> ?m" for bs p1
      using Suc.IH(3) [of p1 bs None] 2 that by (auto intro: leaves_mono)
    have close: "leaves ?m (and_then (close_block op cl off p1) (\<lambda>p2. Inr (x, p2)))" if "length (vp_tokens p1) \<le> ?m"
      for op cl off p1 and x :: "Node list"
      by (rule leaves_bind [OF close_block_fuel]) (use that in \<open>auto dest: close_block_length\<close>)
    have "leaves ?m (and_then (expr_parse sp) (\<lambda>cond. and_then (parse_block n STOP p) (\<lambda>(body, p1).
        and_then (parse_branches n [(cond, body)] None p1) (\<lambda>(node, p2).
        and_then (close_block ''if'' ''endif'' offset p2) (\<lambda>p3. Inr ([node], p3))))))"
      by (rule leaves_bind [OF expr_parse_fuel], rule leaves_and_then [OF b], unfold prod.case, rule leaves_and_then [OF br])
        (simp_all add: close)
    moreover have "leaves ?m (and_then (parse_foreach sp) (\<lambda>(subject, binding).
        and_then (parse_block n [''endforeach''] p) (\<lambda>(body, p1).
        and_then (close_block ''foreach'' ''endforeach'' offset p1) (\<lambda>p2. Inr ([NForeach subject binding body], p2)))))"
      by (rule leaves_bind [OF parse_foreach_fuel], clarsimp, rule leaves_and_then [OF b]) (simp add: close)
    moreover have "leaves ?m (and_then (parse_arguments sp) (\<lambda>arguments.
        and_then (literal_name arguments sp ''section'') (\<lambda>sname.
        and_then
          (if length arguments = 1 then
             and_then (parse_block n [''endsection''] p) (\<lambda>(body, p1).
             and_then (close_block ''section'' ''endsection'' offset p1) (\<lambda>p2. Inr (body, p2)))
           else if length arguments = 2 then Inr ([NEcho (arguments ! 1) True], p)
           else Inl (span_error sp 0 ''`@section` takes a name and an optional value'')) (\<lambda>(body, p1).
        and_then (add_section sname body offset p1) (\<lambda>p2. Inr ([] :: Node list, p2))))))" (is "leaves _ (and_then _ (\<lambda>arguments. and_then _ (\<lambda>sname. and_then (?body arguments) _)))")
    proof (rule leaves_bind [OF parse_arguments_fuel], rule leaves_bind [OF literal_name_fuel])
      fix arguments sname
      have "leaves ?m (?body arguments)"
        by (auto intro!: leaves_and_then [OF b] simp: close)
      then show "leaves ?m (and_then (?body arguments) (\<lambda>(body, p1). and_then (add_section sname body offset p1) (\<lambda>p2. Inr ([] :: Node list, p2))))"
        by (rule leaves_and_then) (auto intro!: leaves_bind [OF add_section_fuel] dest: add_section_length)
    qed
    moreover have "leaves ?m (and_then (parse_extends sp offset p) (\<lambda>p1. Inr ([] :: Node list, p1)))"
      by (rule leaves_bind [OF parse_extends_fuel]) (auto dest: parse_extends_length)
    moreover have "leaves ?m (and_then (yield_section sp) (\<lambda>node. Inr ([node], p)))" "leaves ?m (and_then (parse_lang sp) (\<lambda>node. Inr ([node], p)))"
      "leaves ?m (and_then (parse_route sp) (\<lambda>node. Inr ([node], p)))"
      by (auto intro!: leaves_bind simp: emitters_fuel)
    moreover have "leaves ?m (and_then (template_name sp ''include'') (\<lambda>vname. Inr ([NInclude (reference p vname offset)], p)))"
      by (rule leaves_bind [OF template_name_fuel]) simp
    ultimately show ?case by (simp only: parse_directive.simps) simp
  next
    case 3
    show ?case
    proof (cases "head_directive p \<in> {Some ''elseif'', Some ''else''}")
      case False
      then show ?thesis by (auto simp: head_directive_def split: list.splits ViewToken.splits)
    next
      case True
      then obtain dname args aoff off r where t: "vp_tokens p = DirectiveTok dname args aoff off # r"
        by (auto simp: head_directive_def split: list.splits ViewToken.splits)
      have b: "leaves (length r) (parse_block n STOP (advance p))" using Suc.IH(1) [of "advance p"] 3 t by simp
      have br: "leaves (length (vp_tokens p)) (parse_branches n bs oth p1)" if "length (vp_tokens p1) \<le> length r" for bs oth p1
        using Suc.IH(3) [of p1 bs oth] 3 that t by (auto intro: leaves_mono)
      have "leaves (length (vp_tokens p)) (and_then (expr_parse (vp_span p aoff (length args))) (\<lambda>cond.
          and_then (parse_block n STOP (advance p)) (\<lambda>(body, p1). parse_branches n (branches @ [(cond, body)]) None p1)))"
        by (rule leaves_bind [OF expr_parse_fuel], rule leaves_and_then [OF b]) (simp add: br)
      moreover have "leaves (length (vp_tokens p)) (and_then (parse_block n STOP (advance p)) (\<lambda>(body, p1). parse_branches n branches (Some body) p1))"
        by (rule leaves_and_then [OF b]) (simp add: br)
      ultimately show ?thesis by (simp add: t)
    qed
  }
qed simp_all

lemma view_parse_fuel: "view_parse name source \<noteq> Inl NoFuel"
proof -
  have "leaves (length tokens) (parse_block (3 * length tokens + 3) []
      \<lparr>vp_tokens = tokens, vp_file = name, vp_source = source, vp_extends = None, vp_sections = []\<rparr>)" for tokens
    using parse_fuel(1) [of "\<lparr>vp_tokens = tokens, vp_file = name, vp_source = source, vp_extends = None, vp_sections = []\<rparr>"] by simp
  then show ?thesis
    using view_tokenize_fuel by (fastforce simp: view_parse_def and_then_Inl_iff leaves_def split: prod.splits)
qed

subsection \<open>Literal text and escaped data\<close>

text \<open>A property of a node and of every node below it.\<close>

function node_all :: "(Node \<Rightarrow> bool) \<Rightarrow> Node \<Rightarrow> bool" where
  "node_all P (NText s) = P (NText s)"
| "node_all P (NEcho e escaped) = P (NEcho e escaped)"
| "node_all P (NIf branches otherwise) =
     (P (NIf branches otherwise) \<and> (\<forall>b\<in>set branches. \<forall>x\<in>set (snd b). node_all P x) \<and>
      (case otherwise of None \<Rightarrow> True | Some body \<Rightarrow> \<forall>x\<in>set body. node_all P x))"
| "node_all P (NForeach subject binding body) = (P (NForeach subject binding body) \<and> (\<forall>x\<in>set body. node_all P x))"
| "node_all P (NYield name def) = P (NYield name def)"
| "node_all P (NInclude r) = P (NInclude r)"
| "node_all P (NLang key replacements) = P (NLang key replacements)"
| "node_all P (NRoute name params) = P (NRoute name params)"
  by pat_completeness auto
termination
proof (relation "measure (\<lambda>(P, node). size node)", goal_cases)
  case (2 T branches otherwise b x)
  have "size x \<le> size_list size (snd b)" using 2(2) by (rule size_list_estimation') simp
  moreover have "size_prod (\<lambda>_. 0) (size_list size) b \<le> size_list (size_prod (\<lambda>_. 0) (size_list size)) branches"
    using 2(1) by (rule size_list_estimation') simp
  ultimately show ?case by (cases b) simp
next
  case (3 T branches otherwise body x)
  have "size x \<le> size_list size body" using 3(2) by (rule size_list_estimation') simp
  with 3(1) show ?case by simp
next
  case (4 T subject binding body x)
  have "size x \<le> size_list size body" using 4 by (rule size_list_estimation') simp
  then show ?case by simp
qed simp

text \<open>Literal text from a set, and only escaped echoes; the same for tokens.\<close>

fun leaf_safe :: "string set \<Rightarrow> Node \<Rightarrow> bool" where
  "leaf_safe T (NText s) = (s \<in> T)"
| "leaf_safe T (NEcho e escaped) = escaped"
| "leaf_safe T _ = True"

abbreviation node_safe :: "string set \<Rightarrow> Node \<Rightarrow> bool" where
  "node_safe T \<equiv> node_all (leaf_safe T)"

abbreviation nodes_safe :: "string set \<Rightarrow> Node list \<Rightarrow> bool" where
  "nodes_safe T nodes \<equiv> \<forall>x\<in>set nodes. node_safe T x"

definition token_safe :: "string set \<Rightarrow> ViewToken \<Rightarrow> bool" where
  "token_safe T t = (case t of TextTok s \<Rightarrow> s \<in> T | EchoTok s offset escaped \<Rightarrow> escaped | DirectiveTok _ _ _ _ \<Rightarrow> True)"

definition parser_safe :: "string set \<Rightarrow> ViewParser \<Rightarrow> bool" where
  "parser_safe T p \<longleftrightarrow>
     (\<forall>t\<in>set (vp_tokens p). token_safe T t) \<and> (\<forall>section\<in>set (vp_sections p). nodes_safe T (snd section))"

lemma parser_safe_advance: "parser_safe T p \<Longrightarrow> parser_safe T (advance p)"
  by (cases "vp_tokens p") (auto simp: parser_safe_def)

lemma close_block_safe: "close_block opener closer offset p = Inr p1 \<Longrightarrow> parser_safe T p \<Longrightarrow> parser_safe T p1"
  by (auto simp: close_block_def parser_safe_advance split: if_splits)

lemma set_btree_insert: "set (btree_insert k v m) \<subseteq> insert (k, v) (set m)"
  by (induction m rule: btree_insert.induct) auto

lemma add_section_safe:
  "add_section name body offset p = Inr p1 \<Longrightarrow> parser_safe T p \<Longrightarrow> nodes_safe T body \<Longrightarrow> parser_safe T p1"
  using set_btree_insert [of name body "vp_sections p"] by (fastforce simp: add_section_def parser_safe_def split: if_splits)

lemma parse_extends_safe: "parse_extends sp offset p = Inr p1 \<Longrightarrow> parser_safe T p \<Longrightarrow> parser_safe T p1"
  by (auto simp: parse_extends_def parser_safe_def and_then_Inr_iff split: if_splits)

lemma emitters_safe:
  "yield_section sp = Inr node \<Longrightarrow> node_safe T node" "parse_lang sp = Inr node \<Longrightarrow> node_safe T node"
  "parse_route sp = Inr node \<Longrightarrow> node_safe T node"
  by (auto simp: yield_section_def parse_lang_def parse_route_def and_then_Inr_iff split: if_splits)

lemma parse_safe:
  "parse_block n stop p = Inr (nodes, p1) \<Longrightarrow> parser_safe T p \<Longrightarrow> nodes_safe T nodes \<and> parser_safe T p1"
  "parse_directive n name sp offset p = Inr (nodes, p1) \<Longrightarrow> parser_safe T p \<Longrightarrow> nodes_safe T nodes \<and> parser_safe T p1"
  "parse_branches n branches otherwise p = Inr (node, p1) \<Longrightarrow> parser_safe T p \<Longrightarrow>
     node_safe T (NIf branches otherwise) \<Longrightarrow> node_safe T node \<and> parser_safe T p1"
proof (induction n arbitrary: p stop nodes p1 name sp offset branches otherwise node)
  case (Suc n)
  {
    case 1
    show ?case
    proof (cases "vp_tokens p")
      case (Cons t r)
      have t: "token_safe T t" and a: "parser_safe T (advance p)" using 1(2) Cons parser_safe_advance by (auto simp: parser_safe_def)
      show ?thesis
      proof (cases t)
        case (TextTok s)
        with 1(1) Cons t Suc.IH(1) [OF _ a] show ?thesis by (auto simp: and_then_Inr_iff token_safe_def)
      next
        case (EchoTok s off escaped)
        with 1(1) Cons t Suc.IH(1) [OF _ a] show ?thesis by (auto simp: and_then_Inr_iff token_safe_def)
      next
        case (DirectiveTok dname args aoff off)
        with 1 Cons Suc.IH(1) Suc.IH(2) [OF _ a] show ?thesis by (fastforce simp: and_then_Inr_iff split: if_splits)
      qed
    qed (use 1 in auto)
  next
    case 2
    consider "name = ''if''" | "name = ''foreach''" | "name = ''section''" | "name \<notin> {''if'', ''foreach'', ''section''}" by blast
    then show ?case
    proof cases
      case 1
      with 2(1) obtain cond body p2 node p3 where r: "parse_block n STOP p = Inr (body, p2)"
          "parse_branches n [(cond, body)] None p2 = Inr (node, p3)" "close_block ''if'' ''endif'' offset p3 = Inr p1" "nodes = [node]"
        by (auto simp: and_then_Inr_iff)
      have b: "nodes_safe T body" "parser_safe T p2" using Suc.IH(1) [OF r(1) 2(2)] by auto
      then have "node_safe T node" "parser_safe T p3" using Suc.IH(3) [OF r(2)] by auto
      then show ?thesis using close_block_safe [OF r(3)] r(4) by auto
    next
      case loop: 2
      with 2(1) obtain subject binding body p2 where r: "parse_block n [''endforeach''] p = Inr (body, p2)"
          "close_block ''foreach'' ''endforeach'' offset p2 = Inr p1" "nodes = [NForeach subject binding body]"
        by (auto simp: and_then_Inr_iff)
      with Suc.IH(1) [OF r(1) 2(2)] close_block_safe [OF r(2)] show ?thesis by auto
    next
      case sect: 3
      with 2(1) obtain arguments sname body p2 where r: "nodes = []" "add_section sname body offset p2 = Inr p1"
          "(if length arguments = 1 then
             and_then (parse_block n [''endsection''] p) (\<lambda>(body, p1).
             and_then (close_block ''section'' ''endsection'' offset p1) (\<lambda>p2. Inr (body, p2)))
           else if length arguments = 2 then Inr ([NEcho (arguments ! 1) True], p)
           else Inl (span_error sp 0 ''`@section` takes a name and an optional value'')) = Inr (body, p2)"
        by (auto simp: and_then_Inr_iff simp del: One_nat_def)
      have "nodes_safe T body \<and> parser_safe T p2"
        using r(3) 2(2) Suc.IH(1) [OF _ 2(2)] close_block_safe by (fastforce simp: and_then_Inr_iff split: if_splits)
      with add_section_safe [OF r(2)] r(1) show ?thesis by simp
    next
      case other: 4
      with 2 show ?thesis
        using emitters_safe parse_extends_safe by (fastforce simp: and_then_Inr_iff split: if_splits)
    qed
  next
    case 3
    show ?case
    proof (cases "head_directive p \<in> {Some ''elseif'', Some ''else''}")
      case False
      with 3 show ?thesis by (auto simp: head_directive_def split: list.splits ViewToken.splits)
    next
      case True
      then obtain dname args aoff off r where t: "vp_tokens p = DirectiveTok dname args aoff off # r"
        by (auto simp: head_directive_def split: list.splits ViewToken.splits)
      have a: "parser_safe T (advance p)" by (rule parser_safe_advance [OF 3(2)])
      from 3(1) True t obtain bs oth body p2 where r: "parse_block n STOP (advance p) = Inr (body, p2)"
          "parse_branches n bs oth p2 = Inr (node, p1)"
          "(\<exists>cond. bs = branches @ [(cond, body)] \<and> oth = otherwise) \<or> bs = branches \<and> oth = Some body"
        by (auto simp: head_directive_def and_then_Inr_iff split: if_splits)
      have b: "nodes_safe T body" "parser_safe T p2" using Suc.IH(1) [OF r(1) a] by auto
      have "node_safe T (NIf bs oth)" using r(3) 3(3) b(1) by auto
      then show ?thesis using Suc.IH(3) [OF r(2) b(2)] by simp
    qed
  }
qed simp_all

definition template_safe :: "string set \<Rightarrow> Template \<Rightarrow> bool" where
  "template_safe T t \<longleftrightarrow> nodes_safe T (tpl_nodes t) \<and> (\<forall>section\<in>set (tpl_sections t). nodes_safe T (snd section))"

definition literal_texts :: "string \<Rightarrow> string \<Rightarrow> string set" where
  "literal_texts name source = {s. \<exists>tokens. view_tokenize name source = Inr tokens \<and> TextTok s \<in> set tokens}"

definition no_raw :: "ViewToken list \<Rightarrow> bool" where
  "no_raw tokens \<longleftrightarrow> (\<forall>s offset. EchoTok s offset False \<notin> set tokens)"

lemma no_raw_flush: "no_raw (lx_tokens st) \<Longrightarrow> no_raw (lx_tokens (flush st))"
  by (simp add: no_raw_def flush_def)

lemma no_raw_step:
  assumes "view_lex_step f source st = Inr st1" and "\<not> starts_at source (lx_pos st) ''{!!''" and "no_raw (lx_tokens st)"
  shows "no_raw (lx_tokens st1)"
proof -
  have trimmed: "no_raw (lx_tokens (flush (st\<lparr>lx_text := x\<rparr>)))" for x by (rule no_raw_flush) (simp add: assms(3))
  have "no_raw (lx_tokens st2)" if "lex_directive f source st = Inr (Some st2)" for st2
    using that no_raw_flush [OF assms(3)] trimmed
    by (auto simp: lex_directive_def finish_directive_def Let_def and_then_Inr_iff no_raw_def split: if_splits option.splits)
  moreover have "no_raw (lx_tokens st2)" if "lex_echo f source i c True st = Inr st2" for i c st2
    using that no_raw_flush [OF assms(3)] by (auto simp: lex_echo_def Let_def and_then_Inr_iff no_raw_def)
  ultimately show ?thesis
    using assms by (auto simp: view_lex_step_def Let_def and_then_Inr_iff split: if_splits option.splits)
qed

lemma no_raw_tokens:
  assumes "view_tokenize f source = Inr tokens" and "\<And>i. \<not> starts_at source i ''{!!''"
  shows "no_raw tokens"
proof -
  have "view_lex_run f source st = Inr st1 \<Longrightarrow> no_raw (lx_tokens st) \<Longrightarrow> (\<And>i. \<not> starts_at source i ''{!!'') \<Longrightarrow> no_raw (lx_tokens st1)" for st st1
  proof (induction f source st rule: view_lex_run.induct)
    case (1 f source st)
    show ?case
    proof (cases "lx_pos st < length source")
      case True
      with "1.prems"(1) obtain st2 where st2: "view_lex_step f source st = Inr st2" "view_lex_run f source st2 = Inr st1"
        by (auto simp: view_lex_run.simps [of f source st] split: sum.splits)
      from "1.IH" [OF True st2 no_raw_step [OF st2(1) "1.prems"(3,2)] "1.prems"(3)] show ?thesis .
    next
      case False
      with "1.prems" no_raw_flush show ?thesis by (auto simp: view_lex_run.simps [of f source st])
    qed
  qed
  then show ?thesis using assms by (auto simp: view_tokenize_def and_then_Inr_iff no_raw_def)
qed

lemma view_parse_safe:
  assumes "view_parse name source = Inr t" and "\<And>i. \<not> starts_at source i ''{!!''"
  shows "template_safe (literal_texts name source) t"
proof -
  let ?T = "literal_texts name source"
  from assms(1) obtain tokens nodes p where tokens: "view_tokenize name source = Inr tokens"
    and b: "parse_block (3 * length tokens + 3) []
      \<lparr>vp_tokens = tokens, vp_file = name, vp_source = source, vp_extends = None, vp_sections = []\<rparr> = Inr (nodes, p)"
    and t: "t = \<lparr>tpl_name = name, tpl_nodes = nodes, tpl_extends = vp_extends p, tpl_sections = vp_sections p\<rparr>"
    by (auto simp: view_parse_def and_then_Inr_iff)
  have "token_safe ?T x" if "x \<in> set tokens" for x
  proof (cases x)
    case (EchoTok s offset escaped)
    with that no_raw_tokens [OF tokens assms(2)] show ?thesis by (cases escaped) (auto simp: token_safe_def no_raw_def)
  qed (use that tokens in \<open>auto simp: token_safe_def literal_texts_def\<close>)
  then have "parser_safe ?T \<lparr>vp_tokens = tokens, vp_file = name, vp_source = source, vp_extends = None, vp_sections = []\<rparr>"
    by (simp add: parser_safe_def)
  from parse_safe(1) [OF b this] show ?thesis by (auto simp: template_safe_def parser_safe_def t)
qed

lemma node_all_mono:
  assumes "node_all P x" and "\<And>y. P y \<Longrightarrow> Q y"
  shows "node_all Q x"
  using assms by (induction P x rule: node_all.induct) (auto split: option.splits)

lemma leaf_safe_mono: "leaf_safe T x \<Longrightarrow> T \<subseteq> U \<Longrightarrow> leaf_safe U x"
  by (cases x) auto

lemma node_safe_mono: "node_safe T x \<Longrightarrow> T \<subseteq> U \<Longrightarrow> node_safe U x"
  using node_all_mono leaf_safe_mono by metis

lemma template_safe_mono: "template_safe T t \<Longrightarrow> T \<subseteq> U \<Longrightarrow> template_safe U t"
  using node_safe_mono by (fastforce simp: template_safe_def)

text \<open>A page in pieces: literal text of the templates, and data.\<close>

datatype piece = Literal string | Data string

fun piece_text :: "piece \<Rightarrow> string" where
  "piece_text (Literal s) = s"
| "piece_text (Data s) = escape s"

definition made_of :: "string set \<Rightarrow> string \<Rightarrow> bool" where
  "made_of T out \<longleftrightarrow> (\<exists>ps. out = concat (map piece_text ps) \<and> (\<forall>s. Literal s \<in> set ps \<longrightarrow> s \<in> T))"

lemma made_of_intros:
  "made_of T []" "made_of T (escape s)" "s \<in> T \<Longrightarrow> made_of T s" "made_of T a \<Longrightarrow> made_of T b \<Longrightarrow> made_of T (a @ b)"
proof -
  show "made_of T []" by (auto simp: made_of_def intro!: exI [of _ "[]"])
  show "made_of T (escape s)" unfolding made_of_def by (rule exI [of _ "[Data s]"]) simp
  show "s \<in> T \<Longrightarrow> made_of T s" unfolding made_of_def by (rule exI [of _ "[Literal s]"]) simp
  assume "made_of T a" "made_of T b"
  then obtain ps qs where "a = concat (map piece_text ps)" "b = concat (map piece_text qs)"
    "\<forall>s. Literal s \<in> set ps \<longrightarrow> s \<in> T" "\<forall>s. Literal s \<in> set qs \<longrightarrow> s \<in> T" unfolding made_of_def by blast
  then show "made_of T (a @ b)" unfolding made_of_def by (intro exI [of _ "ps @ qs"]) auto
qed

lemma include_safe:
  "include_nodes load r depth = Inr nodes \<Longrightarrow> (\<And>name t. load name = Inr t \<Longrightarrow> template_safe T t) \<Longrightarrow> nodes_safe T nodes"
  by (auto simp: include_nodes_def template_safe_def split: if_splits sum.splits)

lemma render_safe:
  assumes load: "\<And>name t. load name = Inr t \<Longrightarrow> template_safe T t"
    and sections: "\<And>name body. sections name = Some body \<Longrightarrow> nodes_safe T body"
  shows "render_nodes n eng load sections depth sc nodes = Inr out \<Longrightarrow> nodes_safe T nodes \<Longrightarrow> made_of T out"
    and "render_node n eng load sections depth sc node = Inr out \<Longrightarrow> node_safe T node \<Longrightarrow> made_of T out"
    and "render_if n eng load sections depth sc branches otherwise = Inr out \<Longrightarrow> node_safe T (NIf branches otherwise) \<Longrightarrow> made_of T out"
    and "render_items n eng load sections depth sc binding body index cnt items = Inr out \<Longrightarrow> nodes_safe T body \<Longrightarrow> made_of T out"
  using assms
proof (induction n eng load sections depth sc nodes and n eng load sections depth sc node and n eng load sections depth sc branches otherwise
    and n eng load sections depth sc binding body index cnt items
    arbitrary: out and out and out and out rule: render_nodes_render_node_render_if_render_items.induct)
  case (2 n eng load sections depth sc node nodes)
  then show ?case by (fastforce simp: and_then_Inr_iff intro: made_of_intros)
next
  case (7 n eng load sections depth sc name def)
  then show ?case by (auto intro: made_of_intros split: option.splits nat.splits)
next
  case (8 n eng load sections depth sc r)
  then show ?case using include_safe [of load r depth _ T] by (cases n) (auto simp: and_then_Inr_iff)
qed (auto simp: and_then_Inr_iff Let_def render_lang_def render_route_def intro: made_of_intros split: option.splits if_splits)

definition cached :: "(string \<Rightarrow> ReadResult) \<Rightarrow> Engine \<Rightarrow> bool" where
  "cached files eng \<longleftrightarrow> (\<forall>name t. eng_cache eng name = Some t \<longrightarrow> load_file files eng name = Inr t)"

lemma cached_load:
  assumes "cached files eng"
  shows "engine_loader files eng name = load_file files eng name" and "cached files (snd (engine_load files name eng))"
proof -
  show "engine_loader files eng name = load_file files eng name"
    using assms by (auto simp: engine_loader_def engine_load_def cached_def split: option.splits sum.splits if_splits)
  have "load_file files (snd (engine_load files name eng)) x = load_file files eng x" for x
    by (rule load_file_root) (auto simp: engine_load_def split: option.splits sum.splits)
  then show "cached files (snd (engine_load files name eng))"
    using assms by (auto simp: cached_def engine_load_def split: option.splits sum.splits if_splits)
qed

definition site_texts :: "(string \<Rightarrow> ReadResult) \<Rightarrow> string set" where
  "site_texts files = {s. \<exists>path source name. files path = ReadOk source \<and> s \<in> literal_texts name source}"

lemma load_file_safe:
  assumes "\<forall>path source i. files path = ReadOk source \<longrightarrow> \<not> starts_at source i ''{!!''" and "load_file files eng name = Inr t"
  shows "template_safe (site_texts files) t"
proof -
  from assms(2) obtain path where p: "path_of eng name = Inr path"
      "(case files path of
         ReadMissing \<Rightarrow> Inl (OtherError (''view `'' @ name @ ''` not found '' @ em_dash @ '' expected `'' @ path @ ''`''))
       | ReadFailed msg \<Rightarrow> Inl (OtherError msg) | ReadOk source \<Rightarrow> view_parse name source) = Inr t"
    by (auto simp: load_file_def and_then_Inr_iff)
  then obtain source where "files path = ReadOk source" "view_parse name source = Inr t" by (cases "files path") auto
  with assms(1) view_parse_safe [of name source t] show ?thesis
    by (auto simp: site_texts_def intro: template_safe_mono)
qed

lemma chain_all:
  assumes "layout_chain load chain = Inr chain1" and "\<forall>t\<in>set chain. P t" and "chain \<noteq> []"
    and "\<And>name t. load name = Inr t \<Longrightarrow> P t"
  shows "(\<forall>t\<in>set chain1. P t) \<and> chain1 \<noteq> []"
  using assms
proof (induction load chain rule: layout_chain.induct)
  case (1 load chain)
  show ?case
  proof (cases "tpl_extends (last chain)")
    case None
    with "1.prems" show ?thesis by (simp add: layout_chain.simps [of load chain])
  next
    case (Some parent)
    with "1.prems"(1) obtain layout where l: "\<not> (\<exists>t\<in>set chain. tpl_name t = ref_name parent)" "\<not> MAX_LAYOUT_DEPTH \<le> length chain"
        "load (ref_name parent) = Inr layout" "layout_chain load (chain @ [layout]) = Inr chain1"
      by (auto simp: layout_chain.simps [of load chain] split: if_splits sum.splits)
    show ?thesis by (rule "1.IH" [OF Some l]) (use "1.prems" l(3) in auto)
  qed
qed

lemma render_template_safe:
  assumes "render_template n eng load t ctx = Inr out" and "template_safe T t" and "\<And>name t. load name = Inr t \<Longrightarrow> template_safe T t"
  shows "made_of T out"
proof -
  from assms(1) obtain chain where c: "layout_chain load [t] = Inr chain"
      "render_nodes n eng load (chain_sections chain) 0 (new_scope ctx) (tpl_nodes (last chain)) = Inr out"
    by (auto simp: render_template_def and_then_Inr_iff)
  have s: "\<forall>t\<in>set chain. template_safe T t" "chain \<noteq> []" using chain_all [OF c(1), of "template_safe T"] assms(2,3) by auto
  have "nodes_safe T body" if "chain_sections chain name = Some body" for name body
    using map_of_SomeD [OF that [unfolded chain_sections_def]] s(1) by (fastforce simp: template_safe_def)
  moreover have "nodes_safe T (tpl_nodes (last chain))" using s last_in_set by (fastforce simp: template_safe_def)
  ultimately show ?thesis using render_safe(1) [OF _ _ c(2)] assms(3) by blast
qed

lemma escape_map: "escape s = concat (map escape_char s)"
proof (cases "\<exists>c\<in>set s. c \<in> {CHR ''&'', CHR ''<'', CHR ''>'', CHR 0x22, CHR 0x27}")
  case False
  then have "concat (map escape_char s) = s" by (induction s) (auto simp: escape_char_def)
  with False show ?thesis by (simp add: escape_def)
qed (simp add: escape_def)

lemma escape_no_markup: "set (escape s) \<inter> {CHR ''<'', CHR ''>'', CHR 0x22, CHR 0x27} = {}"
  by (auto simp: escape_map escape_char_def split: if_splits)

text \<open>How a browser reads the five entities.\<close>

fun decode_entities :: "string \<Rightarrow> string" where
  "decode_entities [] = []"
| "decode_entities (c # s) =
     (if c = CHR ''&'' then
        if take 4 s = ''amp;'' then CHR ''&'' # decode_entities (drop 4 s)
        else if take 3 s = ''lt;'' then CHR ''<'' # decode_entities (drop 3 s)
        else if take 3 s = ''gt;'' then CHR ''>'' # decode_entities (drop 3 s)
        else if take 5 s = ''quot;'' then CHR 0x22 # decode_entities (drop 5 s)
        else if take 4 s = ''#39;'' then CHR 0x27 # decode_entities (drop 4 s)
        else c # decode_entities s
      else c # decode_entities s)"

lemma decode_escape_char: "decode_entities (escape_char c @ r) = c # decode_entities r"
  by (simp add: escape_char_def)

lemma decode_escape: "decode_entities (escape s) = s"
  unfolding escape_map by (induction s) (simp_all add: decode_escape_char)

subsection \<open>Rendering ends\<close>

fun is_yield :: "Node \<Rightarrow> bool" where
  "is_yield (NYield name def) = True"
| "is_yield _ = False"

abbreviation yield_free :: "Node list \<Rightarrow> bool" where
  "yield_free nodes \<equiv> \<forall>x\<in>set nodes. node_all (\<lambda>y. \<not> is_yield y) x"

fun include_ok :: "(string \<Rightarrow> ViewError + Template) \<Rightarrow> Node \<Rightarrow> bool" where
  "include_ok load (NInclude r) = (case load (ref_name r) of Inr t \<Rightarrow> yield_free (tpl_nodes t) | Inl e \<Rightarrow> True)"
| "include_ok load _ = True"

abbreviation includes_ok :: "(string \<Rightarrow> ViewError + Template) \<Rightarrow> Node list \<Rightarrow> bool" where
  "includes_ok load nodes \<equiv> \<forall>x\<in>set nodes. node_all (include_ok load) x"

text \<open>No section contains a \<open>@yield\<close>, and neither does anything that is included.\<close>

definition template_ok :: "(string \<Rightarrow> ViewError + Template) \<Rightarrow> Template \<Rightarrow> bool" where
  "template_ok load t \<longleftrightarrow>
     includes_ok load (tpl_nodes t) \<and>
     (\<forall>section\<in>set (tpl_sections t). includes_ok load (snd section) \<and> yield_free (snd section))"

lemma ref_error_fuel [simp]: "ref_error r m \<noteq> NoFuel"
  by (simp add: ref_error_def)

lemma include_ok_nodes:
  assumes "include_nodes load r depth = Inr nodes" and "include_ok load (NInclude r)"
    and "\<And>v t. load v = Inr t \<Longrightarrow> template_ok load t"
  shows "yield_free nodes \<and> includes_ok load nodes \<and> depth < MAX_INCLUDE_DEPTH"
  using assms by (auto simp: include_nodes_def template_ok_def split: if_splits sum.splits)

lemma include_fuel: "(\<And>v. load v \<noteq> Inl NoFuel) \<Longrightarrow> include_nodes load r depth \<noteq> Inl NoFuel"
  by (auto simp: include_nodes_def blame_def split: sum.splits ViewError.splits)

lemma render_route_fuel: "render_route eng sc name params \<noteq> Inl NoFuel"
  by (auto simp: render_route_def split: option.splits)

lemma render_fuel:
  assumes "\<And>v. load v \<noteq> Inl NoFuel" and "\<And>v t. load v = Inr t \<Longrightarrow> template_ok load t"
    and "\<And>name body. sections name = Some body \<Longrightarrow> yield_free body \<and> includes_ok load body"
  shows "includes_ok load nodes \<Longrightarrow> MAX_INCLUDE_DEPTH - depth \<le> n \<Longrightarrow> yield_free nodes \<or> Suc MAX_INCLUDE_DEPTH - depth \<le> n \<Longrightarrow>
      depth \<le> MAX_INCLUDE_DEPTH \<Longrightarrow> render_nodes n eng load sections depth sc nodes \<noteq> Inl NoFuel"
    and "node_all (include_ok load) node \<Longrightarrow> MAX_INCLUDE_DEPTH - depth \<le> n \<Longrightarrow>
      node_all (\<lambda>y. \<not> is_yield y) node \<or> Suc MAX_INCLUDE_DEPTH - depth \<le> n \<Longrightarrow>
      depth \<le> MAX_INCLUDE_DEPTH \<Longrightarrow> render_node n eng load sections depth sc node \<noteq> Inl NoFuel"
    and "node_all (include_ok load) (NIf branches otherwise) \<Longrightarrow> MAX_INCLUDE_DEPTH - depth \<le> n \<Longrightarrow>
      node_all (\<lambda>y. \<not> is_yield y) (NIf branches otherwise) \<or> Suc MAX_INCLUDE_DEPTH - depth \<le> n \<Longrightarrow>
      depth \<le> MAX_INCLUDE_DEPTH \<Longrightarrow> render_if n eng load sections depth sc branches otherwise \<noteq> Inl NoFuel"
    and "includes_ok load body \<Longrightarrow> MAX_INCLUDE_DEPTH - depth \<le> n \<Longrightarrow> yield_free body \<or> Suc MAX_INCLUDE_DEPTH - depth \<le> n \<Longrightarrow>
      depth \<le> MAX_INCLUDE_DEPTH \<Longrightarrow> render_items n eng load sections depth sc binding body index cnt items \<noteq> Inl NoFuel"
  using assms
proof (induction n eng load sections depth sc nodes and n eng load sections depth sc node and n eng load sections depth sc branches otherwise
    and n eng load sections depth sc binding body index cnt items
    rule: render_nodes_render_node_render_if_render_items.induct)
  case (2 n eng load sections depth sc node nodes)
  then show ?case by (auto simp: and_then_Inl_iff split: if_splits)
next
  case (7 n eng load sections depth sc name def)
  then show ?case by (cases n) (auto split: option.splits)
next
  case (8 n eng load sections depth sc r)
  show ?case
  proof (cases "include_nodes load r depth")
    case (Inl e)
    then show ?thesis using include_fuel [of load r depth] 8 by auto
  next
    case (Inr nodes)
    then have i: "yield_free nodes" "includes_ok load nodes" "depth < MAX_INCLUDE_DEPTH"
      using include_ok_nodes [of load r depth nodes] 8 by auto
    then obtain m where m: "n = Suc m" using 8 by (cases n) auto
    have "render_nodes m eng load sections (depth + 1) sc nodes \<noteq> Inl NoFuel"
      by (rule "8.IH" [OF m]) (use i 8 m in auto)
    then show ?thesis using Inr m by simp
  qed
next
  case (10 n eng load sections depth sc name params)
  then show ?case by (simp add: render_route_fuel)
qed (auto simp: and_then_Inl_iff Let_def split: option.splits if_splits)

lemma layout_chain_fuel:
  assumes "\<And>v. load v \<noteq> Inl NoFuel"
  shows "layout_chain load chain \<noteq> Inl NoFuel"
  using assms
proof (induction load chain rule: layout_chain.induct)
  case (1 load chain)
  show ?case
    using 1 by (auto simp: layout_chain.simps [of load chain] blame_def split: option.splits sum.splits ViewError.splits)
qed

lemma engine_loader_fuel: "cached files eng \<Longrightarrow> engine_loader files eng v \<noteq> Inl NoFuel"
  by (auto simp: cached_load load_file_def path_of_def and_then_Inl_iff view_parse_fuel split: ReadResult.splits)

lemma and_then_more:
  assumes "and_then x f \<noteq> Inl NoFuel" and "x \<noteq> Inl NoFuel \<Longrightarrow> x' = x" and "\<And>a. x = Inr a \<Longrightarrow> f a \<noteq> Inl NoFuel \<Longrightarrow> f' a = f a"
  shows "and_then x' f' = and_then x f"
  using assms by (cases x) auto

lemma render_more:
  shows "render_nodes n eng load sections depth sc nodes \<noteq> Inl NoFuel \<Longrightarrow> n \<le> m \<Longrightarrow>
      render_nodes m eng load sections depth sc nodes = render_nodes n eng load sections depth sc nodes"
    and "render_node n eng load sections depth sc node \<noteq> Inl NoFuel \<Longrightarrow> n \<le> m \<Longrightarrow>
      render_node m eng load sections depth sc node = render_node n eng load sections depth sc node"
    and "render_if n eng load sections depth sc branches otherwise \<noteq> Inl NoFuel \<Longrightarrow> n \<le> m \<Longrightarrow>
      render_if m eng load sections depth sc branches otherwise = render_if n eng load sections depth sc branches otherwise"
    and "render_items n eng load sections depth sc binding body index cnt items \<noteq> Inl NoFuel \<Longrightarrow> n \<le> m \<Longrightarrow>
      render_items m eng load sections depth sc binding body index cnt items = render_items n eng load sections depth sc binding body index cnt items"
proof (induction n eng load sections depth sc nodes and n eng load sections depth sc node and n eng load sections depth sc branches otherwise
    and n eng load sections depth sc binding body index cnt items arbitrary: m and m and m and m
    rule: render_nodes_render_node_render_if_render_items.induct)
  case (2 n eng load sections depth sc node nodes)
  show ?case unfolding render_nodes.simps
  proof (rule and_then_more)
    fix a
    assume "and_then (render_nodes n eng load sections depth sc nodes) (\<lambda>b. Inr (a @ b)) \<noteq> Inl NoFuel"
    then show "and_then (render_nodes m eng load sections depth sc nodes) (\<lambda>b. Inr (a @ b)) =
        and_then (render_nodes n eng load sections depth sc nodes) (\<lambda>b. Inr (a @ b))"
      by (rule and_then_more) (use "2.IH"(2) [OF _ "2.prems"(2)] in auto)
  qed (use "2.prems"(1) "2.IH"(1) [OF _ "2.prems"(2)] in auto)
next
  case (7 n eng load sections depth sc name def)
  show ?case
  proof (cases "sections name")
    case (Some body)
    with "7.prems" obtain k l where k: "n = Suc k" "m = Suc l" "k \<le> l" by (cases n; cases m) auto
    then show ?thesis using Some "7.IH" [OF Some k(1) _ k(3)] "7.prems" by simp
  qed simp
next
  case (8 n eng load sections depth sc r)
  show ?case
  proof (cases "include_nodes load r depth")
    case (Inr body)
    with "8.prems" obtain k l where k: "n = Suc k" "m = Suc l" "k \<le> l" by (cases n; cases m) auto
    then show ?thesis using Inr "8.IH" [OF k(1) _ k(3)] "8.prems" by simp
  qed simp
next
  case (14 n eng load sections depth sc binding body index cnt item items)
  show ?case unfolding render_items.simps
  proof (rule and_then_more)
    fix a
    assume "and_then (render_items n eng load sections depth sc binding body (index + 1) cnt items) (\<lambda>b. Inr (a @ b)) \<noteq> Inl NoFuel"
    then show "and_then (render_items m eng load sections depth sc binding body (index + 1) cnt items) (\<lambda>b. Inr (a @ b)) =
        and_then (render_items n eng load sections depth sc binding body (index + 1) cnt items) (\<lambda>b. Inr (a @ b))"
      by (rule and_then_more) (use "14.IH"(2) [OF _ "14.prems"(2)] in auto)
  qed (use "14.prems"(1) "14.IH"(1) [OF _ "14.prems"(2)] in auto)
next
  case (5 n eng load sections depth sc branches otherwise)
  show ?case using "5.prems"(1) "5.IH" [OF _ "5.prems"(2)] by auto
next
  case (6 n eng load sections depth sc subject binding body)
  show ?case
    by (cases "json_as_array (expr_eval sc subject)") (use "6.prems"(1) "6.IH" [OF _ _ "6.prems"(2)] in auto)
next
  case (11 n eng load sections depth sc otherwise)
  show ?case by (cases otherwise) (use "11.prems"(1) "11.IH" [OF _ _ "11.prems"(2)] in auto)
next
  case (12 n eng load sections depth sc cond body branches otherwise)
  show ?case using "12.prems"(1) "12.IH"(1) [OF _ _ "12.prems"(2)] "12.IH"(2) [OF _ _ "12.prems"(2)] by (auto split: if_splits)
qed (simp_all add: Let_def)

text \<open>Two small sites for the examples.\<close>

definition card_files :: "string \<Rightarrow> ReadResult" where
  "card_files path = (if path = ''v/home.rl.html'' then ReadOk ''<b>{{ x }}</b>'' else ReadMissing)"

definition loop_source :: string where
  "loop_source = concat [''@section('', [CHR 0x22], ''a'', [CHR 0x22], '')@yield('', [CHR 0x22], ''a'', [CHR 0x22],
     '')@endsection@yield('', [CHR 0x22], ''a'', [CHR 0x22], '')'']"

subsection \<open>Theorems\<close>

text \<open>
  C34: In an application whose template files contain no \<open>{!!\<close>, whatever the files and the data: a page that is rendered is a
  sequence of pieces, each a literal text of one of the templates or an escaped value; an escaped value contains no character
  that could open or close a tag or an attribute, and a browser decodes it to exactly the value.
\<close>

theorem view_escapes_data:
  assumes "\<forall>path source i. files path = ReadOk source \<longrightarrow> \<not> starts_at source i ''{!!''" and "cached files eng"
    and "engine_render n files eng name ctx = Inr out"
  shows "\<exists>ps. out = concat (map piece_text ps) \<and> (\<forall>s. Literal s \<in> set ps \<longrightarrow> s \<in> site_texts files) \<and>
    (\<forall>s. Data s \<in> set ps \<longrightarrow> set (piece_text (Data s)) \<inter> {CHR ''<'', CHR ''>'', CHR 0x22, CHR 0x27} = {} \<and>
       decode_entities (piece_text (Data s)) = s)"
proof -
  have load: "template_safe (site_texts files) t" if "engine_loader files eng v = Inr t" for v t
    using that load_file_safe [OF assms(1)] cached_load(1) [OF assms(2)] by simp
  from assms(3) obtain t where t: "engine_loader files eng name = Inr t" "render_template n eng (engine_loader files eng) t ctx = Inr out"
    by (auto simp: engine_render_def and_then_Inr_iff)
  have "made_of (site_texts files) out" by (rule render_template_safe [OF t(2) load [OF t(1)] load])
  then show ?thesis using escape_no_markup decode_escape by (auto simp: made_of_def)
qed



lemma card_source: "card_files path = ReadOk source \<Longrightarrow> source = ''<b>{{ x }}</b>''"
  by (simp add: card_files_def split: if_splits)

lemma card_parse:
  "view_parse ''home'' ''<b>{{ x }}</b>'' =
     Inr \<lparr>tpl_name = ''home'', tpl_nodes = [NText ''<b>'', NEcho (EPath ''x'') True, NText ''</b>''], tpl_extends = None, tpl_sections = []\<rparr>"
  by code_simp

lemma card_path: "path_of (new_engine ''v'') v = Inr ''v/home.rl.html'' \<Longrightarrow> v = ''home''"
  by (auto simp: path_of_def new_engine_def path_join_def EXTENSION_def map_eq_Cons_conv split: if_splits)

lemma card_cached: "cached card_files (new_engine ''v'')"
  by (simp add: cached_def new_engine_def)

lemma card_load:
  "engine_loader card_files (new_engine ''v'') v = Inr t \<longleftrightarrow> v = ''home'' \<and> view_parse ''home'' ''<b>{{ x }}</b>'' = Inr t"
proof
  assume "engine_loader card_files (new_engine ''v'') v = Inr t"
  then have l: "load_file card_files (new_engine ''v'') v = Inr t" using card_cached by (simp add: cached_load)
  then obtain path where p: "path_of (new_engine ''v'') v = Inr path" by (auto simp: load_file_def and_then_Inr_iff)
  with l have "path = ''v/home.rl.html''" by (auto simp: load_file_def card_files_def split: if_splits)
  with l p card_path show "v = ''home'' \<and> view_parse ''home'' ''<b>{{ x }}</b>'' = Inr t" by (auto simp: load_file_def card_files_def)
next
  have "path_of (new_engine ''v'') ''home'' = Inr ''v/home.rl.html''" by code_simp
  moreover assume "v = ''home'' \<and> view_parse ''home'' ''<b>{{ x }}</b>'' = Inr t"
  ultimately show "engine_loader card_files (new_engine ''v'') v = Inr t"
    using card_cached by (simp add: cached_load load_file_def card_files_def)
qed

lemma card_ok: "\<forall>v t. engine_loader card_files (new_engine ''v'') v = Inr t \<longrightarrow> template_ok (engine_loader card_files (new_engine ''v'')) t"
  unfolding card_load card_parse by (simp add: template_ok_def)

lemma card_render:
  "engine_render (Suc n) card_files (new_engine ''v'') ''home'' [(''x'', String ''<i>'')] = Inr ''<b>&lt;i&gt;</b>''"
proof -
  have "engine_loader card_files (new_engine ''v'') ''home'' =
      Inr \<lparr>tpl_name = ''home'', tpl_nodes = [NText ''<b>'', NEcho (EPath ''x'') True, NText ''</b>''], tpl_extends = None, tpl_sections = []\<rparr>"
    by (simp add: card_load card_parse)
  moreover have "escape (to_text (expr_eval (new_scope [(''x'', String ''<i>'')]) (EPath ''x''))) = ''&lt;i&gt;''" by code_simp
  ultimately show ?thesis by (simp add: engine_render_def render_template_def layout_chain.simps Let_def)
qed

lemma starts_at_chars: "starts_at s i p \<Longrightarrow> set p \<subseteq> set s"
  unfolding starts_at_def by (metis in_set_dropD in_set_takeD subsetI)


theorem view_escapes_data_witness:
  "\<exists>ps. ''<b>&lt;i&gt;</b>'' = concat (map piece_text ps) \<and> (\<forall>s. Literal s \<in> set ps \<longrightarrow> s \<in> site_texts card_files)"
proof -
  have "\<forall>path source i. card_files path = ReadOk source \<longrightarrow> \<not> starts_at source i ''{!!''"
    using card_source starts_at_chars by fastforce
  from view_escapes_data [OF this card_cached card_render] show ?thesis by blast
qed

lemma loop_parse:
  "view_parse ''p'' loop_source = Inr \<lparr>tpl_name = ''p'', tpl_nodes = [NYield ''a'' None], tpl_extends = None, tpl_sections = [(''a'', [NYield ''a'' None])]\<rparr>"
  by code_simp

lemma loop_render:
  "sections ''a'' = Some [NYield ''a'' None] \<Longrightarrow> render_nodes n eng load sections depth sc [NYield ''a'' None] = Inl NoFuel"
  by (induction n) simp_all

text \<open>
  A section that yields is the one way to render for ever: the source \<open>@section("a")@yield("a")@endsection@yield("a")\<close> parses, and
  rendering it returns after no number of steps, because \<open>Node::Yield\<close> renders the section at an unchanged depth and no limit
  applies to it.  The program descends until its stack overflows.
\<close>

theorem view_yield_loops: "render_source n files eng ''p'' loop_source ctx = Inl NoFuel"
  by (simp add: render_source_def loop_parse render_template_def layout_chain.simps chain_sections_def loop_render del: render_nodes.simps)

end
