(* ===== verification/DeflateBits.thy ===== *)
theory DeflateBits
  imports Prelude
begin

section \<open>Compression: reading and writing bits\<close>

text \<open>
  \<open>BitReader\<close> and \<open>BitWriter\<close> of \<open>rustlavel-http/src/compression/deflate.rs\<close>, with their 64-bit
  buffers.  A reader stands for the list of the bits that are left (\<open>rbits\<close>) and a writer for the list of the
  bits written (\<open>wbits\<close>), least significant first within a byte; every operation is shown to do on the
  buffer what it means on the list.  An index outside a slice, which panics, is the value \<open>IndexPanic\<close>.
\<close>

unbundle bit_operations_syntax

datatype InflateError =
    Truncated
  | InvalidBlockType
  | InvalidCode
  | InvalidCodeLengths
  | DistanceTooFar
  | LengthMismatch
  | OutputTooLarge
  | InvalidHeader
  | ChecksumMismatch
  | TrailingData

datatype Failure = Refused InflateError | IndexPanic

lemma and_then_cong [fundef_cong]:
  "r = s \<Longrightarrow> (\<And>x. s = Inr x \<Longrightarrow> f x = g x) \<Longrightarrow> and_then r f = and_then s g"
  by (cases s) auto

subsection \<open>The reader\<close>

record BitReader =
  br_data :: "byte list"
  br_pos :: nat
  br_bits :: u64
  br_count :: nat

definition new_reader :: "byte list \<Rightarrow> BitReader" where
  "new_reader data = \<lparr>br_data = data, br_pos = 0, br_bits = 0, br_count = 0\<rparr>"

function refill :: "nat \<Rightarrow> BitReader \<Rightarrow> Failure + BitReader" where
  "refill n r =
     (if br_count r < n then
        if br_pos r < length (br_data r) then
          refill n (r\<lparr>br_bits := br_bits r OR push_bit (br_count r) (ucast (br_data r ! br_pos r)),
                      br_count := br_count r + 8, br_pos := br_pos r + 1\<rparr>)
        else Inl (Refused Truncated)
      else Inr r)"
  by pat_completeness auto
termination
  by (relation "measure (\<lambda>(n, r). n - br_count r)") auto

declare refill.simps [simp del]

definition read_bits :: "nat \<Rightarrow> BitReader \<Rightarrow> Failure + (nat \<times> BitReader)" where
  "read_bits n r =
     and_then (refill n r) (\<lambda>r1.
     Inr (unat (br_bits r1 AND mask n), r1\<lparr>br_bits := drop_bit n (br_bits r1), br_count := br_count r1 - n\<rparr>))"

definition read_bit :: "BitReader \<Rightarrow> Failure + (nat \<times> BitReader)" where
  "read_bit r = read_bits 1 r"

definition reader_align :: "BitReader \<Rightarrow> BitReader" where
  "reader_align r = r\<lparr>br_bits := 0, br_count := 0\<rparr>"

definition take_bytes :: "nat \<Rightarrow> BitReader \<Rightarrow> Failure + (byte list \<times> BitReader)" where
  "take_bytes n r =
     (if br_pos r + n \<le> length (br_data r) then
        Inr (take n (drop (br_pos r) (br_data r)), r\<lparr>br_pos := br_pos r + n\<rparr>)
      else Inl (Refused Truncated))"

subsection \<open>The writer\<close>

record BitWriter =
  bw_out :: "byte list"
  bw_bits :: u64
  bw_count :: nat

definition new_writer :: BitWriter where
  "new_writer = \<lparr>bw_out = [], bw_bits = 0, bw_count = 0\<rparr>"

function bw_drain :: "BitWriter \<Rightarrow> BitWriter" where
  "bw_drain w =
     (if bw_count w \<ge> 8 then
        bw_drain (w\<lparr>bw_out := bw_out w @ [ucast (bw_bits w)], bw_bits := drop_bit 8 (bw_bits w), bw_count := bw_count w - 8\<rparr>)
      else w)"
  by pat_completeness auto
termination
  by (relation "measure bw_count") auto

declare bw_drain.simps [simp del]

definition bw_write :: "nat \<Rightarrow> nat \<Rightarrow> BitWriter \<Rightarrow> BitWriter" where
  "bw_write v n w =
     bw_drain (w\<lparr>bw_bits := bw_bits w OR push_bit (bw_count w) (of_nat v), bw_count := bw_count w + n\<rparr>)"

definition writer_align :: "BitWriter \<Rightarrow> BitWriter" where
  "writer_align w =
     (if bw_count w > 0 then w\<lparr>bw_out := bw_out w @ [ucast (bw_bits w)], bw_bits := 0, bw_count := 0\<rparr> else w)"

definition write_bytes :: "byte list \<Rightarrow> BitWriter \<Rightarrow> BitWriter" where
  "write_bytes bytes w = w\<lparr>bw_out := bw_out w @ bytes\<rparr>"

definition bw_finish :: "BitWriter \<Rightarrow> byte list" where
  "bw_finish w = bw_out (writer_align w)"

subsection \<open>Lists of bits\<close>

definition byte_bits :: "byte \<Rightarrow> bool list" where
  "byte_bits b = map (bit b) [0..<8]"

abbreviation bytes_bits :: "byte list \<Rightarrow> bool list" where
  "bytes_bits bs \<equiv> concat (map byte_bits bs)"

definition nat_bits :: "nat \<Rightarrow> nat \<Rightarrow> bool list" where
  "nat_bits n v = map (bit v) [0..<n]"

definition bits_val :: "bool list \<Rightarrow> nat" where
  "bits_val bs = horner_sum of_bool 2 bs"

definition buffer_bits :: "u64 \<Rightarrow> nat \<Rightarrow> bool list" where
  "buffer_bits x n = map (bit x) [0..<n]"

definition rbits :: "BitReader \<Rightarrow> bool list" where
  "rbits r = buffer_bits (br_bits r) (br_count r) @ bytes_bits (drop (br_pos r) (br_data r))"

definition wbits :: "BitWriter \<Rightarrow> bool list" where
  "wbits w = bytes_bits (bw_out w) @ buffer_bits (bw_bits w) (bw_count w)"

definition clear_from :: "nat \<Rightarrow> u64 \<Rightarrow> bool" where
  "clear_from n x \<longleftrightarrow> drop_bit n x = 0"

definition reader_ok :: "BitReader \<Rightarrow> bool" where
  "reader_ok r \<longleftrightarrow> br_count r < 8 \<and> clear_from (br_count r) (br_bits r) \<and> br_pos r \<le> length (br_data r)"

definition writer_ok :: "BitWriter \<Rightarrow> bool" where
  "writer_ok w \<longleftrightarrow> bw_count w < 8 \<and> clear_from (bw_count w) (bw_bits w)"

lemma length_byte_bits [simp]: "length (byte_bits b) = 8"
  by (simp add: byte_bits_def)

lemma length_bytes_bits [simp]: "length (bytes_bits bs) = 8 * length bs"
  by (induction bs) auto

lemma length_nat_bits [simp]: "length (nat_bits n v) = n"
  by (simp add: nat_bits_def)

lemma length_buffer_bits [simp]: "length (buffer_bits x n) = n"
  by (simp add: buffer_bits_def)

lemma bits_val_nat_bits: "v < 2 ^ n \<Longrightarrow> bits_val (nat_bits n v) = v"
  by (simp add: bits_val_def nat_bits_def horner_sum_bit_eq_take_bit take_bit_nat_eq_self)

lemma bits_val_less: "bits_val bs < 2 ^ length bs"
  unfolding bits_val_def by (induction bs) auto

lemma nat_bits_bits_val: "nat_bits (length bs) (bits_val bs) = bs"
  by (auto intro: nth_equalityI simp: nat_bits_def bits_val_def bit_horner_sum_bit_iff)

lemma clear_from_bit: "clear_from n x \<Longrightarrow> n \<le> i \<Longrightarrow> \<not> bit x i"
proof -
  assume "clear_from n x" "n \<le> i"
  then have "\<not> bit (drop_bit n x) (i - n)" by (simp add: clear_from_def)
  with \<open>n \<le> i\<close> show ?thesis by (simp add: bit_drop_bit_eq)
qed

lemma clear_fromI: "(\<And>i. n \<le> i \<Longrightarrow> \<not> bit x i) \<Longrightarrow> clear_from n x"
  unfolding clear_from_def by (rule bit_word_eqI) (simp add: bit_drop_bit_eq)

lemma buffer_push:
  assumes "clear_from n x" and "n + k \<le> 64"
  shows "buffer_bits (x OR push_bit n y) (n + k) = buffer_bits x n @ buffer_bits y k"
proof (rule nth_equalityI)
  fix i assume "i < length (buffer_bits (x OR push_bit n y) (n + k))"
  then show "buffer_bits (x OR push_bit n y) (n + k) ! i = (buffer_bits x n @ buffer_bits y k) ! i"
    using assms clear_from_bit [OF assms(1), of i]
    by (auto simp: buffer_bits_def nth_append bit_or_iff bit_push_bit_iff)
qed simp

lemma clear_push:
  assumes "clear_from n x" and "clear_from k y"
  shows "clear_from (n + k) (x OR push_bit n y)"
proof (rule clear_fromI)
  fix i assume "n + k \<le> i"
  then show "\<not> bit (x OR push_bit n y) i"
    using clear_from_bit [OF assms(1), of i] clear_from_bit [OF assms(2), of "i - n"]
    by (simp add: bit_or_iff bit_push_bit_iff)
qed

lemma buffer_drop: "n \<le> k \<Longrightarrow> buffer_bits (drop_bit n x) (k - n) = drop n (buffer_bits x k)"
  by (auto intro: nth_equalityI simp: buffer_bits_def bit_drop_bit_eq)

lemma buffer_take: "n \<le> k \<Longrightarrow> take n (buffer_bits x k) = buffer_bits x n"
  by (auto intro: nth_equalityI simp: buffer_bits_def)

lemma clear_drop: "clear_from k x \<Longrightarrow> clear_from (k - n) (drop_bit n x)"
proof (rule clear_fromI)
  fix i assume "clear_from k x" "k - n \<le> i"
  then show "\<not> bit (drop_bit n x) i" using clear_from_bit [of k x "n + i"] by (simp add: bit_drop_bit_eq)
qed

lemma buffer_ucast: "buffer_bits (ucast b) 8 = byte_bits b"
  by (auto intro!: nth_equalityI simp: buffer_bits_def byte_bits_def bit_ucast_iff)

lemma clear_ucast: "clear_from 8 (ucast (b :: byte))"
  by (rule clear_fromI) (simp add: bit_ucast_iff)

lemma bit_u64_of_nat: "bit (of_nat v :: u64) i \<longleftrightarrow> i < 64 \<and> bit v i"
  by transfer (simp add: bit_take_bit_iff bit_of_nat_iff_bit)

lemma buffer_of_nat: "n \<le> 64 \<Longrightarrow> buffer_bits (of_nat v) n = nat_bits n v"
  by (auto intro!: nth_equalityI simp: buffer_bits_def nat_bits_def bit_u64_of_nat)

lemma clear_of_nat:
  assumes "v < 2 ^ n"
  shows "clear_from n (of_nat v)"
proof (rule clear_fromI)
  fix i assume "n \<le> i"
  then have "v < 2 ^ i" using assms by (meson le_less_trans less_le_trans nat_less_le power_increasing one_le_numeral)
  then have "\<not> bit v i" by (simp add: bit_iff_odd)
  then show "\<not> bit (of_nat v :: u64) i" by (simp add: bit_u64_of_nat)
qed

lemma byte_of_buffer: "byte_bits (ucast x) = buffer_bits x 8"
  by (auto intro!: nth_equalityI simp: buffer_bits_def byte_bits_def bit_ucast_iff)

lemma mask_val: "unat (x AND mask n) = bits_val (buffer_bits x n)" if "n \<le> 64" for x :: u64
proof -
  have "unat (x AND mask n) = take_bit n (unat x)"
    by (simp add: take_bit_eq_mask [symmetric] unsigned_take_bit_eq)
  also have "\<dots> = bits_val (nat_bits n (unat x))"
    by (simp add: bits_val_def nat_bits_def horner_sum_bit_eq_take_bit)
  also have "nat_bits n (unat x) = buffer_bits x n"
    using that by (auto intro!: nth_equalityI simp: nat_bits_def buffer_bits_def bit_unsigned_iff)
  finally show ?thesis .
qed

subsection \<open>What the operations do\<close>

text \<open>Bits left to read, whatever the state of the reader: the measure of the decoding loops.\<close>

definition bits_left :: "BitReader \<Rightarrow> nat" where
  "bits_left r = br_count r + 8 * (length (br_data r) - br_pos r)"

lemma refill_left: "refill n r = Inr r1 \<Longrightarrow> bits_left r1 = bits_left r \<and> n \<le> br_count r1 \<and> br_data r1 = br_data r"
proof (induction n r rule: refill.induct)
  case (1 n r)
  show ?case
  proof (cases "br_count r < n \<and> br_pos r < length (br_data r)")
    case True
    with "1.prems" have "refill n (r\<lparr>br_bits := br_bits r OR push_bit (br_count r) (ucast (br_data r ! br_pos r)),
        br_count := br_count r + 8, br_pos := br_pos r + 1\<rparr>) = Inr r1" by (simp add: refill.simps [of n r])
    from "1.IH" [OF _ _ this] True show ?thesis by (auto simp: bits_left_def)
  qed (use "1.prems" in \<open>auto simp: refill.simps [of n r] split: if_splits\<close>)
qed

lemma read_bits_left: "read_bits n r = Inr (v, r1) \<Longrightarrow> bits_left r1 + n = bits_left r"
  using refill_left [of n r] by (auto simp: read_bits_def and_then_Inr_iff bits_left_def)

lemma refill_spec:
  assumes "clear_from (br_count r) (br_bits r)" and "br_pos r \<le> length (br_data r)" and "br_count r < n + 8" and "n \<le> 56"
  shows "if n \<le> length (rbits r)
    then \<exists>r1. refill n r = Inr r1 \<and> rbits r1 = rbits r \<and> n \<le> br_count r1 \<and> br_count r1 < n + 8 \<and>
           clear_from (br_count r1) (br_bits r1) \<and> br_pos r1 \<le> length (br_data r1) \<and> br_data r1 = br_data r
    else refill n r = Inl (Refused Truncated)"
  using assms
proof (induction n r rule: refill.induct)
  case (1 n r)
  let ?r1 = "r\<lparr>br_bits := br_bits r OR push_bit (br_count r) (ucast (br_data r ! br_pos r)),
    br_count := br_count r + 8, br_pos := br_pos r + 1\<rparr>"
  show ?case
  proof (cases "br_count r < n \<and> br_pos r < length (br_data r)")
    case True
    have eq: "refill n r = refill n ?r1" using True by (simp add: refill.simps [of n r])
    have d: "drop (br_pos r) (br_data r) = br_data r ! br_pos r # drop (br_pos r + 1) (br_data r)"
      using True by (simp add: Cons_nth_drop_Suc)
    have "rbits ?r1 = rbits r"
      using True "1.prems" by (simp add: rbits_def buffer_push buffer_ucast d)
    moreover have "clear_from (br_count ?r1) (br_bits ?r1)" using clear_push [OF "1.prems"(1) clear_ucast] by simp
    ultimately show ?thesis unfolding eq using "1.IH" True "1.prems" by (simp cong: if_cong)
  next
    case False
    then show ?thesis using "1.prems" by (auto simp: refill.simps [of n r] rbits_def)
  qed
qed

lemma read_bits_spec:
  assumes "reader_ok r" and "n \<le> 56" and "n \<le> length (rbits r)"
  shows "\<exists>r1. read_bits n r = Inr (bits_val (take n (rbits r)), r1) \<and> rbits r1 = drop n (rbits r) \<and> reader_ok r1 \<and> br_data r1 = br_data r"
proof -
  have "clear_from (br_count r) (br_bits r)" "br_pos r \<le> length (br_data r)" "br_count r < n + 8"
    using assms(1) by (auto simp: reader_ok_def)
  from refill_spec [OF this assms(2)] assms(3) obtain r1 where r1: "refill n r = Inr r1" "rbits r1 = rbits r" "n \<le> br_count r1"
      "br_count r1 < n + 8" "clear_from (br_count r1) (br_bits r1)" "br_pos r1 \<le> length (br_data r1)" "br_data r1 = br_data r" by auto
  let ?r2 = "r1\<lparr>br_bits := drop_bit n (br_bits r1), br_count := br_count r1 - n\<rparr>"
  have "unat (br_bits r1 AND mask n) = bits_val (take n (rbits r))"
    unfolding r1(2) [symmetric] using r1(3) assms(2) by (simp add: mask_val rbits_def buffer_take)
  moreover have "rbits ?r2 = drop n (rbits r)" unfolding r1(2) [symmetric] using r1(3) by (simp add: rbits_def buffer_drop)
  moreover have "reader_ok ?r2" using r1 by (auto simp: reader_ok_def clear_drop)
  ultimately show ?thesis using r1 by (simp add: read_bits_def)
qed

lemma read_bits_short:
  assumes "reader_ok r" and "n \<le> 56" and "length (rbits r) < n"
  shows "read_bits n r = Inl (Refused Truncated)"
  using refill_spec [of r n] assms by (auto simp: reader_ok_def read_bits_def)

lemma new_reader_ok: "reader_ok (new_reader data)" "rbits (new_reader data) = bytes_bits data" "br_data (new_reader data) = data"
  by (simp_all add: new_reader_def reader_ok_def rbits_def clear_from_def buffer_bits_def)

lemma reader_align_ok:
  assumes "reader_ok r"
  shows "reader_ok (reader_align r)" and "rbits (reader_align r) = drop (length (rbits r) mod 8) (rbits r)"
    and "br_data (reader_align r) = br_data r"
    and "rbits (reader_align r) = bytes_bits (drop (br_pos r) (br_data r))"
proof -
  have "length (rbits r) mod 8 = br_count r" using assms by (simp add: rbits_def reader_ok_def)
  then show "rbits (reader_align r) = drop (length (rbits r) mod 8) (rbits r)"
    by (simp add: rbits_def reader_align_def buffer_bits_def)
qed (use assms in \<open>auto simp: reader_ok_def reader_align_def clear_from_def rbits_def buffer_bits_def\<close>)

lemma bw_drain_spec:
  assumes "clear_from (bw_count w) (bw_bits w)" and "bw_count w \<le> 64"
  shows "wbits (bw_drain w) = wbits w \<and> writer_ok (bw_drain w)"
  using assms
proof (induction w rule: bw_drain.induct)
  case (1 w)
  let ?w1 = "w\<lparr>bw_out := bw_out w @ [ucast (bw_bits w)], bw_bits := drop_bit 8 (bw_bits w), bw_count := bw_count w - 8\<rparr>"
  show ?case
  proof (cases "8 \<le> bw_count w")
    case True
    have "wbits ?w1 = wbits w"
      using True append_take_drop_id [of 8 "buffer_bits (bw_bits w) (bw_count w)"]
      by (simp add: wbits_def byte_of_buffer buffer_drop buffer_take)
    then show ?thesis using "1.IH" [OF True] "1.prems" True by (simp add: bw_drain.simps [of w] clear_drop)
  qed (use "1.prems" in \<open>simp add: bw_drain.simps [of w] writer_ok_def\<close>)
qed

lemma bw_write_spec:
  assumes "writer_ok w" and "n \<le> 56" and "v < 2 ^ n"
  shows "wbits (bw_write v n w) = wbits w @ nat_bits n v" and "writer_ok (bw_write v n w)"
proof -
  let ?w1 = "w\<lparr>bw_bits := bw_bits w OR push_bit (bw_count w) (of_nat v), bw_count := bw_count w + n\<rparr>"
  have c: "clear_from (bw_count w) (bw_bits w)" "bw_count w + n \<le> 64" using assms by (auto simp: writer_ok_def)
  have "clear_from (bw_count ?w1) (bw_bits ?w1)" using clear_push [OF c(1) clear_of_nat [OF assms(3)]] by simp
  moreover have "wbits ?w1 = wbits w @ nat_bits n v" using c assms(2) by (simp add: wbits_def buffer_push buffer_of_nat)
  ultimately show "wbits (bw_write v n w) = wbits w @ nat_bits n v" "writer_ok (bw_write v n w)"
    using bw_drain_spec [of ?w1] c(2) by (simp_all add: bw_write_def)
qed

lemma writer_align_spec:
  assumes "writer_ok w"
  shows "writer_ok (writer_align w)" and "bw_count (writer_align w) = 0"
    and "\<exists>pad. wbits (writer_align w) = wbits w @ replicate pad False \<and> pad < 8"
    and "wbits (writer_align w) = bytes_bits (bw_out (writer_align w))"
proof -
  show "writer_ok (writer_align w)" "bw_count (writer_align w) = 0"
    "wbits (writer_align w) = bytes_bits (bw_out (writer_align w))"
    using assms by (auto simp: writer_align_def writer_ok_def clear_from_def wbits_def buffer_bits_def)
  show "\<exists>pad. wbits (writer_align w) = wbits w @ replicate pad False \<and> pad < 8"
  proof (cases "0 < bw_count w")
    case True
    have "buffer_bits (bw_bits w) 8 = buffer_bits (bw_bits w) (bw_count w) @ replicate (8 - bw_count w) False"
      using assms clear_from_bit by (intro nth_equalityI) (auto simp: writer_ok_def buffer_bits_def nth_append)
    then show ?thesis using True
      by (intro exI [of _ "8 - bw_count w"]) (simp add: writer_align_def wbits_def byte_of_buffer buffer_bits_def [of 0])
  next
    case False
    then show ?thesis by (intro exI [of _ 0]) (simp add: writer_align_def)
  qed
qed

lemma new_writer_ok: "writer_ok new_writer" "wbits new_writer = []"
  by (simp_all add: new_writer_def writer_ok_def wbits_def clear_from_def buffer_bits_def)

lemma write_bytes_spec:
  assumes "bw_count w = 0" and "writer_ok w"
  shows "wbits (write_bytes bytes w) = wbits w @ bytes_bits bytes" and "writer_ok (write_bytes bytes w)"
    and "bw_count (write_bytes bytes w) = 0"
  using assms by (simp_all add: write_bytes_def wbits_def writer_ok_def buffer_bits_def)

end
