(* ===== verification/Huffman.thy ===== *)
theory Huffman
  imports DeflateBits "HOL-Library.Product_Lexorder"
begin

section \<open>Compression: Huffman codes\<close>

text \<open>
  \<open>Decoder\<close>, \<open>assign_codes\<close> and \<open>build_lengths\<close> of \<open>rustlavel-http/src/compression/deflate.rs\<close>.
  A code is given by the list of the lengths of its words; the encoder numbers the words of each length, the
  decoder keeps how many there are of each length and the symbols in the order of their words.  The locale
  \<open>symbol_codec\<close> states what a writer and a reader of symbols promise each other: a symbol that was written is read back, and nothing behind it
  is touched.  It is interpreted for numbers of a fixed width and for the words of a Huffman code.
\<close>

subsection \<open>Decoding\<close>

definition MAX_BITS :: nat where "MAX_BITS = 15"

record Decoder =
  dec_count :: "nat list"
  dec_symbol :: "nat list"

definition count_lengths :: "nat list \<Rightarrow> nat list" where
  "count_lengths lengths = foldl (\<lambda>cnt len. cnt[len := cnt ! len + 1]) (replicate (MAX_BITS + 1) 0) lengths"

primrec kraft_left :: "int \<Rightarrow> nat list \<Rightarrow> int option" where
  "kraft_left left [] = Some left"
| "kraft_left left (c # cs) = (let left1 = 2 * left - int c in if left1 < 0 then None else kraft_left left1 cs)"

definition code_offsets :: "nat list \<Rightarrow> nat list" where
  "code_offsets cnt =
     foldl (\<lambda>offsets len. offsets[len + 1 := offsets ! len + cnt ! len]) (replicate (MAX_BITS + 2) 0) [1..<MAX_BITS + 1]"

fun place_symbols :: "nat list \<Rightarrow> nat \<Rightarrow> nat list \<Rightarrow> nat list \<Rightarrow> Failure + nat list" where
  "place_symbols [] s offsets symbol = Inr symbol"
| "place_symbols (len # lens) s offsets symbol =
     (if len \<noteq> 0 then
        let slot = offsets ! len in
        if slot < length symbol then place_symbols lens (s + 1) (offsets[len := slot + 1]) (symbol[slot := s])
        else Inl IndexPanic
      else place_symbols lens (s + 1) offsets symbol)"

definition decoder_new :: "nat list \<Rightarrow> Failure + Decoder" where
  "decoder_new lengths =
     (if \<exists>len\<in>set lengths. MAX_BITS < len then Inl IndexPanic
      else
        let cnt = count_lengths lengths; used = length lengths - cnt ! 0 in
        case kraft_left 1 (tl cnt) of
          None \<Rightarrow> Inl (Refused InvalidCode)
        | Some left \<Rightarrow>
            if left > 0 \<and> used > 1 then Inl (Refused InvalidCode)
            else and_then (place_symbols lengths 0 (code_offsets cnt) (replicate used 0)) (\<lambda>symbol.
                 Inr \<lparr>dec_count = cnt, dec_symbol = symbol\<rparr>))"

fun decode_from :: "nat list \<Rightarrow> nat list \<Rightarrow> BitReader \<Rightarrow> int \<Rightarrow> int \<Rightarrow> int \<Rightarrow> Failure + (nat \<times> BitReader)" where
  "decode_from [] symbol r code first index = Inl (Refused InvalidCode)"
| "decode_from (c # cs) symbol r code first index =
     and_then (read_bit r) (\<lambda>(b, r1).
     let code1 = code OR int b in
     if code1 - first < int c then
       let i = index + code1 - first in
       if 0 \<le> i \<and> i < int (length symbol) then Inr (symbol ! nat i, r1) else Inl IndexPanic
     else decode_from cs symbol r1 (2 * code1) (2 * (first + int c)) (index + int c))"

definition decode :: "Decoder \<Rightarrow> BitReader \<Rightarrow> Failure + (nat \<times> BitReader)" where
  "decode d r = decode_from (tl (dec_count d)) (dec_symbol d) r 0 0 0"

subsection \<open>The words of a code\<close>

record Code =
  code_bits :: nat
  code_len :: nat

text \<open>\<open>u16::reverse_bits\<close>, shifted down to the length of the word.\<close>

definition reverse_code :: "nat \<Rightarrow> nat \<Rightarrow> nat" where
  "reverse_code code len = bits_val (rev (nat_bits 16 code)) div 2 ^ (16 - len)"

fun next_codes :: "nat \<Rightarrow> nat list \<Rightarrow> nat list" where
  "next_codes code [] = []"
| "next_codes code (c # cs) = (let code1 = 2 * (code + c) in code1 # next_codes code1 cs)"

fun codes_from :: "nat list \<Rightarrow> nat list \<Rightarrow> Code list" where
  "codes_from [] next_code = []"
| "codes_from (len # lens) next_code =
     (if len = 0 then \<lparr>code_bits = 0, code_len = 0\<rparr> # codes_from lens next_code
      else \<lparr>code_bits = reverse_code (next_code ! len) len, code_len = len\<rparr> #
           codes_from lens (next_code[len := next_code ! len + 1]))"

definition assign_codes :: "nat list \<Rightarrow> Code list" where
  "assign_codes lengths =
     (let cnt = (count_lengths lengths)[0 := 0]
      in codes_from lengths (0 # next_codes 0 (butlast cnt)))"

definition write_code :: "Code \<Rightarrow> BitWriter \<Rightarrow> BitWriter" where
  "write_code c w = bw_write (code_bits c) (code_len c) w"

subsection \<open>Choosing the lengths\<close>

text \<open>
  The heap holds the weight and the node of each tree, smallest first; the order of the pairs is total, so the
  order in which they leave the heap is determined.  A depth is an \<open>u8\<close> in the code; weights that start as \<open>u32\<close> make no tree
  of even a hundred levels, since the weight of a tree grows with its depth as the Fibonacci numbers do.
\<close>

definition heap_push :: "nat \<times> nat \<Rightarrow> (nat \<times> nat) list \<Rightarrow> (nat \<times> nat) list" where
  "heap_push x heap = insort x heap"

lemma length_heap_push [simp]: "length (heap_push x heap) = Suc (length heap)"
  by (simp add: heap_push_def)

function join_loop :: "(nat \<times> nat) list \<Rightarrow> nat option list \<Rightarrow> nat \<Rightarrow> nat option list" where
  "join_loop ((w1, a) # (w2, b) # heap) parent nxt =
     join_loop (heap_push (w1 + w2, nxt) heap) (parent[a := Some nxt, b := Some nxt]) (nxt + 1)"
| "join_loop [] parent nxt = parent"
| "join_loop [x] parent nxt = parent"
  by pat_completeness auto
termination
  by (relation "measure (\<lambda>(heap, parent, nxt). length heap)") auto

text \<open>The walk from a leaf to the root, along at most \<open>n\<close> edges.\<close>

fun node_depth :: "nat \<Rightarrow> nat option list \<Rightarrow> nat \<Rightarrow> nat" where
  "node_depth 0 parent node = 0"
| "node_depth (Suc n) parent node = (case parent ! node of None \<Rightarrow> 0 | Some p \<Rightarrow> Suc (node_depth n parent p))"

definition tree_depth :: "nat list \<Rightarrow> nat list \<Rightarrow> nat \<Rightarrow> nat" where
  "tree_depth weights used s =
     (let k = length weights; parent = join_loop (sort (map (\<lambda>i. (weights ! i, i)) used)) (replicate (2 * k) None) k
      in node_depth (2 * k) parent s)"

text \<open>
  The loop that flattens the weights until the tree is shallow enough; \<open>None\<close> stands for a loop that is
  still running after \<open>n\<close> rounds.  As many rounds as the weights sum up to are enough, because every round halves them.
\<close>

fun lengths_loop :: "nat \<Rightarrow> nat \<Rightarrow> nat list \<Rightarrow> nat list \<Rightarrow> nat list \<Rightarrow> nat list option" where
  "lengths_loop 0 max_bits used weights lengths = None"
| "lengths_loop (Suc n) max_bits used weights lengths =
     (let lengths1 = fold (\<lambda>s ls. ls[s := tree_depth weights used s]) used lengths in
      if \<exists>s\<in>set used. tree_depth weights used s > max_bits then
        lengths_loop n max_bits used (map (\<lambda>w. if w > 0 then (w + 1) div 2 else w) weights) lengths1
      else Some lengths1)"

definition build_lengths :: "nat list \<Rightarrow> nat \<Rightarrow> nat list option" where
  "build_lengths freqs max_bits =
     (let lengths = replicate (length freqs) 0; used = filter (\<lambda>i. freqs ! i > 0) [0..<length freqs] in
      case used of
        [] \<Rightarrow> Some lengths
      | [s] \<Rightarrow> Some (lengths[s := 1])
      | _ \<Rightarrow> lengths_loop (Suc (sum_list freqs)) max_bits used freqs lengths)"

subsection \<open>Counting the words of each length\<close>

definition cnt :: "nat list \<Rightarrow> nat \<Rightarrow> nat" where
  "cnt ls l = (if l = 0 then 0 else count_list ls l)"

fun first_code :: "nat list \<Rightarrow> nat \<Rightarrow> nat" where
  "first_code ls 0 = 0"
| "first_code ls (Suc l) = 2 * (first_code ls l + cnt ls l)"

fun offset_of :: "nat list \<Rightarrow> nat \<Rightarrow> nat" where
  "offset_of ls 0 = 0"
| "offset_of ls (Suc l) = offset_of ls l + cnt ls l"

definition rank :: "nat list \<Rightarrow> nat \<Rightarrow> nat" where
  "rank ls s = count_list (take s ls) (ls ! s)"

definition word_of :: "nat list \<Rightarrow> nat \<Rightarrow> nat" where
  "word_of ls s = first_code ls (ls ! s) + rank ls s"

definition code_word :: "nat list \<Rightarrow> nat \<Rightarrow> bool list" where
  "code_word ls s = rev (nat_bits (ls ! s) (word_of ls s))"

definition kraft_ok :: "nat list \<Rightarrow> bool" where
  "kraft_ok ls \<longleftrightarrow> (\<forall>len\<in>set ls. len \<le> MAX_BITS) \<and> (\<forall>l \<le> MAX_BITS. first_code ls l + cnt ls l \<le> 2 ^ l)"

lemma count_lengths_from:
  "(\<forall>len\<in>set ls. len < length c) \<Longrightarrow> l < length c \<Longrightarrow>
     foldl (\<lambda>cnt len. cnt[len := cnt ! len + 1]) c ls ! l = c ! l + count_list ls l \<and>
     length (foldl (\<lambda>cnt len. cnt[len := cnt ! len + 1]) c ls) = length c"
  by (induction ls arbitrary: c) (auto simp: nth_list_update)

lemma count_lengths_nth:
  assumes "\<forall>len\<in>set ls. len \<le> MAX_BITS" and "l \<le> MAX_BITS"
  shows "count_lengths ls ! l = count_list ls l" and "length (count_lengths ls) = MAX_BITS + 1"
  using count_lengths_from [of ls "replicate (MAX_BITS + 1) 0" l] assms
  by (auto simp: count_lengths_def less_Suc_eq_le nth_Cons' simp del: replicate_Suc)

lemma rank_less: "s < length ls \<Longrightarrow> rank ls s < count_list ls (ls ! s)"
proof -
  assume s: "s < length ls"
  have "count_list ls (ls ! s) = count_list (take s ls @ ls ! s # drop (Suc s) ls) (ls ! s)"
    using s by (simp only: id_take_nth_drop [symmetric])
  then have "count_list ls (ls ! s) = count_list (take s ls) (ls ! s) + Suc (count_list (drop (Suc s) ls) (ls ! s))" by simp
  then show ?thesis by (simp add: rank_def)
qed

lemma rank_less_cnt: "s < length ls \<Longrightarrow> ls ! s \<noteq> 0 \<Longrightarrow> rank ls s < cnt ls (ls ! s)"
  using rank_less by (simp add: cnt_def)

lemma first_code_grows: "l < m \<Longrightarrow> (first_code ls l + cnt ls l) * 2 ^ (m - l) \<le> first_code ls m"
proof (induction m)
  case (Suc m)
  show ?case
  proof (cases "l = m")
    case False
    with Suc have "(first_code ls l + cnt ls l) * 2 ^ (m - l) \<le> first_code ls m" by simp
    moreover have "Suc m - l = Suc (m - l)" using False Suc.prems by simp
    ultimately show ?thesis by simp
  qed simp
qed simp

lemma first_code_sum: "first_code ls l + cnt ls l = (\<Sum>k\<le>l. cnt ls k * 2 ^ (l - k))"
proof (induction l)
  case (Suc l)
  have "(\<Sum>k\<le>l. cnt ls k * 2 ^ (Suc l - k)) = 2 * (\<Sum>k\<le>l. cnt ls k * 2 ^ (l - k))"
    by (simp add: sum_distrib_left Suc_diff_le mult.left_commute)
  with Suc show ?case by simp
qed (simp add: cnt_def)

lemma word_of_less:
  assumes "kraft_ok ls" and "s < length ls" and "ls ! s \<noteq> 0"
  shows "word_of ls s < 2 ^ (ls ! s)"
proof -
  have "ls ! s \<le> MAX_BITS" using assms by (auto simp: kraft_ok_def)
  then have "first_code ls (ls ! s) + cnt ls (ls ! s) \<le> 2 ^ (ls ! s)" using assms(1) by (simp add: kraft_ok_def)
  with rank_less_cnt [OF assms(2,3)] show ?thesis by (simp add: word_of_def)
qed

lemma offset_mono: "l < m \<Longrightarrow> offset_of ls l + cnt ls l \<le> offset_of ls m"
proof (induction m)
  case (Suc m)
  then show ?case by (cases "l = m") auto
qed simp

lemma count_list_sum: "\<forall>len\<in>set ls. len \<le> m \<Longrightarrow> (\<Sum>l\<le>m. count_list ls l) = length ls" for m :: nat
proof (induction ls)
  case (Cons a ls)
  then have "(\<Sum>l\<le>m. count_list (a # ls) l) = (\<Sum>l\<le>m. (if l = a then 1 else 0) + count_list ls l)"
    by (intro sum.cong) auto
  also have "\<dots> = (\<Sum>l\<le>m. if l = a then 1 else 0) + length ls" using Cons by (simp add: sum.distrib)
  also have "(\<Sum>l\<le>m. if l = a then 1 else 0 :: nat) = 1" using Cons.prems by (subst sum.delta) auto
  finally show ?case by simp
qed simp

lemma offset_of_sum: "offset_of ls (Suc m) + count_list ls 0 = (\<Sum>l\<le>m. count_list ls l)"
  by (induction m) (auto simp: cnt_def)

lemma offset_of_all: "\<forall>len\<in>set ls. len \<le> MAX_BITS \<Longrightarrow> offset_of ls (MAX_BITS + 1) = length ls - count_list ls 0"
  using offset_of_sum [of ls MAX_BITS] count_list_sum [of ls MAX_BITS] by simp

subsection \<open>What the constructor accepts\<close>

lemma kraft_left_from:
  assumes "l \<le> m"
  shows "kraft_left (2 ^ l - int (first_code ls l + cnt ls l)) (map (cnt ls) [Suc l..<Suc m]) =
    (if \<forall>k. l < k \<and> k \<le> m \<longrightarrow> first_code ls k + cnt ls k \<le> 2 ^ k
     then Some (2 ^ m - int (first_code ls m + cnt ls m)) else None)"
  using assms
proof (induction l rule: inc_induct)
  case (step l)
  have up: "[Suc l..<Suc m] = Suc l # [Suc (Suc l)..<Suc m]" using step.hyps by (simp add: upt_conv_Cons)
  have left: "2 * (2 ^ l - int (first_code ls l + cnt ls l)) - int (cnt ls (Suc l)) =
      2 ^ Suc l - int (first_code ls (Suc l) + cnt ls (Suc l))" by simp
  have neg: "2 ^ Suc l - int (first_code ls (Suc l) + cnt ls (Suc l)) < 0 \<longleftrightarrow> \<not> first_code ls (Suc l) + cnt ls (Suc l) \<le> 2 ^ Suc l"
    by (simp only: not_le of_nat_less_iff [symmetric, where 'a = int]) auto
  have all: "(\<forall>k. l < k \<and> k \<le> m \<longrightarrow> P k) \<longleftrightarrow> P (Suc l) \<and> (\<forall>k. Suc l < k \<and> k \<le> m \<longrightarrow> P k)" for P
    using step.hyps by (metis Suc_leI Suc_lessI lessI order_less_trans Suc_lessD)
  show ?case
    unfolding up list.map kraft_left.simps Let_def left neg step.IH all by simp
qed simp

lemma count_tl:
  assumes "\<forall>len\<in>set ls. len \<le> MAX_BITS"
  shows "tl (count_lengths ls) = map (cnt ls) [1..<Suc MAX_BITS]"
proof (rule nth_equalityI)
  show "length (tl (count_lengths ls)) = length (map (cnt ls) [1..<Suc MAX_BITS])"
    using count_lengths_nth(2) [OF assms, of 0] by simp
  fix i assume "i < length (tl (count_lengths ls))"
  then have i: "Suc i \<le> MAX_BITS" using count_lengths_nth(2) [OF assms, of 0] by simp
  then show "tl (count_lengths ls) ! i = map (cnt ls) [1..<Suc MAX_BITS] ! i"
    using count_lengths_nth [OF assms, of "Suc i"] by (simp add: nth_tl cnt_def del: upt_Suc)
qed

lemma kraft_left_count:
  assumes "\<forall>len\<in>set ls. len \<le> MAX_BITS"
  shows "kraft_left 1 (tl (count_lengths ls)) =
    (if kraft_ok ls then Some (2 ^ MAX_BITS - int (first_code ls MAX_BITS + cnt ls MAX_BITS)) else None)"
proof -
  have "kraft_ok ls \<longleftrightarrow> (\<forall>k. 0 < k \<and> k \<le> MAX_BITS \<longrightarrow> first_code ls k + cnt ls k \<le> 2 ^ k)"
    using assms by (auto simp: kraft_ok_def) (metis One_nat_def add_0 cnt_def first_code.simps(1) less_Suc0 neq0_conv not_one_le_zero order.refl power_0 zero_le)
  then show ?thesis
    using kraft_left_from [of 0 MAX_BITS ls] by (simp add: count_tl [OF assms] cnt_def [of ls 0] del: upt_Suc)
qed

lemma code_offsets_from:
  fixes os ls :: "nat list"
  defines "step \<equiv> \<lambda>offsets len. offsets[len + 1 := offsets ! len + count_lengths ls ! len]"
  assumes "length os = MAX_BITS + 2" and "os ! 1 = 0" and "\<forall>len\<in>set ls. len \<le> MAX_BITS" and "m \<le> MAX_BITS"
  shows "length (foldl step os [1..<Suc m]) = MAX_BITS + 2 \<and> (\<forall>l. 1 \<le> l \<and> l \<le> Suc m \<longrightarrow> foldl step os [1..<Suc m] ! l = offset_of ls l)"
  using assms(5)
proof (induction m)
  case 0
  then show ?case using assms(2,3) by (auto simp: cnt_def le_Suc_eq)
next
  case (Suc m)
  have up: "[1..<Suc (Suc m)] = [1..<Suc m] @ [Suc m]" by simp
  have "count_lengths ls ! Suc m = cnt ls (Suc m)"
    using count_lengths_nth(1) [OF assms(4), of "Suc m"] Suc.prems by (simp add: cnt_def)
  then show ?case using Suc unfolding up foldl_append foldl_Cons foldl_Nil
    by (auto simp: step_def nth_list_update le_Suc_eq simp del: upt_Suc)
qed

lemma code_offsets_nth:
  assumes "\<forall>len\<in>set ls. len \<le> MAX_BITS" and "1 \<le> l" and "l \<le> MAX_BITS"
  shows "code_offsets (count_lengths ls) ! l = offset_of ls l" and "length (code_offsets (count_lengths ls)) = MAX_BITS + 2"
  using code_offsets_from [OF _ _ assms(1) order.refl, of "replicate (MAX_BITS + 2) 0"] assms(2,3)
  by (simp_all add: code_offsets_def del: upt_Suc replicate_Suc)

text \<open>Where the symbol \<open>s\<close> is in the sorted table.\<close>

definition slot_index :: "nat list \<Rightarrow> nat \<Rightarrow> nat" where
  "slot_index ls s = offset_of ls (ls ! s) + rank ls s"

lemma slot_bound:
  assumes "\<forall>len\<in>set ls. len \<le> MAX_BITS" and "s < length ls" and "ls ! s \<noteq> 0"
  shows "slot_index ls s < offset_of ls (MAX_BITS + 1)"
proof -
  have "ls ! s < MAX_BITS + 1" using assms by (auto simp: less_Suc_eq_le)
  from offset_mono [OF this, of ls] rank_less_cnt [OF assms(2,3)] show ?thesis by (simp add: slot_index_def)
qed

lemma rank_strict:
  assumes "s < t" and "t < length ls" and "ls ! s = ls ! t"
  shows "rank ls s < rank ls t"
proof -
  have "take s (take t ls) = take s ls" "take t ls ! s = ls ! s" "s < length (take t ls)" using assms by auto
  then have "rank (take t ls) s = rank ls s" by (simp add: rank_def)
  with rank_less [of s "take t ls"] assms show ?thesis by (simp add: rank_def)
qed

lemma slot_inj:
  assumes "s < length ls" and "t < length ls" and "ls ! s \<noteq> 0" and "ls ! t \<noteq> 0" and "slot_index ls s = slot_index ls t"
  shows "s = t"
proof -
  have lt: "slot_index ls a < slot_index ls b" if "ls ! a < ls ! b" "a < length ls" "ls ! a \<noteq> 0" for a b
    using offset_mono [OF that(1), of ls] rank_less_cnt [OF that(2,3)] by (simp add: slot_index_def)
  have eq: "ls ! s = ls ! t" using lt [of s t] lt [of t s] assms by (metis less_irrefl nat_neq_iff)
  then have "rank ls s = rank ls t" using assms(5) by (simp add: slot_index_def)
  then show ?thesis using rank_strict [of s t ls] rank_strict [of t s ls] eq assms(1,2) by (metis less_irrefl nat_neq_iff)
qed

lemma place_symbols_spec:
  assumes "ls = front @ tail" and "\<forall>len\<in>set ls. len \<le> MAX_BITS" and "length offsets = MAX_BITS + 2"
    and "\<forall>l. 1 \<le> l \<and> l \<le> MAX_BITS \<longrightarrow> offsets ! l = offset_of ls l + count_list front l"
    and "length symbol = offset_of ls (MAX_BITS + 1)"
    and "\<forall>t < length front. ls ! t \<noteq> 0 \<longrightarrow> symbol ! slot_index ls t = t"
  shows "\<exists>symbol1. place_symbols tail (length front) offsets symbol = Inr symbol1 \<and> length symbol1 = length symbol \<and>
    (\<forall>t < length ls. ls ! t \<noteq> 0 \<longrightarrow> symbol1 ! slot_index ls t = t)"
  using assms
proof (induction tail arbitrary: front offsets symbol)
  case (Cons len tail)
  let ?s = "length front"
  have s: "?s < length ls" "ls ! ?s = len" "take ?s ls = front" using Cons.prems(1) by auto
  have len: "len \<le> MAX_BITS" using Cons.prems(1,2) by auto
  have ls: "ls = (front @ [len]) @ tail" using Cons.prems(1) by simp
  show ?case
  proof (cases "len = 0")
    case True
    have "\<forall>l. 1 \<le> l \<and> l \<le> MAX_BITS \<longrightarrow> offsets ! l = offset_of ls l + count_list (front @ [len]) l"
      using Cons.prems(4) True by auto
    moreover have "\<forall>t < length (front @ [len]). ls ! t \<noteq> 0 \<longrightarrow> symbol ! slot_index ls t = t"
      using Cons.prems(6) s True by (auto simp: less_Suc_eq)
    ultimately show ?thesis using Cons.IH [OF ls Cons.prems(2,3) _ Cons.prems(5)] True by simp
  next
    case False
    have slot: "offsets ! len = slot_index ls ?s" using Cons.prems(4) len False s by (simp add: slot_index_def rank_def)
    have bound: "slot_index ls ?s < length symbol" using slot_bound [OF Cons.prems(2) s(1)] s False Cons.prems(5) by simp
    let ?symbol = "symbol[slot_index ls ?s := ?s]" and ?offsets = "offsets[len := slot_index ls ?s + 1]"
    have "\<forall>l. 1 \<le> l \<and> l \<le> MAX_BITS \<longrightarrow> ?offsets ! l = offset_of ls l + count_list (front @ [len]) l"
      using Cons.prems(3,4) slot len by (auto simp: nth_list_update)
    moreover have "\<forall>t < length (front @ [len]). ls ! t \<noteq> 0 \<longrightarrow> ?symbol ! slot_index ls t = t"
    proof (intro allI impI)
      fix t assume t: "t < length (front @ [len])" "ls ! t \<noteq> 0"
      have "t < length ls" using t(1) ls by (metis length_append trans_less_add1)
      then have "slot_index ls t = slot_index ls ?s \<longleftrightarrow> t = ?s" using slot_inj [of t ls ?s] t(2) s False by auto
      then show "?symbol ! slot_index ls t = t" using t Cons.prems(6) bound by (auto simp: nth_list_update less_Suc_eq)
    qed
    ultimately show ?thesis
      using Cons.IH [OF ls Cons.prems(2), of ?offsets ?symbol] Cons.prems(3,5) False slot bound by (simp add: Let_def)
  qed
qed auto

lemma decoder_new_spec:
  assumes "kraft_ok ls"
    and "first_code ls MAX_BITS + cnt ls MAX_BITS = 2 ^ MAX_BITS \<or> length ls - count_list ls 0 \<le> 1"
  shows "\<exists>d. decoder_new ls = Inr d \<and> dec_count d = count_lengths ls \<and> length (dec_symbol d) = offset_of ls (MAX_BITS + 1) \<and>
    (\<forall>t < length ls. ls ! t \<noteq> 0 \<longrightarrow> dec_symbol d ! slot_index ls t = t)"
proof -
  have small: "\<forall>len\<in>set ls. len \<le> MAX_BITS" using assms(1) by (simp add: kraft_ok_def)
  have used: "length ls - count_lengths ls ! 0 = offset_of ls (MAX_BITS + 1)"
    using count_lengths_nth(1) [OF small, of 0] offset_of_all [OF small] by simp
  obtain symbol where sym: "place_symbols ls 0 (code_offsets (count_lengths ls)) (replicate (offset_of ls (MAX_BITS + 1)) 0) = Inr symbol"
      "length symbol = offset_of ls (MAX_BITS + 1)" "\<forall>t < length ls. ls ! t \<noteq> 0 \<longrightarrow> symbol ! slot_index ls t = t"
    using place_symbols_spec [of ls "[]" ls "code_offsets (count_lengths ls)" "replicate (offset_of ls (MAX_BITS + 1)) 0"]
      small code_offsets_nth(1) [OF small] code_offsets_nth(2) [OF small, of 1] by (auto simp: MAX_BITS_def)
  have "\<not> (0 < 2 ^ MAX_BITS - int (first_code ls MAX_BITS + cnt ls MAX_BITS) \<and> 1 < offset_of ls (MAX_BITS + 1))"
    using assms(2) offset_of_all [OF small] by (auto simp flip: of_nat_add)
  then show ?thesis
    using small sym assms(1) by (simp add: decoder_new_def Let_def used kraft_left_count [OF small] not_less)
qed

lemma decoder_new_cases:
  assumes "\<forall>len\<in>set ls. len \<le> MAX_BITS"
  shows "(\<exists>d. decoder_new ls = Inr d) \<or> decoder_new ls = Inl (Refused InvalidCode)"
proof (cases "kraft_ok ls \<and> (first_code ls MAX_BITS + cnt ls MAX_BITS = 2 ^ MAX_BITS \<or> length ls - count_list ls 0 \<le> 1)")
  case True
  then show ?thesis using decoder_new_spec by blast
next
  case False
  have used: "length ls - count_lengths ls ! 0 = length ls - count_list ls 0"
    using count_lengths_nth(1) [OF assms, of 0] by simp
  define whole where "whole = first_code ls MAX_BITS + cnt ls MAX_BITS"
  have "kraft_ok ls \<Longrightarrow> whole \<le> 2 ^ MAX_BITS" by (simp add: kraft_ok_def whole_def)
  then have "kraft_ok ls \<Longrightarrow> whole < 2 ^ MAX_BITS \<and> 1 < length ls - count_list ls 0"
    using False whole_def by (metis le_neq_implies_less not_le)
  then have "kraft_ok ls \<Longrightarrow> 0 < 2 ^ MAX_BITS - int whole \<and> 1 < length ls - count_list ls 0" by simp
  moreover have "\<not> (\<exists>len\<in>set ls. MAX_BITS < len)" using assms by (simp add: not_less)
  ultimately show ?thesis by (simp only: decoder_new_def Let_def used kraft_left_count [OF assms] flip: whole_def) simp
qed

subsection \<open>Reading a word\<close>

lemma rev_nat_bits_Suc: "rev (nat_bits (Suc k) v) = bit v k # rev (nat_bits k v)"
  by (simp add: nat_bits_def)

lemma or_bit: "2 * x OR of_bool b = 2 * x + (of_bool b :: int)"
  by (cases b) (simp_all add: or_one_eq)

lemma div_bit: "2 * (v div 2 ^ Suc k) + of_bool (bit v k) = v div 2 ^ k" for v :: nat
proof -
  have "v div 2 ^ Suc k = v div 2 ^ k div 2" by (simp only: power_Suc2 div_mult2_eq)
  then show ?thesis by (simp only: bit_iff_odd of_bool_odd_eq_mod_2 mult_div_mod_eq)
qed

lemma code_bit: "2 * int (v div 2 ^ Suc k) OR int (of_bool (bit v k)) = int (v div 2 ^ k)"
  unfolding div_bit [of v k, symmetric] by (simp only: of_nat_add of_nat_mult of_nat_numeral of_nat_of_bool or_bit)

lemma read_bit_spec:
  assumes "reader_ok r" and "rbits r = b # rest"
  shows "\<exists>r1. read_bit r = Inr (of_bool b, r1) \<and> rbits r1 = rest \<and> reader_ok r1 \<and> br_data r1 = br_data r"
  using read_bits_spec [OF assms(1), of 1] assms(2) by (auto simp: read_bit_def bits_val_def)

lemma decode_from_step:
  "read_bit r = Inr (b, r1) \<Longrightarrow> code OR int b = code1 \<Longrightarrow>
     decode_from (c # cs) symbol r code first index =
       (if code1 - first < int c then
          let i = index + code1 - first in
          if 0 \<le> i \<and> i < int (length symbol) then Inr (symbol ! nat i, r1) else Inl IndexPanic
        else decode_from cs symbol r1 (2 * code1) (2 * (first + int c)) (index + int c))"
  by (simp add: Let_def)

lemma decode_from_word:
  assumes "s < length ls" and "ls ! s \<noteq> 0" and "ls ! s \<le> MAX_BITS"
    and "slot_index ls s < length symbol" and "symbol ! slot_index ls s = s"
  shows "1 \<le> l \<Longrightarrow> l \<le> ls ! s \<Longrightarrow> reader_ok r \<Longrightarrow> rbits r = rev (nat_bits (Suc (ls ! s - l)) (word_of ls s)) @ rest \<Longrightarrow>
    \<exists>r1. decode_from (map (cnt ls) [l..<Suc MAX_BITS]) symbol r (2 * int (word_of ls s div 2 ^ Suc (ls ! s - l)))
           (int (first_code ls l)) (int (offset_of ls l)) = Inr (s, r1) \<and> rbits r1 = rest \<and> reader_ok r1 \<and> br_data r1 = br_data r"
proof (induction "ls ! s - l" arbitrary: l r)
  case 0
  let ?v = "word_of ls s"
  have l: "l = ls ! s" using 0 by simp
  have up: "[l..<Suc MAX_BITS] = l # [Suc l..<Suc MAX_BITS]" using l assms(3) by (simp add: upt_conv_Cons)
  obtain r1 where r1: "read_bit r = Inr (of_bool (bit ?v 0), r1)" "rbits r1 = rest" "reader_ok r1" "br_data r1 = br_data r"
    using read_bit_spec [OF "0.prems"(3)] "0.prems"(4) l by (auto simp: rev_nat_bits_Suc nat_bits_def)
  have code: "2 * int (?v div 2) OR int (of_bool (bit ?v 0)) = int ?v"
    using code_bit [of ?v 0] by simp
  have v: "int ?v - int (first_code ls l) = int (rank ls s)" "rank ls s < cnt ls l"
    using rank_less_cnt [OF assms(1,2)] l by (simp_all add: word_of_def)
  have i: "int (offset_of ls l) + int ?v - int (first_code ls l) = int (slot_index ls s)" using l by (simp add: word_of_def slot_index_def)
  show ?case using r1(2-) assms(4,5) v i l unfolding up list.map by (simp add: decode_from_step [OF r1(1) code] del: upt_Suc decode_from.simps)
next
  case (Suc k)
  let ?v = "word_of ls s" and ?L = "ls ! s"
  have k: "?L - l = Suc k" "?L - Suc l = k" "l < ?L" using Suc.hyps(2) by auto
  have up: "[l..<Suc MAX_BITS] = l # [Suc l..<Suc MAX_BITS]" using k assms(3) by (simp add: upt_conv_Cons)
  have rb: "rbits r = bit ?v (Suc k) # rev (nat_bits (Suc k) ?v) @ rest"
    using Suc.prems(4) k by (simp add: rev_nat_bits_Suc)
  obtain r1 where r1: "read_bit r = Inr (of_bool (bit ?v (Suc k)), r1)" "rbits r1 = rev (nat_bits (Suc k) ?v) @ rest" "reader_ok r1" "br_data r1 = br_data r"
    using read_bit_spec [OF Suc.prems(3) rb] by blast
  have code: "2 * int (?v div 2 ^ Suc (Suc k)) OR int (of_bool (bit ?v (Suc k))) = int (?v div 2 ^ Suc k)"
    by (rule code_bit)
  have "(first_code ls l + cnt ls l) * 2 ^ Suc k \<le> ?v"
    using first_code_grows [OF k(3), of ls] k(1) by (simp add: word_of_def)
  then have "first_code ls l + cnt ls l \<le> ?v div 2 ^ Suc k" by (simp add: less_eq_div_iff_mult_less_eq)
  then have skip: "\<not> int (?v div 2 ^ Suc k) - int (first_code ls l) < int (cnt ls l)" by linarith
  obtain r2 where r2: "decode_from (map (cnt ls) [Suc l..<Suc MAX_BITS]) symbol r1 (2 * int (?v div 2 ^ Suc k))
      (int (first_code ls (Suc l))) (int (offset_of ls (Suc l))) = Inr (s, r2)" "rbits r2 = rest" "reader_ok r2" "br_data r2 = br_data r1"
    using Suc.hyps(1) [of "Suc l" r1] k r1 by auto
  show ?case
    using r1(2-) r2 skip unfolding up k(1) list.map
    by (simp add: decode_from_step [OF r1(1) code] del: upt_Suc power_Suc decode_from.simps)
qed

lemma decoder_newD:
  assumes "decoder_new ls = Inr d"
  shows "kraft_ok ls" and "first_code ls MAX_BITS + cnt ls MAX_BITS = 2 ^ MAX_BITS \<or> length ls - count_list ls 0 \<le> 1"
proof -
  have small: "\<forall>len\<in>set ls. len \<le> MAX_BITS" using assms by (auto simp: decoder_new_def not_less split: if_splits)
  have used: "length ls - count_lengths ls ! 0 = length ls - count_list ls 0"
    using count_lengths_nth(1) [OF small, of 0] by simp
  show k: "kraft_ok ls" using assms by (auto simp: decoder_new_def Let_def kraft_left_count [OF small] split: if_splits)
  define whole where "whole = first_code ls MAX_BITS + cnt ls MAX_BITS"
  have "whole \<le> 2 ^ MAX_BITS" using k by (simp add: kraft_ok_def whole_def)
  moreover have "\<not> (0 < 2 ^ MAX_BITS - int whole \<and> 1 < length ls - count_list ls 0)"
    using assms small by (auto simp: decoder_new_def Let_def used kraft_left_count [OF small] k not_less whole_def split: if_splits)
  ultimately show "first_code ls MAX_BITS + cnt ls MAX_BITS = 2 ^ MAX_BITS \<or> length ls - count_list ls 0 \<le> 1"
    unfolding whole_def [symmetric] by (simp add: not_less) (metis le_antisym)
qed

lemma decode_word:
  assumes "decoder_new ls = Inr d" and "s < length ls" and "ls ! s \<noteq> 0"
    and "reader_ok r" and "rbits r = code_word ls s @ rest"
  shows "\<exists>r1. decode d r = Inr (s, r1) \<and> rbits r1 = rest \<and> reader_ok r1 \<and> br_data r1 = br_data r"
proof -
  note new = decoder_newD [OF assms(1)]
  have small: "\<forall>len\<in>set ls. len \<le> MAX_BITS" using new(1) by (simp add: kraft_ok_def)
  have L: "1 \<le> ls ! s" "ls ! s \<le> MAX_BITS" "Suc (ls ! s - 1) = ls ! s" using assms(2,3) small by auto
  from decoder_new_spec [OF new] assms(1) have d: "dec_count d = count_lengths ls"
      "length (dec_symbol d) = offset_of ls (MAX_BITS + 1)" "dec_symbol d ! slot_index ls s = s"
    using assms(2,3) by auto
  have "word_of ls s div 2 ^ (ls ! s) = 0" using word_of_less [OF new(1) assms(2,3)] by simp
  then show ?thesis
    using decode_from_word [OF assms(2,3) L(2), of "dec_symbol d" 1 r rest] assms(4,5) L slot_bound [OF small assms(2,3)] d
    by (simp add: decode_def code_word_def count_tl [OF small] cnt_def [of ls 0] del: upt_Suc)
qed

subsection \<open>Writing a word\<close>

lemma next_codes_from: "next_codes (first_code ls l) (map (cnt ls) [l..<m]) = map (first_code ls) [Suc l..<Suc m]"
proof (induction "m - l" arbitrary: l)
  case (Suc k)
  then have "[l..<m] = l # [Suc l..<m]" "[Suc l..<Suc m] = Suc l # [Suc (Suc l)..<Suc m]" by (simp_all add: upt_conv_Cons del: upt_Suc)
  then show ?case using Suc(1) [of "Suc l"] Suc(2) by (simp add: Let_def del: upt_Suc)
qed simp

lemma count_zeroed:
  assumes "\<forall>len\<in>set ls. len \<le> MAX_BITS"
  shows "(count_lengths ls)[0 := 0] = map (cnt ls) [0..<Suc MAX_BITS]"
proof (rule nth_equalityI)
  have len: "length (count_lengths ls) = MAX_BITS + 1" using count_lengths_nth(2) [OF assms, of 0] by simp
  then show "length ((count_lengths ls)[0 := 0]) = length (map (cnt ls) [0..<Suc MAX_BITS])" by simp
  fix i assume "i < length ((count_lengths ls)[0 := 0])"
  then show "(count_lengths ls)[0 := 0] ! i = map (cnt ls) [0..<Suc MAX_BITS] ! i"
    using len count_lengths_nth(1) [OF assms, of i] by (auto simp: nth_list_update cnt_def simp del: upt_Suc)
qed

lemma codes_from_nth:
  assumes "ls = front @ tail" and "\<forall>len\<in>set ls. len \<le> MAX_BITS" and "length next_code = MAX_BITS + 1"
    and "\<forall>l. 1 \<le> l \<and> l \<le> MAX_BITS \<longrightarrow> next_code ! l = first_code ls l + count_list front l"
    and "i < length tail" and "tail ! i \<noteq> 0"
  shows "codes_from tail next_code ! i = \<lparr>code_bits = reverse_code (word_of ls (length front + i)) (tail ! i), code_len = tail ! i\<rparr>"
  using assms
proof (induction tail arbitrary: front next_code i)
  case (Cons len tail)
  have ls: "ls = (front @ [len]) @ tail" using Cons.prems(1) by simp
  have len: "len \<le> MAX_BITS" using Cons.prems(1,2) by auto
  have "\<forall>l. 1 \<le> l \<and> l \<le> MAX_BITS \<longrightarrow> next_code[len := next_code ! len + 1] ! l = first_code ls l + count_list (front @ [len]) l" if "len \<noteq> 0"
    using Cons.prems(3,4) len that by (auto simp: nth_list_update)
  moreover have "\<forall>l. 1 \<le> l \<and> l \<le> MAX_BITS \<longrightarrow> next_code ! l = first_code ls l + count_list (front @ [len]) l" if "len = 0"
    using Cons.prems(4) that by auto
  ultimately show ?case
    using Cons.IH [OF ls Cons.prems(2)] Cons.prems len
    by (cases i) (auto simp: word_of_def rank_def nth_append)
qed simp

lemma length_codes_from: "length (codes_from ls next_code) = length ls"
  by (induction ls next_code rule: codes_from.induct) auto

lemma assign_codes_nth:
  assumes "\<forall>len\<in>set ls. len \<le> MAX_BITS" and "s < length ls" and "ls ! s \<noteq> 0"
  shows "assign_codes ls ! s = \<lparr>code_bits = reverse_code (word_of ls s) (ls ! s), code_len = ls ! s\<rparr>"
proof -
  have "0 # next_codes 0 (butlast ((count_lengths ls)[0 := 0])) = first_code ls 0 # map (first_code ls) [Suc 0..<Suc MAX_BITS]"
    using next_codes_from [of ls 0 MAX_BITS] by (simp add: count_zeroed [OF assms(1)])
  also have "\<dots> = map (first_code ls) [0..<Suc MAX_BITS]" by (simp add: upt_conv_Cons [of 0] del: upt_Suc)
  finally have "assign_codes ls = codes_from ls (map (first_code ls) [0..<Suc MAX_BITS])" by (simp only: assign_codes_def Let_def)
  then show ?thesis using codes_from_nth [of ls "[]" ls "map (first_code ls) [0..<Suc MAX_BITS]" s] assms by (simp del: upt_Suc)
qed

lemma bits_val_zeros: "bits_val (replicate k False @ bs) = 2 ^ k * bits_val bs"
  by (induction k) (simp_all add: bits_val_def)

lemma nat_bits_high: "v < 2 ^ n \<Longrightarrow> nat_bits (n + k) v = nat_bits n v @ replicate k False"
proof (induction k)
  case (Suc k)
  have "(2 :: nat) ^ n \<le> 2 ^ (n + k)" by (rule power_increasing) simp_all
  with Suc.prems have "v < 2 ^ (n + k)" by (rule less_le_trans)
  then have "\<not> bit v (n + k)" by (simp add: bit_iff_odd)
  with Suc show ?case by (simp add: nat_bits_def replicate_append_same)
qed simp

lemma reverse_code_bits:
  assumes "v < 2 ^ len" and "len \<le> 16"
  shows "reverse_code v len = bits_val (rev (nat_bits len v))"
proof -
  have "nat_bits 16 v = nat_bits len v @ replicate (16 - len) False" using nat_bits_high [OF assms(1), of "16 - len"] assms(2) by simp
  then show ?thesis by (simp add: reverse_code_def bits_val_zeros)
qed

lemma write_code_spec:
  assumes "kraft_ok ls" and "s < length ls" and "ls ! s \<noteq> 0" and "writer_ok w"
  shows "wbits (write_code (assign_codes ls ! s) w) = wbits w @ code_word ls s" and "writer_ok (write_code (assign_codes ls ! s) w)"
proof -
  have small: "\<forall>len\<in>set ls. len \<le> MAX_BITS" using assms(1) by (simp add: kraft_ok_def)
  have len: "ls ! s \<le> 15" using small assms(2) by (auto simp: MAX_BITS_def)
  let ?bs = "rev (nat_bits (ls ! s) (word_of ls s))"
  have r: "reverse_code (word_of ls s) (ls ! s) = bits_val ?bs"
    using reverse_code_bits [OF word_of_less [OF assms(1-3)]] len by simp
  have "bits_val ?bs < 2 ^ (ls ! s)" using bits_val_less [of ?bs] by simp
  moreover have "nat_bits (ls ! s) (bits_val ?bs) = ?bs" using nat_bits_bits_val [of ?bs] by simp
  ultimately show "wbits (write_code (assign_codes ls ! s) w) = wbits w @ code_word ls s" "writer_ok (write_code (assign_codes ls ! s) w)"
    using bw_write_spec [OF assms(4), of "ls ! s" "bits_val ?bs"] len
    by (simp_all add: write_code_def assign_codes_nth [OF small assms(2,3)] r code_word_def)
qed

subsection \<open>What readers and writers of symbols promise each other\<close>

locale symbol_codec =
  fixes put :: "nat \<Rightarrow> BitWriter \<Rightarrow> BitWriter"
    and get :: "BitReader \<Rightarrow> Failure + (nat \<times> BitReader)"
    and word :: "nat \<Rightarrow> bool list"
    and valid :: "nat \<Rightarrow> bool"
  assumes put_word: "valid s \<Longrightarrow> writer_ok w \<Longrightarrow> wbits (put s w) = wbits w @ word s \<and> writer_ok (put s w)"
    and get_word: "valid s \<Longrightarrow> reader_ok r \<Longrightarrow> rbits r = word s @ rest \<Longrightarrow>
      \<exists>r1. get r = Inr (s, r1) \<and> rbits r1 = rest \<and> reader_ok r1 \<and> br_data r1 = br_data r"
begin

lemma put_all:
  "\<forall>s\<in>set ss. valid s \<Longrightarrow> writer_ok w \<Longrightarrow>
     wbits (fold put ss w) = wbits w @ concat (map word ss) \<and> writer_ok (fold put ss w)"
proof (induction ss arbitrary: w)
  case (Cons s ss)
  then show ?case using put_word [of s w] by simp
qed simp

lemma get_put:
  assumes "valid s" and "writer_ok w" and "reader_ok r" and "rbits r = drop (length (wbits w)) (wbits (put s w)) @ rest"
  shows "\<exists>r1. get r = Inr (s, r1) \<and> rbits r1 = rest \<and> reader_ok r1 \<and> br_data r1 = br_data r"
  using get_word [OF assms(1,3)] assms(4) put_word [OF assms(1,2)] by simp

end

interpretation fixed: symbol_codec "\<lambda>v. bw_write v n" "read_bits n" "nat_bits n" "\<lambda>v. n \<le> 56 \<and> v < 2 ^ n" for n
proof unfold_locales
  fix v :: nat and r rest
  assume "n \<le> 56 \<and> v < 2 ^ n" "reader_ok r" "rbits r = nat_bits n v @ rest"
  then show "\<exists>r1. read_bits n r = Inr (v, r1) \<and> rbits r1 = rest \<and> reader_ok r1 \<and> br_data r1 = br_data r"
    using read_bits_spec [of r n] by (simp add: bits_val_nat_bits)
qed (simp add: bw_write_spec)

interpretation huffman: symbol_codec "\<lambda>s. write_code (assign_codes ls ! s)" "decode d" "code_word ls"
    "\<lambda>s. decoder_new ls = Inr d \<and> s < length ls \<and> ls ! s \<noteq> 0" for ls d
  by unfold_locales (use write_code_spec decoder_newD decode_word in blast)+

subsection \<open>Reading anything\<close>

lemma refill_cases: "refill n r = Inl (Refused Truncated) \<or> (\<exists>r1. refill n r = Inr r1)"
  by (induction n r rule: refill.induct) (simp add: refill.simps)

lemma read_bits_cases:
  assumes "n \<le> 64"
  shows "read_bits n r = Inl (Refused Truncated) \<or> (\<exists>v r1. read_bits n r = Inr (v, r1) \<and> v < 2 ^ n \<and> bits_left r1 + n = bits_left r)"
proof -
  have "unat (x AND mask n) < 2 ^ n" for x :: u64 using bits_val_less [of "buffer_bits x n"] assms by (simp add: mask_val)
  then show ?thesis using refill_cases [of n r] read_bits_left [of n r] by (auto simp: read_bits_def)
qed

lemma read_bit_cases:
  "read_bit r = Inl (Refused Truncated) \<or> (\<exists>b r1. read_bit r = Inr (of_bool b, r1) \<and> bits_left r1 < bits_left r)"
  using read_bits_cases [of 1 r] by (auto simp: read_bit_def less_Suc_eq numeral_2_eq_2)

definition decodes :: "nat set \<Rightarrow> BitReader \<Rightarrow> Failure + (nat \<times> BitReader) \<Rightarrow> bool" where
  "decodes X r res \<longleftrightarrow> (case res of Inl e \<Rightarrow> e \<noteq> IndexPanic | Inr (x, r1) \<Rightarrow> x \<in> X \<and> bits_left r1 < bits_left r)"

lemma decode_from_safe:
  assumes "first \<le> code" and "even code" and "0 \<le> index" and "index + int (sum_list cs) \<le> int (length symbol)"
  shows "decodes (set symbol) r (decode_from cs symbol r code first index)"
  using assms
proof (induction cs arbitrary: r code first index)
  case (Cons c cs)
  from read_bit_cases [of r] show ?case
  proof
    assume "\<exists>b r1. read_bit r = Inr (of_bool b, r1) \<and> bits_left r1 < bits_left r"
    then obtain b r1 where r1: "read_bit r = Inr (of_bool b, r1)" "bits_left r1 < bits_left r" by blast
    obtain x where x: "code = 2 * x" using Cons.prems(2) by (rule evenE)
    have code: "code OR int (of_bool b) = code + of_bool b" by (simp add: x or_bit)
    show ?thesis
    proof (cases "code + of_bool b - first < int c")
      case True
      have "0 \<le> index + (code + of_bool b) - first" "index + (code + of_bool b) - first < int (length symbol)"
        using True Cons.prems by auto
      then show ?thesis using True r1(2) by (auto simp: decode_from_step [OF r1(1) code] decodes_def Let_def nat_less_iff simp del: decode_from.simps)
    next
      case False
      have "decodes (set symbol) r1 (decode_from cs symbol r1 (2 * (code + of_bool b)) (2 * (first + int c)) (index + int c))"
        by (rule Cons.IH) (use False Cons.prems in auto)
      then show ?thesis using False r1(2) by (auto simp: decode_from_step [OF r1(1) code] decodes_def simp del: decode_from.simps split: sum.splits)
    qed
  qed (simp add: decodes_def)
qed (simp add: decodes_def)

lemma place_symbols_bound:
  "place_symbols tail s offsets symbol = Inr symbol1 \<Longrightarrow> \<forall>x\<in>set symbol. x < n \<Longrightarrow> s + length tail \<le> n \<Longrightarrow> \<forall>x\<in>set symbol1. x < n"
proof (induction tail s offsets symbol rule: place_symbols.induct)
  case (2 len lens s offsets symbol)
  have "\<forall>x\<in>set (symbol[offsets ! len := s]). x < n" using "2.prems"(2,3) by (auto dest: set_update_subset_insert [THEN subsetD])
  then show ?case using 2 by (auto simp: Let_def split: if_splits)
qed simp

lemma sum_list_cnt: "sum_list (map (cnt ls) [0..<m]) = offset_of ls m"
  by (induction m) auto

lemma decode_safe:
  assumes "decoder_new ls = Inr d"
  shows "decodes {..<length ls} r (decode d r)"
proof -
  note new = decoder_newD [OF assms]
  have small: "\<forall>len\<in>set ls. len \<le> MAX_BITS" using new(1) by (simp add: kraft_ok_def)
  from decoder_new_spec [OF new] assms have d: "dec_count d = count_lengths ls" "length (dec_symbol d) = offset_of ls (MAX_BITS + 1)" by auto
  have "\<forall>x\<in>set (dec_symbol d). x < length ls"
  proof -
    obtain offsets where "place_symbols ls 0 offsets (replicate (length ls - count_lengths ls ! 0) 0) = Inr (dec_symbol d)"
      using assms by (auto simp: decoder_new_def Let_def and_then_Inr_iff split: if_splits option.splits)
    then show ?thesis by (rule place_symbols_bound) auto
  qed
  moreover have "sum_list (tl (dec_count d)) = length (dec_symbol d)"
    using sum_list_cnt [of ls "Suc MAX_BITS"] by (simp add: d count_tl [OF small] upt_conv_Cons [of 0] cnt_def [of ls 0] del: upt_Suc)
  then have "decodes (set (dec_symbol d)) r (decode d r)" unfolding decode_def by (intro decode_from_safe) auto
  ultimately show ?thesis by (auto simp: decodes_def split: sum.splits)
qed

end
