(* ===== verification/HuffmanTree.thy ===== *)
theory HuffmanTree
  imports Huffman Complex_Main
begin

section \<open>Compression: the lengths that are chosen\<close>

text \<open>
  \<open>build_lengths\<close> always returns, and what it returns is a complete code.  The trees on the heap are
  followed through the array of parents: every symbol knows its root and how far it is away.  Each tree has Kraft sum one,
  and a symbol at depth \<open>d\<close> needs a tree whose weight is at least the Fibonacci number of \<open>d + 1\<close>, which bounds the
  depth once the weights are flat.
\<close>

fun fib :: "nat \<Rightarrow> nat" where
  "fib 0 = 0"
| "fib (Suc 0) = 1"
| "fib (Suc (Suc n)) = fib (Suc n) + fib n"

lemma fib_mono: "m \<le> n \<Longrightarrow> fib m \<le> fib n"
proof -
  have "fib n \<le> fib (Suc n)" for n by (induction n rule: fib.induct) auto
  then show "m \<le> n \<Longrightarrow> fib m \<le> fib n" by (rule lift_Suc_mono_le)
qed

subsection \<open>Walking to the root\<close>

fun walk :: "nat option list \<Rightarrow> nat \<Rightarrow> nat \<Rightarrow> nat option" where
  "walk parent 0 s = Some s"
| "walk parent (Suc d) s = (case parent ! s of None \<Rightarrow> None | Some t \<Rightarrow> walk parent d t)"

lemma walk_update: "walk parent d s = Some r \<Longrightarrow> parent ! a = None \<Longrightarrow> walk (parent[a := x]) d s = Some r"
proof (induction d arbitrary: s)
  case (Suc d)
  then show ?case by (cases "s = a") (auto split: option.splits)
qed simp

lemma walk_extend: "walk parent d s = Some r \<Longrightarrow> parent ! r = Some t \<Longrightarrow> walk parent (Suc d) s = Some t"
proof (induction d arbitrary: s)
  case (Suc d)
  then obtain u where "parent ! s = Some u" "walk parent d u = Some r" by (auto split: option.splits)
  with Suc show ?case by simp
qed simp

lemma node_depth_walk: "walk parent d s = Some r \<Longrightarrow> parent ! r = None \<Longrightarrow> d \<le> n \<Longrightarrow> node_depth n parent s = d"
proof (induction d arbitrary: s n)
  case 0
  then show ?case by (cases n) auto
next
  case (Suc d)
  then show ?case by (cases n) (auto split: option.splits)
qed

subsection \<open>The loop that joins the trees\<close>

text \<open>
  \<open>owner s\<close> and \<open>d s\<close> are the root and the depth of a symbol; \<open>k\<close> is the number of symbols, \<open>U\<close> those that are used.
\<close>

definition forest :: "nat \<Rightarrow> nat set \<Rightarrow> nat \<Rightarrow> (nat \<times> nat) list \<Rightarrow> nat option list \<Rightarrow> nat \<Rightarrow> (nat \<Rightarrow> nat) \<Rightarrow> (nat \<Rightarrow> nat) \<Rightarrow> bool" where
  "forest k U W heap parent nxt owner d \<longleftrightarrow>
     sorted heap \<and> distinct (map snd heap) \<and> length parent = 2 * k \<and> nxt + length heap = k + card U \<and> k \<le> nxt \<and>
     (\<forall>(w, r)\<in>set heap. r < nxt \<and> parent ! r = None) \<and>
     (\<forall>j. nxt \<le> j \<and> j < 2 * k \<longrightarrow> parent ! j = None) \<and>
     (\<forall>s\<in>U. owner s \<in> snd ` set heap \<and> walk parent (d s) s = Some (owner s) \<and> d s \<le> nxt - k) \<and>
     (\<forall>(w, r)\<in>set heap. (\<Sum>s | s \<in> U \<and> owner s = r. 1 / 2 ^ d s) = (1 :: rat)) \<and>
     (\<forall>(w, r)\<in>set heap. \<forall>s\<in>U. (owner s = r \<longrightarrow> fib (Suc (d s)) \<le> w) \<and> fib (d s) \<le> w) \<and>
     sum_list (map fst heap) = W"

definition joined_root :: "nat \<Rightarrow> nat \<Rightarrow> nat \<Rightarrow> (nat \<Rightarrow> nat) \<Rightarrow> nat \<Rightarrow> nat" where
  "joined_root a b nxt owner s = (if owner s = a \<or> owner s = b then nxt else owner s)"

definition joined_depth :: "nat \<Rightarrow> nat \<Rightarrow> (nat \<Rightarrow> nat) \<Rightarrow> (nat \<Rightarrow> nat) \<Rightarrow> nat \<Rightarrow> nat" where
  "joined_depth a b owner d s = (if owner s = a \<or> owner s = b then Suc (d s) else d s)"

lemma join_facts:
  assumes "forest k U W ((w1, a) # (w2, b) # heap) parent nxt owner d" and "card U \<le> k"
  shows "a \<noteq> b" "a < nxt" "b < nxt" "parent ! a = None" "parent ! b = None" "nxt < 2 * k" "length parent = 2 * k"
    "a \<notin> snd ` set heap" "b \<notin> snd ` set heap" "nxt \<notin> snd ` set heap" "k \<le> nxt"
    "\<And>w r. (w, r) \<in> set heap \<Longrightarrow> w1 \<le> w \<and> w2 \<le> w \<and> r < nxt \<and> parent ! r = None" "w1 \<le> w2"
proof -
  show "nxt < 2 * k" using assms by (auto simp: forest_def)
  show "\<And>w r. (w, r) \<in> set heap \<Longrightarrow> w1 \<le> w \<and> w2 \<le> w \<and> r < nxt \<and> parent ! r = None" "w1 \<le> w2"
    using assms by (auto simp: forest_def less_eq_prod_def)
qed (use assms in \<open>auto simp: forest_def\<close>)

lemma owner_bound:
  assumes "forest k U W heap parent nxt owner d" and "s \<in> U"
  shows "owner s < nxt" "owner s \<in> snd ` set heap"
proof -
  have "\<forall>(w, r)\<in>set heap. r < nxt \<and> parent ! r = None" "owner s \<in> snd ` set heap" using assms by (auto simp: forest_def)
  then show "owner s < nxt" "owner s \<in> snd ` set heap" by auto
qed

lemma join_walk:
  assumes "forest k U W ((w1, a) # (w2, b) # heap) parent nxt owner d" and "card U \<le> k" and "s \<in> U"
  shows "walk (parent[a := Some nxt, b := Some nxt]) (joined_depth a b owner d s) s = Some (joined_root a b nxt owner s)"
proof -
  note facts = join_facts [OF assms(1,2)]
  let ?p = "parent[a := Some nxt, b := Some nxt]"
  have "walk parent (d s) s = Some (owner s)" using assms(1,3) by (simp add: forest_def)
  then have w: "walk ?p (d s) s = Some (owner s)" using facts by (intro walk_update) auto
  have "?p ! a = Some nxt" "?p ! b = Some nxt" using facts by auto
  then show ?thesis using w walk_extend [OF w, of nxt] by (auto simp: joined_root_def joined_depth_def)
qed

lemma join_kraft:
  assumes "forest k U W ((w1, a) # (w2, b) # heap) parent nxt owner d" and "card U \<le> k" and "finite U"
    and "(w, r) \<in> set (heap_push (w1 + w2, nxt) heap)"
  shows "(\<Sum>s | s \<in> U \<and> joined_root a b nxt owner s = r. 1 / 2 ^ joined_depth a b owner d s) = (1 :: rat)"
proof -
  note facts = join_facts [OF assms(1,2)]
  have one: "(\<Sum>s | s \<in> U \<and> owner s = c. 1 / 2 ^ d s) = (1 :: rat)" if "(v, c) \<in> set ((w1, a) # (w2, b) # heap)" for v c
    using assms(1) that by (auto simp: forest_def)
  have owner: "owner s < nxt" if "s \<in> U" for s by (rule owner_bound [OF assms(1) that])
  show ?thesis
  proof (cases "r = nxt")
    case True
    have "{s. s \<in> U \<and> joined_root a b nxt owner s = r} = {s. s \<in> U \<and> owner s = a} \<union> {s. s \<in> U \<and> owner s = b}"
      using True owner by (auto simp: joined_root_def split: if_splits)
    then have "(\<Sum>s | s \<in> U \<and> joined_root a b nxt owner s = r. 1 / 2 ^ joined_depth a b owner d s :: rat) =
        (\<Sum>s | s \<in> U \<and> owner s = a. 1 / 2 ^ joined_depth a b owner d s) + (\<Sum>s | s \<in> U \<and> owner s = b. 1 / 2 ^ joined_depth a b owner d s)"
      using assms(3) facts(1) by (simp add: sum.union_disjoint disjoint_iff)
    moreover have "(\<Sum>s | s \<in> U \<and> owner s = c. 1 / 2 ^ joined_depth a b owner d s :: rat) = 1 / 2" if "c = a \<or> c = b" for c
    proof -
      have "(\<Sum>s | s \<in> U \<and> owner s = c. 1 / 2 ^ joined_depth a b owner d s :: rat) = (\<Sum>s | s \<in> U \<and> owner s = c. 1 / 2 ^ d s * (1 / 2))"
        using that by (intro sum.cong) (auto simp: joined_depth_def)
      also have "\<dots> = (\<Sum>s | s \<in> U \<and> owner s = c. 1 / 2 ^ d s) * (1 / 2)" by (rule sum_distrib_right [symmetric])
      also have "(\<Sum>s | s \<in> U \<and> owner s = c. 1 / 2 ^ d s) = (1 :: rat)" using that one [of w1 a] one [of w2 b] by auto
      also have "1 * (1 / 2) = (1 / 2 :: rat)" by simp
      finally show ?thesis .
    qed
    ultimately show ?thesis by simp
  next
    case False
    then have r: "(w, r) \<in> set heap" using assms(4) by (auto simp: heap_push_def set_insort_key)
    then have "r \<noteq> a" "r \<noteq> b" using facts(8,9) by force+
    then have "(\<Sum>s | s \<in> U \<and> joined_root a b nxt owner s = r. 1 / 2 ^ joined_depth a b owner d s :: rat) = (\<Sum>s | s \<in> U \<and> owner s = r. 1 / 2 ^ d s)"
      using False by (intro sum.cong) (auto simp: joined_root_def joined_depth_def split: if_splits)
    then show ?thesis using one [of w r] r by simp
  qed
qed

lemma join_fib:
  assumes "forest k U W ((w1, a) # (w2, b) # heap) parent nxt owner d" and "card U \<le> k"
    and "(w, r) \<in> set (heap_push (w1 + w2, nxt) heap)" and "s \<in> U"
  shows "(joined_root a b nxt owner s = r \<longrightarrow> fib (Suc (joined_depth a b owner d s)) \<le> w) \<and> fib (joined_depth a b owner d s) \<le> w"
proof -
  note facts = join_facts [OF assms(1,2)]
  have old: "(owner s = c \<longrightarrow> fib (Suc (d s)) \<le> v) \<and> fib (d s) \<le> v" if "(v, c) \<in> set ((w1, a) # (w2, b) # heap)" for v c
    using assms(1,4) that by (auto simp: forest_def)
  note ab = old [of w1 a] old [of w2 b]
  have owner: "owner s < nxt" by (rule owner_bound [OF assms(1,4)])
  from assms(3) consider "w = w1 + w2" "r = nxt" | "(w, r) \<in> set heap" by (auto simp: heap_push_def set_insort_key)
  then show ?thesis
  proof cases
    case 1
    then show ?thesis using ab owner by (auto simp: joined_root_def joined_depth_def)
  next
    case 2
    then have "r \<noteq> nxt" "r \<noteq> a" "r \<noteq> b" using facts(8-10) by force+
    then show ?thesis using ab old [of w r] facts(12) [OF 2] 2 by (auto simp: joined_root_def joined_depth_def)
  qed
qed

lemma join_forest:
  assumes "forest k U W ((w1, a) # (w2, b) # heap) parent nxt owner d" and "card U \<le> k" and "finite U"
  shows "forest k U W (heap_push (w1 + w2, nxt) heap) (parent[a := Some nxt, b := Some nxt]) (nxt + 1)
    (joined_root a b nxt owner) (joined_depth a b owner d)"
proof -
  note facts = join_facts [OF assms(1,2)]
  let ?h = "heap_push (w1 + w2, nxt) heap" and ?p = "parent[a := Some nxt, b := Some nxt]"
  have set: "set ?h = insert (w1 + w2, nxt) (set heap)" by (simp add: heap_push_def set_insort_key)
  have new: "r < nxt + 1 \<and> ?p ! r = None" if "(w, r) \<in> set ?h" for w r
  proof -
    from that have wr: "w = w1 + w2 \<and> r = nxt \<or> (w, r) \<in> set heap" by (simp add: set)
    then have "r \<noteq> a" "r \<noteq> b" using facts(2,3,8,9) by force+
    moreover have "r \<le> nxt" "parent ! r = None" using wr facts(12) [of w r] facts(6) assms(1) by (auto simp: forest_def)
    ultimately show ?thesis by simp
  qed
  have "sorted ?h" using assms(1) by (simp add: forest_def heap_push_def sorted_insort)
  moreover have "distinct (map snd ?h)"
  proof -
    have "mset (map snd ?h) = mset (nxt # map snd heap)" by (simp add: heap_push_def mset_insort)
    moreover have "distinct (nxt # map snd heap)" using assms(1) facts(10) by (auto simp: forest_def)
    ultimately show ?thesis by (metis mset_eq_imp_distinct_iff)
  qed
  moreover have "\<forall>j. nxt + 1 \<le> j \<and> j < 2 * k \<longrightarrow> ?p ! j = None" using assms(1) facts(2,3) by (auto simp: forest_def)
  moreover have "\<forall>s\<in>U. joined_root a b nxt owner s \<in> snd ` set ?h \<and> walk ?p (joined_depth a b owner d s) s = Some (joined_root a b nxt owner s) \<and>
      joined_depth a b owner d s \<le> nxt + 1 - k"
  proof
    fix s assume s: "s \<in> U"
    then have "owner s \<in> snd ` set ((w1, a) # (w2, b) # heap)" "d s \<le> nxt - k"
      using owner_bound(2) [OF assms(1) s] assms(1) by (simp_all add: forest_def)
    then have "joined_root a b nxt owner s \<in> snd ` set ?h" "joined_depth a b owner d s \<le> nxt + 1 - k"
      using facts(11) by (auto simp: set joined_root_def joined_depth_def)
    then show "joined_root a b nxt owner s \<in> snd ` set ?h \<and> walk ?p (joined_depth a b owner d s) s = Some (joined_root a b nxt owner s) \<and>
        joined_depth a b owner d s \<le> nxt + 1 - k" using join_walk [OF assms(1,2) s] by simp
  qed
  moreover have "sum_list (map fst ?h) = W"
  proof -
    have "sum_list (map fst ?h) = sum_mset (mset (map fst ?h))" by (rule sum_mset_sum_list [symmetric])
    also have "mset (map fst ?h) = mset ((w1 + w2) # map fst heap)" by (simp add: heap_push_def mset_insort)
    finally show ?thesis using assms(1) by (simp add: forest_def sum_mset_sum_list del: mset_map)
  qed
  moreover have "nxt + 1 + length ?h = k + card U" using assms(1) by (simp add: forest_def)
  moreover have "\<forall>(w, r)\<in>set ?h. (\<Sum>s | s \<in> U \<and> joined_root a b nxt owner s = r. 1 / 2 ^ joined_depth a b owner d s) = (1 :: rat)"
    using join_kraft [OF assms] by auto
  moreover have "\<forall>(w, r)\<in>set ?h. \<forall>s\<in>U. (joined_root a b nxt owner s = r \<longrightarrow> fib (Suc (joined_depth a b owner d s)) \<le> w) \<and>
      fib (joined_depth a b owner d s) \<le> w"
    using join_fib [OF assms(1,2)] by auto
  moreover have "\<forall>(w, r)\<in>set ?h. r < nxt + 1 \<and> ?p ! r = None" using new by auto
  ultimately show ?thesis using facts(7,11) unfolding forest_def by simp
qed

lemma join_loop_forest:
  assumes "forest k U W heap parent nxt owner d" and "card U \<le> k" and "finite U" and "heap \<noteq> []"
  shows "\<exists>w r nxt1 owner1 d1. forest k U W [(w, r)] (join_loop heap parent nxt) nxt1 owner1 d1"
  using assms
proof (induction heap parent nxt arbitrary: owner d rule: join_loop.induct)
  case (1 w1 a w2 b heap parent nxt)
  have "heap_push (w1 + w2, nxt) heap \<noteq> []" by (metis length_heap_push list.size(3) nat.distinct(1))
  from "1.IH" [OF join_forest [OF "1.prems"(1-3)] "1.prems"(2,3) this] show ?case by simp
next
  case (3 x parent nxt)
  obtain w r where "x = (w, r)" by (cases x)
  then have "forest k U W [(w, r)] (join_loop [x] parent nxt) nxt owner d" using "3.prems"(1) by simp
  then show ?case by (intro exI)
qed simp

lemma first_forest:
  assumes "distinct used" and "\<forall>i\<in>set used. i < length weights \<and> 1 \<le> weights ! i"
  shows "forest (length weights) (set used) (\<Sum>i\<in>set used. weights ! i) (sort (map (\<lambda>i. (weights ! i, i)) used))
    (replicate (2 * length weights) None) (length weights) (\<lambda>s. s) (\<lambda>s. 0)"
proof -
  let ?h = "sort (map (\<lambda>i. (weights ! i, i)) used)"
  have set: "set ?h = (\<lambda>i. (weights ! i, i)) ` set used" by simp
  have m: "mset (map snd ?h) = mset used" "mset (map fst ?h) = mset (map (\<lambda>i. weights ! i) used)"
    by (simp_all add: multiset.map_comp comp_def)
  have "distinct (map snd ?h)" using m(1) assms(1) by (metis mset_eq_imp_distinct_iff)
  moreover have "sum_list (map fst ?h) = (\<Sum>i\<in>set used. weights ! i)"
    by (metis m(2) sum_mset_sum_list sum.distinct_set_conv_list [OF assms(1)])
  moreover have "(\<Sum>s | s \<in> set used \<and> s = r. 1 / 2 ^ 0) = (1 :: rat)" if "r \<in> set used" for r
  proof -
    have "{s. s \<in> set used \<and> s = r} = {r}" using that by auto
    then show ?thesis by simp
  qed
  ultimately show ?thesis
    using assms distinct_card [OF assms(1)] by (auto simp: forest_def set image_image)
qed

lemma tree_depth_spec:
  assumes "distinct used" and "2 \<le> length used" and "\<forall>i\<in>set used. i < length weights \<and> 1 \<le> weights ! i"
  shows "(\<Sum>s\<in>set used. 1 / 2 ^ tree_depth weights used s) = (1 :: rat)"
    and "s \<in> set used \<Longrightarrow> fib (Suc (tree_depth weights used s)) \<le> (\<Sum>i\<in>set used. weights ! i)"
    and "s \<in> set used \<Longrightarrow> 1 \<le> tree_depth weights used s"
proof -
  let ?U = "set used" and ?k = "length weights" and ?W = "\<Sum>i\<in>set used. weights ! i"
  let ?p = "join_loop (sort (map (\<lambda>i. (weights ! i, i)) used)) (replicate (2 * ?k) None) ?k"
  have card: "card ?U \<le> ?k" using assms(3) card_mono [of "{..<?k}" ?U] by auto
  have "sort (map (\<lambda>i. (weights ! i, i)) used) \<noteq> []" using assms(2) by (metis length_sort length_map list.size(3) not_numeral_le_zero)
  then obtain w r nxt owner d where f: "forest ?k ?U ?W [(w, r)] ?p nxt owner d"
    using join_loop_forest [OF first_forest [OF assms(1,3)] card] by auto
  have w: "w = ?W" using f by (simp add: forest_def)
  have owner: "owner s = r" if "s \<in> ?U" for s using owner_bound(2) [OF f that] by simp
  have d: "tree_depth weights used s = d s" if "s \<in> ?U" for s
  proof -
    have "walk ?p (d s) s = Some r" "d s \<le> nxt - ?k" "nxt + 1 = ?k + card ?U" "?p ! r = None"
      using f that owner [OF that] by (auto simp: forest_def)
    then show ?thesis using node_depth_walk [of ?p "d s" s r "2 * ?k"] card by (simp add: tree_depth_def)
  qed
  have "{s. s \<in> ?U \<and> owner s = r} = ?U" using owner by auto
  then have "(\<Sum>s\<in>?U. 1 / 2 ^ d s) = (1 :: rat)" using f by (simp add: forest_def)
  then show sum: "(\<Sum>s\<in>?U. 1 / 2 ^ tree_depth weights used s) = (1 :: rat)" by (simp add: d)
  show "fib (Suc (tree_depth weights used s)) \<le> ?W" if "s \<in> ?U"
    using f d [OF that] owner [OF that] that w by (auto simp: forest_def)
  show "1 \<le> tree_depth weights used s" if s: "s \<in> ?U"
  proof (rule ccontr)
    assume "\<not> 1 \<le> tree_depth weights used s"
    then have z: "tree_depth weights used s = 0" by simp
    have "(\<Sum>t\<in>?U - {s}. 1 / 2 ^ tree_depth weights used t) = (0 :: rat)"
      using sum sum.remove [of ?U s "\<lambda>t. 1 / 2 ^ tree_depth weights used t :: rat"] s z by simp
    then have "?U - {s} = {}" by (subst (asm) sum_nonneg_eq_0_iff) auto
    then have "card ?U \<le> 1" using s by (metis card.empty card_Suc_Diff1 finite_set le_refl One_nat_def)
    then show False using assms(2) distinct_card [OF assms(1)] by simp
  qed
qed

subsection \<open>The loop that flattens the weights\<close>

lemma fold_update:
  "i < length ls \<Longrightarrow> fold (\<lambda>s ls. ls[s := f s]) used ls ! i = (if i \<in> set used then f i else ls ! i)"
  "length (fold (\<lambda>s ls. ls[s := f s]) used ls) = length ls"
  by (induction used arbitrary: ls) (auto simp: nth_list_update)

definition good_lengths :: "nat \<Rightarrow> nat list \<Rightarrow> nat list \<Rightarrow> bool" where
  "good_lengths max_bits used ls \<longleftrightarrow>
     (\<forall>i < length ls. if i \<in> set used then 1 \<le> ls ! i \<and> ls ! i \<le> max_bits else ls ! i = 0) \<and>
     (\<Sum>s\<in>set used. 1 / 2 ^ (ls ! s)) = (1 :: rat)"

lemma lengths_loop_returns:
  assumes "distinct used" and "2 \<le> length used" and "length used < fib (max_bits + 2)"
  shows "\<forall>i\<in>set used. i < length weights \<and> 1 \<le> weights ! i \<and> weights ! i \<le> 2 ^ n \<Longrightarrow> length weights = length ls \<Longrightarrow>
    \<forall>i < length ls. i \<notin> set used \<longrightarrow> ls ! i = 0 \<Longrightarrow>
    \<exists>ls1. lengths_loop (Suc n) max_bits used weights ls = Some ls1 \<and> length ls1 = length ls \<and> good_lengths max_bits used ls1"
proof (induction n arbitrary: weights ls)
  case 0
  note spec = tree_depth_spec [OF assms(1,2), of weights]
  have flat: "weights ! i = 1" if "i \<in> set used" for i using 0 that by force
  have "tree_depth weights used s \<le> max_bits" if "s \<in> set used" for s
  proof (rule ccontr)
    assume "\<not> tree_depth weights used s \<le> max_bits"
    then have "fib (max_bits + 2) \<le> fib (Suc (tree_depth weights used s))" by (intro fib_mono) simp
    also have "\<dots> \<le> (\<Sum>i\<in>set used. weights ! i)" using spec(2) that 0 by auto
    also have "\<dots> = length used" using flat distinct_card [OF assms(1)] by simp
    finally show False using assms(3) by simp
  qed
  moreover have "(\<Sum>s\<in>set used. 1 / 2 ^ (fold (\<lambda>s ls. ls[s := tree_depth weights used s]) used ls ! s)) = (1 :: rat)"
    using spec(1) 0 by (auto simp: fold_update cong: sum.cong)
  ultimately show ?case using 0 spec(3) by (auto simp: Let_def fold_update good_lengths_def not_less)
next
  case (Suc n)
  note spec = tree_depth_spec [OF assms(1,2), of weights]
  let ?ls = "fold (\<lambda>s ls. ls[s := tree_depth weights used s]) used ls"
  let ?ws = "map (\<lambda>w. if w > 0 then (w + 1) div 2 else w) weights"
  show ?case
  proof (cases "\<exists>s\<in>set used. tree_depth weights used s > max_bits")
    case True
    have ws: "\<forall>i\<in>set used. i < length ?ws \<and> 1 \<le> ?ws ! i \<and> ?ws ! i \<le> 2 ^ n" using Suc.prems(1) by auto
    have again: "lengths_loop (Suc (Suc n)) max_bits used weights ls = lengths_loop (Suc n) max_bits used ?ws ?ls"
      using True by (simp only: lengths_loop.simps(2) [of "Suc n"] Let_def if_True)
    have ls: "\<forall>i < length ?ls. i \<notin> set used \<longrightarrow> ?ls ! i = 0" "length ?ws = length ?ls" "length ?ls = length ls"
      using Suc.prems by (simp_all add: fold_update)
    from Suc.IH [OF ws ls(2,1)] show ?thesis unfolding again ls(3) .
  next
    case False
    have "(\<Sum>s\<in>set used. 1 / 2 ^ (?ls ! s)) = (1 :: rat)" using spec(1) Suc.prems by (auto simp: fold_update cong: sum.cong)
    then show ?thesis using Suc.prems spec(3) False by (auto simp: Let_def fold_update good_lengths_def not_less)
  qed
qed

subsection \<open>The lengths are a code\<close>

lemma cnt_sum:
  assumes "\<forall>len\<in>set ls. len \<le> m"
  shows "(\<Sum>k\<le>m. cnt ls k * f k) = (\<Sum>i<length ls. if ls ! i = 0 then 0 else f (ls ! i))"
proof -
  have "(\<Sum>k\<le>m. cnt ls k * f k) = (\<Sum>l\<leftarrow>ls. if l = 0 then 0 else f l)"
    using assms
  proof (induction ls)
    case (Cons a ls)
    have "(\<Sum>k\<le>m. cnt (a # ls) k * f k) = (\<Sum>k\<le>m. (if k = a then if a = 0 then 0 else f a else 0) + cnt ls k * f k)"
      by (intro sum.cong) (auto simp: cnt_def)
    also have "\<dots> = (\<Sum>k\<le>m. if k = a then if a = 0 then 0 else f a else 0) + (\<Sum>k\<le>m. cnt ls k * f k)" by (rule sum.distrib)
    also have "(\<Sum>k\<le>m. if k = a then if a = 0 then 0 else f a else 0) = (if a = 0 then 0 else f a)"
      using Cons.prems by (subst sum.delta) auto
    finally show ?case using Cons by simp
  qed (simp add: cnt_def)
  then show ?thesis by (simp add: sum_list_sum_nth atLeast0LessThan)
qed

lemma two_used: "2 \<le> length us \<Longrightarrow> (case us of [] \<Rightarrow> x | [s] \<Rightarrow> y s | _ \<Rightarrow> z) = z"
  by (cases us rule: remdups_adj.cases) auto

lemma count_list_replicate: "count_list (replicate n x) y = (if x = y then n else 0)"
  by (induction n) auto

lemma kraft_okI:
  assumes "\<forall>len\<in>set ls. len \<le> MAX_BITS" and "first_code ls MAX_BITS + cnt ls MAX_BITS \<le> 2 ^ MAX_BITS"
  shows "kraft_ok ls"
  unfolding kraft_ok_def
proof (intro conjI allI impI)
  fix l assume l: "l \<le> MAX_BITS"
  have "(first_code ls l + cnt ls l) * 2 ^ (MAX_BITS - l) \<le> 2 ^ MAX_BITS"
  proof (cases "l = MAX_BITS")
    case False
    then show ?thesis using first_code_grows [of l MAX_BITS ls] l assms(2) by simp
  qed (use assms(2) in simp)
  also have "(2 :: nat) ^ MAX_BITS = 2 ^ l * 2 ^ (MAX_BITS - l)" using l by (simp flip: power_add)
  finally show "first_code ls l + cnt ls l \<le> 2 ^ l" by simp
qed (use assms in auto)

lemma good_lengths_code:
  assumes "good_lengths max_bits used ls" and "max_bits \<le> MAX_BITS" and "\<forall>i\<in>set used. i < length ls"
  shows "\<exists>d. decoder_new ls = Inr d"
proof -
  have small: "\<forall>len\<in>set ls. len \<le> MAX_BITS"
    using assms by (auto simp: good_lengths_def in_set_conv_nth) (metis le_0_eq le_trans zero_le)
  have zero: "ls ! i = 0 \<longleftrightarrow> i \<notin> set used" if "i < length ls" for i using assms(1) that by (auto simp: good_lengths_def)
  have "first_code ls MAX_BITS + cnt ls MAX_BITS = (\<Sum>i<length ls. if ls ! i = 0 then 0 else 2 ^ (MAX_BITS - ls ! i))"
    by (simp add: first_code_sum cnt_sum [OF small])
  also have "\<dots> = (\<Sum>i\<in>set used. 2 ^ (MAX_BITS - ls ! i))"
    using assms(3) zero by (intro sum.mono_neutral_cong_right) auto
  also have "rat_of_nat (\<Sum>i\<in>set used. 2 ^ (MAX_BITS - ls ! i)) = (\<Sum>i\<in>set used. 1 / 2 ^ (ls ! i) * 2 ^ MAX_BITS)"
  proof -
    have "(2 :: rat) ^ (MAX_BITS - ls ! i) = 1 / 2 ^ (ls ! i) * 2 ^ MAX_BITS" if "i \<in> set used" for i
      using small assms(3) that by (simp add: power_diff)
    then show ?thesis by (simp only: of_nat_sum of_nat_power of_nat_numeral cong: sum.cong)
  qed
  also have "\<dots> = (\<Sum>i\<in>set used. 1 / 2 ^ (ls ! i)) * 2 ^ MAX_BITS" by (rule sum_distrib_right [symmetric])
  also have "\<dots> = rat_of_nat (2 ^ MAX_BITS)" using assms(1) by (simp add: good_lengths_def)
  finally have whole: "first_code ls MAX_BITS + cnt ls MAX_BITS = 2 ^ MAX_BITS" by (simp only: of_nat_eq_iff)
  then show ?thesis using decoder_new_spec [OF kraft_okI [OF small]] by auto
qed

lemma build_lengths_spec:
  assumes "1 \<le> max_bits" and "max_bits \<le> MAX_BITS" and "length freqs < fib (max_bits + 2)"
  shows "\<exists>ls d. build_lengths freqs max_bits = Some ls \<and> length ls = length freqs \<and> decoder_new ls = Inr d \<and>
    (\<forall>i < length freqs. (ls ! i = 0 \<longleftrightarrow> freqs ! i = 0) \<and> ls ! i \<le> max_bits)"
proof -
  let ?used = "filter (\<lambda>i. freqs ! i > 0) [0..<length freqs]" and ?ls = "replicate (length freqs) (0 :: nat)"
  have set: "set ?used = {i. i < length freqs \<and> 0 < freqs ! i}" by auto
  have three: "us = [] \<or> (\<exists>s. us = [s]) \<or> 2 \<le> length us" for us :: "nat list" by (cases us rule: remdups_adj.cases) auto
  consider "?used = []" | s where "?used = [s]" | "2 \<le> length ?used" using three [of ?used] by blast
  then show ?thesis
  proof cases
    case 1
    then have "freqs ! i = 0" if "i < length freqs" for i using set that by auto
    moreover have "kraft_ok ?ls" by (rule kraft_okI) (auto simp: first_code_sum cnt_sum)
    moreover have "length ?ls - count_list ?ls 0 \<le> 1" by (simp add: count_list_replicate)
    ultimately show ?thesis using 1 decoder_new_spec [of ?ls] by (auto simp: build_lengths_def)
  next
    case 2
    have only: "i < length freqs \<and> 0 < freqs ! i \<longleftrightarrow> i = s" for i
    proof -
      have "i \<in> set ?used \<longleftrightarrow> i = s" by (simp only: 2) simp
      then show ?thesis by (simp only: set mem_Collect_eq)
    qed
    have s: "s < length freqs" "0 < freqs ! s" using only [of s] by simp_all
    have s0: "freqs ! i = 0" if "i < length freqs" "i \<noteq> s" for i using only [of i] that by simp
    let ?l1 = "?ls[s := 1]"
    have nth: "?l1 ! i = (if i = s then 1 else 0)" if "i < length freqs" for i using that s(1) by (simp add: nth_list_update)
    have small: "\<forall>len\<in>set ?l1. len \<le> MAX_BITS" using assms(1,2) by (auto dest: set_update_subset_insert [THEN subsetD])
    then have "first_code ?l1 MAX_BITS + cnt ?l1 MAX_BITS = (\<Sum>i<length ?l1. if ?l1 ! i = 0 then 0 else 2 ^ (MAX_BITS - ?l1 ! i))"
      by (simp only: first_code_sum cnt_sum)
    moreover have "(\<Sum>i<length ?l1. if ?l1 ! i = 0 then 0 else 2 ^ (MAX_BITS - ?l1 ! i)) = (\<Sum>i<length freqs. if i = s then 2 ^ (MAX_BITS - 1) else 0 :: nat)"
      by (rule sum.cong) (auto simp: nth_list_update)
    ultimately have "first_code ?l1 MAX_BITS + cnt ?l1 MAX_BITS = 2 ^ (MAX_BITS - 1)" using s(1) by simp
    then have k: "kraft_ok ?l1" using small by (intro kraft_okI) (simp_all add: MAX_BITS_def)
    have "count_list ?l1 0 = length freqs - 1"
      using s(1) by (subst id_take_nth_drop [of s ?l1]) (auto simp: count_list_replicate)
    then have "length ?l1 - count_list ?l1 0 \<le> 1" by simp
    then have "\<exists>d. decoder_new ?l1 = Inr d" using decoder_new_spec [OF k] by blast
    then obtain d where "decoder_new ?l1 = Inr d" by blast
    moreover have "build_lengths freqs max_bits = Some ?l1" by (simp only: build_lengths_def Let_def 2 list.case)
    moreover have "(?l1 ! i = 0 \<longleftrightarrow> freqs ! i = 0) \<and> ?l1 ! i \<le> max_bits" if "i < length freqs" for i
      using nth [OF that] s(2) s0 [OF that] assms(1) by (cases "i = s") auto
    ultimately show ?thesis by (intro exI [of _ ?l1] exI [of _ d]) simp
  next
    case 3
    have "freqs ! i \<le> 2 ^ sum_list freqs" if "i < length freqs" for i
    proof -
      have "freqs ! i \<le> sum_list freqs" using that by (simp add: member_le_sum_list)
      also have "\<dots> \<le> 2 ^ sum_list freqs" using less_exp [of "sum_list freqs"] by simp
      finally show ?thesis .
    qed
    then have used: "\<forall>i\<in>set ?used. i < length freqs \<and> 1 \<le> freqs ! i \<and> freqs ! i \<le> 2 ^ sum_list freqs" by auto
    have "length ?used < fib (max_bits + 2)" using assms(3) by (metis diff_zero le_less_trans length_filter_le length_upt)
    from lengths_loop_returns [OF _ 3 this used, of ?ls] obtain ls1 where l: "lengths_loop (Suc (sum_list freqs)) max_bits ?used freqs ?ls = Some ls1"
        "length ls1 = length freqs" "good_lengths max_bits ?used ls1" by auto
    have "build_lengths freqs max_bits = lengths_loop (Suc (sum_list freqs)) max_bits ?used freqs ?ls"
      unfolding build_lengths_def Let_def by (rule two_used [OF 3])
    moreover have "(ls1 ! i = 0 \<longleftrightarrow> freqs ! i = 0) \<and> ls1 ! i \<le> max_bits" if "i < length freqs" for i
      using l(2,3) that by (auto simp: good_lengths_def split: if_splits)
    ultimately show ?thesis using l good_lengths_code [OF l(3) assms(2)] by auto
  qed
qed

end
