(* ===== verification/Inflate.thy ===== *)
theory Inflate
  imports HuffmanTree
begin

section \<open>Compression: DEFLATE\<close>

text \<open>
  The tables, the inflater and the compressor of \<open>rustlavel-http/src/compression/deflate.rs\<close>.  The loops of the
  inflater end because every round reads at least one bit; the loop of the compressor ends because every round moves on.
  A result \<open>None\<close> of the compressor would stand for the loop of \<open>build_lengths\<close> that does not end.
\<close>

subsection \<open>Tables\<close>

definition LITLEN_SYMBOLS :: nat where "LITLEN_SYMBOLS = 286"
definition END_OF_BLOCK :: nat where "END_OF_BLOCK = 256"
definition DIST_SYMBOLS :: nat where "DIST_SYMBOLS = 30"
definition CODE_LENGTH_SYMBOLS :: nat where "CODE_LENGTH_SYMBOLS = 19"
definition MAX_CODE_LENGTH_BITS :: nat where "MAX_CODE_LENGTH_BITS = 7"
definition MIN_MATCH :: nat where "MIN_MATCH = 3"
definition MAX_MATCH :: nat where "MAX_MATCH = 258"
definition WINDOW_SIZE :: nat where "WINDOW_SIZE = 32 * 1024"

definition LENGTH_BASE :: "nat list" where
  "LENGTH_BASE = [3, 4, 5, 6, 7, 8, 9, 10, 11, 13, 15, 17, 19, 23, 27, 31, 35, 43, 51, 59, 67, 83, 99, 115, 131, 163, 195, 227, 258]"

definition LENGTH_EXTRA :: "nat list" where
  "LENGTH_EXTRA = [0, 0, 0, 0, 0, 0, 0, 0, 1, 1, 1, 1, 2, 2, 2, 2, 3, 3, 3, 3, 4, 4, 4, 4, 5, 5, 5, 5, 0]"

definition DIST_BASE :: "nat list" where
  "DIST_BASE = [1, 2, 3, 4, 5, 7, 9, 13, 17, 25, 33, 49, 65, 97, 129, 193, 257, 385, 513, 769, 1025, 1537, 2049, 3073,
     4097, 6145, 8193, 12289, 16385, 24577]"

definition DIST_EXTRA :: "nat list" where
  "DIST_EXTRA = [0, 0, 0, 0, 1, 1, 2, 2, 3, 3, 4, 4, 5, 5, 6, 6, 7, 7, 8, 8, 9, 9, 10, 10, 11, 11, 12, 12, 13, 13]"

definition CODE_LENGTH_ORDER :: "nat list" where
  "CODE_LENGTH_ORDER = [16, 17, 18, 0, 8, 7, 9, 6, 10, 5, 11, 4, 12, 3, 13, 2, 14, 1, 15]"

definition build_length_codes :: "nat list" where
  "build_length_codes =
     fold (\<lambda>code table.
         let base = LENGTH_BASE ! code; span = 2 ^ (LENGTH_EXTRA ! code)
         in fold (\<lambda>len t. t[len - MIN_MATCH := code]) (filter (\<lambda>len. len \<le> MAX_MATCH) [base..<base + span]) table)
       [0..<length LENGTH_BASE] (replicate (MAX_MATCH - MIN_MATCH + 1) 0)"

definition LENGTH_CODE :: "nat list" where "LENGTH_CODE = build_length_codes"

definition length_code :: "nat \<Rightarrow> nat" where
  "length_code len = LENGTH_CODE ! (len - MIN_MATCH)"

text \<open>\<open>partition_point\<close> on the sorted table.\<close>

definition dist_code :: "nat \<Rightarrow> nat" where
  "dist_code distance = length (takeWhile (\<lambda>base. base \<le> distance) DIST_BASE) - 1"

definition fixed_litlen_lengths :: "nat list" where
  "fixed_litlen_lengths = replicate 144 8 @ replicate 112 9 @ replicate 24 7 @ replicate 8 8"

subsection \<open>Inflating\<close>

lemma decode_from_left: "decode_from cs symbol r code first index = Inr (x, r1) \<Longrightarrow> bits_left r1 < bits_left r"
proof (induction cs symbol r code first index rule: decode_from.induct)
  case (2 c cs symbol r code first index)
  from "2.prems" obtain b r2 where r2: "read_bit r = Inr (b, r2)" by (auto simp: and_then_Inr_iff)
  then have less: "bits_left r2 < bits_left r" using read_bits_left [of 1 r b r2] by (simp add: read_bit_def)
  show ?case
  proof (cases "(code OR int b) - first < int c")
    case True
    then show ?thesis using "2.prems" r2 less by (auto simp: Let_def split: if_splits)
  next
    case False
    then have "bits_left r1 < bits_left r2" using "2.prems" "2.IH" [of "(b, r2)" b r2] r2 by (auto simp: Let_def)
    with less show ?thesis by simp
  qed
qed simp

lemma decode_left: "decode d r = Inr (x, r1) \<Longrightarrow> bits_left r1 < bits_left r"
  by (simp add: decode_def decode_from_left)

definition inflate_stored :: "BitReader \<Rightarrow> byte list \<Rightarrow> nat \<Rightarrow> Failure + (byte list \<times> BitReader)" where
  "inflate_stored r out max_out =
     and_then (read_bits 16 (reader_align r)) (\<lambda>(len, r1).
     and_then (read_bits 16 r1) (\<lambda>(nlen, r2).
     if len \<noteq> 0xFFFF - nlen then Inl (Refused LengthMismatch)
     else and_then (take_bytes len r2) (\<lambda>(bytes, r3).
       if length out + len > max_out then Inl (Refused OutputTooLarge) else Inr (out @ bytes, r3))))"

fun read_code_lengths :: "nat list \<Rightarrow> nat list \<Rightarrow> BitReader \<Rightarrow> Failure + (nat list \<times> BitReader)" where
  "read_code_lengths [] lengths r = Inr (lengths, r)"
| "read_code_lengths (symbol # order) lengths r =
     and_then (read_bits 3 r) (\<lambda>(v, r1). read_code_lengths order (lengths[symbol := v]) r1)"

text \<open>One symbol of the sequence of lengths: the value, how often it is repeated, and the reader behind it.\<close>

definition length_run :: "nat list \<Rightarrow> nat \<Rightarrow> BitReader \<Rightarrow> Failure + (nat \<times> nat \<times> BitReader)" where
  "length_run acc symbol r =
     (if symbol \<le> 15 then Inr (symbol, 1, r)
      else if symbol = 16 then
        if acc = [] then Inl (Refused InvalidCodeLengths)
        else and_then (read_bits 2 r) (\<lambda>(n, r1). Inr (last acc, 3 + n, r1))
      else if symbol = 17 then and_then (read_bits 3 r) (\<lambda>(n, r1). Inr (0, 3 + n, r1))
      else and_then (read_bits 7 r) (\<lambda>(n, r1). Inr (0, 11 + n, r1)))"

lemma length_run_pos: "length_run acc symbol r = Inr (v, rep, r1) \<Longrightarrow> 0 < rep \<and> bits_left r1 \<le> bits_left r"
  by (auto simp: length_run_def and_then_Inr_iff split: if_splits dest: read_bits_left)

function read_lengths :: "Decoder \<Rightarrow> nat \<Rightarrow> nat list \<Rightarrow> BitReader \<Rightarrow> Failure + (nat list \<times> BitReader)" where
  "read_lengths d n acc r =
     (if length acc < n then
        and_then (decode d r) (\<lambda>(symbol, r1).
        and_then (length_run acc symbol r1) (\<lambda>(v, rep, r2).
        if length acc + rep > n then Inl (Refused InvalidCodeLengths)
        else read_lengths d n (acc @ replicate rep v) r2))
      else Inr (acc, r))"
  by pat_completeness auto
termination
  by (relation "measure (\<lambda>(d, n, acc, r). n - length acc)") (auto dest: length_run_pos)

declare read_lengths.simps [simp del]

definition read_dynamic_codes :: "BitReader \<Rightarrow> Failure + ((Decoder \<times> Decoder) \<times> BitReader)" where
  "read_dynamic_codes r =
     and_then (read_bits 5 r) (\<lambda>(a, r1).
     and_then (read_bits 5 r1) (\<lambda>(b, r2).
     and_then (read_bits 4 r2) (\<lambda>(c, r3).
     let hlit = a + 257; hdist = b + 1; hclen = c + 4 in
     if hlit > LITLEN_SYMBOLS \<or> hdist > DIST_SYMBOLS then Inl (Refused InvalidCode)
     else
       and_then (read_code_lengths (take hclen CODE_LENGTH_ORDER) (replicate CODE_LENGTH_SYMBOLS 0) r3) (\<lambda>(code_lengths, r4).
       and_then (decoder_new code_lengths) (\<lambda>code_length_decoder.
       and_then (read_lengths code_length_decoder (hlit + hdist) [] r4) (\<lambda>(lengths, r5).
       if lengths ! END_OF_BLOCK = 0 then Inl (Refused InvalidCode)
       else
         and_then (decoder_new (take hlit lengths)) (\<lambda>litlen.
         and_then (decoder_new (drop hlit lengths)) (\<lambda>dcode.
         Inr ((litlen, dcode), r5))))))))) "

text \<open>A byte at a time, so that a match may overlap its own output.\<close>

fun copy_from :: "nat \<Rightarrow> nat \<Rightarrow> byte list \<Rightarrow> Failure + byte list" where
  "copy_from start 0 out = Inr out"
| "copy_from start (Suc len) out =
     (if start < length out then copy_from (start + 1) len (out @ [out ! start]) else Inl IndexPanic)"

text \<open>The length and the distance of a match, behind a symbol that starts one.\<close>

definition read_match :: "Decoder \<Rightarrow> nat \<Rightarrow> BitReader \<Rightarrow> Failure + (nat \<times> nat \<times> BitReader)" where
  "read_match dcode symbol r =
     (let code = symbol - 257 in
      if code \<ge> length LENGTH_BASE then Inl (Refused InvalidCode)
      else
        and_then (read_bits (LENGTH_EXTRA ! code) r) (\<lambda>(len_extra, r1).
        and_then (decode dcode r1) (\<lambda>(dc, r2).
        if dc \<ge> length DIST_BASE then Inl (Refused InvalidCode)
        else
          and_then (read_bits (DIST_EXTRA ! dc) r2) (\<lambda>(dist_extra, r3).
          Inr (LENGTH_BASE ! code + len_extra, DIST_BASE ! dc + dist_extra, r3)))))"

lemma read_match_left: "read_match dcode symbol r = Inr (len, distance, r1) \<Longrightarrow> bits_left r1 < bits_left r"
  by (auto simp: read_match_def Let_def and_then_Inr_iff split: if_splits dest!: decode_left read_bits_left)

function inflate_codes :: "BitReader \<Rightarrow> byte list \<Rightarrow> nat \<Rightarrow> Decoder \<Rightarrow> Decoder \<Rightarrow> Failure + (byte list \<times> BitReader)" where
  "inflate_codes r out max_out litlen dcode =
     and_then (decode litlen r) (\<lambda>(symbol, r1).
     if symbol < END_OF_BLOCK then
       if length out \<ge> max_out then Inl (Refused OutputTooLarge)
       else inflate_codes r1 (out @ [of_nat symbol]) max_out litlen dcode
     else if symbol = END_OF_BLOCK then Inr (out, r1)
     else
       and_then (read_match dcode symbol r1) (\<lambda>(len, distance, r2).
       if distance > length out then Inl (Refused DistanceTooFar)
       else if length out + len > max_out then Inl (Refused OutputTooLarge)
       else
         and_then (copy_from (length out - distance) len out) (\<lambda>out1.
         inflate_codes r2 out1 max_out litlen dcode)))"
  by pat_completeness auto
termination
  by (relation "measure (\<lambda>(r, out, max_out, litlen, dcode). bits_left r)")
    (auto dest!: decode_left read_match_left)

declare inflate_codes.simps [simp del]


lemma take_bytes_left: "take_bytes n r = Inr (bytes, r1) \<Longrightarrow> bits_left r1 \<le> bits_left r"
  by (auto simp: take_bytes_def bits_left_def split: if_splits)

lemma reader_align_left: "bits_left (reader_align r) \<le> bits_left r"
  by (simp add: bits_left_def reader_align_def)

lemma inflate_stored_left: "inflate_stored r out max_out = Inr (out1, r1) \<Longrightarrow> bits_left r1 \<le> bits_left r"
  using reader_align_left [of r]
  by (auto simp: inflate_stored_def and_then_Inr_iff split: if_splits dest!: read_bits_left take_bytes_left)

lemma read_code_lengths_left: "read_code_lengths order ls r = Inr (ls1, r1) \<Longrightarrow> bits_left r1 \<le> bits_left r"
proof (induction order ls r rule: read_code_lengths.induct)
  case (2 symbol order lengths r)
  from "2.prems" obtain v r2 where r2: "read_bits 3 r = Inr (v, r2)" "read_code_lengths order (lengths[symbol := v]) r2 = Inr (ls1, r1)"
    by (auto simp: and_then_Inr_iff)
  from "2.IH" [OF r2(1) refl r2(2)] read_bits_left [OF r2(1)] show ?case by simp
qed simp

lemma read_lengths_left: "read_lengths d n acc r = Inr (ls, r1) \<Longrightarrow> bits_left r1 \<le> bits_left r"
proof (induction d n acc r rule: read_lengths.induct)
  case (1 d n acc r)
  show ?case
  proof (cases "length acc < n")
    case True
    with "1.prems" obtain symbol r2 v rep r3 where step: "decode d r = Inr (symbol, r2)" "length_run acc symbol r2 = Inr (v, rep, r3)"
        "\<not> n < length acc + rep" "read_lengths d n (acc @ replicate rep v) r3 = Inr (ls, r1)"
      by (subst (asm) read_lengths.simps) (auto simp: and_then_Inr_iff split: if_splits)
    from "1.IH" [OF True step(1) refl step(2) refl refl step(3,4)] decode_left [OF step(1)] length_run_pos [OF step(2)]
    show ?thesis by simp
  qed (use "1.prems" in \<open>simp add: read_lengths.simps\<close>)
qed

lemma read_dynamic_codes_left: "read_dynamic_codes r = Inr (codes, r1) \<Longrightarrow> bits_left r1 \<le> bits_left r"
  by (auto simp: read_dynamic_codes_def and_then_Inr_iff Let_def split: if_splits
      dest!: read_bits_left read_code_lengths_left read_lengths_left)

lemma inflate_codes_left: "inflate_codes r out max_out litlen dcode = Inr (out1, r1) \<Longrightarrow> bits_left r1 \<le> bits_left r"
proof (induction r out max_out litlen dcode rule: inflate_codes.induct)
  case (1 r out max_out litlen dcode)
  from "1.prems" obtain symbol r2 where r2: "decode litlen r = Inr (symbol, r2)"
    by (subst (asm) inflate_codes.simps) (auto simp: and_then_Inr_iff)
  consider "symbol < END_OF_BLOCK" | "symbol = END_OF_BLOCK" | "END_OF_BLOCK < symbol" by linarith
  then have "bits_left r1 \<le> bits_left r2"
  proof cases
    case 1
    with "1.prems" r2 "1.IH"(1) [OF r2 refl] show ?thesis by (simp add: inflate_codes.simps [of r] split: if_splits)
  next
    case 2
    with "1.prems" r2 show ?thesis by (simp add: inflate_codes.simps [of r])
  next
    case 3
    with "1.prems" r2 obtain len distance r3 where r3: "read_match dcode symbol r2 = Inr (len, distance, r3)"
      by (auto simp: inflate_codes.simps [of r] and_then_Inr_iff)
    with 3 "1.prems" r2 "1.IH"(2) [OF r2 refl _ _ r3 refl refl] read_match_left [OF r3]
    show ?thesis by (fastforce simp: inflate_codes.simps [of r] and_then_Inr_iff split: if_splits)
  qed
  with decode_left [OF r2] show ?case by simp
qed

definition inflate_block :: "nat \<Rightarrow> BitReader \<Rightarrow> byte list \<Rightarrow> nat \<Rightarrow> Failure + (byte list \<times> BitReader)" where
  "inflate_block kind r out max_out =
     (if kind = 0 then inflate_stored r out max_out
      else if kind = 1 then
        and_then (decoder_new fixed_litlen_lengths) (\<lambda>litlen.
        and_then (decoder_new (replicate 32 5)) (\<lambda>dcode.
        inflate_codes r out max_out litlen dcode))
      else if kind = 2 then
        and_then (read_dynamic_codes r) (\<lambda>((litlen, dcode), r1). inflate_codes r1 out max_out litlen dcode)
      else Inl (Refused InvalidBlockType))"

lemma inflate_block_left: "inflate_block kind r out max_out = Inr (out1, r1) \<Longrightarrow> bits_left r1 \<le> bits_left r"
  by (fastforce simp: inflate_block_def and_then_Inr_iff split: if_splits dest!: inflate_stored_left read_dynamic_codes_left inflate_codes_left)

function inflate_loop :: "BitReader \<Rightarrow> byte list \<Rightarrow> nat \<Rightarrow> Failure + (byte list \<times> BitReader)" where
  "inflate_loop r out max_out =
     and_then (read_bit r) (\<lambda>(is_final, r1).
     and_then (read_bits 2 r1) (\<lambda>(kind, r2).
     and_then (inflate_block kind r2 out max_out) (\<lambda>(out1, r3).
     if is_final = 1 then Inr (out1, r3) else inflate_loop r3 out1 max_out)))"
  by pat_completeness auto
termination
  by (relation "measure (\<lambda>(r, out, max_out). bits_left r)") (auto simp: read_bit_def dest!: read_bits_left inflate_block_left)

declare inflate_loop.simps [simp del]

definition inflate :: "byte list \<Rightarrow> nat \<Rightarrow> Failure + (byte list \<times> nat)" where
  "inflate input max_out = and_then (inflate_loop (new_reader input) [] max_out) (\<lambda>(out, r). Inr (out, br_pos (reader_align r)))"

definition decompress_with_limit :: "byte list \<Rightarrow> nat \<Rightarrow> Failure + byte list" where
  "decompress_with_limit input max_out =
     and_then (inflate input max_out) (\<lambda>(out, consumed). if consumed \<noteq> length input then Inl (Refused TrailingData) else Inr out)"

definition DEFAULT_MAX_OUTPUT :: nat where "DEFAULT_MAX_OUTPUT = 256 * 1024 * 1024"

definition decompress :: "byte list \<Rightarrow> Failure + byte list" where
  "decompress input = decompress_with_limit input DEFAULT_MAX_OUTPUT"

subsection \<open>Every input is inflated or refused\<close>

definition safe :: "('a \<Rightarrow> bool) \<Rightarrow> Failure + 'a \<Rightarrow> bool" where
  "safe P res \<longleftrightarrow> (case res of Inl e \<Rightarrow> e \<noteq> IndexPanic | Inr x \<Rightarrow> P x)"

lemma safe_simps [simp]: "safe P (Inr x) \<longleftrightarrow> P x" "safe P (Inl e) \<longleftrightarrow> e \<noteq> IndexPanic"
  by (simp_all add: safe_def)

lemma safe_and_then: "safe P m \<Longrightarrow> (\<And>x. m = Inr x \<Longrightarrow> P x \<Longrightarrow> safe Q (f x)) \<Longrightarrow> safe Q (and_then m f)"
  by (cases m) auto

lemma safe_and_then2:
  "safe (\<lambda>(x, y). P x y) m \<Longrightarrow> (\<And>x y. m = Inr (x, y) \<Longrightarrow> P x y \<Longrightarrow> safe Q (f x y)) \<Longrightarrow> safe Q (and_then m (\<lambda>(x, y). f x y))"
  by (cases m) auto

lemma safe_and_then3:
  "safe (\<lambda>(x, y, z). P x y z) m \<Longrightarrow> (\<And>x y z. m = Inr (x, y, z) \<Longrightarrow> P x y z \<Longrightarrow> safe Q (f x y z)) \<Longrightarrow>
     safe Q (and_then m (\<lambda>(x, y, z). f x y z))"
  by (cases m) auto

lemma safe_if: "(b \<Longrightarrow> safe P x) \<Longrightarrow> (\<not> b \<Longrightarrow> safe P y) \<Longrightarrow> safe P (if b then x else y)"
  by simp

lemma safe_read_bits: "n \<le> 64 \<Longrightarrow> safe (\<lambda>(v, r1). v < 2 ^ n) (read_bits n r)"
  using read_bits_cases [of n r] by auto

lemma safe_decoder_new: "\<forall>len\<in>set ls. len \<le> MAX_BITS \<Longrightarrow> safe (\<lambda>d. decoder_new ls = Inr d) (decoder_new ls)"
  using decoder_new_cases [of ls] by (auto simp: safe_def split: sum.splits)

lemma safe_decode: "decoder_new ls = Inr d \<Longrightarrow> safe (\<lambda>(symbol, r1). symbol < length ls) (decode d r)"
  using decode_safe [of ls d r] by (auto simp: decodes_def safe_def split: sum.splits)

lemma safe_stored: "length out \<le> max_out \<Longrightarrow> safe (\<lambda>(out1, r1). length out1 \<le> max_out) (inflate_stored r out max_out)"
  unfolding inflate_stored_def
  by (auto simp: take_bytes_def split: if_splits intro!: safe_and_then [OF safe_read_bits] safe_if)

lemma safe_length_run:
  "\<forall>x\<in>set acc. x \<le> MAX_BITS \<Longrightarrow> safe (\<lambda>(v, rep, r1). v \<le> MAX_BITS) (length_run acc symbol r)"
proof -
  assume "\<forall>x\<in>set acc. x \<le> MAX_BITS"
  then have "acc \<noteq> [] \<Longrightarrow> last acc \<le> MAX_BITS" by simp
  then show ?thesis unfolding length_run_def
    by (auto simp: MAX_BITS_def intro!: safe_and_then [OF safe_read_bits])
qed

lemma safe_read_lengths:
  assumes "decoder_new ls = Inr d" and "\<forall>x\<in>set acc. x \<le> MAX_BITS" and "length acc \<le> n"
  shows "safe (\<lambda>(xs, r1). length xs = n \<and> (\<forall>x\<in>set xs. x \<le> MAX_BITS)) (read_lengths d n acc r)"
  using assms
proof (induction d n acc r rule: read_lengths.induct)
  case (1 d n acc r)
  show ?case unfolding read_lengths.simps [of d n acc r]
  proof (intro safe_if safe_and_then2 [OF safe_decode [OF "1.prems"(1)]] safe_and_then3 [OF safe_length_run [OF "1.prems"(2)]])
    fix symbol r1 v rep r2
    assume "length acc < n" "decode d r = Inr (symbol, r1)" "length_run acc symbol r1 = Inr (v, rep, r2)"
      and v: "v \<le> MAX_BITS" "\<not> n < length acc + rep"
    moreover have "\<forall>x\<in>set (acc @ replicate rep v). x \<le> MAX_BITS" using v(1) "1.prems"(2) by auto
    ultimately show "safe (\<lambda>(xs, r1). length xs = n \<and> (\<forall>x\<in>set xs. x \<le> MAX_BITS)) (read_lengths d n (acc @ replicate rep v) r2)"
      using "1.IH" [OF _ _ refl _ refl refl v(2) "1.prems"(1)] by auto
  qed (use "1.prems" in auto)
qed

lemma safe_read_code_lengths:
  "\<forall>x\<in>set ls. x \<le> MAX_BITS \<Longrightarrow> safe (\<lambda>(xs, r1). length xs = length ls \<and> (\<forall>x\<in>set xs. x \<le> MAX_BITS)) (read_code_lengths order ls r)"
proof (induction order ls r rule: read_code_lengths.induct)
  case (2 symbol order lengths r)
  have "\<forall>x\<in>set (lengths[symbol := v]). x \<le> MAX_BITS" if "v < 2 ^ 3" for v
    using "2.prems" that by (auto simp: MAX_BITS_def dest!: set_update_subset_insert [THEN subsetD])
  then show ?case using "2.IH" by (auto intro!: safe_and_then [OF safe_read_bits])
qed simp

definition codes_ok :: "Decoder \<Rightarrow> Decoder \<Rightarrow> bool" where
  "codes_ok litlen dcode \<longleftrightarrow> (\<exists>ls ds. decoder_new ls = Inr litlen \<and> decoder_new ds = Inr dcode)"

lemma safe_dynamic: "safe (\<lambda>(codes, r1). codes_ok (fst codes) (snd codes)) (read_dynamic_codes r)"
  unfolding read_dynamic_codes_def Let_def
  apply (intro safe_if safe_and_then2 [OF safe_read_bits], simp_all only: safe_simps)
     apply simp_all
  apply (rule safe_and_then2 [OF safe_read_code_lengths], simp)
  apply (rule safe_and_then [OF safe_decoder_new], blast)
  apply (rule safe_and_then2 [OF safe_read_lengths], assumption, simp, simp)
  apply (rule safe_if, simp)
  apply (rule safe_and_then [OF safe_decoder_new], blast dest: in_set_takeD)
  apply (rule safe_and_then [OF safe_decoder_new], blast dest: in_set_dropD)
  apply (auto simp: codes_ok_def)
  done

lemma safe_copy_from: "start < length out \<Longrightarrow> safe (\<lambda>out1. length out1 = length out + len) (copy_from start len out)"
  by (induction start len out rule: copy_from.induct) auto

lemma extra_small: "code < length LENGTH_BASE \<Longrightarrow> LENGTH_EXTRA ! code \<le> 13" "dc < length DIST_BASE \<Longrightarrow> DIST_EXTRA ! dc \<le> 13"
proof -
  have len: "\<forall>x\<in>set LENGTH_EXTRA. x \<le> 13" "length LENGTH_EXTRA = length LENGTH_BASE" by (simp_all add: LENGTH_EXTRA_def LENGTH_BASE_def)
  have dst: "\<forall>x\<in>set DIST_EXTRA. x \<le> 13" "length DIST_EXTRA = length DIST_BASE" by (simp_all add: DIST_EXTRA_def DIST_BASE_def)
  show "code < length LENGTH_BASE \<Longrightarrow> LENGTH_EXTRA ! code \<le> 13" using len by (metis nth_mem)
  show "dc < length DIST_BASE \<Longrightarrow> DIST_EXTRA ! dc \<le> 13" using dst by (metis nth_mem)
qed

lemma safe_match:
  assumes "decoder_new ds = Inr dcode"
  shows "safe (\<lambda>(len, distance, r1). 0 < distance) (read_match dcode symbol r)"
proof -
  have "\<forall>x\<in>set DIST_BASE. 0 < x" by (simp add: DIST_BASE_def)
  then have "dc < length DIST_BASE \<Longrightarrow> 0 < DIST_BASE ! dc" for dc by simp
  then show ?thesis unfolding read_match_def Let_def using extra_small
    by (intro safe_if safe_and_then2 [OF safe_read_bits] safe_and_then2 [OF safe_decode [OF assms]])
      (auto simp: not_le intro: order.trans [of _ 13])
qed

lemma safe_codes:
  assumes "codes_ok litlen dcode" and "length out \<le> max_out"
  shows "safe (\<lambda>(out1, r1). length out1 \<le> max_out) (inflate_codes r out max_out litlen dcode)"
  using assms
proof (induction r out max_out litlen dcode rule: inflate_codes.induct)
  case (1 r out max_out litlen dcode)
  obtain ls ds where ls: "decoder_new ls = Inr litlen" and ds: "decoder_new ds = Inr dcode" using "1.prems"(1) by (auto simp: codes_ok_def)
  show ?case unfolding inflate_codes.simps [of r]
  proof (intro safe_if safe_and_then2 [OF safe_decode [OF ls]] safe_and_then3 [OF safe_match [OF ds]]
      safe_and_then [OF safe_copy_from])
    fix symbol r1
    assume d: "decode litlen r = Inr (symbol, r1)"
    show "safe (\<lambda>(out1, r1). length out1 \<le> max_out) (inflate_codes r1 (out @ [of_nat symbol]) max_out litlen dcode)"
      if "symbol < END_OF_BLOCK" "\<not> max_out \<le> length out"
      using "1.IH"(1) [OF d refl that "1.prems"(1)] that by simp
    show "safe (\<lambda>(out1, r1). length out1 \<le> max_out) (inflate_codes r2 out1 max_out litlen dcode)"
      if "\<not> symbol < END_OF_BLOCK" "symbol \<noteq> END_OF_BLOCK" "read_match dcode symbol r1 = Inr (len, distance, r2)"
        "\<not> length out < distance" "\<not> max_out < length out + len"
        "copy_from (length out - distance) len out = Inr out1" "length out1 = length out + len" for len distance r2 out1
      using "1.IH"(2) [OF d refl that(1-3) refl refl that(4-6) "1.prems"(1)] that by simp
  qed (use "1.prems" in auto)
qed

lemma safe_block:
  assumes "length out \<le> max_out"
  shows "safe (\<lambda>(out1, r1). length out1 \<le> max_out) (inflate_block kind r out max_out)"
proof -
  have "\<forall>len\<in>set fixed_litlen_lengths. len \<le> MAX_BITS" "\<forall>len\<in>set (replicate 32 5). len \<le> MAX_BITS"
    by (simp_all add: fixed_litlen_lengths_def MAX_BITS_def)
  note fixed = this [THEN safe_decoder_new]
  show ?thesis unfolding inflate_block_def using assms
    by (intro safe_if safe_stored safe_and_then [OF fixed(1)] safe_and_then [OF fixed(2)] safe_and_then [OF safe_dynamic])
      (auto intro!: safe_codes simp: codes_ok_def)
qed

lemma safe_loop:
  assumes "length out \<le> max_out"
  shows "safe (\<lambda>(out1, r1). length out1 \<le> max_out) (inflate_loop r out max_out)"
  using assms
proof (induction r out max_out rule: inflate_loop.induct)
  case (1 r out max_out)
  have bit: "safe (\<lambda>(b, r1). True) (read_bit r)" using safe_read_bits [of 1 r] by (auto simp: read_bit_def safe_def split: sum.splits)
  show ?case unfolding inflate_loop.simps [of r]
    by (intro safe_and_then2 [OF bit] safe_and_then2 [OF safe_read_bits] safe_and_then2 [OF safe_block [OF "1.prems"]] safe_if)
      (use "1.IH" [OF _ refl _ refl _ refl] in auto)
qed

lemma safe_decompress: "safe (\<lambda>out. length out \<le> max_out) (decompress_with_limit input max_out)"
proof -
  have "safe (\<lambda>(out1, r1). length out1 \<le> max_out) (inflate_loop (new_reader input) [] max_out)" by (rule safe_loop) simp
  then show ?thesis
    unfolding decompress_with_limit_def inflate_def
    by (intro safe_and_then2 [where P = "\<lambda>out n. length out \<le> max_out"] safe_and_then2 safe_if) auto
qed

lemma safe_total: "safe P res \<Longrightarrow> case res of Inl e \<Rightarrow> \<exists>err. e = Refused err | Inr x \<Rightarrow> P x"
  by (auto simp: safe_def split: sum.splits) (metis Failure.exhaust)

end
