(* ===== verification/Compress.thy ===== *)
theory Compress
  imports Inflate
begin

section \<open>Compression: the compressor\<close>

text \<open>
  The match finder, the block writers and \<open>compress\<close> of \<open>rustlavel-http/src/compression/deflate.rs\<close>.
  A result \<open>None\<close> stands for an index out of range or a subtraction below zero in the match finder, which would panic,
  or for a loop of \<open>build_lengths\<close> that does not end.  Frequencies are natural numbers; in the code they are \<open>u32\<close>
  and bounded by the number of tokens of a block.
\<close>

subsection \<open>Finding matches\<close>

record MatchFinder =
  mf_head :: "u32 list"
  mf_prev :: "u32 list"
  mf_next_insert :: nat

definition HASH_BITS :: nat where "HASH_BITS = 15"
definition HASH_SIZE :: nat where "HASH_SIZE = 2 ^ HASH_BITS"
definition MAX_CHAIN :: nat where "MAX_CHAIN = 128"
definition LAZY_MATCH_LIMIT :: nat where "LAZY_MATCH_LIMIT = 32"
definition NO_POSITION :: u32 where "NO_POSITION = - 1"

definition new_finder :: MatchFinder where
  "new_finder = \<lparr>mf_head = replicate HASH_SIZE NO_POSITION, mf_prev = replicate WINDOW_SIZE NO_POSITION, mf_next_insert = 0\<rparr>"

definition finder_hash :: "byte list \<Rightarrow> nat \<Rightarrow> nat" where
  "finder_hash input pos =
     (let key = push_bit 16 (ucast (input ! pos)) OR push_bit 8 (ucast (input ! (pos + 1))) OR (ucast (input ! (pos + 2)) :: u32)
      in unat (drop_bit (32 - HASH_BITS) (key * 0x9E3779B1)))"

function insert_through :: "byte list \<Rightarrow> nat \<Rightarrow> MatchFinder \<Rightarrow> MatchFinder" where
  "insert_through input stop f =
     (let pos = mf_next_insert f in
      if pos < stop then
        insert_through input stop
          ((if pos + MIN_MATCH \<le> length input then
              let h = finder_hash input pos
              in f\<lparr>mf_prev := (mf_prev f)[pos mod WINDOW_SIZE := mf_head f ! h], mf_head := (mf_head f)[h := of_nat pos]\<rparr>
            else f)\<lparr>mf_next_insert := pos + 1\<rparr>)
      else f)"
  by pat_completeness auto
termination
  by (relation "measure (\<lambda>(input, stop, f). stop - mf_next_insert f)") auto

declare insert_through.simps [simp del]

definition match_length :: "byte list \<Rightarrow> nat \<Rightarrow> nat \<Rightarrow> nat \<Rightarrow> nat" where
  "match_length input start pos max_len = length (takeWhile (\<lambda>i. input ! (start + i) = input ! (pos + i)) [0..<max_len])"

text \<open>The loop over a chain: the best length and distance so far, and how many candidates may still be tried.\<close>

fun follow_chain :: "nat \<Rightarrow> MatchFinder \<Rightarrow> byte list \<Rightarrow> nat \<Rightarrow> nat \<Rightarrow> u32 \<Rightarrow> nat \<times> nat \<Rightarrow> (nat \<times> nat) option" where
  "follow_chain 0 f input pos max_len candidate best = Some best"
| "follow_chain (Suc remaining) f input pos max_len candidate best =
     (if candidate = NO_POSITION then Some best
      else
        let start = unat candidate in
        if pos < start then None
        else if pos - start > WINDOW_SIZE then Some best
        else if length input \<le> pos + fst best then None
        else
          let len = match_length input start pos max_len;
              better = input ! (start + fst best) = input ! (pos + fst best) \<and> len > fst best;
              best1 = (if better then (len, pos - start) else best)
          in
          if better \<and> len = max_len then Some best1
          else follow_chain remaining f input pos max_len (mf_prev f ! (start mod WINDOW_SIZE)) best1)"

definition longest_match :: "MatchFinder \<Rightarrow> byte list \<Rightarrow> nat \<Rightarrow> (nat \<times> nat) option" where
  "longest_match f input pos =
     (if pos + MIN_MATCH > length input then Some (0, 0)
      else
        map_option (\<lambda>best. if fst best \<ge> MIN_MATCH then best else (0, 0))
          (follow_chain MAX_CHAIN f input pos (min MAX_MATCH (length input - pos)) (mf_head f ! finder_hash input pos)
             (MIN_MATCH - 1, 0)))"

datatype LzToken = LzLiteral byte | LzMatch nat nat

definition BLOCK_TOKENS :: nat where "BLOCK_TOKENS = 16 * 1024"

subsection \<open>Blocks\<close>

fun put_token :: "Code list \<Rightarrow> Code list \<Rightarrow> LzToken \<Rightarrow> BitWriter \<Rightarrow> BitWriter" where
  "put_token litlen dcode (LzLiteral b) w = write_code (litlen ! unat b) w"
| "put_token litlen dcode (LzMatch len distance) w =
     (let lc = length_code len;
          w1 = write_code (litlen ! (257 + lc)) w;
          w2 = bw_write (len - LENGTH_BASE ! lc) (LENGTH_EXTRA ! lc) w1;
          dc = dist_code distance;
          w3 = write_code (dcode ! dc) w2
      in bw_write (distance - DIST_BASE ! dc) (DIST_EXTRA ! dc) w3)"

definition write_tokens :: "LzToken list \<Rightarrow> Code list \<Rightarrow> Code list \<Rightarrow> BitWriter \<Rightarrow> BitWriter" where
  "write_tokens tokens litlen dcode w = write_code (litlen ! END_OF_BLOCK) (fold (put_token litlen dcode) tokens w)"

definition write_stored_chunk :: "byte list \<Rightarrow> bool \<Rightarrow> BitWriter \<Rightarrow> BitWriter" where
  "write_stored_chunk chunk is_final w =
     (let w1 = writer_align (bw_write 0 2 (bw_write (of_bool is_final) 1 w))
      in write_bytes chunk (bw_write (0xFFFF - length chunk mod 0x10000) 16 (bw_write (length chunk) 16 w1)))"

definition STORED_CHUNK :: nat where "STORED_CHUNK = 65535"

function write_chunks :: "byte list \<Rightarrow> bool \<Rightarrow> BitWriter \<Rightarrow> BitWriter" where
  "write_chunks raw is_final w =
     (if length raw \<le> STORED_CHUNK then write_stored_chunk raw is_final w
      else write_chunks (drop STORED_CHUNK raw) is_final (write_stored_chunk (take STORED_CHUNK raw) False w))"
  by pat_completeness auto
termination
  by (relation "measure (\<lambda>(raw, is_final, w). length raw)") (auto simp: STORED_CHUNK_def)

declare write_chunks.simps [simp del]

definition write_stored :: "byte list \<Rightarrow> bool \<Rightarrow> BitWriter \<Rightarrow> BitWriter" where
  "write_stored raw is_final w = write_chunks raw is_final w"

subsection \<open>The header of a dynamic block\<close>

record DynamicHeader =
  dh_litlen_lengths :: "nat list"
  dh_dist_lengths :: "nat list"
  dh_hlit :: nat
  dh_hdist :: nat
  dh_hclen :: nat
  dh_code_length_lengths :: "nat list"
  dh_sequence :: "(nat \<times> nat \<times> nat) list"

definition rposition :: "('a \<Rightarrow> bool) \<Rightarrow> 'a list \<Rightarrow> nat option" where
  "rposition P xs = (let js = filter (\<lambda>i. P (xs ! i)) [0..<length xs] in if js = [] then None else Some (last js))"

function zero_runs :: "nat \<Rightarrow> (nat \<times> nat \<times> nat) list" where
  "zero_runs run =
     (if run \<ge> 11 then let n = min run 138 in (18, n - 11, 7) # zero_runs (run - n)
      else if run \<ge> 3 then [(17, run - 3, 3)]
      else replicate run (0, 0, 0))"
  by pat_completeness auto
termination
  by (relation "measure id") auto

declare zero_runs.simps [simp del]

function value_runs :: "nat \<Rightarrow> nat \<Rightarrow> (nat \<times> nat \<times> nat) list" where
  "value_runs v run =
     (if run \<ge> 3 then let n = min run 6 in (16, n - 3, 2) # value_runs v (run - n)
      else replicate run (v, 0, 0))"
  by pat_completeness auto
termination
  by (relation "measure snd") auto

declare value_runs.simps [simp del]

definition run_symbols :: "nat \<Rightarrow> nat \<Rightarrow> (nat \<times> nat \<times> nat) list" where
  "run_symbols v run = (if v = 0 then zero_runs run else (v, 0, 0) # value_runs v (run - 1))"

function length_sequence :: "nat list \<Rightarrow> (nat \<times> nat \<times> nat) list" where
  "length_sequence [] = []"
| "length_sequence (v # vs) =
     run_symbols v (length (takeWhile (\<lambda>l. l = v) (v # vs))) @ length_sequence (dropWhile (\<lambda>l. l = v) vs)"
  by pat_completeness auto
termination
  by (relation "measure length") (auto simp: le_imp_less_Suc length_dropWhile_le)

definition build_dynamic_header :: "nat list \<Rightarrow> nat list \<Rightarrow> DynamicHeader option" where
  "build_dynamic_header litlen_freq dist_freq =
     Option.bind (build_lengths litlen_freq MAX_BITS) (\<lambda>litlen_lengths.
     Option.bind (build_lengths dist_freq MAX_BITS) (\<lambda>dist_lengths.
     let hlit = max 257 (case rposition (\<lambda>l. l \<noteq> 0) litlen_lengths of None \<Rightarrow> 257 | Some i \<Rightarrow> i + 1);
         hdist = (case rposition (\<lambda>l. l \<noteq> 0) dist_lengths of None \<Rightarrow> 1 | Some i \<Rightarrow> i + 1);
         sequ = length_sequence (take hlit litlen_lengths @ take hdist dist_lengths);
         code_length_freq = foldl (\<lambda>fs (symbol, _). fs[symbol := fs ! symbol + 1]) (replicate CODE_LENGTH_SYMBOLS 0) sequ
     in
     Option.bind (build_lengths code_length_freq MAX_CODE_LENGTH_BITS) (\<lambda>code_length_lengths.
     Some \<lparr>dh_litlen_lengths = litlen_lengths, dh_dist_lengths = dist_lengths, dh_hlit = hlit, dh_hdist = hdist,
       dh_hclen = max 4 (case rposition (\<lambda>symbol. code_length_lengths ! symbol \<noteq> 0) CODE_LENGTH_ORDER of None \<Rightarrow> 4 | Some i \<Rightarrow> i + 1),
       dh_code_length_lengths = code_length_lengths, dh_sequence = sequ\<rparr>)))"

definition write_dynamic_header :: "DynamicHeader \<Rightarrow> BitWriter \<Rightarrow> BitWriter" where
  "write_dynamic_header h w =
     (let w1 = bw_write (dh_hclen h - 4) 4 (bw_write (dh_hdist h - 1) 5 (bw_write (dh_hlit h - 257) 5 w));
          w2 = fold (\<lambda>symbol. bw_write (dh_code_length_lengths h ! symbol) 3) (take (dh_hclen h) CODE_LENGTH_ORDER) w1;
          codes = assign_codes (dh_code_length_lengths h)
      in fold (\<lambda>(symbol, extra_value, extra_bits) w. bw_write extra_value extra_bits (write_code (codes ! symbol) w)) (dh_sequence h) w2)"

subsection \<open>Choosing the cheapest block\<close>

fun count_token :: "LzToken \<Rightarrow> nat list \<times> nat list \<times> nat \<Rightarrow> nat list \<times> nat list \<times> nat" where
  "count_token (LzLiteral b) (lf, df, extra) = (lf[unat b := lf ! unat b + 1], df, extra)"
| "count_token (LzMatch len distance) (lf, df, extra) =
     (let lc = length_code len; dc = dist_code distance
      in (lf[257 + lc := lf ! (257 + lc) + 1], df[dc := df ! dc + 1], extra + LENGTH_EXTRA ! lc + DIST_EXTRA ! dc))"

definition priced :: "nat list \<Rightarrow> nat list \<Rightarrow> nat" where
  "priced freqs lengths = sum_list (map (\<lambda>(f, l). f * l) (zip freqs lengths))"

definition dynamic_bits :: "DynamicHeader \<Rightarrow> nat list \<Rightarrow> nat list \<Rightarrow> nat \<Rightarrow> nat" where
  "dynamic_bits h litlen_freq dist_freq extra =
     3 + 14 + dh_hclen h * 3
     + sum_list (map (\<lambda>(symbol, _, extra). dh_code_length_lengths h ! symbol + extra) (dh_sequence h))
     + extra + priced litlen_freq (dh_litlen_lengths h) + priced dist_freq (dh_dist_lengths h)"

definition write_block :: "byte list \<Rightarrow> LzToken list \<Rightarrow> bool \<Rightarrow> BitWriter \<Rightarrow> BitWriter option" where
  "write_block raw tokens is_final w =
     (let (lf, dist_freq, extra) = fold count_token tokens (replicate LITLEN_SYMBOLS 0, replicate DIST_SYMBOLS 0, 0);
          litlen_freq = lf[END_OF_BLOCK := lf ! END_OF_BLOCK + 1];
          stored_bits = 3 + 7 + max 1 ((length raw + 65534) div 65535) * 32 + length raw * 8;
          fixed_bits = 3 + extra + priced litlen_freq fixed_litlen_lengths + sum_list (map (\<lambda>f. f * 5) dist_freq)
      in
      Option.bind (build_dynamic_header litlen_freq dist_freq) (\<lambda>dynamic.
      let cost = dynamic_bits dynamic litlen_freq dist_freq extra in
      if stored_bits \<le> fixed_bits \<and> stored_bits \<le> cost then Some (write_stored raw is_final w)
      else if fixed_bits \<le> cost then
        Some (write_tokens tokens (assign_codes fixed_litlen_lengths) (assign_codes (replicate 32 5))
          (bw_write 1 2 (bw_write (of_bool is_final) 1 w)))
      else
        Some (write_tokens tokens (assign_codes (dh_litlen_lengths dynamic)) (assign_codes (dh_dist_lengths dynamic))
          (write_dynamic_header dynamic (bw_write 2 2 (bw_write (of_bool is_final) 1 w))))))"

subsection \<open>Compressing\<close>

record CompressState =
  cs_writer :: BitWriter
  cs_finder :: MatchFinder
  cs_tokens :: "LzToken list"
  cs_block_start :: nat
  cs_pos :: nat
  cs_current :: "nat \<times> nat"

text \<open>The second half of the body of the loop: the token is taken, and a full block is written.\<close>

definition take_token :: "byte list \<Rightarrow> CompressState \<Rightarrow> CompressState option" where
  "take_token input s =
     (let (len, distance) = cs_current s; pos = cs_pos s;
          s1 = (if len \<ge> MIN_MATCH then s\<lparr>cs_tokens := cs_tokens s @ [LzMatch len distance], cs_pos := pos + len\<rparr>
                else s\<lparr>cs_tokens := cs_tokens s @ [LzLiteral (input ! pos)], cs_pos := pos + 1\<rparr>);
          s2 = s1\<lparr>cs_finder := insert_through input (cs_pos s1) (cs_finder s1)\<rparr>
      in
      Option.bind
        (if cs_pos s2 < length input then longest_match (cs_finder s2) input (cs_pos s2) else Some (cs_current s2)) (\<lambda>current.
      let s3 = s2\<lparr>cs_current := current\<rparr> in
      if length (cs_tokens s3) \<ge> BLOCK_TOKENS \<and> cs_pos s3 < length input then
        Option.bind
          (write_block (take (cs_pos s3 - cs_block_start s3) (drop (cs_block_start s3) input)) (cs_tokens s3) False (cs_writer s3))
          (\<lambda>w. Some (s3\<lparr>cs_writer := w, cs_tokens := [], cs_block_start := cs_pos s3\<rparr>))
      else Some s3))"

definition compress_step :: "byte list \<Rightarrow> CompressState \<Rightarrow> CompressState option" where
  "compress_step input s =
     (let (len, distance) = cs_current s; pos = cs_pos s in
      if MIN_MATCH \<le> len \<and> len < LAZY_MATCH_LIMIT \<and> pos + 1 < length input then
        let s1 = s\<lparr>cs_finder := insert_through input (pos + 1) (cs_finder s)\<rparr> in
        Option.bind (longest_match (cs_finder s1) input (pos + 1)) (\<lambda>nxt.
        if fst nxt > len then
          Some (s1\<lparr>cs_tokens := cs_tokens s1 @ [LzLiteral (input ! pos)], cs_pos := pos + 1, cs_current := nxt\<rparr>)
        else take_token input s1)
      else take_token input s)"

lemma take_token_pos: "take_token input s = Some s1 \<Longrightarrow> cs_pos s < cs_pos s1"
  by (auto simp: take_token_def Let_def bind_eq_Some_conv MIN_MATCH_def split: if_splits prod.splits)

lemma compress_step_pos: "compress_step input s = Some s1 \<Longrightarrow> cs_pos s < cs_pos s1"
  by (auto simp: compress_step_def Let_def bind_eq_Some_conv split: if_splits prod.splits dest!: take_token_pos)

function compress_loop :: "byte list \<Rightarrow> CompressState \<Rightarrow> CompressState option" where
  "compress_loop input s =
     (if cs_pos s < length input then Option.bind (compress_step input s) (compress_loop input) else Some s)"
  by pat_completeness auto
termination
  by (relation "measure (\<lambda>(input, s). length input - cs_pos s)") (auto dest: compress_step_pos)

declare compress_loop.simps [simp del]

definition compress :: "byte list \<Rightarrow> byte list option" where
  "compress input =
     Option.bind (longest_match new_finder input 0) (\<lambda>current.
     Option.bind
       (compress_loop input
         \<lparr>cs_writer = new_writer, cs_finder = new_finder, cs_tokens = [], cs_block_start = 0, cs_pos = 0, cs_current = current\<rparr>) (\<lambda>s.
     map_option bw_finish (write_block (drop (cs_block_start s) input) (cs_tokens s) True (cs_writer s))))"

end
