(* ===== verification/CompressProof.thy ===== *)
theory CompressProof
  imports Compress
begin

section \<open>Compression: what is compressed is inflated again\<close>

text \<open>
  The matches that the finder returns repeat earlier input, so the tokens of a block cover a stretch of it; every kind of block
  is read back as the stretch it was written for; and so the blocks of a stream are read back as the input, whatever
  the input and whatever the choices the compressor made.
\<close>

subsection \<open>Matches\<close>

definition match_ok :: "byte list \<Rightarrow> nat \<Rightarrow> nat \<Rightarrow> nat \<Rightarrow> bool" where
  "match_ok input pos len distance \<longleftrightarrow>
     MIN_MATCH \<le> len \<and> len \<le> MAX_MATCH \<and> 1 \<le> distance \<and> distance \<le> WINDOW_SIZE \<and> distance \<le> pos \<and>
     pos + len \<le> length input \<and> (\<forall>i<len. input ! (pos - distance + i) = input ! (pos + i))"

definition finder_ok :: "MatchFinder \<Rightarrow> bool" where
  "finder_ok f \<longleftrightarrow> length (mf_head f) = HASH_SIZE \<and> length (mf_prev f) = WINDOW_SIZE \<and>
     (\<forall>e\<in>set (mf_head f) \<union> set (mf_prev f). e = NO_POSITION \<or> unat e < mf_next_insert f)"

lemma finder_hash_less: "finder_hash input pos < HASH_SIZE"
proof -
  have "unat (drop_bit 17 x) < 2 ^ 15" for x :: u32
  proof -
    have "unat x < 2 ^ 32" using unsigned_less [of x, where ?'a = nat] by simp
    then show ?thesis by (simp only: unsigned_drop_bit_eq) (simp add: drop_bit_eq_div less_mult_imp_div_less take_bit_nat_eq_self)
  qed
  then show ?thesis by (simp add: finder_hash_def Let_def HASH_SIZE_def HASH_BITS_def)
qed

lemma window_pos: "0 < WINDOW_SIZE"
  by (simp add: WINDOW_SIZE_def)

lemma new_finder_ok: "finder_ok new_finder" "mf_next_insert new_finder = 0"
  by (auto simp: finder_ok_def new_finder_def)

lemma insert_through_ok: "finder_ok f \<Longrightarrow> finder_ok (insert_through input stop f) \<and> mf_next_insert (insert_through input stop f) = max stop (mf_next_insert f)"
proof (induction input stop f rule: insert_through.induct)
  case (1 input stop f)
  let ?pos = "mf_next_insert f"
  let ?h = "finder_hash input ?pos"
  let ?g = "f\<lparr>mf_prev := (mf_prev f)[?pos mod WINDOW_SIZE := mf_head f ! ?h], mf_head := (mf_head f)[?h := of_nat ?pos]\<rparr>"
  let ?f1 = "(if ?pos + MIN_MATCH \<le> length input then ?g else f)\<lparr>mf_next_insert := ?pos + 1\<rparr>"
  have old: "\<forall>e\<in>set (mf_head f) \<union> set (mf_prev f). e = NO_POSITION \<or> unat e < ?pos + 1"
    using "1.prems" less_SucI by (fastforce simp: finder_ok_def)
  moreover have "mf_head f ! ?h \<in> set (mf_head f)" using "1.prems" finder_hash_less [of input ?pos] by (simp add: finder_ok_def)
  moreover have "unat (of_nat ?pos :: u32) \<le> ?pos" by (simp add: unat_of_nat)
  ultimately have "finder_ok ?f1"
    using "1.prems" by (auto simp: finder_ok_def dest!: set_update_subset_insert [THEN subsetD])
  then show ?case using "1.IH" [OF refl] "1.prems" by (subst (1 2) insert_through.simps) (auto simp: Let_def)
qed

lemma match_length_le: "match_length input start pos max_len \<le> max_len"
  using length_takeWhile_le [of _ "[0..<max_len]"] by (simp add: match_length_def)

lemma match_length_same: "i < match_length input start pos max_len \<Longrightarrow> input ! (start + i) = input ! (pos + i)"
proof -
  assume i: "i < match_length input start pos max_len"
  then have "takeWhile (\<lambda>i. input ! (start + i) = input ! (pos + i)) [0..<max_len] ! i = i"
    using match_length_le [of input start pos max_len] by (simp add: match_length_def takeWhile_nth)
  moreover have "takeWhile (\<lambda>i. input ! (start + i) = input ! (pos + i)) [0..<max_len] ! i \<in> set (takeWhile (\<lambda>i. input ! (start + i) = input ! (pos + i)) [0..<max_len])"
    using i unfolding match_length_def by (rule nth_mem)
  ultimately show ?thesis by (auto dest: set_takeWhileD)
qed

definition best_ok :: "byte list \<Rightarrow> nat \<Rightarrow> nat \<Rightarrow> nat \<times> nat \<Rightarrow> bool" where
  "best_ok input pos max_len best \<longleftrightarrow>
     MIN_MATCH - 1 \<le> fst best \<and> fst best \<le> max_len \<and> (MIN_MATCH \<le> fst best \<longrightarrow> match_ok input pos (fst best) (snd best))"

lemma follow_chain_ok:
  assumes "finder_ok f" and "mf_next_insert f \<le> pos" and "max_len = min MAX_MATCH (length input - pos)" and "pos + MIN_MATCH \<le> length input"
    and "candidate = NO_POSITION \<or> unat candidate < pos" and "best_ok input pos max_len best" and "fst best < max_len"
  shows "\<exists>best1. follow_chain n f input pos max_len candidate best = Some best1 \<and> best_ok input pos max_len best1"
  using assms(5-)
proof (induction n arbitrary: candidate best)
  case (Suc n)
  let ?start = "unat candidate"
  let ?len = "match_length input ?start pos max_len"
  let ?better = "input ! (?start + fst best) = input ! (pos + fst best) \<and> ?len > fst best"
  let ?best1 = "if ?better then (?len, pos - ?start) else best"
  show ?case
  proof (cases "candidate = NO_POSITION \<or> pos - ?start > WINDOW_SIZE")
    case True
    then have "follow_chain (Suc n) f input pos max_len candidate best = Some best" using Suc.prems(1)
      by (cases "candidate = NO_POSITION") (simp_all add: Let_def)
    then show ?thesis using Suc.prems(2) by blast
  next
    case False
    then have c: "?start < pos" "pos - ?start \<le> WINDOW_SIZE" "candidate \<noteq> NO_POSITION" using Suc.prems(1) by auto
    have max: "max_len \<le> MAX_MATCH" "pos + max_len \<le> length input" using assms(3,4) by auto
    have "match_ok input pos ?len (pos - ?start)" if "MIN_MATCH \<le> ?len"
      using that c max match_length_le [of input ?start pos max_len] match_length_same [of _ input ?start pos max_len]
      by (auto simp: match_ok_def)
    then have best1: "best_ok input pos max_len ?best1"
      using Suc.prems(2) match_length_le [of input ?start pos max_len] by (auto simp: best_ok_def)
    have idx: "\<not> length input \<le> pos + fst best" using Suc.prems(3) max(2) by simp
    show ?thesis
    proof (cases "?better \<and> ?len = max_len")
      case True
      then show ?thesis using best1 c idx by (simp add: Let_def)
    next
      case False
      have "mf_prev f ! (?start mod WINDOW_SIZE) \<in> set (mf_prev f)" using assms(1) window_pos by (simp add: finder_ok_def)
      then have "mf_prev f ! (?start mod WINDOW_SIZE) = NO_POSITION \<or> unat (mf_prev f ! (?start mod WINDOW_SIZE)) < pos"
        using assms(1,2) by (fastforce simp: finder_ok_def)
      moreover have "fst ?best1 < max_len" using False Suc.prems(3) match_length_le [of input ?start pos max_len] by (auto simp: le_neq_implies_less)
      ultimately have "\<exists>best2. follow_chain n f input pos max_len (mf_prev f ! (?start mod WINDOW_SIZE)) ?best1 = Some best2 \<and> best_ok input pos max_len best2"
        using Suc.IH best1 by blast
      then show ?thesis using c idx False by (auto simp: Let_def)
    qed
  qed
qed simp

lemma longest_match_ok:
  assumes "finder_ok f" and "mf_next_insert f \<le> pos"
  shows "\<exists>len distance. longest_match f input pos = Some (len, distance) \<and> (MIN_MATCH \<le> len \<longrightarrow> match_ok input pos len distance)"
proof (cases "pos + MIN_MATCH > length input")
  case False
  let ?c = "mf_head f ! finder_hash input pos"
  let ?m = "min MAX_MATCH (length input - pos)"
  have "?c \<in> set (mf_head f)" using assms(1) finder_hash_less [of input pos] by (simp add: finder_ok_def)
  then have "?c = NO_POSITION \<or> unat ?c < pos" using assms by (fastforce simp: finder_ok_def)
  moreover have "best_ok input pos ?m (MIN_MATCH - 1, 0)" "fst (MIN_MATCH - 1, 0) < ?m"
    using False by (auto simp: best_ok_def MIN_MATCH_def MAX_MATCH_def)
  ultimately obtain best where "follow_chain MAX_CHAIN f input pos ?m ?c (MIN_MATCH - 1, 0) = Some best" "best_ok input pos ?m best"
    using follow_chain_ok [OF assms refl, of input ?c "(MIN_MATCH - 1, 0)" MAX_CHAIN] False by auto
  then show ?thesis using False by (cases best) (auto simp: longest_match_def best_ok_def MIN_MATCH_def)
qed (simp add: longest_match_def MIN_MATCH_def)

subsection \<open>Tokens that cover a stretch of the input\<close>

fun covers :: "byte list \<Rightarrow> nat \<Rightarrow> LzToken list \<Rightarrow> nat \<Rightarrow> bool" where
  "covers input a [] b \<longleftrightarrow> a = b"
| "covers input a (LzLiteral c # ts) b \<longleftrightarrow> a < length input \<and> input ! a = c \<and> covers input (a + 1) ts b"
| "covers input a (LzMatch len distance # ts) b \<longleftrightarrow> match_ok input a len distance \<and> covers input (a + len) ts b"

lemma covers_append: "covers input a (ts @ us) b \<longleftrightarrow> (\<exists>m. covers input a ts m \<and> covers input m us b)"
  by (induction input a ts b rule: covers.induct) auto

lemma covers_le: "covers input a ts b \<Longrightarrow> a \<le> b \<and> (a \<le> length input \<longrightarrow> b \<le> length input)"
  by (induction input a ts b rule: covers.induct) (auto simp: match_ok_def)

lemma copy_from_match:
  assumes "start < pos" and "pos + len \<le> length input" and "\<forall>i<len. input ! (start + i) = input ! (pos + i)"
  shows "copy_from start len (take pos input) = Inr (take (pos + len) input)"
  using assms
proof (induction len arbitrary: start pos)
  case (Suc len)
  have "take pos input @ [take pos input ! start] = take (pos + 1) input"
    using Suc.prems(1,2) Suc.prems(3) [rule_format, of 0] by (simp add: take_Suc_conv_app_nth)
  moreover have "\<forall>i<len. input ! (start + 1 + i) = input ! (pos + 1 + i)" using Suc.prems(3) by (auto dest: spec [of _ "Suc i" for i])
  ultimately show ?case using Suc.IH [of "start + 1" "pos + 1"] Suc.prems by simp
qed simp

subsection \<open>The tables\<close>

lemma LENGTH_CODE_table: "LENGTH_CODE =
    [0, 1, 2, 3, 4, 5, 6, 7, 8, 8, 9, 9, 10, 10, 11, 11, 12, 12, 12, 12, 13, 13, 13, 13, 14, 14, 14, 14, 15, 15, 15, 15,
     16, 16, 16, 16, 16, 16, 16, 16, 17, 17, 17, 17, 17, 17, 17, 17, 18, 18, 18, 18, 18, 18, 18, 18, 19, 19, 19, 19, 19, 19, 19, 19,
     20, 20, 20, 20, 20, 20, 20, 20, 20, 20, 20, 20, 20, 20, 20, 20, 21, 21, 21, 21, 21, 21, 21, 21, 21, 21, 21, 21, 21, 21, 21, 21,
     22, 22, 22, 22, 22, 22, 22, 22, 22, 22, 22, 22, 22, 22, 22, 22, 23, 23, 23, 23, 23, 23, 23, 23, 23, 23, 23, 23, 23, 23, 23, 23,
     24, 24, 24, 24, 24, 24, 24, 24, 24, 24, 24, 24, 24, 24, 24, 24, 24, 24, 24, 24, 24, 24, 24, 24, 24, 24, 24, 24, 24, 24, 24, 24,
     25, 25, 25, 25, 25, 25, 25, 25, 25, 25, 25, 25, 25, 25, 25, 25, 25, 25, 25, 25, 25, 25, 25, 25, 25, 25, 25, 25, 25, 25, 25, 25,
     26, 26, 26, 26, 26, 26, 26, 26, 26, 26, 26, 26, 26, 26, 26, 26, 26, 26, 26, 26, 26, 26, 26, 26, 26, 26, 26, 26, 26, 26, 26, 26,
     27, 27, 27, 27, 27, 27, 27, 27, 27, 27, 27, 27, 27, 27, 27, 27, 27, 27, 27, 27, 27, 27, 27, 27, 27, 27, 27, 27, 27, 27, 27, 28]"
  by code_simp

lemma length_codes_checked:
  "list_all (\<lambda>(len, lc). lc < 29 \<and> LENGTH_BASE ! lc \<le> len \<and> len - LENGTH_BASE ! lc < 2 ^ (LENGTH_EXTRA ! lc))
     (zip [3..<259] LENGTH_CODE) \<and> length LENGTH_CODE = 256"
  unfolding LENGTH_CODE_table by (simp add: LENGTH_BASE_def LENGTH_EXTRA_def)

lemma length_code_ok:
  assumes "MIN_MATCH \<le> len" and "len \<le> MAX_MATCH"
  shows "length_code len < length LENGTH_BASE" and "LENGTH_BASE ! length_code len \<le> len"
    and "len - LENGTH_BASE ! length_code len < 2 ^ (LENGTH_EXTRA ! length_code len)"
proof -
  have n: "length LENGTH_BASE = 29" by (simp add: LENGTH_BASE_def)
  have i: "len - 3 < length (zip [3..<259] LENGTH_CODE)" "3 + (len - 3) = len"
    using assms length_codes_checked by (auto simp: MIN_MATCH_def MAX_MATCH_def simp del: upt_rec_numeral)
  have "(\<lambda>(len, lc). lc < 29 \<and> LENGTH_BASE ! lc \<le> len \<and> len - LENGTH_BASE ! lc < 2 ^ (LENGTH_EXTRA ! lc))
      (zip [3..<259] LENGTH_CODE ! (len - 3))"
    using length_codes_checked i(1) by (simp only: list_all_length)
  moreover have "zip [3..<259] LENGTH_CODE ! (len - 3) = (len, length_code len)"
    using i length_codes_checked by (simp add: length_code_def MIN_MATCH_def del: upt_rec_numeral)
  ultimately have c: "length_code len < 29" "LENGTH_BASE ! length_code len \<le> len"
      "len - LENGTH_BASE ! length_code len < 2 ^ (LENGTH_EXTRA ! length_code len)" by (simp_all only: prod.case)
  show "length_code len < length LENGTH_BASE" using c(1) by (simp only: n)
  show "LENGTH_BASE ! length_code len \<le> len" by (rule c(2))
  show "len - LENGTH_BASE ! length_code len < 2 ^ (LENGTH_EXTRA ! length_code len)" by (rule c(3))
qed

lemma dist_codes_checked:
  "map2 (\<lambda>base extra. base + 2 ^ extra) DIST_BASE DIST_EXTRA = tl DIST_BASE @ [32769]"
  by (simp add: DIST_BASE_def DIST_EXTRA_def)

lemma dist_code_ok:
  assumes "1 \<le> distance" and "distance \<le> WINDOW_SIZE"
  shows "dist_code distance < length DIST_BASE" and "DIST_BASE ! dist_code distance \<le> distance"
    and "distance - DIST_BASE ! dist_code distance < 2 ^ (DIST_EXTRA ! dist_code distance)"
proof -
  let ?w = "takeWhile (\<lambda>base. base \<le> distance) DIST_BASE"
  have n: "length DIST_BASE = 30" by (simp add: DIST_BASE_def)
  have "?w \<noteq> []" using assms(1) by (simp add: DIST_BASE_def)
  then have i: "dist_code distance < length ?w" "Suc (dist_code distance) = length ?w" by (auto simp: dist_code_def)
  have le: "length ?w \<le> 30" using length_takeWhile_le [of _ DIST_BASE] n by metis
  show less: "dist_code distance < length DIST_BASE" using i(1) le n by simp
  have "?w ! dist_code distance \<in> set ?w" using i(1) by simp
  then have "?w ! dist_code distance \<le> distance" by (rule set_takeWhileD [THEN conjunct2])
  then show "DIST_BASE ! dist_code distance \<le> distance" using i(1) by (simp add: takeWhile_nth)
  have "distance < (DIST_BASE @ [32769]) ! Suc (dist_code distance)"
  proof (cases "length ?w < length DIST_BASE")
    case True
    then show ?thesis using nth_length_takeWhile [OF True] by (simp add: i(2) nth_append)
  next
    case False
    then have "Suc (dist_code distance) = length DIST_BASE" using i(2) le n by simp
    then show ?thesis using assms(2) by (simp add: nth_append WINDOW_SIZE_def)
  qed
  moreover have "DIST_BASE ! dist_code distance + 2 ^ (DIST_EXTRA ! dist_code distance) = (DIST_BASE @ [32769]) ! Suc (dist_code distance)"
  proof -
    have "length DIST_EXTRA = 30" by (simp add: DIST_EXTRA_def)
    then have "DIST_BASE ! dist_code distance + 2 ^ (DIST_EXTRA ! dist_code distance) = (tl DIST_BASE @ [32769]) ! dist_code distance"
      unfolding dist_codes_checked [symmetric] using less n by simp
    moreover have "DIST_BASE = hd DIST_BASE # tl DIST_BASE" using n by (metis list.collapse list.size(3) zero_neq_numeral)
    then have "(DIST_BASE @ [32769]) ! Suc (dist_code distance) = (tl DIST_BASE @ [32769]) ! dist_code distance"
      by (metis append_Cons nth_Cons_Suc)
    ultimately show ?thesis by simp
  qed
  ultimately show "distance - DIST_BASE ! dist_code distance < 2 ^ (DIST_EXTRA ! dist_code distance)"
    using \<open>DIST_BASE ! dist_code distance \<le> distance\<close> by (simp add: less_diff_conv2 add.commute)
qed

subsection \<open>Tokens as bits\<close>

fun coded :: "nat list \<Rightarrow> nat list \<Rightarrow> LzToken \<Rightarrow> bool" where
  "coded ls ds (LzLiteral b) \<longleftrightarrow> unat b < length ls \<and> ls ! unat b \<noteq> 0"
| "coded ls ds (LzMatch len distance) \<longleftrightarrow>
     MIN_MATCH \<le> len \<and> len \<le> MAX_MATCH \<and> 1 \<le> distance \<and> distance \<le> WINDOW_SIZE \<and>
     257 + length_code len < length ls \<and> ls ! (257 + length_code len) \<noteq> 0 \<and>
     dist_code distance < length ds \<and> ds ! dist_code distance \<noteq> 0"

fun token_bits :: "nat list \<Rightarrow> nat list \<Rightarrow> LzToken \<Rightarrow> bool list" where
  "token_bits ls ds (LzLiteral b) = code_word ls (unat b)"
| "token_bits ls ds (LzMatch len distance) =
     code_word ls (257 + length_code len) @ nat_bits (LENGTH_EXTRA ! length_code len) (len - LENGTH_BASE ! length_code len) @
     code_word ds (dist_code distance) @ nat_bits (DIST_EXTRA ! dist_code distance) (distance - DIST_BASE ! dist_code distance)"

abbreviation writes :: "BitWriter \<Rightarrow> bool list \<Rightarrow> BitWriter \<Rightarrow> bool" where
  "writes w bs w1 \<equiv> wbits w1 = wbits w @ bs \<and> writer_ok w1"

lemma put_token_spec:
  assumes "decoder_new ls = Inr litlen" and "decoder_new ds = Inr dcode" and "coded ls ds t" and "writer_ok w"
  shows "writes w (token_bits ls ds t) (put_token (assign_codes ls) (assign_codes ds) t w)"
proof (cases t)
  case (LzLiteral b)
  then show ?thesis using huffman.put_word [of ls litlen "unat b" w] assms by simp
next
  case (LzMatch len distance)
  let ?lc = "length_code len" and ?dc = "dist_code distance"
  have lc: "?lc < length LENGTH_BASE" "len - LENGTH_BASE ! ?lc < 2 ^ (LENGTH_EXTRA ! ?lc)" "LENGTH_EXTRA ! ?lc \<le> 56"
    using length_code_ok [of len] extra_small(1) [of ?lc] assms(3) LzMatch by auto
  have dc: "?dc < length DIST_BASE" "distance - DIST_BASE ! ?dc < 2 ^ (DIST_EXTRA ! ?dc)" "DIST_EXTRA ! ?dc \<le> 56"
    using dist_code_ok [of distance] extra_small(2) [of ?dc] assms(3) LzMatch by auto
  show ?thesis
    using assms lc dc LzMatch huffman.put_word [of ls litlen "257 + ?lc"] huffman.put_word [of ds dcode ?dc] fixed.put_word
    by (simp add: Let_def)
qed

lemma put_tokens_spec:
  assumes "decoder_new ls = Inr litlen" and "decoder_new ds = Inr dcode" and "\<forall>t\<in>set ts. coded ls ds t" and "writer_ok w"
  shows "writes w (concat (map (token_bits ls ds) ts)) (fold (put_token (assign_codes ls) (assign_codes ds)) ts w)"
  using assms(3,4)
proof (induction ts arbitrary: w)
  case (Cons t ts)
  then show ?case using put_token_spec [OF assms(1,2), of t w] Cons.IH [of "put_token (assign_codes ls) (assign_codes ds) t w"] by simp
qed simp

lemma write_tokens_spec:
  assumes "decoder_new ls = Inr litlen" and "decoder_new ds = Inr dcode" and "\<forall>t\<in>set ts. coded ls ds t" and "writer_ok w"
    and "END_OF_BLOCK < length ls" and "ls ! END_OF_BLOCK \<noteq> 0"
  shows "writes w (concat (map (token_bits ls ds) ts) @ code_word ls END_OF_BLOCK) (write_tokens ts (assign_codes ls) (assign_codes ds) w)"
  using put_tokens_spec [OF assms(1-4)] huffman.put_word [of ls litlen END_OF_BLOCK] assms(1,5,6) by (simp add: write_tokens_def)

lemma read_match_token:
  assumes "decoder_new ls = Inr litlen" and "decoder_new ds = Inr dcode" and "coded ls ds (LzMatch len distance)"
    and "reader_ok r" and "rbits r = token_bits ls ds (LzMatch len distance) @ rest"
  shows "\<exists>r1 r2. decode litlen r = Inr (257 + length_code len, r1) \<and> read_match dcode (257 + length_code len) r1 = Inr (len, distance, r2) \<and>
    rbits r2 = rest \<and> reader_ok r2 \<and> br_data r2 = br_data r"
proof -
  let ?lc = "length_code len" and ?dc = "dist_code distance"
  have lc: "?lc < length LENGTH_BASE" "LENGTH_BASE ! ?lc \<le> len" "len - LENGTH_BASE ! ?lc < 2 ^ (LENGTH_EXTRA ! ?lc)" "LENGTH_EXTRA ! ?lc \<le> 56"
    using length_code_ok [of len] extra_small(1) [of ?lc] assms(3) by auto
  have dc: "?dc < length DIST_BASE" "DIST_BASE ! ?dc \<le> distance" "distance - DIST_BASE ! ?dc < 2 ^ (DIST_EXTRA ! ?dc)" "DIST_EXTRA ! ?dc \<le> 56"
    using dist_code_ok [of distance] extra_small(2) [of ?dc] assms(3) by auto
  obtain r1 where r1: "decode litlen r = Inr (257 + ?lc, r1)" "reader_ok r1" "br_data r1 = br_data r"
      "rbits r1 = nat_bits (LENGTH_EXTRA ! ?lc) (len - LENGTH_BASE ! ?lc) @ code_word ds ?dc @ nat_bits (DIST_EXTRA ! ?dc) (distance - DIST_BASE ! ?dc) @ rest"
    using huffman.get_word [of ls litlen "257 + ?lc" r] assms by auto
  obtain r2 where r2: "read_bits (LENGTH_EXTRA ! ?lc) r1 = Inr (len - LENGTH_BASE ! ?lc, r2)" "reader_ok r2" "br_data r2 = br_data r"
      "rbits r2 = code_word ds ?dc @ nat_bits (DIST_EXTRA ! ?dc) (distance - DIST_BASE ! ?dc) @ rest"
    using fixed.get_word [OF _ r1(2,4)] lc r1(3) by auto
  obtain r3 where r3: "decode dcode r2 = Inr (?dc, r3)" "reader_ok r3" "br_data r3 = br_data r"
      "rbits r3 = nat_bits (DIST_EXTRA ! ?dc) (distance - DIST_BASE ! ?dc) @ rest"
    using huffman.get_word [OF _ r2(2,4), of dcode] assms(2,3) r2(3) by auto
  obtain r4 where "read_bits (DIST_EXTRA ! ?dc) r3 = Inr (distance - DIST_BASE ! ?dc, r4)" "reader_ok r4" "br_data r4 = br_data r" "rbits r4 = rest"
    using fixed.get_word [OF _ r3(2,4)] dc r3(3) by auto
  then show ?thesis using r1(1) r2(1) r3(1) lc dc by (auto simp: read_match_def Let_def)
qed

lemma inflate_token:
  assumes "decoder_new ls = Inr litlen" and "decoder_new ds = Inr dcode" and "coded ls ds t"
    and "reader_ok r" and "rbits r = token_bits ls ds t @ rest" and "covers input a [t] b" and "b \<le> max_out" and "a \<le> length input"
  shows "\<exists>r1. inflate_codes r (take a input) max_out litlen dcode = inflate_codes r1 (take b input) max_out litlen dcode \<and>
    rbits r1 = rest \<and> reader_ok r1 \<and> br_data r1 = br_data r"
proof (cases t)
  case (LzLiteral c)
  then obtain r1 where r1: "decode litlen r = Inr (unat c, r1)" "rbits r1 = rest" "reader_ok r1" "br_data r1 = br_data r"
    using huffman.get_word [of ls litlen "unat c" r rest] assms by auto
  have a: "a < length input" "input ! a = c" "b = a + 1" using assms(6) LzLiteral by auto
  have "unat c < 256" using unsigned_less [of c, where ?'a = nat] by simp
  moreover have "take a input @ [c] = take b input" using a by (simp add: take_Suc_conv_app_nth)
  ultimately have "inflate_codes r (take a input) max_out litlen dcode = inflate_codes r1 (take b input) max_out litlen dcode"
    using r1(1) a assms(7) by (simp add: inflate_codes.simps [of r] END_OF_BLOCK_def)
  then show ?thesis using r1 by blast
next
  case (LzMatch len distance)
  obtain r1 r2 where r: "decode litlen r = Inr (257 + length_code len, r1)" "read_match dcode (257 + length_code len) r1 = Inr (len, distance, r2)"
      "rbits r2 = rest" "reader_ok r2" "br_data r2 = br_data r"
    using read_match_token [OF assms(1,2)] assms(3-5) LzMatch by blast
  have m: "match_ok input a len distance" "b = a + len" using assms(6) LzMatch by auto
  then have "copy_from (a - distance) len (take a input) = Inr (take b input)"
    using copy_from_match [of "a - distance" a len input] by (auto simp: match_ok_def)
  then have "inflate_codes r (take a input) max_out litlen dcode = inflate_codes r2 (take b input) max_out litlen dcode"
    using r(1,2) m assms(7,8) by (simp add: inflate_codes.simps [of r] END_OF_BLOCK_def match_ok_def min_absorb2)
  then show ?thesis using r by blast
qed

lemma inflate_tokens:
  assumes "decoder_new ls = Inr litlen" and "decoder_new ds = Inr dcode" and "\<forall>t\<in>set ts. coded ls ds t"
    and "reader_ok r" and "rbits r = concat (map (token_bits ls ds) ts) @ code_word ls END_OF_BLOCK @ rest"
    and "END_OF_BLOCK < length ls" and "ls ! END_OF_BLOCK \<noteq> 0"
    and "covers input a ts b" and "b \<le> max_out" and "a \<le> length input"
  shows "\<exists>r1. inflate_codes r (take a input) max_out litlen dcode = Inr (take b input, r1) \<and> rbits r1 = rest \<and> reader_ok r1 \<and> br_data r1 = br_data r"
  using assms(3-5,8,10)
proof (induction ts arbitrary: r a)
  case Nil
  then obtain r1 where "decode litlen r = Inr (END_OF_BLOCK, r1)" "rbits r1 = rest" "reader_ok r1" "br_data r1 = br_data r"
    using huffman.get_word [of ls litlen END_OF_BLOCK r rest] assms by auto
  then show ?case using Nil.prems by (simp add: inflate_codes.simps [of r])
next
  case (Cons t ts)
  have "covers input a ([t] @ ts) b" using Cons.prems(4) by simp
  then obtain m where m: "covers input a [t] m" "covers input m ts b" unfolding covers_append by blast
  have "m \<le> max_out" "m \<le> length input" using covers_le [OF m(2)] covers_le [OF m(1)] assms(9) Cons.prems(5) by auto
  obtain r1 where r1: "inflate_codes r (take a input) max_out litlen dcode = inflate_codes r1 (take m input) max_out litlen dcode"
    "rbits r1 = concat (map (token_bits ls ds) ts) @ code_word ls END_OF_BLOCK @ rest" "reader_ok r1" "br_data r1 = br_data r"
    using inflate_token [OF assms(1,2) _ Cons.prems(2) _ m(1) \<open>m \<le> max_out\<close> Cons.prems(5)] Cons.prems(1,3) by fastforce
  then show ?case using Cons.IH [OF _ r1(3,2) m(2) \<open>m \<le> length input\<close>] Cons.prems(1) by auto
qed

end
