(* ===== verification/DynamicProof.thy ===== *)
theory DynamicProof
  imports CompressProof
begin

section \<open>Compression: the header of a dynamic block\<close>

text \<open>
  What \<open>write_dynamic_header\<close> writes is read by \<open>read_dynamic_codes\<close> as decoders for the two codes: the lengths that both
  leave out at the end are zero, and the run-length coding of the others is undone.
\<close>

subsection \<open>Leaving out what is not used\<close>

lemma cnt_trim:
  assumes "\<forall>x\<in>set (drop n ls). x = 0"
  shows "cnt (take n ls) l = cnt ls l"
proof -
  have "count_list ls l = count_list (take n ls) l + count_list (drop n ls) l" by (metis append_take_drop_id count_list_append)
  moreover have "l \<noteq> 0 \<Longrightarrow> count_list (drop n ls) l = 0" using assms by (auto simp: count_list_0_iff)
  ultimately show ?thesis by (simp add: cnt_def)
qed

lemma first_code_trim: "\<forall>x\<in>set (drop n ls). x = 0 \<Longrightarrow> first_code (take n ls) l = first_code ls l"
  by (induction l) (simp_all add: cnt_trim)

lemma code_word_trim:
  assumes "\<forall>x\<in>set (drop n ls). x = 0" and "s < n"
  shows "code_word (take n ls) s = code_word ls s"
  using assms by (simp add: code_word_def word_of_def rank_def first_code_trim min_absorb1)

lemma decoder_new_trim:
  assumes "decoder_new ls = Inr d" and "\<forall>x\<in>set (drop n ls). x = 0"
  shows "\<exists>d1. decoder_new (take n ls) = Inr d1"
proof -
  note new = decoder_newD [OF assms(1)]
  have "kraft_ok (take n ls)" using new(1) by (auto simp: kraft_ok_def cnt_trim [OF assms(2)] first_code_trim [OF assms(2)] dest: in_set_takeD)
  moreover have "length (take n ls) - count_list (take n ls) 0 = length ls - count_list ls 0"
  proof -
    have "count_list ls 0 = count_list (take n ls) 0 + count_list (drop n ls) 0" by (metis append_take_drop_id count_list_append)
    moreover have "count_list xs 0 = length xs" if "\<forall>x\<in>set xs. x = 0" for xs :: "nat list" using that by (induction xs) auto
    ultimately show ?thesis using assms(2) by simp
  qed
  ultimately show ?thesis using decoder_new_spec [of "take n ls"] new(2) by (auto simp: cnt_trim [OF assms(2)] first_code_trim [OF assms(2)])
qed

lemma rposition_None: "rposition P xs = None \<Longrightarrow> x \<in> set xs \<Longrightarrow> \<not> P x"
  by (auto simp: rposition_def Let_def filter_empty_conv in_set_conv_nth split: if_splits)

lemma rposition_Some:
  assumes "rposition P xs = Some i"
  shows "i < length xs" and "P (xs ! i)" and "i < j \<Longrightarrow> j < length xs \<Longrightarrow> \<not> P (xs ! j)"
proof -
  let ?js = "filter (\<lambda>i. P (xs ! i)) [0..<length xs]"
  have js: "?js \<noteq> []" "i = last ?js" using assms by (auto simp: rposition_def Let_def split: if_splits)
  then have "i \<in> set ?js" using last_in_set by blast
  then show "i < length xs" "P (xs ! i)" by auto
  show "\<not> P (xs ! j)" if "i < j" "j < length xs"
  proof
    assume "P (xs ! j)"
    then have j: "j \<in> set ?js" using that by simp
    have "sorted (butlast ?js @ [last ?js])" using js(1) by (simp add: sorted_wrt_filter)
    moreover have "j \<in> set (butlast ?js @ [last ?js])" using j js(1) by simp
    ultimately have "j \<le> last ?js" unfolding sorted_append by auto
    then show False using that js by simp
  qed
qed

lemma drop_unused:
  assumes "n = (case rposition P xs of None \<Rightarrow> e | Some i \<Rightarrow> i + 1)" and "n \<le> m" and "x \<in> set (drop m xs)"
  shows "\<not> P x"
proof -
  obtain j where j: "m \<le> j" "j < length xs" "x = xs ! j"
    using assms(3) by (auto simp: in_set_conv_nth) (metis le_add1 less_diff_conv add.commute)
  show ?thesis using rposition_None [of P xs x] rposition_Some(3) [of P xs _ j] assms(1,2) j by (auto split: option.splits)
qed

subsection \<open>The lengths of the code of lengths\<close>

lemma fold_update_nth:
  "i < length ls \<Longrightarrow> fold (\<lambda>s ls. ls[s := cl ! s]) order ls ! i = (if i \<in> set order then cl ! i else ls ! i)"
  by (induction order arbitrary: ls) (auto simp: nth_list_update)

lemma length_fold_update: "length (fold (\<lambda>s ls. ls[s := cl ! s]) order ls) = length ls"
  by (induction order arbitrary: ls) auto

lemma read_code_lengths_word:
  assumes "\<forall>s\<in>set order. cl ! s < 8" and "reader_ok r" and "rbits r = concat (map (\<lambda>s. nat_bits 3 (cl ! s)) order) @ rest"
  shows "\<exists>r1. read_code_lengths order ls r = Inr (fold (\<lambda>s ls. ls[s := cl ! s]) order ls, r1) \<and> rbits r1 = rest \<and> reader_ok r1 \<and> br_data r1 = br_data r"
  using assms
proof (induction order arbitrary: ls r)
  case (Cons s order)
  obtain r1 where r1: "read_bits 3 r = Inr (cl ! s, r1)" "rbits r1 = concat (map (\<lambda>s. nat_bits 3 (cl ! s)) order) @ rest" "reader_ok r1" "br_data r1 = br_data r"
    using fixed.get_word [of 3 "cl ! s" r "concat (map (\<lambda>s. nat_bits 3 (cl ! s)) order) @ rest"] Cons.prems by auto
  then show ?case using Cons.IH [OF _ r1(3,2)] Cons.prems(1) by auto
qed simp

lemma order_complete: "set CODE_LENGTH_ORDER = {..<CODE_LENGTH_SYMBOLS}"
  by code_simp

lemma code_lengths_rebuilt:
  assumes "length cl = CODE_LENGTH_SYMBOLS" and "\<forall>s\<in>set (drop n CODE_LENGTH_ORDER). cl ! s = 0"
  shows "fold (\<lambda>s ls. ls[s := cl ! s]) (take n CODE_LENGTH_ORDER) (replicate CODE_LENGTH_SYMBOLS 0) = cl"
proof (rule nth_equalityI)
  fix i assume "i < length (fold (\<lambda>s ls. ls[s := cl ! s]) (take n CODE_LENGTH_ORDER) (replicate CODE_LENGTH_SYMBOLS 0))"
  then have i: "i < CODE_LENGTH_SYMBOLS" by (simp add: length_fold_update)
  then have "i \<in> set (take n CODE_LENGTH_ORDER) \<union> set (drop n CODE_LENGTH_ORDER)"
    using order_complete by (metis append_take_drop_id lessThan_iff set_append)
  then show "fold (\<lambda>s ls. ls[s := cl ! s]) (take n CODE_LENGTH_ORDER) (replicate CODE_LENGTH_SYMBOLS 0) ! i = cl ! i"
    using assms(2) i by (auto simp: fold_update_nth)
qed (simp add: length_fold_update assms(1))

subsection \<open>Runs\<close>

definition run_of :: "nat list \<Rightarrow> nat \<Rightarrow> nat \<Rightarrow> nat list" where
  "run_of acc symbol extra =
     (if symbol \<le> 15 then [symbol] else if symbol = 16 then replicate (3 + extra) (last acc)
      else if symbol = 17 then replicate (3 + extra) 0 else replicate (11 + extra) 0)"

fun fills :: "nat list \<Rightarrow> (nat \<times> nat \<times> nat) list \<Rightarrow> nat list \<Rightarrow> bool" where
  "fills acc [] out \<longleftrightarrow> acc = out"
| "fills acc ((symbol, extra, bits) # sequ) out \<longleftrightarrow>
     (symbol \<le> 15 \<and> extra = 0 \<and> bits = 0 \<or> symbol = 16 \<and> extra < 4 \<and> bits = 2 \<and> acc \<noteq> [] \<or>
      symbol = 17 \<and> extra < 8 \<and> bits = 3 \<or> symbol = 18 \<and> extra < 128 \<and> bits = 7) \<and>
     fills (acc @ run_of acc symbol extra) sequ out"

lemma fills_append: "fills acc (xs @ ys) out \<longleftrightarrow> (\<exists>m. fills acc xs m \<and> fills m ys out)"
  by (induction acc xs out rule: fills.induct) auto

lemma fills_length: "fills acc sequ out \<Longrightarrow> length acc \<le> length out"
  by (induction acc sequ out rule: fills.induct) auto

lemma fills_replicate: "v \<le> 15 \<Longrightarrow> fills acc (replicate n (v, 0, 0)) (acc @ replicate n v)"
proof (induction n arbitrary: acc)
  case (Suc n)
  then show ?case using Suc.IH [of "acc @ [v]"] by (simp add: run_of_def)
qed simp

lemma fills_zero_runs: "fills acc (zero_runs n) (acc @ replicate n 0)"
proof (induction n arbitrary: acc rule: zero_runs.induct)
  case (1 n)
  show ?case
  proof (cases "11 \<le> n")
    case True
    then have "replicate n 0 = replicate (min n 138) 0 @ replicate (n - min n 138) (0 :: nat)" by (simp flip: replicate_add)
    then show ?thesis using "1.IH" [OF True refl, of "acc @ replicate (min n 138) 0"] True
      by (simp add: zero_runs.simps [of n] Let_def run_of_def)
  qed (use fills_replicate [of 0 acc n] in \<open>auto simp: zero_runs.simps [of n] run_of_def\<close>)
qed

lemma fills_value_runs: "v \<le> 15 \<Longrightarrow> acc \<noteq> [] \<Longrightarrow> last acc = v \<Longrightarrow> fills acc (value_runs v n) (acc @ replicate n v)"
proof (induction v n arbitrary: acc rule: value_runs.induct)
  case (1 v n)
  show ?case
  proof (cases "3 \<le> n")
    case True
    then have "replicate n v = replicate (min n 6) v @ replicate (n - min n 6) v" by (simp flip: replicate_add)
    moreover have "last (acc @ replicate (min n 6) v) = v" using True "1.prems" by (simp add: last_append)
    ultimately show ?thesis using "1.IH" [OF True refl "1.prems"(1), of "acc @ replicate (min n 6) v"] True "1.prems"
      by (simp add: value_runs.simps [of v n] Let_def run_of_def)
  qed (use fills_replicate [of v acc n] "1.prems" in \<open>auto simp: value_runs.simps [of v n]\<close>)
qed

lemma fills_run: "v \<le> 15 \<Longrightarrow> 0 < n \<Longrightarrow> fills acc (run_symbols v n) (acc @ replicate n v)"
  using fills_zero_runs [of acc n] fills_value_runs [of v "acc @ [v]" "n - 1"]
  by (cases n) (auto simp: run_symbols_def run_of_def)

lemma takeWhile_same: "takeWhile (\<lambda>l. l = v) vs = replicate (length (takeWhile (\<lambda>l. l = v) vs)) v"
  by (induction vs) auto

lemma fills_lengths: "\<forall>x\<in>set ls. x \<le> 15 \<Longrightarrow> fills acc (length_sequence ls) (acc @ ls)"
proof (induction ls arbitrary: acc rule: length_sequence.induct)
  case (2 v vs)
  let ?n = "length (takeWhile (\<lambda>l. l = v) (v # vs))"
  have "v # vs = replicate ?n v @ dropWhile (\<lambda>l. l = v) vs"
    using takeWhile_same [of v vs] takeWhile_dropWhile_id [of "\<lambda>l. l = v" vs] by simp
  moreover have "fills acc (run_symbols v ?n) (acc @ replicate ?n v)" using "2.prems" by (intro fills_run) auto
  moreover have "fills (acc @ replicate ?n v) (length_sequence (dropWhile (\<lambda>l. l = v) vs)) ((acc @ replicate ?n v) @ dropWhile (\<lambda>l. l = v) vs)"
    by (rule "2.IH") (use "2.prems" in \<open>auto dest: set_dropWhileD\<close>)
  ultimately show ?case by (simp only: length_sequence.simps fills_append) (metis append.assoc)
qed simp

lemma length_run_item:
  assumes "fills acc ((symbol, extra, bits) # sequ) out" and "reader_ok r" and "rbits r = nat_bits bits extra @ rest"
  shows "\<exists>v rep r1. length_run acc symbol r = Inr (v, rep, r1) \<and> replicate rep v = run_of acc symbol extra \<and>
    rbits r1 = rest \<and> reader_ok r1 \<and> br_data r1 = br_data r"
proof (cases "symbol \<le> 15")
  case True
  then show ?thesis using assms by (auto simp: length_run_def run_of_def nat_bits_def)
next
  case False
  then have "bits \<le> 56 \<and> extra < 2 ^ bits" using assms(1) by auto
  from fixed.get_word [OF this assms(2,3)] False assms(1) show ?thesis by (auto simp: length_run_def run_of_def)
qed

definition item_bits :: "nat list \<Rightarrow> nat \<times> nat \<times> nat \<Rightarrow> bool list" where
  "item_bits cl = (\<lambda>(symbol, extra, bits). code_word cl symbol @ nat_bits bits extra)"

lemma read_lengths_sequence:
  assumes "decoder_new cl = Inr d" and "fills acc sequ out" and "\<forall>(symbol, _)\<in>set sequ. symbol < length cl \<and> cl ! symbol \<noteq> 0"
    and "reader_ok r" and "rbits r = concat (map (item_bits cl) sequ) @ rest"
  shows "\<exists>r1. read_lengths d (length out) acc r = Inr (out, r1) \<and> rbits r1 = rest \<and> reader_ok r1 \<and> br_data r1 = br_data r"
  using assms(2-)
proof (induction acc sequ out arbitrary: r rule: fills.induct)
  case (2 acc symbol extra bits sequ out)
  let ?rest = "concat (map (item_bits cl) sequ) @ rest"
  have "rbits r = code_word cl symbol @ nat_bits bits extra @ ?rest" using "2.prems"(4) by (simp add: item_bits_def)
  then obtain r1 where r1: "decode d r = Inr (symbol, r1)" "rbits r1 = nat_bits bits extra @ ?rest" "reader_ok r1" "br_data r1 = br_data r"
    using huffman.get_word [of cl d symbol r] "2.prems"(2,3) assms(1) by auto
  obtain v rep r2 where r2: "length_run acc symbol r1 = Inr (v, rep, r2)" "replicate rep v = run_of acc symbol extra" "rbits r2 = ?rest" "reader_ok r2"
      "br_data r2 = br_data r"
    using length_run_item [OF "2.prems"(1) r1(3,2)] r1(4) by auto
  have f: "fills (acc @ run_of acc symbol extra) sequ out" using "2.prems"(1) by simp
  have "0 < rep" using length_run_pos [OF r2(1)] by simp
  moreover have "length acc + rep \<le> length out" using fills_length [OF f] by (simp flip: r2(2))
  ultimately have "read_lengths d (length out) acc r = read_lengths d (length out) (acc @ run_of acc symbol extra) r2"
    using r1(1) r2(1) by (simp add: read_lengths.simps [of d _ acc] flip: r2(2))
  then show ?case using "2.IH" [OF f _ r2(4,3)] "2.prems"(2) r2(5) by auto
qed (simp add: read_lengths.simps)

lemma put_sequence:
  assumes "decoder_new cl = Inr d" and "fills acc sequ out" and "\<forall>(symbol, _)\<in>set sequ. symbol < length cl \<and> cl ! symbol \<noteq> 0" and "writer_ok w"
  shows "writes w (concat (map (item_bits cl) sequ))
    (fold (\<lambda>(symbol, extra_value, extra_bits) w. bw_write extra_value extra_bits (write_code (assign_codes cl ! symbol) w)) sequ w)"
  using assms(2-)
proof (induction acc sequ out arbitrary: w rule: fills.induct)
  case (2 acc symbol extra bits sequ out)
  let ?w1 = "write_code (assign_codes cl ! symbol) w"
  have "bits \<le> 56 \<and> extra < 2 ^ bits" using "2.prems"(1) by auto
  moreover have "writes w (code_word cl symbol) ?w1" using huffman.put_word [of cl d symbol w] assms(1) "2.prems"(2,3) by auto
  ultimately have "writes w (item_bits cl (symbol, extra, bits)) (bw_write extra bits ?w1)" using fixed.put_word [of bits extra ?w1] by (simp add: item_bits_def)
  then show ?case using "2.IH" [of "bw_write extra bits ?w1"] "2.prems"(1,2) by simp
qed simp

subsection \<open>The whole header\<close>

definition header_bits :: "DynamicHeader \<Rightarrow> bool list" where
  "header_bits h = nat_bits 5 (dh_hlit h - 257) @ nat_bits 5 (dh_hdist h - 1) @ nat_bits 4 (dh_hclen h - 4) @
     concat (map (\<lambda>s. nat_bits 3 (dh_code_length_lengths h ! s)) (take (dh_hclen h) CODE_LENGTH_ORDER)) @
     concat (map (item_bits (dh_code_length_lengths h)) (dh_sequence h))"

definition header_ok :: "DynamicHeader \<Rightarrow> bool" where
  "header_ok h \<longleftrightarrow>
     length (dh_litlen_lengths h) = LITLEN_SYMBOLS \<and> length (dh_dist_lengths h) = DIST_SYMBOLS \<and>
     length (dh_code_length_lengths h) = CODE_LENGTH_SYMBOLS \<and>
     257 \<le> dh_hlit h \<and> dh_hlit h \<le> LITLEN_SYMBOLS \<and> 1 \<le> dh_hdist h \<and> dh_hdist h \<le> DIST_SYMBOLS \<and> 4 \<le> dh_hclen h \<and> dh_hclen h \<le> 19 \<and>
     (\<exists>a b c. decoder_new (dh_litlen_lengths h) = Inr a \<and> decoder_new (dh_dist_lengths h) = Inr b \<and> decoder_new (dh_code_length_lengths h) = Inr c) \<and>
     (\<forall>x\<in>set (drop (dh_hlit h) (dh_litlen_lengths h)). x = 0) \<and> (\<forall>x\<in>set (drop (dh_hdist h) (dh_dist_lengths h)). x = 0) \<and>
     (\<forall>s\<in>set (drop (dh_hclen h) CODE_LENGTH_ORDER). dh_code_length_lengths h ! s = 0) \<and> (\<forall>x\<in>set (dh_code_length_lengths h). x < 8) \<and>
     fills [] (dh_sequence h) (take (dh_hlit h) (dh_litlen_lengths h) @ take (dh_hdist h) (dh_dist_lengths h)) \<and>
     (\<forall>(symbol, _)\<in>set (dh_sequence h). symbol < CODE_LENGTH_SYMBOLS \<and> dh_code_length_lengths h ! symbol \<noteq> 0) \<and>
     dh_litlen_lengths h ! END_OF_BLOCK \<noteq> 0"

lemma order_less: "s \<in> set (take n CODE_LENGTH_ORDER) \<Longrightarrow> s < CODE_LENGTH_SYMBOLS"
  using order_complete by (auto dest: in_set_takeD)

lemma header_small:
  assumes "header_ok h" and "s \<in> set (take (dh_hclen h) CODE_LENGTH_ORDER)"
  shows "dh_code_length_lengths h ! s < 8"
proof -
  have "\<forall>x\<in>set (dh_code_length_lengths h). x < 8" "length (dh_code_length_lengths h) = CODE_LENGTH_SYMBOLS"
    using assms(1) by (simp_all add: header_ok_def)
  then show ?thesis using order_less [OF assms(2)] by simp
qed

lemma header_codes:
  assumes "header_ok h"
  shows "\<exists>litlen. decoder_new (take (dh_hlit h) (dh_litlen_lengths h)) = Inr litlen"
    and "\<exists>dcode. decoder_new (take (dh_hdist h) (dh_dist_lengths h)) = Inr dcode"
proof -
  obtain a b where "decoder_new (dh_litlen_lengths h) = Inr a" "decoder_new (dh_dist_lengths h) = Inr b" using assms by (auto simp: header_ok_def)
  moreover have "\<forall>x\<in>set (drop (dh_hlit h) (dh_litlen_lengths h)). x = 0" "\<forall>x\<in>set (drop (dh_hdist h) (dh_dist_lengths h)). x = 0"
    using assms by (simp_all add: header_ok_def)
  ultimately show "\<exists>litlen. decoder_new (take (dh_hlit h) (dh_litlen_lengths h)) = Inr litlen"
      "\<exists>dcode. decoder_new (take (dh_hdist h) (dh_dist_lengths h)) = Inr dcode"
    by (auto intro: decoder_new_trim)
qed

lemma write_dynamic_header_spec:
  assumes "header_ok h" and "writer_ok w"
  shows "writes w (header_bits h) (write_dynamic_header h w)"
proof -
  let ?cl = "dh_code_length_lengths h"
  let ?w1 = "bw_write (dh_hclen h - 4) 4 (bw_write (dh_hdist h - 1) 5 (bw_write (dh_hlit h - 257) 5 w))"
  let ?w2 = "fold (\<lambda>symbol. bw_write (?cl ! symbol) 3) (take (dh_hclen h) CODE_LENGTH_ORDER) ?w1"
  have "dh_hlit h - 257 < 2 ^ 5" "dh_hdist h - 1 < 2 ^ 5" "dh_hclen h - 4 < 2 ^ 4"
    using assms(1) by (auto simp: header_ok_def LITLEN_SYMBOLS_def DIST_SYMBOLS_def)
  then have w1: "writes w (nat_bits 5 (dh_hlit h - 257) @ nat_bits 5 (dh_hdist h - 1) @ nat_bits 4 (dh_hclen h - 4)) ?w1"
    using bw_write_spec assms(2) by simp
  have "\<forall>v\<in>set (map ((!) ?cl) (take (dh_hclen h) CODE_LENGTH_ORDER)). (3 :: nat) \<le> 56 \<and> v < 2 ^ 3"
    using header_small [OF assms(1)] by auto
  from fixed.put_all [OF this, of ?w1] w1
  have w2: "writes ?w1 (concat (map (\<lambda>s. nat_bits 3 (?cl ! s)) (take (dh_hclen h) CODE_LENGTH_ORDER))) ?w2"
    by (simp add: fold_map comp_def)
  obtain d where "decoder_new ?cl = Inr d" using assms(1) by (auto simp: header_ok_def)
  then have "writes ?w2 (concat (map (item_bits ?cl) (dh_sequence h))) (write_dynamic_header h w)"
    unfolding write_dynamic_header_def Let_def
    by (rule put_sequence [where acc = "[]"]) (use assms(1) w2 in \<open>auto simp: header_ok_def\<close>)
  then show ?thesis using w1 w2 by (simp add: header_bits_def)
qed

lemma read_dynamic_codes_spec:
  assumes "header_ok h" and "reader_ok r" and "rbits r = header_bits h @ rest"
  shows "\<exists>litlen dcode r1. read_dynamic_codes r = Inr ((litlen, dcode), r1) \<and> rbits r1 = rest \<and> reader_ok r1 \<and> br_data r1 = br_data r \<and>
    decoder_new (take (dh_hlit h) (dh_litlen_lengths h)) = Inr litlen \<and> decoder_new (take (dh_hdist h) (dh_dist_lengths h)) = Inr dcode"
proof -
  let ?cl = "dh_code_length_lengths h" and ?ll = "take (dh_hlit h) (dh_litlen_lengths h)" and ?dl = "take (dh_hdist h) (dh_dist_lengths h)"
  have h: "257 \<le> dh_hlit h" "dh_hlit h \<le> LITLEN_SYMBOLS" "1 \<le> dh_hdist h" "dh_hdist h \<le> DIST_SYMBOLS" "4 \<le> dh_hclen h" "dh_hclen h \<le> 19"
    "length (dh_litlen_lengths h) = LITLEN_SYMBOLS" "length (dh_dist_lengths h) = DIST_SYMBOLS" "length ?cl = CODE_LENGTH_SYMBOLS"
    "\<forall>s\<in>set (drop (dh_hclen h) CODE_LENGTH_ORDER). ?cl ! s = 0" "fills [] (dh_sequence h) (?ll @ ?dl)"
    "\<forall>(symbol, _)\<in>set (dh_sequence h). symbol < length ?cl \<and> ?cl ! symbol \<noteq> 0" "dh_litlen_lengths h ! END_OF_BLOCK \<noteq> 0"
    using assms(1) by (simp_all add: header_ok_def)
  have small: "\<forall>s\<in>set (take (dh_hclen h) CODE_LENGTH_ORDER). ?cl ! s < 8" using header_small [OF assms(1)] by blast
  obtain d where d: "decoder_new ?cl = Inr d" using assms(1) by (auto simp: header_ok_def)
  obtain litlen dcode where ld: "decoder_new ?ll = Inr litlen" "decoder_new ?dl = Inr dcode" using header_codes [OF assms(1)] by blast
  let ?b4 = "concat (map (item_bits ?cl) (dh_sequence h)) @ rest"
  let ?b3 = "concat (map (\<lambda>s. nat_bits 3 (?cl ! s)) (take (dh_hclen h) CODE_LENGTH_ORDER)) @ ?b4"
  have b: "5 \<le> (56 :: nat) \<and> dh_hlit h - 257 < 2 ^ 5" "5 \<le> (56 :: nat) \<and> dh_hdist h - 1 < 2 ^ 5" "4 \<le> (56 :: nat) \<and> dh_hclen h - 4 < 2 ^ 4"
    using h(1-6) by (auto simp: LITLEN_SYMBOLS_def DIST_SYMBOLS_def)
  have r0: "rbits r = nat_bits 5 (dh_hlit h - 257) @ nat_bits 5 (dh_hdist h - 1) @ nat_bits 4 (dh_hclen h - 4) @ ?b3"
    using assms(3) by (simp add: header_bits_def)
  obtain r1 where r1: "read_bits 5 r = Inr (dh_hlit h - 257, r1)" "rbits r1 = nat_bits 5 (dh_hdist h - 1) @ nat_bits 4 (dh_hclen h - 4) @ ?b3"
      "reader_ok r1" "br_data r1 = br_data r"
    using fixed.get_word [OF b(1) assms(2) r0] by blast
  obtain r2 where r2: "read_bits 5 r1 = Inr (dh_hdist h - 1, r2)" "rbits r2 = nat_bits 4 (dh_hclen h - 4) @ ?b3" "reader_ok r2" "br_data r2 = br_data r"
    using fixed.get_word [OF b(2) r1(3,2)] r1(4) by auto
  obtain r3 where r3: "read_bits 4 r2 = Inr (dh_hclen h - 4, r3)" "rbits r3 = ?b3" "reader_ok r3" "br_data r3 = br_data r"
    using fixed.get_word [OF b(3) r2(3,2)] r2(4) by auto
  obtain r4 where r4: "read_code_lengths (take (dh_hclen h) CODE_LENGTH_ORDER) (replicate CODE_LENGTH_SYMBOLS 0) r3 = Inr (?cl, r4)"
      "rbits r4 = ?b4" "reader_ok r4" "br_data r4 = br_data r"
    using read_code_lengths_word [OF small r3(3,2), of "replicate CODE_LENGTH_SYMBOLS 0"] code_lengths_rebuilt [OF h(9,10)] r3(4) by auto
  have len: "length (?ll @ ?dl) = dh_hlit h + dh_hdist h" "length ?ll = dh_hlit h" using h by auto
  obtain r5 where r5: "read_lengths d (dh_hlit h + dh_hdist h) [] r4 = Inr (?ll @ ?dl, r5)" "rbits r5 = rest" "reader_ok r5" "br_data r5 = br_data r"
    using read_lengths_sequence [OF d h(11,12) r4(3,2)] r4(4) unfolding len(1) by auto
  have "(?ll @ ?dl) ! END_OF_BLOCK \<noteq> 0" using h(1,13) len(2) by (simp add: nth_append END_OF_BLOCK_def)
  then have "read_dynamic_codes r = Inr ((litlen, dcode), r5)"
    using r1(1) r2(1) r3(1) r4(1) r5(1) d ld h(1-6) len by (simp add: read_dynamic_codes_def Let_def)
  then show ?thesis using r5 ld by blast
qed

subsection \<open>The header that is built\<close>

lemma fills_symbols: "fills acc sequ out \<Longrightarrow> \<forall>(symbol, _)\<in>set sequ. symbol < CODE_LENGTH_SYMBOLS"
  by (induction acc sequ out rule: fills.induct) (auto simp: CODE_LENGTH_SYMBOLS_def)

abbreviation tally_symbols :: "nat list \<Rightarrow> (nat \<times> nat \<times> nat) list \<Rightarrow> nat list" where
  "tally_symbols \<equiv> foldl (\<lambda>fs (symbol, _). fs[symbol := fs ! symbol + 1])"

lemma length_tally_symbols: "length (tally_symbols fs sequ) = length fs"
  by (induction sequ arbitrary: fs) auto

lemma tally_symbols_grows: "s < length fs \<Longrightarrow> fs ! s \<le> tally_symbols fs sequ ! s"
proof (induction sequ arbitrary: fs)
  case (Cons a sequ)
  have "fs ! s \<le> fs[fst a := fs ! fst a + 1] ! s" using Cons.prems by (cases "s = fst a") simp_all
  also have "\<dots> \<le> tally_symbols (fs[fst a := fs ! fst a + 1]) sequ ! s" by (rule Cons.IH) (use Cons.prems in simp)
  finally show ?case by (simp add: case_prod_unfold)
qed simp

lemma tally_symbols_pos: "(s, x) \<in> set sequ \<Longrightarrow> s < length fs \<Longrightarrow> 0 < tally_symbols fs sequ ! s"
proof (induction sequ arbitrary: fs)
  case (Cons a sequ)
  show ?case
  proof (cases "a = (s, x)")
    case True
    then show ?thesis using tally_symbols_grows [of s "fs[s := fs ! s + 1]" sequ] Cons.prems by (auto simp: case_prod_unfold)
  qed (use Cons in \<open>auto simp: case_prod_unfold\<close>)
qed simp

lemma header_lengths:
  assumes "length freqs = n" and "n < fib (MAX_BITS + 2)"
  obtains ls d where "build_lengths freqs MAX_BITS = Some ls" "length ls = n" "decoder_new ls = Inr d"
    "\<And>i. i < n \<Longrightarrow> ls ! i = 0 \<longleftrightarrow> freqs ! i = 0" "\<forall>x\<in>set ls. x \<le> 15"
proof -
  obtain ls d where ls: "build_lengths freqs MAX_BITS = Some ls" "length ls = n" "decoder_new ls = Inr d"
      "\<forall>i < n. (ls ! i = 0 \<longleftrightarrow> freqs ! i = 0) \<and> ls ! i \<le> MAX_BITS"
    using build_lengths_spec [of MAX_BITS freqs] assms by (auto simp: MAX_BITS_def)
  moreover have "\<forall>x\<in>set ls. x \<le> 15" using ls(2,4) by (auto simp: in_set_conv_nth MAX_BITS_def)
  ultimately show ?thesis using that by blast
qed

lemma build_dynamic_header_ok:
  assumes "length lf = LITLEN_SYMBOLS" and "length df = DIST_SYMBOLS" and "0 < lf ! END_OF_BLOCK"
  shows "\<exists>h. build_dynamic_header lf df = Some h \<and> header_ok h \<and>
    (\<forall>i < LITLEN_SYMBOLS. dh_litlen_lengths h ! i = 0 \<longleftrightarrow> lf ! i = 0) \<and> (\<forall>i < DIST_SYMBOLS. dh_dist_lengths h ! i = 0 \<longleftrightarrow> df ! i = 0)"
proof -
  have fib: "LITLEN_SYMBOLS < fib (MAX_BITS + 2)" "DIST_SYMBOLS < fib (MAX_BITS + 2)" "CODE_LENGTH_SYMBOLS < fib (MAX_CODE_LENGTH_BITS + 2)"
    by (simp_all add: LITLEN_SYMBOLS_def DIST_SYMBOLS_def CODE_LENGTH_SYMBOLS_def MAX_CODE_LENGTH_BITS_def MAX_BITS_def eval_nat_numeral)
  obtain ll ld where ll: "build_lengths lf MAX_BITS = Some ll" "length ll = LITLEN_SYMBOLS" "decoder_new ll = Inr ld"
      "\<And>i. i < LITLEN_SYMBOLS \<Longrightarrow> ll ! i = 0 \<longleftrightarrow> lf ! i = 0" "\<forall>x\<in>set ll. x \<le> 15"
    using header_lengths [OF assms(1) fib(1)] by blast
  obtain dl dd where dl: "build_lengths df MAX_BITS = Some dl" "length dl = DIST_SYMBOLS" "decoder_new dl = Inr dd"
      "\<And>i. i < DIST_SYMBOLS \<Longrightarrow> dl ! i = 0 \<longleftrightarrow> df ! i = 0" "\<forall>x\<in>set dl. x \<le> 15"
    using header_lengths [OF assms(2) fib(2)] by blast
  define hlit0 where "hlit0 = (case rposition (\<lambda>l. l \<noteq> 0) ll of None \<Rightarrow> 257 | Some i \<Rightarrow> i + 1)"
  define hlit where "hlit = max 257 hlit0"
  define hdist where "hdist = (case rposition (\<lambda>l. l \<noteq> 0) dl of None \<Rightarrow> 1 | Some i \<Rightarrow> i + 1)"
  define sequ where "sequ = length_sequence (take hlit ll @ take hdist dl)"
  define freq where "freq = tally_symbols (replicate CODE_LENGTH_SYMBOLS 0) sequ"
  have f: "fills [] sequ (take hlit ll @ take hdist dl)"
    using fills_lengths [of "take hlit ll @ take hdist dl" "[]"] ll(5) dl(5) by (auto simp: sequ_def dest: in_set_takeD)
  have "length freq = CODE_LENGTH_SYMBOLS" unfolding freq_def length_tally_symbols by simp
  then obtain cl cd where cl: "build_lengths freq MAX_CODE_LENGTH_BITS = Some cl" "length cl = CODE_LENGTH_SYMBOLS" "decoder_new cl = Inr cd"
      "\<forall>i < CODE_LENGTH_SYMBOLS. (cl ! i = 0 \<longleftrightarrow> freq ! i = 0) \<and> cl ! i \<le> 7"
    using build_lengths_spec [of MAX_CODE_LENGTH_BITS freq] fib(3) by (auto simp: MAX_BITS_def MAX_CODE_LENGTH_BITS_def)
  define hclen0 where "hclen0 = (case rposition (\<lambda>symbol. cl ! symbol \<noteq> 0) CODE_LENGTH_ORDER of None \<Rightarrow> 4 | Some i \<Rightarrow> i + 1)"
  define h where "h = \<lparr>dh_litlen_lengths = ll, dh_dist_lengths = dl, dh_hlit = hlit, dh_hdist = hdist, dh_hclen = max 4 hclen0,
    dh_code_length_lengths = cl, dh_sequence = sequ\<rparr>"
  have built: "build_dynamic_header lf df = Some h"
    unfolding build_dynamic_header_def ll(1) dl(1) Let_def Option.bind.simps h_def hlit0_def [symmetric] hlit_def [symmetric] hdist_def [symmetric]
      sequ_def [symmetric] freq_def [symmetric] cl(1) hclen0_def [symmetric] by (rule refl)
  have "hlit \<le> LITLEN_SYMBOLS" "hdist \<le> DIST_SYMBOLS" "1 \<le> hdist" "max 4 hclen0 \<le> 19"
    using rposition_Some(1) [of "\<lambda>l. l \<noteq> 0" ll] rposition_Some(1) [of "\<lambda>l. l \<noteq> 0" dl] rposition_Some(1) [of "\<lambda>symbol. cl ! symbol \<noteq> 0" CODE_LENGTH_ORDER] ll(2) dl(2)
    by (auto simp: hlit_def hlit0_def hdist_def hclen0_def LITLEN_SYMBOLS_def DIST_SYMBOLS_def CODE_LENGTH_ORDER_def Suc_le_eq split: option.splits)
  moreover have "\<forall>x\<in>set (drop hlit ll). x = 0" using drop_unused [OF hlit0_def, of hlit] by (auto simp: hlit_def)
  moreover have "\<forall>x\<in>set (drop hdist dl). x = 0" using drop_unused [OF hdist_def, of hdist] by auto
  moreover have "\<forall>s\<in>set (drop (max 4 hclen0) CODE_LENGTH_ORDER). cl ! s = 0" using drop_unused [OF hclen0_def, of "max 4 hclen0"] by auto
  moreover have "\<forall>x\<in>set cl. x < 8" using cl(2,4) by (fastforce simp: in_set_conv_nth less_Suc_eq_le eval_nat_numeral)
  moreover have "\<forall>(symbol, _)\<in>set sequ. symbol < CODE_LENGTH_SYMBOLS \<and> cl ! symbol \<noteq> 0"
  proof clarify
    fix symbol a b assume s: "(symbol, a, b) \<in> set sequ"
    then have "symbol < CODE_LENGTH_SYMBOLS" using fills_symbols [OF f] by auto
    moreover have "0 < freq ! symbol" unfolding freq_def by (rule tally_symbols_pos [OF s]) (simp add: calculation)
    ultimately show "symbol < CODE_LENGTH_SYMBOLS \<and> cl ! symbol \<noteq> 0" using cl(4) by auto
  qed
  moreover have "ll ! END_OF_BLOCK \<noteq> 0" using ll(4) [of END_OF_BLOCK] assms(3) by (simp add: END_OF_BLOCK_def LITLEN_SYMBOLS_def)
  ultimately have "header_ok h" using ll(2,3) dl(2,3) cl(2,3) f by (simp add: header_ok_def h_def hlit_def)
  then show ?thesis using built ll(4) dl(4) by (auto simp: h_def)
qed

end
