(* ===== verification/DeflateProof.thy ===== *)
theory DeflateProof
  imports DynamicProof
begin

section \<open>Compression: blocks and streams\<close>

text \<open>
  Each of the three kinds of block is read back as the stretch of input it was written for, with the reader left behind
  it; the compressor writes blocks for consecutive stretches of the input, and so the stream is inflated to the input.
\<close>

subsection \<open>Bytes among the bits\<close>

lemma byte_bits_inj: "byte_bits a = byte_bits b \<Longrightarrow> a = b"
  by (rule bit_word_eqI) (simp add: byte_bits_def)

lemma bytes_bits_prefix: "bytes_bits xs = bytes_bits ys @ rest \<Longrightarrow> take (length ys) xs = ys \<and> rest = bytes_bits (drop (length ys) xs) \<and> length ys \<le> length xs"
proof (induction ys arbitrary: xs)
  case (Cons y ys)
  then obtain x xs1 where xs: "xs = x # xs1" by (cases xs) (auto dest: arg_cong [of _ _ length])
  then have "byte_bits x = byte_bits y" "bytes_bits xs1 = bytes_bits ys @ rest" using Cons.prems by auto
  then show ?case using Cons.IH [of xs1] byte_bits_inj xs by auto
qed simp

lemma take_bytes_spec:
  assumes "reader_ok r" and "rbits r = bytes_bits bs @ rest" and "length rest mod 8 = 0"
  shows "\<exists>r1. take_bytes (length bs) r = Inr (bs, r1) \<and> rbits r1 = rest \<and> reader_ok r1 \<and> br_data r1 = br_data r"
proof -
  have "length (rbits r) mod 8 = br_count r" using assms(1) by (simp add: rbits_def reader_ok_def)
  moreover have "length (rbits r) mod 8 = 0" using assms(2,3) by (simp add: mod_add_right_eq [symmetric])
  ultimately have c: "br_count r = 0" by simp
  then have "bytes_bits (drop (br_pos r) (br_data r)) = bytes_bits bs @ rest" using assms(2) by (simp add: rbits_def buffer_bits_def)
  note p = bytes_bits_prefix [OF this]
  have "br_pos r + length bs \<le> length (br_data r)" using p assms(1) by (auto simp: reader_ok_def)
  then show ?thesis using p c assms(1) by (auto simp: take_bytes_def rbits_def buffer_bits_def reader_ok_def add.commute)
qed

subsection \<open>What a block is for\<close>

definition advances :: "BitWriter \<Rightarrow> BitWriter \<Rightarrow> bool \<Rightarrow> byte list \<Rightarrow> byte list \<Rightarrow> bool" where
  "advances w w1 fin out out1 \<longleftrightarrow>
     writer_ok w1 \<and> (\<exists>bs. wbits w1 = wbits w @ bs) \<and>
     (\<forall>r rest max_out. reader_ok r \<and> bytes_bits (br_data r) = wbits w1 @ rest \<and>
        rbits r = drop (length (wbits w)) (bytes_bits (br_data r)) \<and> length out1 \<le> max_out \<longrightarrow>
        (\<exists>r1. rbits r1 = rest \<and> reader_ok r1 \<and> br_data r1 = br_data r \<and>
           inflate_loop r out max_out = (if fin then Inr (out1, r1) else inflate_loop r1 out1 max_out)))"

lemma advancesD:
  assumes "advances w w1 fin out out1" and "reader_ok r" and "bytes_bits (br_data r) = wbits w1 @ rest"
    and "rbits r = drop (length (wbits w)) (bytes_bits (br_data r))" and "length out1 \<le> max_out"
  shows "\<exists>r1. rbits r1 = rest \<and> reader_ok r1 \<and> br_data r1 = br_data r \<and>
    inflate_loop r out max_out = (if fin then Inr (out1, r1) else inflate_loop r1 out1 max_out)"
  using assms unfolding advances_def by blast

lemma advances_refl: "writer_ok w \<Longrightarrow> advances w w False out out"
  unfolding advances_def by (auto intro!: exI)

lemma advances_trans:
  assumes "advances w w1 False a b" and "advances w1 w2 fin b c" and "length b \<le> length c"
  shows "advances w w2 fin a c"
proof -
  obtain bs cs where bs: "wbits w1 = wbits w @ bs" and cs: "wbits w2 = wbits w1 @ cs" using assms by (auto simp: advances_def)
  have "\<exists>r2. rbits r2 = rest \<and> reader_ok r2 \<and> br_data r2 = br_data r \<and> inflate_loop r a max_out = (if fin then Inr (c, r2) else inflate_loop r2 c max_out)"
    if r: "reader_ok r" "bytes_bits (br_data r) = wbits w2 @ rest" "rbits r = drop (length (wbits w)) (bytes_bits (br_data r))" "length c \<le> max_out" for r rest max_out
  proof -
    have "bytes_bits (br_data r) = wbits w1 @ cs @ rest" using r(2) cs by simp
    then obtain r1 where r1: "rbits r1 = cs @ rest" "reader_ok r1" "br_data r1 = br_data r" "inflate_loop r a max_out = inflate_loop r1 b max_out"
      using advancesD [OF assms(1) r(1) _ r(3) order.trans [OF assms(3) r(4)]] by auto
    moreover have "rbits r1 = drop (length (wbits w1)) (bytes_bits (br_data r1))" using r(2) r1(1,3) cs by simp
    ultimately show ?thesis using advancesD [OF assms(2) r1(2) _ _ r(4), of rest] r(2) by auto
  qed
  then show ?thesis using assms(2) bs cs unfolding advances_def by auto
qed

lemma nat_bits_flag: "nat_bits 1 (of_bool b) = [b]"
  by (simp add: nat_bits_def bit_iff_odd)

lemma loop_step:
  assumes "reader_ok r" and "rbits r = fin # nat_bits 2 kind @ rest" and "kind < 4"
  obtains r2 where "rbits r2 = rest" "reader_ok r2" "br_data r2 = br_data r"
    "\<And>out out1 r3 max_out. inflate_block kind r2 out max_out = Inr (out1, r3) \<Longrightarrow>
       inflate_loop r out max_out = (if fin then Inr (out1, r3) else inflate_loop r3 out1 max_out)"
proof -
  have "rbits r = nat_bits 1 (of_bool fin) @ nat_bits 2 kind @ rest" unfolding nat_bits_flag using assms(2) by simp
  then obtain r1 where r1: "read_bits 1 r = Inr (of_bool fin, r1)" "rbits r1 = nat_bits 2 kind @ rest" "reader_ok r1" "br_data r1 = br_data r"
    using fixed.get_word [of 1 "of_bool fin" r "nat_bits 2 kind @ rest"] assms(1) by (cases fin) auto
  then obtain r2 where r2: "read_bits 2 r1 = Inr (kind, r2)" "rbits r2 = rest" "reader_ok r2" "br_data r2 = br_data r"
    using fixed.get_word [of 2 kind r1 rest] assms(3) by auto
  have "inflate_loop r out max_out = (if fin then Inr (out1, r3) else inflate_loop r3 out1 max_out)"
    if "inflate_block kind r2 out max_out = Inr (out1, r3)" for out out1 r3 max_out
    using that r1(1) r2(1) by (simp add: inflate_loop.simps [of r] read_bit_def)
  then show ?thesis using that r2 by blast
qed

definition head_bits :: "bool \<Rightarrow> nat \<Rightarrow> bool list" where
  "head_bits fin kind = fin # nat_bits 2 kind"

lemma write_head: "writer_ok w \<Longrightarrow> kind < 4 \<Longrightarrow> writes w (head_bits fin kind) (bw_write kind 2 (bw_write (of_bool fin) 1 w))"
  using bw_write_spec [of w 1 "of_bool fin"] bw_write_spec [of "bw_write (of_bool fin) 1 w" 2 kind] unfolding nat_bits_flag by (simp add: head_bits_def)

text \<open>A block of which the reader of its kind undoes the body.\<close>

lemma advances_block:
  assumes "writer_ok w1" and "wbits w1 = wbits w @ head_bits fin kind @ body" and "kind < 4"
    and "\<And>r rest max_out. reader_ok r \<Longrightarrow> rbits r = body @ rest \<Longrightarrow> bytes_bits (br_data r) = wbits w1 @ rest \<Longrightarrow> length out1 \<le> max_out \<Longrightarrow>
      \<exists>r1. inflate_block kind r out max_out = Inr (out1, r1) \<and> rbits r1 = rest \<and> reader_ok r1 \<and> br_data r1 = br_data r"
  shows "advances w w1 fin out out1"
proof -
  have "\<exists>r1. rbits r1 = rest \<and> reader_ok r1 \<and> br_data r1 = br_data r \<and> inflate_loop r out max_out = (if fin then Inr (out1, r1) else inflate_loop r1 out1 max_out)"
    if r: "reader_ok r" "bytes_bits (br_data r) = wbits w1 @ rest" "rbits r = drop (length (wbits w)) (bytes_bits (br_data r))" "length out1 \<le> max_out" for r rest max_out
  proof -
    have "rbits r = fin # nat_bits 2 kind @ body @ rest" using r(2,3) assms(2) by (simp add: head_bits_def)
    from loop_step [OF r(1) this assms(3)] obtain r2 where r2: "rbits r2 = body @ rest" "reader_ok r2" "br_data r2 = br_data r"
        "\<And>out out1 r3 max_out. inflate_block kind r2 out max_out = Inr (out1, r3) \<Longrightarrow>
           inflate_loop r out max_out = (if fin then Inr (out1, r3) else inflate_loop r3 out1 max_out)" by blast
    obtain r3 where "inflate_block kind r2 out max_out = Inr (out1, r3)" "rbits r3 = rest" "reader_ok r3" "br_data r3 = br_data r2"
      using assms(4) [OF r2(2,1)] r(2,4) r2(3) by auto
    then show ?thesis using r2(3,4) by metis
  qed
  then show ?thesis using assms(1,2) unfolding advances_def by auto
qed

subsection \<open>Stored blocks\<close>

lemma stored_chunk_advances:
  assumes "writer_ok w" and "length chunk \<le> STORED_CHUNK"
  shows "advances w (write_stored_chunk chunk fin w) fin out (out @ chunk)"
proof -
  let ?w0 = "bw_write 0 2 (bw_write (of_bool fin) 1 w)"
  let ?w1 = "writer_align ?w0" and ?n = "length chunk"
  let ?w2 = "bw_write (0xFFFF - ?n mod 0x10000) 16 (bw_write ?n 16 ?w1)"
  have n: "?n < 2 ^ 16" "?n mod 0x10000 = ?n" "0xFFFF - ?n < 2 ^ 16" using assms(2) by (simp_all add: STORED_CHUNK_def)
  have w0: "writes w (head_bits fin 0) ?w0" using write_head [OF assms(1), of 0 fin] by simp
  then obtain pad where pad: "wbits ?w1 = wbits ?w0 @ replicate pad False" "pad < 8" using writer_align_spec(3) by blast
  have w1: "writer_ok ?w1" "wbits ?w1 = bytes_bits (bw_out ?w1)" using w0 writer_align_spec by blast+
  have w2: "writes ?w1 (nat_bits 16 ?n @ nat_bits 16 (0xFFFF - ?n)) ?w2" using w1 bw_write_spec n by simp
  have "length (wbits ?w2) mod 8 = 0" unfolding w2 [THEN conjunct1] w1(2) by (simp add: mod_add_eq [symmetric])
  then have "bw_count ?w2 = 0" using w2 by (simp add: wbits_def writer_ok_def)
  note w3 = write_bytes_spec [OF this, of chunk]
  let ?body = "replicate pad False @ nat_bits 16 ?n @ nat_bits 16 (0xFFFF - ?n) @ bytes_bits chunk"
  have all: "writer_ok (write_stored_chunk chunk fin w)" "wbits (write_stored_chunk chunk fin w) = wbits w @ head_bits fin 0 @ ?body"
    using w0 pad w2 w3 by (simp_all add: write_stored_chunk_def Let_def)
  have "wbits (write_stored_chunk chunk fin w) = bytes_bits (bw_out ?w1) @ nat_bits 16 ?n @ nat_bits 16 (0xFFFF - ?n) @ bytes_bits chunk"
    using w1(2) w2 w3 by (simp add: write_stored_chunk_def Let_def)
  then have aligned: "length (wbits (write_stored_chunk chunk fin w)) mod 8 = 0" by (simp add: mod_add_eq [symmetric])
  show ?thesis
  proof (rule advances_block [OF all])
    fix r rest max_out
    assume r: "reader_ok r" "rbits r = ?body @ rest" "bytes_bits (br_data r) = wbits (write_stored_chunk chunk fin w) @ rest" "length (out @ chunk) \<le> max_out"
    have "8 * length (br_data r) = length (wbits (write_stored_chunk chunk fin w)) + length rest" using r(3) by (metis length_append length_bytes_bits)
    then have rest: "length rest mod 8 = 0" using aligned by presburger
    then have "length (rbits r) mod 8 = pad" using r(2) pad(2) by (simp add: mod_add_eq [symmetric])
    then have a: "reader_ok (reader_align r)" "br_data (reader_align r) = br_data r"
        "rbits (reader_align r) = nat_bits 16 ?n @ nat_bits 16 (0xFFFF - ?n) @ bytes_bits chunk @ rest"
      using reader_align_ok [OF r(1)] r(2) by simp_all
    obtain r1 where r1: "read_bits 16 (reader_align r) = Inr (?n, r1)" "rbits r1 = nat_bits 16 (0xFFFF - ?n) @ bytes_bits chunk @ rest" "reader_ok r1" "br_data r1 = br_data r"
      using fixed.get_word [OF _ a(1,3)] n(1) a(2) by auto
    obtain r2 where r2: "read_bits 16 r1 = Inr (0xFFFF - ?n, r2)" "rbits r2 = bytes_bits chunk @ rest" "reader_ok r2" "br_data r2 = br_data r"
      using fixed.get_word [OF _ r1(3,2)] n(3) r1(4) by auto
    obtain r3 where "take_bytes ?n r2 = Inr (chunk, r3)" "rbits r3 = rest" "reader_ok r3" "br_data r3 = br_data r"
      using take_bytes_spec [OF r2(3,2) rest] r2(4) by auto
    then show "\<exists>r1. inflate_block 0 r out max_out = Inr (out @ chunk, r1) \<and> rbits r1 = rest \<and> reader_ok r1 \<and> br_data r1 = br_data r"
      using r1(1) r2(1) r(4) n by (simp add: inflate_block_def inflate_stored_def)
  qed simp
qed

lemma write_chunks_advances: "writer_ok w \<Longrightarrow> advances w (write_chunks raw fin w) fin out (out @ raw)"
proof (induction raw fin w arbitrary: out rule: write_chunks.induct)
  case (1 raw fin w)
  show ?case
  proof (cases "length raw \<le> STORED_CHUNK")
    case False
    let ?w1 = "write_stored_chunk (take STORED_CHUNK raw) False w"
    have s: "advances w ?w1 False out (out @ take STORED_CHUNK raw)" by (rule stored_chunk_advances) (use "1.prems" in simp_all)
    then have "writer_ok ?w1" by (simp add: advances_def)
    from advances_trans [OF s "1.IH" [OF False this]] False show ?thesis by (simp add: write_chunks.simps [of raw])
  qed (use "1.prems" stored_chunk_advances in \<open>simp add: write_chunks.simps [of raw]\<close>)
qed

subsection \<open>Blocks of tokens\<close>

definition token_ok :: "LzToken \<Rightarrow> bool" where
  "token_ok t \<longleftrightarrow> (case t of LzLiteral b \<Rightarrow> True | LzMatch len distance \<Rightarrow>
     MIN_MATCH \<le> len \<and> len \<le> MAX_MATCH \<and> 1 \<le> distance \<and> distance \<le> WINDOW_SIZE)"

lemma covers_tokens_ok: "covers input a ts b \<Longrightarrow> t \<in> set ts \<Longrightarrow> token_ok t"
  by (induction input a ts b rule: covers.induct) (auto simp: token_ok_def match_ok_def)

lemma byte_less: "unat (b :: byte) < 256"
  using unsigned_less [of b, where ?'a = nat] by simp

lemma token_symbols:
  assumes "token_ok (LzMatch len distance)"
  shows "length_code len < 29" and "dist_code distance < 30"
  using length_code_ok(1) [of len] dist_code_ok(1) [of distance] assms by (auto simp: token_ok_def LENGTH_BASE_def DIST_BASE_def)

fun counted :: "nat list \<Rightarrow> nat list \<Rightarrow> LzToken \<Rightarrow> bool" where
  "counted lf df (LzLiteral b) \<longleftrightarrow> 0 < lf ! unat b"
| "counted lf df (LzMatch len distance) \<longleftrightarrow> 0 < lf ! (257 + length_code len) \<and> 0 < df ! dist_code distance"

lemma count_tokens:
  assumes "fold count_token ts (lf, df, extra) = (lf1, df1, extra1)" and "length lf = LITLEN_SYMBOLS" and "length df = DIST_SYMBOLS"
    and "\<forall>t\<in>set ts. token_ok t"
  shows "length lf1 = LITLEN_SYMBOLS \<and> length df1 = DIST_SYMBOLS \<and> (\<forall>i. lf ! i \<le> lf1 ! i) \<and> (\<forall>i. df ! i \<le> df1 ! i) \<and> (\<forall>t\<in>set ts. counted lf1 df1 t)"
  using assms
proof (induction ts arbitrary: lf df extra)
  case (Cons t ts)
  obtain lf2 df2 extra2 where c: "count_token t (lf, df, extra) = (lf2, df2, extra2)" by (metis prod_cases3)
  have up: "xs ! i \<le> xs[k := xs ! k + 1] ! i" for xs :: "nat list" and i k by (cases "k < length xs"; cases "i = k") (auto simp: list_update_beyond)
  have step: "length lf2 = LITLEN_SYMBOLS" "length df2 = DIST_SYMBOLS" "\<forall>i. lf ! i \<le> lf2 ! i" "\<forall>i. df ! i \<le> df2 ! i" "counted lf2 df2 t"
  proof -
    have "length lf2 = LITLEN_SYMBOLS \<and> length df2 = DIST_SYMBOLS \<and> (\<forall>i. lf ! i \<le> lf2 ! i) \<and> (\<forall>i. df ! i \<le> df2 ! i) \<and> counted lf2 df2 t"
    proof (cases t)
      case (LzLiteral b)
      have "unat b < length lf" using byte_less [of b] Cons.prems(2) by (simp add: LITLEN_SYMBOLS_def)
      then show ?thesis using c LzLiteral Cons.prems(2,3) up by auto
    next
      case (LzMatch len distance)
      have "257 + length_code len < length lf" "dist_code distance < length df"
        using token_symbols [of len distance] Cons.prems(2-4) LzMatch by (auto simp: LITLEN_SYMBOLS_def DIST_SYMBOLS_def)
      then show ?thesis using c LzMatch Cons.prems(2,3) up by (auto simp: Let_def)
    qed
    then show "length lf2 = LITLEN_SYMBOLS" "length df2 = DIST_SYMBOLS" "\<forall>i. lf ! i \<le> lf2 ! i" "\<forall>i. df ! i \<le> df2 ! i" "counted lf2 df2 t" by auto
  qed
  have "fold count_token ts (lf2, df2, extra2) = (lf1, df1, extra1)" using Cons.prems(1) c by simp
  from Cons.IH [OF this step(1,2)] Cons.prems(4)
  have ih: "length lf1 = LITLEN_SYMBOLS" "length df1 = DIST_SYMBOLS" "\<forall>i. lf2 ! i \<le> lf1 ! i" "\<forall>i. df2 ! i \<le> df1 ! i" "\<forall>t\<in>set ts. counted lf1 df1 t" by auto
  have "counted lf1 df1 t" using step(5) ih(3,4) by (cases t) (auto intro: less_le_trans)
  then show ?case using ih step(3,4) order.trans by fastforce
qed simp

lemma coded_trim:
  assumes "coded ls ds t" and "\<forall>x\<in>set (drop n ls). x = 0" and "\<forall>x\<in>set (drop m ds). x = 0"
  shows "coded (take n ls) (take m ds) t" and "token_bits (take n ls) (take m ds) t = token_bits ls ds t"
proof -
  have used: "i < n" if "i < length xs" "xs ! i \<noteq> 0" "\<forall>x\<in>set (drop n xs). x = 0" for i n and xs :: "nat list"
  proof (rule ccontr)
    assume "\<not> i < n"
    then have "xs ! i = drop n xs ! (i - n)" "i - n < length (drop n xs)" using that(1) by auto
    then show False using that(2,3) by (metis nth_mem)
  qed
  show "coded (take n ls) (take m ds) t" using assms used by (cases t) auto
  show "token_bits (take n ls) (take m ds) t = token_bits ls ds t"
    using assms used [of _ ls n] used [of _ ds m] by (cases t) (simp_all add: code_word_trim)
qed

subsection \<open>The fixed code\<close>

lemma below_16: "(\<forall>l \<le> 15. P l) \<longleftrightarrow> list_all P [0, 1, 2, 3, 4, 5, 6, 7, 8, 9, 10, 11, 12, 13, 14, 15]" for P :: "nat \<Rightarrow> bool"
proof -
  have "[0, 1, 2, 3, 4, 5, 6, 7, 8, 9, 10, 11, 12, 13, 14, 15] = [0..<16]" by code_simp
  then show ?thesis by (simp only: list_all_iff) auto
qed

lemma first_code_num: "first_code ls (numeral k) = 2 * (first_code ls (pred_numeral k) + cnt ls (pred_numeral k))"
  by (simp add: numeral_eq_Suc)

lemma fixed_codes: "\<exists>d. decoder_new fixed_litlen_lengths = Inr d" "\<exists>d. decoder_new (replicate 32 5) = Inr d"
proof -
  have c: "cnt fixed_litlen_lengths l = (if l = 7 then 24 else if l = 8 then 152 else if l = 9 then 112 else 0)" for l
    by (simp add: cnt_def fixed_litlen_lengths_def count_list_replicate)
  have "\<forall>len\<in>set fixed_litlen_lengths. len \<le> 15" by (simp add: fixed_litlen_lengths_def)
  then have "kraft_ok fixed_litlen_lengths \<and> first_code fixed_litlen_lengths MAX_BITS + cnt fixed_litlen_lengths MAX_BITS = 2 ^ MAX_BITS"
    unfolding kraft_ok_def MAX_BITS_def below_16 by (simp add: first_code_num c)
  then show "\<exists>d. decoder_new fixed_litlen_lengths = Inr d" using decoder_new_spec by blast
  have c: "cnt (replicate 32 5) l = (if l = 5 then 32 else 0)" for l
    by (simp add: cnt_def count_list_replicate)
  have "\<forall>len\<in>set (replicate 32 (5 :: nat)). len \<le> 15" by simp
  then have "kraft_ok (replicate 32 5) \<and> first_code (replicate 32 5) MAX_BITS + cnt (replicate 32 5) MAX_BITS = 2 ^ MAX_BITS"
    unfolding kraft_ok_def MAX_BITS_def below_16 by (simp add: first_code_num c)
  then show "\<exists>d. decoder_new (replicate 32 5) = Inr d" using decoder_new_spec by blast
qed

lemma fixed_coded: "token_ok t \<Longrightarrow> coded fixed_litlen_lengths (replicate 32 5) t"
proof (cases t)
  case (LzLiteral b)
  have "\<forall>x\<in>set fixed_litlen_lengths. x \<noteq> 0" "length fixed_litlen_lengths = 288" by (auto simp: fixed_litlen_lengths_def)
  then show ?thesis using byte_less [of b] LzLiteral by auto
next
  case (LzMatch len distance)
  assume "token_ok t"
  moreover have "\<forall>x\<in>set fixed_litlen_lengths. x \<noteq> 0" "length fixed_litlen_lengths = 288" by (auto simp: fixed_litlen_lengths_def)
  ultimately show ?thesis using token_symbols [of len distance] LzMatch by (auto simp: token_ok_def)
qed

subsection \<open>Whichever block is chosen\<close>

lemma take_between: "a \<le> b \<Longrightarrow> take a xs @ take (b - a) (drop a xs) = take b xs"
  using take_add [of a "b - a" xs] by simp

lemma fixed_advances:
  assumes "covers input a ts b" and "a \<le> length input" and "writer_ok w"
  shows "advances w (write_tokens ts (assign_codes fixed_litlen_lengths) (assign_codes (replicate 32 5)) (bw_write 1 2 (bw_write (of_bool fin) 1 w)))
    fin (take a input) (take b input)"
proof -
  obtain litlen dcode where d: "decoder_new fixed_litlen_lengths = Inr litlen" "decoder_new (replicate 32 5) = Inr dcode" using fixed_codes by blast
  have ts: "\<forall>t\<in>set ts. coded fixed_litlen_lengths (replicate 32 5) t" using covers_tokens_ok [OF assms(1)] fixed_coded by blast
  have eob: "END_OF_BLOCK < length fixed_litlen_lengths" "fixed_litlen_lengths ! END_OF_BLOCK \<noteq> 0"
    by (simp_all add: END_OF_BLOCK_def fixed_litlen_lengths_def nth_append)
  let ?body = "concat (map (token_bits fixed_litlen_lengths (replicate 32 5)) ts) @ code_word fixed_litlen_lengths END_OF_BLOCK"
  let ?w0 = "bw_write 1 2 (bw_write (of_bool fin) 1 w)"
  have w0: "writes w (head_bits fin 1) ?w0" by (rule write_head [OF assms(3)]) simp
  then have w1: "writes ?w0 ?body (write_tokens ts (assign_codes fixed_litlen_lengths) (assign_codes (replicate 32 5)) ?w0)"
    using write_tokens_spec [OF d ts _ eob] by blast
  have "b \<le> length input" using covers_le [OF assms(1)] assms(2) by blast
  then have len: "length (take b input) = b" by simp
  show ?thesis
  proof (rule advances_block [where kind = 1 and body = ?body])
    fix r rest max_out
    assume r: "reader_ok r" "rbits r = ?body @ rest" "length (take b input) \<le> max_out"
    then have "b \<le> max_out" unfolding len by blast
    from inflate_tokens [OF d ts r(1) _ eob assms(1) this assms(2), of rest] r(2)
    show "\<exists>r1. inflate_block 1 r (take a input) max_out = Inr (take b input, r1) \<and> rbits r1 = rest \<and> reader_ok r1 \<and> br_data r1 = br_data r"
      by (auto simp: inflate_block_def d)
  qed (use w0 w1 in simp_all)
qed

lemma dynamic_advances:
  assumes "covers input a ts b" and "a \<le> length input" and "writer_ok w" and "header_ok h"
    and "\<forall>t\<in>set ts. coded (dh_litlen_lengths h) (dh_dist_lengths h) t"
  shows "advances w (write_tokens ts (assign_codes (dh_litlen_lengths h)) (assign_codes (dh_dist_lengths h))
      (write_dynamic_header h (bw_write 2 2 (bw_write (of_bool fin) 1 w)))) fin (take a input) (take b input)"
proof -
  let ?ll = "dh_litlen_lengths h" and ?dl = "dh_dist_lengths h"
  let ?tl = "take (dh_hlit h) ?ll" and ?td = "take (dh_hdist h) ?dl"
  obtain litlen dcode where d: "decoder_new ?ll = Inr litlen" "decoder_new ?dl = Inr dcode" using assms(4) by (auto simp: header_ok_def)
  have h: "257 \<le> dh_hlit h" "length ?ll = LITLEN_SYMBOLS" "?ll ! END_OF_BLOCK \<noteq> 0"
    and z: "\<forall>x\<in>set (drop (dh_hlit h) ?ll). x = 0" "\<forall>x\<in>set (drop (dh_hdist h) ?dl). x = 0" using assms(4) by (simp_all add: header_ok_def)
  have eob: "END_OF_BLOCK < length ?ll" "END_OF_BLOCK < length ?tl" "?tl ! END_OF_BLOCK \<noteq> 0"
    using h by (simp_all add: END_OF_BLOCK_def LITLEN_SYMBOLS_def)
  have ts: "\<forall>t\<in>set ts. coded ?tl ?td t" "map (token_bits ?ll ?dl) ts = map (token_bits ?tl ?td) ts"
    using assms(5) coded_trim [OF _ z] by simp_all
  have word: "code_word ?ll END_OF_BLOCK = code_word ?tl END_OF_BLOCK" using code_word_trim [OF z(1), of END_OF_BLOCK] h(1) by (simp add: END_OF_BLOCK_def)
  let ?tokens = "concat (map (token_bits ?tl ?td) ts) @ code_word ?tl END_OF_BLOCK"
  let ?w0 = "bw_write 2 2 (bw_write (of_bool fin) 1 w)"
  let ?w1 = "write_dynamic_header h ?w0"
  have w0: "writes w (head_bits fin 2) ?w0" by (rule write_head [OF assms(3)]) simp
  then have w1: "writes ?w0 (header_bits h) ?w1" using write_dynamic_header_spec [OF assms(4)] by blast
  then have w2: "writes ?w1 ?tokens (write_tokens ts (assign_codes ?ll) (assign_codes ?dl) ?w1)"
    using write_tokens_spec [OF d assms(5) _ eob(1) h(3)] unfolding ts(2) word by blast
  have "b \<le> length input" using covers_le [OF assms(1)] assms(2) by blast
  then have len: "length (take b input) = b" by simp
  show ?thesis
  proof (rule advances_block [where kind = 2 and body = "header_bits h @ ?tokens"])
    fix r rest max_out
    assume r: "reader_ok r" "rbits r = (header_bits h @ ?tokens) @ rest" "length (take b input) \<le> max_out"
    then have "b \<le> max_out" unfolding len by blast
    from read_dynamic_codes_spec [OF assms(4) r(1), of "?tokens @ rest"] r(2) obtain l1 d1 r1 where
      r1: "read_dynamic_codes r = Inr ((l1, d1), r1)" "rbits r1 = ?tokens @ rest" "reader_ok r1" "br_data r1 = br_data r" "decoder_new ?tl = Inr l1" "decoder_new ?td = Inr d1"
      by auto
    from inflate_tokens [OF r1(5,6) ts(1) r1(3) _ eob(2,3) assms(1) \<open>b \<le> max_out\<close> assms(2), of rest] r1
    show "\<exists>r1. inflate_block 2 r (take a input) max_out = Inr (take b input, r1) \<and> rbits r1 = rest \<and> reader_ok r1 \<and> br_data r1 = br_data r"
      by (auto simp: inflate_block_def)
  qed (use w0 w1 w2 in simp_all)
qed

lemma write_block_advances:
  assumes "covers input a ts b" and "a \<le> length input" and "writer_ok w"
  shows "\<exists>w1. write_block (take (b - a) (drop a input)) ts fin w = Some w1 \<and> advances w w1 fin (take a input) (take b input)"
proof -
  obtain lf df extra where c: "fold count_token ts (replicate LITLEN_SYMBOLS 0, replicate DIST_SYMBOLS 0, 0) = (lf, df, extra)" by (metis prod_cases3)
  have ok: "\<forall>t\<in>set ts. token_ok t" using covers_tokens_ok [OF assms(1)] by blast
  from count_tokens [OF c _ _ this] have lf: "length lf = LITLEN_SYMBOLS" "length df = DIST_SYMBOLS" "\<forall>t\<in>set ts. counted lf df t" by auto
  let ?lf = "lf[END_OF_BLOCK := lf ! END_OF_BLOCK + 1]"
  have "0 < ?lf ! END_OF_BLOCK" using lf(1) by (simp add: END_OF_BLOCK_def LITLEN_SYMBOLS_def)
  from build_dynamic_header_ok [OF _ lf(2) this] lf(1) obtain h where h: "build_dynamic_header ?lf df = Some h" "header_ok h"
      "\<forall>i < LITLEN_SYMBOLS. dh_litlen_lengths h ! i = 0 \<longleftrightarrow> ?lf ! i = 0" "\<forall>i < DIST_SYMBOLS. dh_dist_lengths h ! i = 0 \<longleftrightarrow> df ! i = 0" by auto
  have len: "length (dh_litlen_lengths h) = LITLEN_SYMBOLS" "length (dh_dist_lengths h) = DIST_SYMBOLS" using h(2) by (simp_all add: header_ok_def)
  have "coded (dh_litlen_lengths h) (dh_dist_lengths h) t" if "t \<in> set ts" for t
  proof (cases t)
    case (LzLiteral x)
    then show ?thesis using lf(1,3) h(3) len byte_less [of x] that by (auto simp: LITLEN_SYMBOLS_def END_OF_BLOCK_def nth_list_update)
  next
    case (LzMatch n m)
    then have "token_ok (LzMatch n m)" "counted lf df (LzMatch n m)" using ok lf(3) that by auto
    then show ?thesis using lf(1) h(3,4) len token_symbols [of n m] LzMatch
      by (auto simp: token_ok_def LITLEN_SYMBOLS_def DIST_SYMBOLS_def END_OF_BLOCK_def nth_list_update)
  qed
  then have dyn: "\<forall>t\<in>set ts. coded (dh_litlen_lengths h) (dh_dist_lengths h) t" by blast
  have "a \<le> b" using covers_le [OF assms(1)] by blast
  then have stored: "advances w (write_stored (take (b - a) (drop a input)) fin w) fin (take a input) (take b input)"
    using write_chunks_advances [OF assms(3), of "take (b - a) (drop a input)" fin "take a input"] by (simp add: write_stored_def take_between)
  have pick: "P x \<Longrightarrow> P y \<Longrightarrow> P z \<Longrightarrow> \<exists>w1. (if A then Some x else if B then Some y else Some z) = Some w1 \<and> P w1" for P :: "BitWriter \<Rightarrow> bool" and A B x y z by simp
  show ?thesis unfolding write_block_def c Let_def prod.case h(1) Option.bind.simps
    by (rule pick [OF stored fixed_advances [OF assms] dynamic_advances [OF assms h(2) dyn]])
qed

subsection \<open>The loop of the compressor\<close>

definition next_pos :: "CompressState \<Rightarrow> nat" where
  "next_pos s = cs_pos s + (if MIN_MATCH \<le> fst (cs_current s) then fst (cs_current s) else 1)"

definition compress_inv :: "byte list \<Rightarrow> CompressState \<Rightarrow> bool" where
  "compress_inv input s \<longleftrightarrow>
     finder_ok (cs_finder s) \<and> cs_block_start s \<le> length input \<and> cs_pos s \<le> length input \<and>
     covers input (cs_block_start s) (cs_tokens s) (cs_pos s) \<and>
     (cs_pos s < length input \<and> MIN_MATCH \<le> fst (cs_current s) \<longrightarrow> match_ok input (cs_pos s) (fst (cs_current s)) (snd (cs_current s))) \<and>
     advances new_writer (cs_writer s) False [] (take (cs_block_start s) input)"

lemma take_token_ok:
  assumes "compress_inv input s" and "cs_pos s < length input" and "mf_next_insert (cs_finder s) \<le> next_pos s"
  shows "\<exists>s1. take_token input s = Some s1 \<and> compress_inv input s1 \<and> mf_next_insert (cs_finder s1) \<le> cs_pos s1"
proof -
  obtain len distance where cur: "cs_current s = (len, distance)" by (cases "cs_current s")
  define token where "token = (if MIN_MATCH \<le> len then LzMatch len distance else LzLiteral (input ! cs_pos s))"
  define f where "f = insert_through input (next_pos s) (cs_finder s)"
  have cov: "covers input (cs_block_start s) (cs_tokens s @ [token]) (next_pos s)"
    using assms(1,2) cur by (auto simp: compress_inv_def covers_append token_def next_pos_def)
  then have le: "next_pos s \<le> length input" using covers_le assms(1) by (auto simp: compress_inv_def)
  have f: "finder_ok f" "mf_next_insert f = next_pos s"
    using insert_through_ok [of "cs_finder s" input "next_pos s"] assms(1,3) by (auto simp: compress_inv_def f_def)
  obtain cur1 where cur1: "(if next_pos s < length input then longest_match f input (next_pos s) else Some (cs_current s)) = Some cur1"
      "next_pos s < length input \<and> MIN_MATCH \<le> fst cur1 \<longrightarrow> match_ok input (next_pos s) (fst cur1) (snd cur1)"
    using longest_match_ok [OF f(1), of "next_pos s" input] f(2) by (cases "next_pos s < length input") auto
  let ?s3 = "s\<lparr>cs_tokens := cs_tokens s @ [token], cs_pos := next_pos s, cs_finder := f, cs_current := cur1\<rparr>"
  have inv3: "compress_inv input ?s3" using assms(1) cov le f(1) cur1(2) by (simp add: compress_inv_def)
  have w: "writer_ok (cs_writer s)" using assms(1) by (simp add: compress_inv_def advances_def)
  have start: "cs_block_start s \<le> length input" "cs_block_start s \<le> next_pos s" using assms(1) covers_le [OF cov] by (auto simp: compress_inv_def)
  obtain w1 where w1: "write_block (take (next_pos s - cs_block_start s) (drop (cs_block_start s) input)) (cs_tokens s @ [token]) False (cs_writer s) = Some w1"
      "advances (cs_writer s) w1 False (take (cs_block_start s) input) (take (next_pos s) input)"
    using write_block_advances [OF cov start(1) w] by blast
  have "advances new_writer w1 False [] (take (next_pos s) input)"
    using advances_trans [OF _ w1(2), of new_writer "[]"] assms(1) start by (simp add: compress_inv_def)
  then have inv4: "compress_inv input (?s3\<lparr>cs_writer := w1, cs_tokens := [], cs_block_start := next_pos s\<rparr>)" using inv3 le by (simp add: compress_inv_def)
  have eq: "take_token input s = (if BLOCK_TOKENS \<le> length (cs_tokens ?s3) \<and> next_pos s < length input
      then Some (?s3\<lparr>cs_writer := w1, cs_tokens := [], cs_block_start := next_pos s\<rparr>) else Some ?s3)"
    using cur1(1) w1(1) by (auto simp: take_token_def Let_def cur token_def next_pos_def f_def)
  show ?thesis unfolding eq using inv3 inv4 f(2) by auto
qed

lemma compress_step_ok:
  assumes "compress_inv input s" and "cs_pos s < length input" and "mf_next_insert (cs_finder s) \<le> cs_pos s"
  shows "\<exists>s1. compress_step input s = Some s1 \<and> compress_inv input s1 \<and> mf_next_insert (cs_finder s1) \<le> cs_pos s1"
proof -
  obtain len distance where cur: "cs_current s = (len, distance)" by (cases "cs_current s")
  show ?thesis
  proof (cases "MIN_MATCH \<le> len \<and> len < LAZY_MATCH_LIMIT \<and> cs_pos s + 1 < length input")
    case True
    let ?f = "insert_through input (cs_pos s + 1) (cs_finder s)"
    let ?s1 = "s\<lparr>cs_finder := ?f\<rparr>"
    have f: "finder_ok ?f" "mf_next_insert ?f = cs_pos s + 1"
      using insert_through_ok [of "cs_finder s" input "cs_pos s + 1"] assms(1,3) by (auto simp: compress_inv_def)
    obtain nlen ndist where n: "longest_match ?f input (cs_pos s + 1) = Some (nlen, ndist)" "MIN_MATCH \<le> nlen \<longrightarrow> match_ok input (cs_pos s + 1) nlen ndist"
      using longest_match_ok [OF f(1), of "cs_pos s + 1" input] f(2) by auto
    have inv1: "compress_inv input ?s1" using assms(1) f(1) by (simp add: compress_inv_def)
    show ?thesis
    proof (cases "len < nlen")
      case lazy: True
      let ?s2 = "?s1\<lparr>cs_tokens := cs_tokens ?s1 @ [LzLiteral (input ! cs_pos s)], cs_pos := cs_pos s + 1, cs_current := (nlen, ndist)\<rparr>"
      have "compress_inv input ?s2" using inv1 n(2) assms(2) by (auto simp: compress_inv_def covers_append)
      moreover have "compress_step input s = Some ?s2" using True lazy n(1) by (simp add: compress_step_def cur Let_def)
      ultimately show ?thesis using f(2) by simp
    next
      case False
      then have "compress_step input s = take_token input ?s1" using True n(1) by (simp add: compress_step_def cur Let_def)
      then show ?thesis using take_token_ok [OF inv1] assms(2) f(2) True cur by (simp add: next_pos_def MIN_MATCH_def)
    qed
  next
    case False
    then have "compress_step input s = take_token input s" by (auto simp: compress_step_def cur Let_def)
    then show ?thesis using take_token_ok [OF assms(1,2)] assms(3) by (simp add: next_pos_def)
  qed
qed

lemma compress_loop_ok:
  assumes "compress_inv input s" and "mf_next_insert (cs_finder s) \<le> cs_pos s"
  shows "\<exists>s1. compress_loop input s = Some s1 \<and> compress_inv input s1 \<and> cs_pos s1 = length input"
  using assms
proof (induction input s rule: compress_loop.induct)
  case (1 input s)
  show ?case
  proof (cases "cs_pos s < length input")
    case True
    then obtain s1 where s1: "compress_step input s = Some s1" "compress_inv input s1" "mf_next_insert (cs_finder s1) \<le> cs_pos s1"
      using compress_step_ok [OF "1.prems"(1) True "1.prems"(2)] by blast
    from "1.IH" [OF True _ this(2,3)] s1(1) True show ?thesis by (simp add: compress_loop.simps [of input s])
  next
    case False
    moreover have "cs_pos s \<le> length input" using "1.prems"(1) by (simp add: compress_inv_def)
    ultimately show ?thesis using "1.prems"(1) by (simp add: compress_loop.simps [of input s])
  qed
qed

lemma compress_advances:
  "\<exists>w. compress input = Some (bw_finish w) \<and> advances new_writer w True [] input"
proof -
  obtain len distance where m: "longest_match new_finder input 0 = Some (len, distance)" "MIN_MATCH \<le> len \<longrightarrow> match_ok input 0 len distance"
    using longest_match_ok [OF new_finder_ok(1), of 0 input] new_finder_ok(2) by auto
  let ?s = "\<lparr>cs_writer = new_writer, cs_finder = new_finder, cs_tokens = [], cs_block_start = 0, cs_pos = 0, cs_current = (len, distance)\<rparr>"
  have "compress_inv input ?s" using m(2) new_finder_ok advances_refl [OF new_writer_ok(1)] by (simp add: compress_inv_def)
  then obtain s where s: "compress_loop input ?s = Some s" "compress_inv input s" "cs_pos s = length input"
    using compress_loop_ok [of input ?s] new_finder_ok(2) by auto
  have w: "writer_ok (cs_writer s)" "advances new_writer (cs_writer s) False [] (take (cs_block_start s) input)"
    "covers input (cs_block_start s) (cs_tokens s) (length input)" "cs_block_start s \<le> length input" using s(2,3) by (auto simp: compress_inv_def advances_def)
  obtain w1 where w1: "write_block (drop (cs_block_start s) input) (cs_tokens s) True (cs_writer s) = Some w1"
      "advances (cs_writer s) w1 True (take (cs_block_start s) input) input"
    using write_block_advances [OF w(3,4,1), of True] w(4) by auto
  have "advances new_writer w1 True [] input" by (rule advances_trans [OF w(2) w1(2)]) simp
  then show ?thesis using m(1) s(1) w1(1) by (auto simp: compress_def)
qed

lemma compress_inflate:
  obtains bytes where "compress input = Some bytes"
    "\<And>trailer max_out. length input \<le> max_out \<Longrightarrow> inflate (bytes @ trailer) max_out = Inr (input, length bytes)"
proof -
  obtain w where w: "compress input = Some (bw_finish w)" "advances new_writer w True [] input" using compress_advances by blast
  have ok: "writer_ok w" using w(2) by (simp add: advances_def)
  obtain pad where pad: "bytes_bits (bw_finish w) = wbits w @ replicate pad False" "pad < 8"
    using writer_align_spec(3,4) [OF ok] by (auto simp: bw_finish_def)
  have "inflate (bw_finish w @ trailer) max_out = Inr (input, length (bw_finish w))" if fits: "length input \<le> max_out" for trailer max_out
  proof -
    let ?data = "bw_finish w @ trailer"
    have "bytes_bits ?data = wbits w @ replicate pad False @ bytes_bits trailer" using pad(1) by simp
    then obtain r where r: "rbits r = replicate pad False @ bytes_bits trailer" "reader_ok r" "br_data r = ?data"
        "inflate_loop (new_reader ?data) [] max_out = Inr (input, r)"
      using advancesD [OF w(2) new_reader_ok(1) _ _ fits, of ?data] by (auto simp: new_reader_ok new_writer_ok(2))
    have "length (rbits r) mod 8 = pad" using r(1) pad(2) by simp
    then have "bytes_bits (drop (br_pos r) ?data) = bytes_bits trailer" using reader_align_ok(2,4) [OF r(2)] r(1,3) by simp
    then have "length ?data - br_pos r = length trailer" by (metis length_bytes_bits length_drop mult_cancel1 zero_neq_numeral)
    moreover have "br_pos r \<le> length ?data" using r(2,3) by (simp add: reader_ok_def)
    ultimately have "br_pos (reader_align r) = length (bw_finish w)" by (simp add: reader_align_def)
    then show ?thesis using r(4) by (simp add: inflate_def)
  qed
  then show ?thesis using that w(1) by blast
qed

text \<open>
  C37: Compressing any input returns, and inflating what it returned gives the input back under every limit that the input
  fits, whatever blocks, matches and codes the compressor chose.
\<close>

theorem deflate_roundtrip:
  "length input \<le> max_out \<Longrightarrow> \<exists>bytes. compress input = Some bytes \<and> decompress_with_limit bytes max_out = Inr input"
proof -
  assume len: "length input \<le> max_out"
  obtain bytes where b: "compress input = Some bytes"
      "\<And>trailer max_out. length input \<le> max_out \<Longrightarrow> inflate (bytes @ trailer) max_out = Inr (input, length bytes)"
    using compress_inflate by blast
  have "decompress_with_limit bytes max_out = Inr input" using b(2) [OF len, of "[]"] by (simp add: decompress_with_limit_def)
  with b(1) show ?thesis by blast
qed

theorem deflate_roundtrip_witness: "length [97, 98, 97, 98, 97, 98 :: byte] \<le> 6 \<and>
    (\<exists>bytes. compress [97, 98, 97, 98, 97, 98] = Some bytes \<and> decompress_with_limit bytes 6 = Inr [97, 98, 97, 98, 97, 98])"
  using deflate_roundtrip [of "[97, 98, 97, 98, 97, 98]" 6] by simp

end
