(* ===== verification/Framing.thy ===== *)
theory Framing
  imports DeflateProof Checksum Wire HttpMessage
begin

section \<open>Compression: gzip, zlib and the middleware\<close>

text \<open>
  \<open>rustlavel-http/src/compression/gzip.rs\<close>: the two framings of a DEFLATE stream; and \<open>compression/mod.rs\<close>: the middleware that
  compresses a response.  What the client said it accepts arrives as the encoding that was agreed on: the parsing of the
  weights of \<open>Accept-Encoding\<close>, which are \<open>f32\<close>, is left out.
\<close>

subsection \<open>gzip\<close>

definition GZIP_MAGIC :: "byte list" where "GZIP_MAGIC = [0x1f, 0x8b]"
definition CM_DEFLATE :: byte where "CM_DEFLATE = 8"
definition GZIP_HEADER_LEN :: nat where "GZIP_HEADER_LEN = 10"
definition GZIP_TRAILER_LEN :: nat where "GZIP_TRAILER_LEN = 8"
definition FHCRC :: byte where "FHCRC = 2"
definition FEXTRA :: byte where "FEXTRA = 4"
definition FNAME :: byte where "FNAME = 8"
definition FCOMMENT :: byte where "FCOMMENT = 16"
definition FLG_RESERVED :: byte where "FLG_RESERVED = 0xE0"
definition OS_UNKNOWN :: byte where "OS_UNKNOWN = 255"

text \<open>\<open>to_le_bytes\<close> and \<open>from_le_bytes\<close>.\<close>

definition le_bytes :: "nat \<Rightarrow> nat \<Rightarrow> byte list" where
  "le_bytes n x = rev (be_bytes n x)"

definition le_val :: "byte list \<Rightarrow> nat" where
  "le_val bs = be_val (rev bs)"

definition gzip_compress :: "byte list \<Rightarrow> byte list option" where
  "gzip_compress input =
     map_option (\<lambda>stream.
       GZIP_MAGIC @ [CM_DEFLATE] @ [0] @ [0, 0, 0, 0] @ [0] @ [OS_UNKNOWN] @ stream @
       le_bytes 4 (unat (crc32 input)) @ le_bytes 4 (length input)) (compress input)"

text \<open>\<open>input.get(start..stop).ok_or(Truncated)\<close>.\<close>

definition bytes_at :: "nat \<Rightarrow> nat \<Rightarrow> byte list \<Rightarrow> Failure + byte list" where
  "bytes_at start stop input =
     (if start \<le> stop \<and> stop \<le> length input then Inr (take (stop - start) (drop start input)) else Inl (Refused Truncated))"

definition skip_zero_terminated :: "byte list \<Rightarrow> nat \<Rightarrow> Failure + nat" where
  "skip_zero_terminated input pos =
     (if pos \<le> length input then
        let before = length (takeWhile (\<lambda>b. b \<noteq> 0) (drop pos input)) in
        if before < length (drop pos input) then Inr (pos + before + 1) else Inl (Refused Truncated)
      else Inl (Refused Truncated))"

definition gzip_header_len :: "byte list \<Rightarrow> Failure + nat" where
  "gzip_header_len input =
     and_then (bytes_at 0 GZIP_HEADER_LEN input) (\<lambda>start.
     if take 2 start \<noteq> GZIP_MAGIC \<or> start ! 2 \<noteq> CM_DEFLATE then Inl (Refused InvalidHeader)
     else
       let flags = start ! 3 in
       if flags AND FLG_RESERVED \<noteq> 0 then Inl (Refused InvalidHeader)
       else
         and_then
           (if flags AND FEXTRA \<noteq> 0 then
              and_then (bytes_at GZIP_HEADER_LEN (GZIP_HEADER_LEN + 2) input) (\<lambda>xlen. Inr (GZIP_HEADER_LEN + 2 + le_val xlen))
            else Inr GZIP_HEADER_LEN) (\<lambda>p1.
         and_then (if flags AND FNAME \<noteq> 0 then skip_zero_terminated input p1 else Inr p1) (\<lambda>p2.
         and_then (if flags AND FCOMMENT \<noteq> 0 then skip_zero_terminated input p2 else Inr p2) (\<lambda>p3.
         and_then
           (if flags AND FHCRC \<noteq> 0 then
              and_then (bytes_at 0 p3 input) (\<lambda>header.
              and_then (bytes_at p3 (p3 + 2) input) (\<lambda>stored.
              if unat (crc32 header) mod 0x10000 \<noteq> le_val stored then Inl (Refused ChecksumMismatch) else Inr (p3 + 2)))
            else Inr p3) (\<lambda>p4.
         if p4 > length input then Inl (Refused Truncated) else Inr p4)))))"

definition decompress_member :: "byte list \<Rightarrow> nat \<Rightarrow> Failure + (byte list \<times> nat)" where
  "decompress_member input max_out =
     and_then (gzip_header_len input) (\<lambda>header_len.
     and_then (inflate (drop header_len input) max_out) (\<lambda>(content, deflate_len).
     let trailer_start = header_len + deflate_len in
     and_then (bytes_at trailer_start (trailer_start + GZIP_TRAILER_LEN) input) (\<lambda>trailer.
     if unat (crc32 content) \<noteq> le_val (take 4 trailer) then Inl (Refused ChecksumMismatch)
     else if length content mod 2 ^ 32 \<noteq> le_val (drop 4 trailer) then Inl (Refused LengthMismatch)
     else Inr (content, trailer_start + GZIP_TRAILER_LEN))))"

lemma decompress_member_consumed: "decompress_member input max_out = Inr (content, consumed) \<Longrightarrow> 0 < consumed \<and> consumed \<le> length input"
  by (auto simp: decompress_member_def and_then_Inr_iff Let_def bytes_at_def GZIP_TRAILER_LEN_def split: if_splits)

function gzip_members :: "byte list \<Rightarrow> byte list \<Rightarrow> nat \<Rightarrow> Failure + byte list" where
  "gzip_members rest out max_out =
     (if max_out < length out then Inl IndexPanic
      else
        and_then (decompress_member rest (max_out - length out)) (\<lambda>(content, consumed).
        let out1 = out @ content; rest1 = drop consumed rest in
        if rest1 = [] then Inr out1 else gzip_members rest1 out1 max_out))"
  by pat_completeness auto
termination
  by (relation "measure (\<lambda>(rest, out, max_out). length rest)") (auto dest!: decompress_member_consumed)

declare gzip_members.simps [simp del]

definition gzip_decompress_with_limit :: "byte list \<Rightarrow> nat \<Rightarrow> Failure + byte list" where
  "gzip_decompress_with_limit input max_out = gzip_members input [] max_out"

definition gzip_decompress :: "byte list \<Rightarrow> Failure + byte list" where
  "gzip_decompress input = gzip_decompress_with_limit input DEFAULT_MAX_OUTPUT"

subsection \<open>zlib\<close>

definition ZLIB_CMF :: byte where "ZLIB_CMF = 0x78"
definition ZLIB_FLG :: byte where "ZLIB_FLG = 0x9c"
definition FDICT :: byte where "FDICT = 32"

definition zlib_compress :: "byte list \<Rightarrow> byte list option" where
  "zlib_compress input =
     map_option (\<lambda>stream. [ZLIB_CMF] @ [ZLIB_FLG] @ stream @ be_bytes 4 (unat (adler32 input))) (compress input)"

definition zlib_decompress_with_limit :: "byte list \<Rightarrow> nat \<Rightarrow> Failure + byte list" where
  "zlib_decompress_with_limit input max_out =
     and_then (bytes_at 0 2 input) (\<lambda>header.
     let cmf = header ! 0; flg = header ! 1 in
     if cmf AND 0x0F \<noteq> CM_DEFLATE \<or> drop_bit 4 cmf > 7 then Inl (Refused InvalidHeader)
     else if (unat cmf * 256 + unat flg) mod 31 \<noteq> 0 \<or> flg AND FDICT \<noteq> 0 then Inl (Refused InvalidHeader)
     else
       and_then (inflate (drop 2 input) max_out) (\<lambda>(content, deflate_len).
       let trailer_start = 2 + deflate_len in
       and_then (bytes_at trailer_start (trailer_start + 4) input) (\<lambda>trailer.
       if unat (adler32 content) \<noteq> be_val trailer then Inl (Refused ChecksumMismatch)
       else if length input > trailer_start + 4 then Inl (Refused TrailingData)
       else Inr content)))"

definition zlib_decompress :: "byte list \<Rightarrow> Failure + byte list" where
  "zlib_decompress input = zlib_decompress_with_limit input DEFAULT_MAX_OUTPUT"

subsection \<open>The middleware\<close>

datatype Encoding = Gzip | Deflate

fun token :: "Encoding \<Rightarrow> string" where
  "token Gzip = ''gzip''"
| "token Deflate = ''deflate''"

definition eq_ignore_ascii_case :: "string \<Rightarrow> string \<Rightarrow> bool" where
  "eq_ignore_ascii_case a b \<longleftrightarrow> ascii_lowercase a = ascii_lowercase b"

definition compressible_types :: "string list" where
  "compressible_types =
     [''application/json'', ''application/xml'', ''application/javascript'', ''application/x-javascript'',
      ''application/ecmascript'', ''application/x-www-form-urlencoded'', ''application/graphql'', ''application/ld+json'',
      ''application/manifest+json'', ''application/wasm'', ''image/svg+xml'', ''font/ttf'', ''font/otf'']"

definition is_compressible :: "string option \<Rightarrow> bool" where
  "is_compressible ctype =
     (case ctype of
        None \<Rightarrow> False
      | Some ct \<Rightarrow>
          let mime = ascii_lowercase (str_trim (hd (split_on CHR '';'' ct))) in
          strip_prefix ''text/'' mime \<noteq> None \<or> strip_suffix ''+json'' mime \<noteq> None \<or> strip_suffix ''+xml'' mime \<noteq> None
          \<or> mime \<in> set compressible_types)"

definition lists_token :: "string \<Rightarrow> string \<Rightarrow> bool" where
  "lists_token name val \<longleftrightarrow> (\<exists>d\<in>set (split_on CHR '','' val). eq_ignore_ascii_case (str_trim d) name)"

definition body_bytes :: "Response \<Rightarrow> byte list" where
  "body_bytes r = map of_char (body r)"

definition encode_body :: "Encoding \<Rightarrow> byte list \<Rightarrow> byte list option" where
  "encode_body e bytes = (case e of Gzip \<Rightarrow> gzip_compress bytes | Deflate \<Rightarrow> zlib_compress bytes)"

definition weaken_etag :: "Headers \<Rightarrow> Headers" where
  "weaken_etag h =
     (case headers_get ''etag'' h of
        Some etag \<Rightarrow> if strip_prefix ''W/'' etag = None then headers_set ''etag'' (''W/'' @ etag) h else h
      | None \<Rightarrow> h)"

definition vary_on_encoding :: "Headers \<Rightarrow> Headers" where
  "vary_on_encoding h =
     (let vary = (case headers_get ''vary'' h of Some v \<Rightarrow> v | None \<Rightarrow> '''') in
      if lists_token ''accept-encoding'' vary then h
      else headers_set ''vary'' (if vary = '''' then ''accept-encoding'' else vary @ '', accept-encoding'') h)"

definition encode_response :: "nat \<Rightarrow> Encoding \<Rightarrow> Response \<Rightarrow> Response option" where
  "encode_response min_size e r =
     (let no_transform = (case headers_get ''cache-control'' (headers r) of Some cc \<Rightarrow> lists_token ''no-transform'' cc | None \<Rightarrow> False) in
      if length (body r) < min_size \<or> headers_contains ''content-encoding'' (headers r) \<or> \<not> (200 \<le> status r \<and> status r < 300)
         \<or> no_transform \<or> \<not> is_compressible (content_type (headers r)) then Some r
      else
        Option.bind (encode_body e (body_bytes r)) (\<lambda>compressed.
        if length compressed \<ge> length (body r) then Some r
        else
          Some (r\<lparr>body := map (\<lambda>b. char_of (unat b)) compressed,
                   headers := vary_on_encoding (weaken_etag (headers_remove ''content-length''
                     (headers_set ''content-encoding'' (token e) (headers r))))\<rparr>)))"

definition compress_middleware :: "nat \<Rightarrow> Encoding option \<Rightarrow> ('q \<Rightarrow> Response) \<Rightarrow> 'q \<Rightarrow> Response option" where
  "compress_middleware min_size negotiated nxt request =
     (case negotiated of None \<Rightarrow> Some (nxt request) | Some e \<Rightarrow> encode_response min_size e (nxt request))"

subsection \<open>Members of a gzip file\<close>

lemma le_val_le_bytes: "le_val (le_bytes n x) = x mod 256 ^ n"
  by (simp add: le_val_def le_bytes_def be_val_be_bytes)

lemma length_le_bytes [simp]: "length (le_bytes n x) = n"
  by (simp add: le_bytes_def)

lemma unat_u32: "unat (x :: u32) mod 4294967296 = unat x"
  using unsigned_less [of x, where ?'a = nat] by simp

lemma bytes_at_middle: "bytes_at (length xs) (length xs + length ys) (xs @ ys @ zs) = Inr ys"
  by (simp add: bytes_at_def)

lemma gzip_member_read:
  assumes "gzip_compress input = Some member" and "length input \<le> max_out"
  shows "decompress_member (member @ behind) max_out = Inr (input, length member)"
proof -
  obtain stream where stream: "compress input = Some stream"
      "\<And>trailer max_out. length input \<le> max_out \<Longrightarrow> inflate (stream @ trailer) max_out = Inr (input, length stream)"
    using compress_inflate by blast
  define header where "header = [0x1f, 0x8b, 8, 0, 0, 0, 0, 0, 0, 255 :: byte]"
  define trailer where "trailer = le_bytes 4 (unat (crc32 input)) @ le_bytes 4 (length input)"
  have member: "member = header @ stream @ trailer"
    using assms(1) stream(1) by (simp add: gzip_compress_def header_def trailer_def GZIP_MAGIC_def CM_DEFLATE_def OS_UNKNOWN_def)
  have hl: "gzip_header_len (header @ xs) = Inr 10" for xs
    by (simp add: gzip_header_len_def header_def bytes_at_def GZIP_HEADER_LEN_def GZIP_MAGIC_def CM_DEFLATE_def FLG_RESERVED_def FEXTRA_def FNAME_def FCOMMENT_def FHCRC_def Let_def)
  have "length header = 10" "length trailer = 8" by (simp_all add: header_def trailer_def)
  then have at: "bytes_at (10 + length stream) (10 + length stream + GZIP_TRAILER_LEN) ((header @ stream) @ trailer @ behind) = Inr trailer"
    using bytes_at_middle [of "header @ stream" trailer behind] by (simp add: GZIP_TRAILER_LEN_def)
  have "le_val (take 4 trailer) = unat (crc32 input)" "le_val (drop 4 trailer) = length input mod 2 ^ 32"
    by (simp_all add: trailer_def le_val_le_bytes unat_u32)
  then show ?thesis
    using hl [of "stream @ trailer @ behind"] stream(2) [OF assms(2), of "trailer @ behind"] at \<open>length header = 10\<close> \<open>length trailer = 8\<close>
    by (simp add: decompress_member_def member GZIP_TRAILER_LEN_def)
qed

lemma gzip_compress_total: "\<exists>member. gzip_compress input = Some member \<and> member \<noteq> []"
proof -
  obtain stream where "compress input = Some stream" using compress_inflate by blast
  then show ?thesis by (simp add: gzip_compress_def)
qed

lemma gzip_members_read:
  assumes "xs \<noteq> []" and "map gzip_compress xs = map Some ms" and "length out + length (concat xs) \<le> max_out"
  shows "gzip_members (concat ms) out max_out = Inr (out @ concat xs)"
  using assms
proof (induction xs arbitrary: ms out)
  case (Cons x xs)
  then obtain m ms1 where ms: "ms = m # ms1" "gzip_compress x = Some m" "map gzip_compress xs = map Some ms1" by (cases ms) auto
  have read: "decompress_member (m @ concat ms1) (max_out - length out) = Inr (x, length m)"
    by (rule gzip_member_read [OF ms(2)]) (use Cons.prems(3) in simp)
  show ?case
  proof (cases "xs = []")
    case True
    then show ?thesis using read ms Cons.prems(3) by (subst gzip_members.simps) simp
  next
    case False
    then have "concat ms1 \<noteq> []" using ms(3) gzip_compress_total [of "hd xs"] by (cases xs; cases ms1) auto
    moreover have "gzip_members (concat ms1) (out @ x) max_out = Inr ((out @ x) @ concat xs)"
      by (rule Cons.IH [OF False ms(3)]) (use Cons.prems(3) in simp)
    ultimately show ?thesis using read ms Cons.prems(3) by (subst gzip_members.simps) (auto simp: Let_def)
  qed
qed simp

text \<open>
  C39: Files that were compressed one by one and put behind each other are read as one file with the contents behind each
  other, under every limit that the contents fit; a single file is the case of one member.
\<close>

theorem gzip_concatenation:
  "xs \<noteq> [] \<Longrightarrow> length (concat xs) \<le> max_out \<Longrightarrow>
     \<exists>ms. map gzip_compress xs = map Some ms \<and> gzip_decompress_with_limit (concat ms) max_out = Inr (concat xs)"
proof -
  assume xs: "xs \<noteq> []" "length (concat xs) \<le> max_out"
  have "\<exists>ms. map gzip_compress xs = map Some ms"
    using gzip_compress_total by (intro exI [of _ "map (the \<circ> gzip_compress) xs"]) (auto, metis option.sel)
  then obtain ms where ms: "map gzip_compress xs = map Some ms" by blast
  have "gzip_decompress_with_limit (concat ms) max_out = Inr (concat xs)"
    unfolding gzip_decompress_with_limit_def using gzip_members_read [OF xs(1) ms, of "[]"] xs(2) by simp
  with ms show ?thesis by blast
qed

theorem gzip_concatenation_witness:
  "\<exists>ms. map gzip_compress [[104, 105], []] = map Some ms \<and> gzip_decompress_with_limit (concat ms) 2 = Inr [104, 105]"
  using gzip_concatenation [of "[[104, 105], []]" 2] by simp

lemma safe_inflate: "safe (\<lambda>(out, n). length out \<le> max_out) (inflate input max_out)"
  unfolding inflate_def by (rule safe_and_then2 [OF safe_loop]) auto

lemma safe_bytes_at: "safe (\<lambda>bs. length bs = stop - start) (bytes_at start stop input)"
  by (auto simp: bytes_at_def min_def)

lemma safe_skip: "safe (\<lambda>_. True) (skip_zero_terminated input pos)"
  by (simp add: skip_zero_terminated_def Let_def)

lemma safe_gzip_header: "safe (\<lambda>_. True) (gzip_header_len input)"
  unfolding gzip_header_len_def Let_def
  by (intro safe_if safe_and_then [OF safe_bytes_at] safe_and_then [where P = "\<lambda>_. True"] safe_skip) auto

lemma safe_member: "safe (\<lambda>(content, n). length content \<le> max_out) (decompress_member input max_out)"
  unfolding decompress_member_def Let_def
  by (intro safe_if safe_and_then [OF safe_gzip_header] safe_and_then2 [OF safe_inflate] safe_and_then [OF safe_bytes_at]) auto

lemma safe_members: "length out \<le> max_out \<Longrightarrow> safe (\<lambda>out1. length out1 \<le> max_out) (gzip_members rest out max_out)"
proof (induction rest out max_out rule: gzip_members.induct)
  case (1 rest out max_out)
  show ?case unfolding gzip_members.simps [of rest] Let_def
    by (intro safe_if safe_and_then2 [OF safe_member]) (use 1 in auto)
qed

subsection \<open>zlib\<close>

lemma zlib_header_ok: "ZLIB_CMF AND 0x0F = CM_DEFLATE" "\<not> drop_bit 4 ZLIB_CMF > 7" "(unat ZLIB_CMF * 256 + unat ZLIB_FLG) mod 31 = 0" "ZLIB_FLG AND FDICT = 0"
  by (simp_all add: ZLIB_CMF_def ZLIB_FLG_def CM_DEFLATE_def FDICT_def)

lemma zlib_read:
  assumes "zlib_compress input = Some z" and "length input \<le> max_out"
  shows "zlib_decompress_with_limit z max_out = Inr input"
proof -
  obtain stream where stream: "compress input = Some stream"
      "\<And>trailer max_out. length input \<le> max_out \<Longrightarrow> inflate (stream @ trailer) max_out = Inr (input, length stream)"
    using compress_inflate by blast
  let ?trailer = "be_bytes 4 (unat (adler32 input))"
  have z: "z = [ZLIB_CMF, ZLIB_FLG] @ stream @ ?trailer" using assms(1) stream(1) by (simp add: zlib_compress_def)
  have at: "bytes_at (2 + length stream) (2 + length stream + 4) z = Inr ?trailer"
    using bytes_at_middle [of "[ZLIB_CMF, ZLIB_FLG] @ stream" ?trailer "[]"] by (simp add: z)
  have "bytes_at 0 2 z = Inr [ZLIB_CMF, ZLIB_FLG]" by (simp add: z bytes_at_def)
  moreover have "inflate (drop 2 z) max_out = Inr (input, length stream)" using stream(2) [OF assms(2), of ?trailer] by (simp add: z)
  moreover have "be_val ?trailer = unat (adler32 input)" by (simp add: be_val_be_bytes unat_u32)
  ultimately show ?thesis using at zlib_header_ok by (simp add: zlib_decompress_with_limit_def Let_def) (simp add: z)
qed

lemma zlib_compress_total: "\<exists>z. zlib_compress input = Some z"
proof -
  obtain stream where "compress input = Some stream" using compress_inflate by blast
  then show ?thesis by (simp add: zlib_compress_def)
qed

lemma safe_zlib: "safe (\<lambda>out. length out \<le> max_out) (zlib_decompress_with_limit input max_out)"
  unfolding zlib_decompress_with_limit_def Let_def
  by (intro safe_if safe_and_then [OF safe_bytes_at] safe_and_then2 [OF safe_inflate]) auto

text \<open>
  C38: Whatever bytes arrive as a raw stream, as gzip or as zlib, decompressing them ends with at most \<open>max_out\<close> bytes or with
  one of the errors that the decoder names: nothing is read or copied out of range, and no length is subtracted below zero.
\<close>

theorem decompressors_total:
  "(case decompress_with_limit input max_out of Inl e \<Rightarrow> \<exists>err. e = Refused err | Inr out \<Rightarrow> length out \<le> max_out) \<and>
   (case gzip_decompress_with_limit input max_out of Inl e \<Rightarrow> \<exists>err. e = Refused err | Inr out \<Rightarrow> length out \<le> max_out) \<and>
   (case zlib_decompress_with_limit input max_out of Inl e \<Rightarrow> \<exists>err. e = Refused err | Inr out \<Rightarrow> length out \<le> max_out)"
  using safe_total [OF safe_decompress] safe_total [OF safe_members [of "[]"]] safe_total [OF safe_zlib]
  by (simp add: gzip_decompress_with_limit_def)

subsection \<open>What the middleware sends\<close>

lemma headers_get_set: "headers_get name (headers_set n v h) = (if ascii_lowercase name = ascii_lowercase (sanitise n) then Some (sanitise v) else headers_get name h)"
  by (simp add: headers_get_def headers_set_def map_of_btree_insert)

lemma map_of_without: "map_of (filter (\<lambda>(k, _). k \<noteq> n) h) k = (if k = n then None else map_of h k)"
  by (induction h) auto

lemma headers_get_remove: "headers_get name (headers_remove n h) = (if ascii_lowercase name = ascii_lowercase n then None else headers_get name h)"
  by (simp add: headers_get_def headers_remove_def map_of_without)

lemma headers_contains_set: "headers_contains name (headers_set n v h) \<longleftrightarrow> ascii_lowercase name = ascii_lowercase (sanitise n) \<or> headers_contains name h"
  by (auto simp: headers_contains_def headers_set_def map_of_btree_insert)

lemma headers_contains_remove: "headers_contains name (headers_remove n h) \<longleftrightarrow> ascii_lowercase name \<noteq> ascii_lowercase n \<and> headers_contains name h"
  by (simp add: headers_contains_def headers_remove_def map_of_without)

lemma sanitise_names:
  "sanitise ''content-encoding'' = ''content-encoding''" "sanitise ''etag'' = ''etag''" "sanitise ''vary'' = ''vary''"
  "sanitise ''gzip'' = ''gzip''" "sanitise ''deflate'' = ''deflate''" "sanitise ''accept-encoding'' = ''accept-encoding''"
  "sanitise '', accept-encoding'' = '', accept-encoding''"
  by (simp_all add: control_byte_def)

declare sanitise.simps(2) [simp del]

lemma lower_names:
  "ascii_lowercase ''content-encoding'' = ''content-encoding''" "ascii_lowercase ''etag'' = ''etag''" "ascii_lowercase ''vary'' = ''vary''"
  "ascii_lowercase ''content-length'' = ''content-length''" "ascii_lowercase ''accept-encoding'' = ''accept-encoding''"
  by (simp_all add: ascii_lowercase_def lower_char_def)

lemmas header_simps = headers_get_set headers_get_remove headers_contains_set headers_contains_remove sanitise_names lower_names

lemma sanitise_append_comma: "sanitise (s @ CHR '','' # t) = sanitise s @ sanitise (CHR '','' # t)"
  by (induction s rule: sanitise.induct) (auto simp: sanitise.simps(2) control_byte_def hd_append split: if_splits)

lemma split_on_last: "\<exists>front. front \<noteq> [] \<and> split_on c (s @ c # t) = front @ split_on c t"
proof (induction s)
  case (Cons x s)
  then obtain y ys where f: "split_on c (s @ c # t) = (y # ys) @ split_on c t" by (auto simp: neq_Nil_conv)
  then show ?case by (intro exI [of _ "if x = c then [] # y # ys else (x # y) # ys"]) auto
qed (intro exI [of _ "[[]]"], simp)

lemma lists_itself: "lists_token ''accept-encoding'' ''accept-encoding''" "lists_token ''accept-encoding'' (s @ '', accept-encoding'')"
proof -
  have trim: "eq_ignore_ascii_case (str_trim '' accept-encoding'') ''accept-encoding''" by code_simp
  have "split_on CHR '','' '' accept-encoding'' = ['' accept-encoding'']" by (simp add: split_on_plain)
  moreover obtain front where "split_on CHR '','' (s @ '', accept-encoding'') = front @ split_on CHR '','' '' accept-encoding''"
    using split_on_last [of "CHR '',''" s "'' accept-encoding''"] by auto
  ultimately show "lists_token ''accept-encoding'' (s @ '', accept-encoding'')" using trim by (auto simp: lists_token_def)
  show "lists_token ''accept-encoding'' ''accept-encoding''" by code_simp
qed

lemma vary_on_encoding_get:
  "\<exists>v. headers_get ''vary'' (vary_on_encoding h) = Some v \<and> lists_token ''accept-encoding'' v"
  "ascii_lowercase name \<noteq> ''vary'' \<Longrightarrow> headers_get name (vary_on_encoding h) = headers_get name h"
  "headers_contains ''content-length'' (vary_on_encoding h) \<longleftrightarrow> headers_contains ''content-length'' h"
proof -
  have empty: "\<not> lists_token ''accept-encoding'' []" by code_simp
  show "\<exists>v. headers_get ''vary'' (vary_on_encoding h) = Some v \<and> lists_token ''accept-encoding'' v"
    using lists_itself empty by (auto simp: vary_on_encoding_def Let_def header_simps sanitise_append_comma split: option.splits)
qed (auto simp: vary_on_encoding_def Let_def header_simps)

lemma weaken_etag_get:
  "headers_get ''etag'' (weaken_etag h) = Some etag \<Longrightarrow> strip_prefix ''W/'' etag \<noteq> None"
  "ascii_lowercase name \<noteq> ''etag'' \<Longrightarrow> headers_get name (weaken_etag h) = headers_get name h"
  "headers_contains ''content-length'' (weaken_etag h) \<longleftrightarrow> headers_contains ''content-length'' h"
  by (auto simp: weaken_etag_def header_simps strip_prefix_def control_byte_def sanitise.simps(2) [of "CHR ''W''"] sanitise.simps(2) [of "CHR ''/''"] split: option.splits if_splits)

text \<open>The recipient: it undoes the encoding that the response names.\<close>

definition client_decode :: "string \<Rightarrow> byte list \<Rightarrow> nat \<Rightarrow> Failure + byte list" where
  "client_decode coding bytes max_out =
     (if coding = ''gzip'' then gzip_decompress_with_limit bytes max_out else zlib_decompress_with_limit bytes max_out)"

lemma encode_body_read:
  "\<exists>bytes. encode_body e input = Some bytes \<and> (\<forall>max_out. length input \<le> max_out \<longrightarrow> client_decode (token e) bytes max_out = Inr input)"
proof (cases e)
  case Gzip
  obtain m where m: "gzip_compress input = Some m" using gzip_compress_total by blast
  then have "map gzip_compress [input] = map Some [m]" by simp
  from gzip_members_read [OF _ this, of "[]"] m Gzip show ?thesis by (simp add: encode_body_def client_decode_def gzip_decompress_with_limit_def)
next
  case Deflate
  obtain z where "zlib_compress input = Some z" using zlib_compress_total by blast
  with zlib_read Deflate show ?thesis by (simp add: encode_body_def client_decode_def)
qed

lemma bytes_of_chars: "map of_char (map (\<lambda>b. char_of (unat b)) bytes) = (bytes :: byte list)"
proof -
  have "of_char (char_of (unat b)) = b" for b :: byte
  proof -
    have "(of_char (char_of (unat b)) :: byte) = of_nat (of_char (char_of (unat b)))" by (rule of_nat_of_char [symmetric])
    also have "\<dots> = of_nat (unat b mod 256)" by (simp only: of_char_of)
    also have "\<dots> = b" using unat_byte_less [of b] by simp
    finally show ?thesis .
  qed
  then show ?thesis by (simp add: map_idI)
qed



text \<open>A second value of the header is dropped when the first one is extended.\<close>

lemma vary_values_lost:
  "headers_get_all ''vary'' (vary_on_encoding (headers_append ''vary'' ''cookie'' (headers_set ''vary'' ''origin'' no_headers))) =
     [''origin, accept-encoding'']"
  by code_simp

end
