(* ===== verification/Spec2Isabelle.thy ===== *)
theory Spec2Isabelle
  imports Prelude Base64 Wire WsFrame WsConnection Ledger LedgerBook LedgerSteps Float64 Json JsonText JsonProof Cache Breaker Jobs Queue Checksum Url Dates HttpMessage Router Dialect SqlLex QueryBuilder QueryProof ViewLexer ViewExpr ViewParser ViewRender ViewProof DeflateBits Huffman HuffmanTree Inflate Compress CompressProof DynamicProof DeflateProof Framing
begin

text \<open>
  \<^bold>\<open>A verification of the core of Rustlavel.\<close>  Rustlavel is a web framework in the manner of Laravel: a workspace of Rust
  crates under \<open>src/framework/crates\<close>.  The theories below model the crates, or the parts of them, that hold the logic an
  application depends on: money, wire formats, queues, limits, routing, SQL text and templates.  File names in this
  description are relative to that directory.

  \<^bold>\<open>Conventions.\<close>  A Rust \<open>String\<close> or \<open>Vec<u8>\<close> is a list of 8-bit words, or a HOL \<open>string\<close> where the code only ever compares or
  joins literals; machine integers are words, or integers with the wrap or the overflow error written out; a struct is a
  record and an enum a datatype with the constructors of the source.  A \<open>Result\<close> is a sum with the error on the left, an
  \<open>Option\<close> an option, a panic a constructor of its own.  A clock, a random identifier, a hash or a file that the code reads
  is an argument.  Stateful code takes its state and returns it; where several tasks share the state, each critical
  section is one step of an inductive relation and the properties hold for every interleaving.

  \<^bold>\<open>Shared theories.\<close>  \<open>Prelude\<close> has the types, the error monad, the operations of Rust's standard library that several
  components call, their lemmas, and the locale \<open>invariant_system\<close>: an initial predicate, a step relation and an invariant
  they keep, from which the invariant holds in every reachable state; it is interpreted by the ledger, the circuit breaker
  and the queue.  \<open>Wire\<close> has big-endian integers, UTF-8 validity, and two locales for decoders that consume a growing
  buffer: \<open>stream_decoder\<close> and its extension \<open>prefix_codec\<close>, interpreted by the WebSocket frame codec.  \<open>Float64\<close> has what
  the code does with \<open>f64\<close>: conversion, division of small integers, comparison, and the reading and printing of decimals.

  \<^bold>\<open>Money.\<close>  \<open>Ledger\<close> models \<open>rustlavel-ledger/src\<close>: five tables with their unique indexes, and each public operation
  (\<open>top_up\<close>, \<open>consume\<close>, \<open>hold\<close>, \<open>capture\<close>, \<open>release\<close>, \<open>expire_lots\<close>, the audit) as the transactions it runs, with the error of
  every branch.  \<open>LedgerBook\<close> states the invariant of the books and proves that each transaction keeps it.  \<open>LedgerSteps\<close>
  interleaves the transactions of all clients and derives: the books balance in every reachable state, the public
  operations are sequences of the atomic steps, references make calls idempotent, a hold is settled once and can be
  settled, lots are drawn in order of expiry, and the audit of a single-unit book is clean.  It also shows what the sweep
  of expired lots does to a book with two units.

  \<^bold>\<open>Wire formats.\<close>  \<open>Base64\<close> (\<open>rustlavel-core/src/base64.rs\<close>) states once, in the locale \<open>base64_alphabet\<close>, what an alphabet must
  satisfy for the decoder to invert the encoder, and interprets it for both alphabets.  \<open>WsFrame\<close> and \<open>WsConnection\<close>
  (\<open>rustlavel-ws/src/frame.rs\<close>, \<open>message.rs\<close>, \<open>connection.rs\<close>) model RFC 6455 framing and the receive loop; the loop runs over a
  list of read events, and its lemmas show that fragmented messages come back whole whatever the network cuts, and that
  nothing outside the limits is delivered.  \<open>Json\<close>, \<open>JsonText\<close> and \<open>JsonProof\<close> (\<open>rustlavel-core/src/json.rs\<close>) model values,
  serializer and parser and prove the round trip, termination and the safety of the text inside HTML.  The parser's fuel
  is \<open>2 * length + 1\<close>, which is shown to be enough for every input; a number is printed with the fewest of at most 17 digits
  that read back as itself, and for numbers that are not integers the round trip has the hypothesis that 17 digits do.
  \<open>Checksum\<close> (\<open>rustlavel-http/src/compression/checksum.rs\<close>) proves the table-driven CRC-32 equal to the bit-serial register
  and bounds what it detects.  \<open>Url\<close> and \<open>Dates\<close> (\<open>rustlavel-http/src/url.rs\<close>, \<open>date.rs\<close>) model percent-encoding, path
  normalisation and the three date formats; the calendar is proved to be the Gregorian one.

  \<^bold>\<open>State shared by tasks.\<close>  \<open>Cache\<close> (\<open>rustlavel-cache/src/memory.rs\<close>, \<open>store.rs\<close>, \<open>rate_limit.rs\<close>) refines the sharded store
  to one expiring map and states the contract of a driver as the locale \<open>cache_driver\<close>, in which the rate limiter is proved
  exact; the memory store interprets it.  \<open>Breaker\<close> (\<open>rustlavel-client/src/breaker.rs\<close>) is the circuit breaker with permits
  outstanding between acquire and report.  \<open>Jobs\<close> and \<open>Queue\<close> (\<open>rustlavel-queue/src\<close>) are stored jobs and chains, the
  in-process driver, and the worker, which is proved against the locale \<open>job_driver\<close>; the worker runs over a list of turns,
  each saying what happened outside.  Conservation of jobs is an invariant of every interleaving of any number of workers.

  \<^bold>\<open>HTTP.\<close>  \<open>HttpMessage\<close> (\<open>headers.rs\<close>, \<open>status.rs\<close>, \<open>response.rs\<close> of \<open>rustlavel-http\<close>) shows that no header value can split a
  response.  \<open>Router\<close> (\<open>method.rs\<close>, \<open>router.rs\<close>, \<open>middleware.rs\<close>) models registration and dispatch and shows that the most specific
  route runs, and that the URL of a named route is matched by its pattern.

  \<^bold>\<open>SQL.\<close>  \<open>Dialect\<close> and \<open>QueryBuilder\<close> (\<open>rustlavel-db/src/dialect.rs\<close>, \<open>builder.rs\<close>) render statements for four databases.
  \<open>SqlLex\<close> is the specification: a lexer for SQL with the lexical differences of the databases as its parameter, and the
  locale \<open>sql_dialect\<close> with the laws a builder needs, interpreted four times.  \<open>QueryProof\<close> shows that every statement is
  read as the intended tokens, with each name one quoted name and each value one marker.

  \<^bold>\<open>Views.\<close>  \<open>ViewLexer\<close>, \<open>ViewExpr\<close>, \<open>ViewParser\<close>, \<open>ViewRender\<close> (\<open>rustlavel-view/src\<close>) model the template language; \<open>ViewProof\<close>
  shows that lexing and parsing return for every source, that a page without raw echoes is literal text and escaped data,
  and when rendering ends.  The fuel of an expression is \<open>8 * tokens + 8\<close> and of a block \<open>3 * tokens + 3\<close>, both proved to be
  enough; the renderer's fuel counts jumps into other templates, of which the code allows 64, so 65 is proved to be enough
  where no section yields itself, and a section that does is shown to exhaust any fuel.

  \<^bold>\<open>Compression.\<close>  \<open>rustlavel-http/src/compression/deflate.rs\<close>, \<open>gzip.rs\<close> and \<open>mod.rs\<close>.  \<open>DeflateBits\<close> models the bit reader and writer with
  their 64-bit buffers and relates both to lists of bits.  \<open>Huffman\<close> has the canonical codes: the decoder built from lengths, the
  words assigned to symbols, and the construction of lengths; the locale \<open>symbol_codec\<close> states what a writer and a reader of
  symbols promise each other, and is interpreted for numbers of fixed width and for the words of a code.  \<open>HuffmanTree\<close> shows that
  the loop that flattens the weights ends, in at most as many rounds as the weights sum up to plus one, with a complete code within
  the limit of bits.  \<open>Inflate\<close> is the inflater with every error, a panic being a value that is shown not to occur; \<open>Compress\<close> is the
  match finder, the three kinds of block and the compressor.  \<open>CompressProof\<close> (matches and tokens), \<open>DynamicProof\<close> (the header of a
  dynamic block) and \<open>DeflateProof\<close> (blocks and the loop) prove that every input is compressed and comes back.  \<open>Framing\<close> adds gzip
  with several members, zlib, and the middleware, from whose answers a client recovers the body.

  \<^bold>\<open>Not modelled.\<close>  Sockets, TLS, timers and the task runtime; the database, cache, mail, storage and search drivers, whose
  behaviour is a third-party server's; authentication, OAuth and WebAuthn, which rest on digests and signatures of
  third-party crates; the command line, the debug bar and the derive macros, which are tooling; events and logging, which
  the modelled operations emit and never read.  Roles and permissions, validation, translations, feature flags, service
  discovery, billing and the scheduler are within reach of the same methods and are left for an extension.
\<close>

end
